(* ===== verification/Prelude.thy ===== *)
theory Prelude
  imports Main "HOL-Library.Word" "HOL-Library.Multiset" "HOL-Library.Sublist"
    "HOL-Library.List_Lexorder"
begin

text \<open>
  Types and generic lemmas that every component of the development shares: bytes and
  byte strings, a left fold that stops at the first error, first-occurrence
  deduplication, and big-endian 32-bit encoding.  The collections \<open>io_simps\<close>,
  \<open>wire_simps\<close> and \<open>round_simps\<close> gather the facts the component proofs unfold with.
\<close>

unbundle bit_operations_syntax

named_theorems io_simps \<open>unfolding rules of the reader and writer primitives\<close>
named_theorems wire_simps \<open>unfolding rules of the frame layer\<close>
named_theorems round_simps \<open>unfolding rules of one want round\<close>

type_synonym byte = "8 word"
type_synonym bytes = "byte list"

section \<open>Object keys\<close>

text \<open>
  \<open>key.Key\<close> of the core library is an array of bytes: the code slices it (\<open>k[:]\<close>),
  compares it and uses it as a map key.  Its contents are only read through the
  library's own functions, which are parameters (theory \<open>Core_Lib\<close>).
\<close>

datatype key = Key (key_bytes: bytes)

instantiation key :: linorder
begin

definition less_eq_key :: "key \<Rightarrow> key \<Rightarrow> bool" where
  "less_eq_key a b \<longleftrightarrow> key_bytes a \<le> key_bytes b"

definition less_key :: "key \<Rightarrow> key \<Rightarrow> bool" where
  "less_key a b \<longleftrightarrow> key_bytes a < key_bytes b"

instance
  by standard (auto simp: less_eq_key_def less_key_def key.expand)

end

section \<open>Big-endian 32-bit integers\<close>

text \<open>\<open>binary.BigEndian.PutUint32\<close> and \<open>binary.BigEndian.Uint32\<close> of Go's library.\<close>

definition put_uint32 :: "32 word \<Rightarrow> bytes" where
  "put_uint32 w = [ucast (drop_bit 24 w), ucast (drop_bit 16 w), ucast (drop_bit 8 w), ucast w]"

definition be_uint32 :: "bytes \<Rightarrow> 32 word" where
  "be_uint32 bs = (case bs of
     [a, b, c, d] \<Rightarrow> push_bit 24 (ucast a) OR push_bit 16 (ucast b) OR push_bit 8 (ucast c) OR ucast d
   | _ \<Rightarrow> 0)"

lemma length_put_uint32 [simp]: "length (put_uint32 w) = 4"
  by (simp add: put_uint32_def)

lemma put_uint32_not_Nil [simp]: "put_uint32 w \<noteq> []"
  by (simp add: put_uint32_def)

lemma be_put_uint32 [simp]: "be_uint32 (put_uint32 w) = w"
proof (rule bit_word_eqI)
  fix n
  assume "n < LENGTH(32)"
  then consider "n < 8" | "8 \<le> n" "n < 16" | "16 \<le> n" "n < 24" | "24 \<le> n" "n < 32"
    by fastforce
  then show "bit (be_uint32 (put_uint32 w)) n = bit w n"
    by cases (auto simp: be_uint32_def put_uint32_def bit_simps)
qed

section \<open>First-occurrence deduplication\<close>

text \<open>The \<open>seen\<close> map idiom of the code, as a list function with the set of keys seen.\<close>

fun dedup_seen :: "'a set \<Rightarrow> 'a list \<Rightarrow> 'a list" where
  "dedup_seen seen [] = []"
| "dedup_seen seen (x # xs) =
     (if x \<in> seen then dedup_seen seen xs else x # dedup_seen (insert x seen) xs)"

lemma set_dedup_seen: "set (dedup_seen seen xs) = set xs - seen"
  by (induction seen xs rule: dedup_seen.induct) auto

lemma distinct_dedup_seen: "distinct (dedup_seen seen xs)"
  by (induction seen xs rule: dedup_seen.induct) (auto simp: set_dedup_seen)

lemma dedup_seen_id: "distinct xs \<Longrightarrow> set xs \<inter> seen = {} \<Longrightarrow> dedup_seen seen xs = xs"
  by (induction seen xs rule: dedup_seen.induct) auto

lemma subseq_dedup_seen: "subseq (dedup_seen seen xs) xs"
  by (induction seen xs rule: dedup_seen.induct) auto

end
