(* ===== verification/Go_Runtime.thy ===== *)
theory Go_Runtime
  imports Prelude
begin

text \<open>
  What the program uses of the Go language and its standard library: error values with
  wrapping, joining and the \<open>errors.Is\<close> / \<open>errors.As\<close> searches, the text of an
  error, byte streams read with \<open>io.ReadFull\<close>, and the \<open>io.Writer\<close> interface as a
  locale with its laws.
\<close>

section \<open>Errors\<close>

text \<open>
  The sentinels and error types the program tells apart are constructors of their own;
  \<open>LibErr\<close> is any other error value of a library, \<open>ErrorText\<close> one made by
  \<open>fmt.Errorf\<close> without \<open>%w\<close>, \<open>Wrapf pre e suf\<close> one made with \<open>%w\<close> and the
  text around it, \<open>JoinErr\<close> an \<open>errors.Join\<close>, and \<open>GoPanic\<close> a run-time panic
  (proved unreachable where the code relies on that).
\<close>

datatype goerr =
    IoEOF
  | IoUnexpectedEOF
  | ProtocolErr
  | StoreNotFound
  | RefNotFound
  | MissingObject key
  | RemoteError string string bytes
  | LibErr string
  | ErrorText string
  | Wrapf string goerr string
  | JoinErr "goerr list"
  | GoPanic string

fun errors_is :: "goerr \<Rightarrow> goerr \<Rightarrow> bool" where
  "errors_is (Wrapf pre e suf) target = errors_is e target"
| "errors_is (JoinErr es) target = list_ex (\<lambda>e. errors_is e target) es"
| "errors_is e target = (e = target)"

fun as_remote :: "goerr \<Rightarrow> (string \<times> string \<times> bytes) option" where
  "as_remote (RemoteError code txt cur) = Some (code, txt, cur)"
| "as_remote (Wrapf pre e suf) = as_remote e"
| "as_remote (JoinErr es) =
     (case filter (\<lambda>r. r \<noteq> None) (map as_remote es) of [] \<Rightarrow> None | r # _ \<Rightarrow> r)"
| "as_remote e = None"

fun as_missing :: "goerr \<Rightarrow> bool" where
  "as_missing (MissingObject k) = True"
| "as_missing (Wrapf pre e suf) = as_missing e"
| "as_missing (JoinErr es) = list_ex as_missing es"
| "as_missing e = False"

text \<open>\<open>errors.Join\<close> drops nil errors and is nil when nothing is left.\<close>

definition errors_join :: "goerr option list \<Rightarrow> goerr option" where
  "errors_join es =
     (case List.map_filter id es of [] \<Rightarrow> None | es' \<Rightarrow> Some (JoinErr es'))"

lemma errors_join_None [simp]: "errors_join es = None \<longleftrightarrow> set es \<subseteq> {None}"
  by (induction es) (auto simp: errors_join_def List.map_filter_def split: list.splits)

section \<open>Texts\<close>

text \<open>
  \<open>%d\<close> of an integer, and \<open>%q\<close> (\<open>strconv.Quote\<close>) of a string: quotes and
  backslashes escaped, control characters written as escapes, printable characters
  copied (bytes from 128 on belong to printable runes and are copied).
\<close>

fun dec_nat :: "nat \<Rightarrow> string" where
  "dec_nat n = (if n < 10 then [char_of (48 + n)] else dec_nat (n div 10) @ [char_of (48 + n mod 10)])"

declare dec_nat.simps [simp del]

definition dec_int :: "int \<Rightarrow> string" where
  "dec_int i = (if i < 0 then CHR ''-'' # dec_nat (nat (- i)) else dec_nat (nat i))"

definition hex_digit :: "nat \<Rightarrow> char" where
  "hex_digit n = (if n < 10 then char_of (48 + n) else char_of (87 + n))"

definition quote_char :: "char \<Rightarrow> string" where
  "quote_char c = (let n = (of_char c :: nat) in
     if n = 34 \<or> n = 92 then [char_of (92::nat), c]
     else if 32 \<le> n \<and> n < 127 \<or> 128 \<le> n then [c]
     else if n = 7 then [char_of (92::nat), CHR ''a'']
     else if n = 8 then [char_of (92::nat), CHR ''b'']
     else if n = 9 then [char_of (92::nat), CHR ''t'']
     else if n = 10 then [char_of (92::nat), CHR ''n'']
     else if n = 11 then [char_of (92::nat), CHR ''v'']
     else if n = 12 then [char_of (92::nat), CHR ''f'']
     else if n = 13 then [char_of (92::nat), CHR ''r'']
     else [char_of (92::nat), CHR ''x'', hex_digit (n div 16), hex_digit (n mod 16)])"

definition go_quote :: "string \<Rightarrow> string" where
  "go_quote s = char_of (34::nat) # concat (map quote_char s) @ [char_of (34::nat)]"

text \<open>The \<open>Error\<close> method; \<open>ks\<close> renders a key (\<open>key.Key.String\<close> of the core library).\<close>

fun err_text :: "(key \<Rightarrow> string) \<Rightarrow> goerr \<Rightarrow> string" where
  "err_text ks IoEOF = ''EOF''"
| "err_text ks IoUnexpectedEOF = ''unexpected EOF''"
| "err_text ks ProtocolErr = ''protocol: unexpected frame''"
| "err_text ks StoreNotFound = ''not found''"
| "err_text ks RefNotFound = ''not found''"
| "err_text ks (MissingObject k) = ''missing object '' @ ks k"
| "err_text ks (RemoteError code txt cur) = ''remote: '' @ code @ '': '' @ txt"
| "err_text ks (LibErr s) = s"
| "err_text ks (ErrorText s) = s"
| "err_text ks (Wrapf pre e suf) = pre @ err_text ks e @ suf"
| "err_text ks (JoinErr es) =
     (case map (err_text ks) es of [] \<Rightarrow> [] | t # ts \<Rightarrow> t @ concat (map (\<lambda>u. CHR 0x0A # u) ts))"
| "err_text ks (GoPanic s) = s"

section \<open>Reading a byte stream\<close>

text \<open>
  The receiving half of a stream: the bytes that will still arrive and the error every
  read reports once they are used up (\<open>io.EOF\<close> for a clean end, a transport error
  otherwise).  \<open>io.ReadFull\<close> reads exactly \<open>n\<close> bytes, or reports \<open>io.EOF\<close> if there
  was none and \<open>io.ErrUnexpectedEOF\<close> if the stream ended in between.
\<close>

record instream =
  avail :: bytes
  fin :: goerr

definition read_full :: "instream \<Rightarrow> nat \<Rightarrow> instream \<times> (goerr + bytes)" where
  "read_full s n =
     (if n \<le> length (avail s)
      then (s\<lparr>avail := drop n (avail s)\<rparr>, Inr (take n (avail s)))
      else (s\<lparr>avail := []\<rparr>,
            Inl (if avail s = [] then fin s
                 else if fin s = IoEOF then IoUnexpectedEOF else fin s)))"

lemma read_full_enough [io_simps]:
  "length b = n \<Longrightarrow> read_full \<lparr>avail = b @ r, fin = f\<rparr> n = (\<lparr>avail = r, fin = f\<rparr>, Inr b)"
  by (simp add: read_full_def)

lemma read_full_Inr:
  "read_full s n = (s', Inr b) \<Longrightarrow>
     avail s = b @ avail s' \<and> length b = n \<and> fin s' = fin s \<and> s' = s\<lparr>avail := drop n (avail s)\<rparr>"
  by (auto simp: read_full_def split: if_splits)

lemma read_full_len: "read_full s n = (s', Inr b) \<Longrightarrow> length (avail s) = n + length (avail s') \<and> fin s' = fin s"
  by (auto simp: read_full_def split: if_splits)

lemma read_full_avail_le: "read_full s n = (s', x) \<Longrightarrow> length (avail s') \<le> length (avail s)"
  by (auto simp: read_full_def split: if_splits)

lemma read_full_fin: "read_full s n = (s', x) \<Longrightarrow> fin s' = fin s"
  by (auto simp: read_full_def split: if_splits)

section \<open>Writing: the \<open>io.Writer\<close> interface\<close>

type_synonym 'w writer = "'w \<Rightarrow> bytes \<Rightarrow> 'w \<times> nat \<times> goerr option"

text \<open>
  The contract of \<open>io.Writer\<close>: a nil error means every byte of \<open>p\<close> went out, an
  error means a prefix of the reported length did.  The client functions below and the
  frame layer are proved against this interface only.
\<close>

locale io_writer =
  fixes wr :: "'w \<Rightarrow> bytes \<Rightarrow> 'w \<times> nat \<times> goerr option"
    and sent :: "'w \<Rightarrow> bytes"
  assumes write_ok: "wr w p = (w', n, None) \<Longrightarrow> n = length p \<and> sent w' = sent w @ p"
    and write_err: "wr w p = (w', n, Some e) \<Longrightarrow> n \<le> length p \<and> sent w' = sent w @ take n p"
begin

lemma write_prefix: "wr w p = (w', n, e) \<Longrightarrow> \<exists>q. sent w' = sent w @ q \<and> prefix q p"
  by (cases e) (auto dest: write_ok write_err simp: take_is_prefix)

end

text \<open>A writer that, while it is healthy, accepts every write (a connection that stays up).\<close>

locale reliable_writer = io_writer wr sent
  for wr :: "'w \<Rightarrow> bytes \<Rightarrow> 'w \<times> nat \<times> goerr option" and sent :: "'w \<Rightarrow> bytes" +
  fixes healthy :: "'w \<Rightarrow> bool"
  assumes write_healthy: "healthy w \<Longrightarrow> \<exists>w'. wr w p = (w', length p, None) \<and> healthy w'"

text \<open>
  The sending half of a stream: the bytes handed to the transport so far, how many more
  it takes before it fails (\<open>None\<close>: it never fails), and the error it then reports.
\<close>

record ostream =
  os_sent :: bytes
  os_room :: "nat option"
  os_fail :: goerr

definition os_write :: "ostream writer" where
  "os_write w p =
     (case os_room w of
        None \<Rightarrow> (w\<lparr>os_sent := os_sent w @ p\<rparr>, length p, None)
      | Some k \<Rightarrow>
          if length p \<le> k
          then (w\<lparr>os_sent := os_sent w @ p, os_room := Some (k - length p)\<rparr>, length p, None)
          else (w\<lparr>os_sent := os_sent w @ take k p, os_room := Some 0\<rparr>, k, Some (os_fail w)))"

definition os_up :: "ostream \<Rightarrow> bool" where
  "os_up w \<longleftrightarrow> os_room w = None"

interpretation os: reliable_writer os_write os_sent os_up
  by unfold_locales (auto simp: os_write_def os_up_def split: option.splits if_splits)

text \<open>
  Several writes in a row, as a library does that serializes into a writer: the first
  failing write stops it and its error is the result.
\<close>

fun run_writes :: "'w writer \<Rightarrow> 'w \<Rightarrow> bytes list \<Rightarrow> 'w \<times> goerr option" where
  "run_writes wr w [] = (w, None)"
| "run_writes wr w (p # ps) =
     (case wr w p of
        (w', n, Some e) \<Rightarrow> (w', Some e)
      | (w', n, None) \<Rightarrow> run_writes wr w' ps)"

lemma run_writes_append:
  "run_writes wr w (ps @ qs) =
     (case run_writes wr w ps of
        (w', Some e) \<Rightarrow> (w', Some e)
      | (w', None) \<Rightarrow> run_writes wr w' qs)"
  by (induction wr w ps rule: run_writes.induct) (auto split: prod.splits option.splits)

context io_writer
begin

lemma run_writes_ok: "run_writes wr w ps = (w', None) \<Longrightarrow> sent w' = sent w @ concat ps"
proof (induction ps arbitrary: w)
  case (Cons p ps)
  then obtain w1 n where "wr w p = (w1, n, None)" "run_writes wr w1 ps = (w', None)"
    by (auto split: prod.splits option.splits)
  with Cons.IH write_ok show ?case by fastforce
qed simp

lemma run_writes_prefix: "run_writes wr w ps = (w', e) \<Longrightarrow> \<exists>q. sent w' = sent w @ q \<and> prefix q (concat ps)"
proof (induction ps arbitrary: w)
  case (Cons p ps)
  obtain w1 n e1 where w1: "wr w p = (w1, n, e1)" by (cases "wr w p") auto
  show ?case
  proof (cases e1)
    case None
    with Cons.prems w1 have "run_writes wr w1 ps = (w', e)" by simp
    from Cons.IH [OF this] obtain q where "sent w' = sent w1 @ q" "prefix q (concat ps)" by blast
    moreover have "sent w1 = sent w @ p" using w1 None by (simp add: write_ok)
    ultimately show ?thesis by auto
  next
    case (Some x)
    with Cons.prems w1 have "w' = w1" by simp
    with write_prefix [OF w1] show ?thesis by (auto simp: prefix_def)
  qed
qed simp

end

context reliable_writer
begin

lemma run_writes_healthy: "healthy w \<Longrightarrow> \<exists>w'. run_writes wr w ps = (w', None) \<and> healthy w'"
proof (induction ps arbitrary: w)
  case (Cons p ps)
  from write_healthy [OF Cons.prems, of p] obtain w1
    where "wr w p = (w1, length p, None)" "healthy w1" by blast
  with Cons.IH [of w1] show ?case by auto
qed simp

end

end
