(* ===== verification/Core_Lib.thy ===== *)
theory Core_Lib
  imports Go_Runtime
begin

text \<open>
  The code the repository relies on and does not contain, as parameters: the CBOR codec,
  the amber-store core packages (\<open>key\<close>, \<open>amberpack\<close>, \<open>fstree\<close>, \<open>packstore\<close>,
  \<open>refstore\<close>, \<open>reference\<close>).  Each is a record of functions that the definitions of the
  model take as an argument; nothing about them is assumed here.  What a theorem relies on is
  one of the named predicates at the end, which state documented behaviour.
  Also here: the frame payload type \<open>Msg\<close> of protocol.go, which the codec works on.
\<close>

section \<open>The frame payload (protocol.go)\<close>

text \<open>
  Slices and strings are lists: Go's nil and empty slices are both the empty list, as the
  program only ever looks at lengths and contents (and CBOR's \<open>omitempty\<close> drops both).
  \<open>Type\<close> and \<open>DataConns\<close> are Go \<open>int\<close>s that are only compared, never added up.
\<close>

record ref_info =
  riName :: string
  riKey :: bytes
  riCreatedAt :: "64 word"
  riUser :: string

record data_endpoint_rec =
  deID :: bytes
  deAddrs :: "string list"

record msg =
  mType :: int
  mName :: string
  mRoot :: bytes
  mCAS :: bool
  mExpectedOld :: bytes
  mRecord :: bytes
  mRefs :: "ref_info list"
  mKeys :: "bytes list"
  mData :: bytes
  mKey :: bytes
  mCode :: string
  mText :: string
  mCurrent :: bytes
  mToken :: bytes
  mDataConns :: int
  mDataPorts :: "16 word list"
  mDataEndpoints :: "data_endpoint_rec list"
  mNames :: "string list"

definition zero_msg :: msg where
  "zero_msg = \<lparr>mType = 0, mName = [], mRoot = [], mCAS = False, mExpectedOld = [],
     mRecord = [], mRefs = [], mKeys = [], mData = [], mKey = [], mCode = [], mText = [],
     mCurrent = [], mToken = [], mDataConns = 0, mDataPorts = [], mDataEndpoints = [],
     mNames = []\<rparr>"

section \<open>The libraries\<close>

text \<open>\<open>fxamacker/cbor\<close>: \<open>Marshal\<close> and \<open>Unmarshal\<close> of a \<open>Msg\<close>.\<close>

record wire_lib =
  marshal :: "msg \<Rightarrow> goerr + bytes"
  unmarshal :: "bytes \<Rightarrow> goerr + msg"

text \<open>An object: its key and its encoded bytes (\<open>fstree.Object\<close>, \<open>packstore.Object\<close>).\<close>

record object =
  oKey :: key
  oData :: bytes

text \<open>
  \<open>amberpack\<close>.  A writer is a state; each call tells which writes it makes on the
  underlying \<open>io.Writer\<close> and the error it returns when all of them succeed (a failing
  write's error is returned instead).  \<open>amber_read\<close> is \<open>NewReader(r).All()\<close>: from the bytes
  the reader delivers and the error that follows them (\<open>None\<close> for \<open>io.EOF\<close>), the
  objects yielded in turn, and the error yielded at the end, each with whether the reader
  had reported its end or error by then.  \<open>amber_ulen\<close> is \<open>ParseRecord\<close> reduced to the field used.
\<close>

record 'w pack_lib = wire_lib +
  aw_new :: 'w
  aw_add :: "'w \<Rightarrow> object \<Rightarrow> 'w \<times> bytes list \<times> goerr option"
  aw_add_record :: "'w \<Rightarrow> bytes \<Rightarrow> 'w \<times> bytes list \<times> goerr option"
  aw_close :: "'w \<Rightarrow> bytes list \<times> goerr option"
  amber_read :: "bytes \<Rightarrow> goerr option \<Rightarrow> (object \<times> bool) list \<times> goerr option \<times> bool"
  amber_ulen :: "bytes \<Rightarrow> goerr + nat"

text \<open>
  \<open>key\<close>, \<open>fstree\<close> and \<open>packstore\<close>; a store is a value of type \<open>'s\<close>.
  \<open>st_write\<close> is \<open>WriteParallel\<close> with \<open>Verify\<close>: from the sequence on offer, the new
  store, how many objects it took, and the error.  \<open>st_sort\<close> is \<open>SortByLocation\<close>.
\<close>

record ('w, 's) core_lib = "'w pack_lib" +
  key_parse :: "bytes \<Rightarrow> goerr + key"
  key_length :: "key \<Rightarrow> 64 word"
  key_string :: "key \<Rightarrow> string"
  child_keys :: "key \<Rightarrow> bytes \<Rightarrow> goerr + key list"
  check_complete :: "key \<Rightarrow> (key \<Rightarrow> goerr + bytes) \<Rightarrow> (key \<Rightarrow> goerr + bool) \<Rightarrow> int \<Rightarrow> goerr option"
  st_has :: "'s \<Rightarrow> key \<Rightarrow> goerr + bool"
  st_get :: "'s \<Rightarrow> key \<Rightarrow> goerr + bytes"
  st_get_record :: "'s \<Rightarrow> key \<Rightarrow> goerr + bytes"
  st_sort :: "'s \<Rightarrow> key list \<Rightarrow> key list"
  st_write :: "'s \<Rightarrow> object list \<Rightarrow> 's \<times> nat \<times> goerr option"

section \<open>Documented behaviour\<close>

text \<open>
  The codec reads back what it wrote, for the message at hand (a message with a string that
  is not valid UTF-8 would not be read back, so this is not assumed of every message).
\<close>

definition codec_ok :: "'a wire_lib_scheme \<Rightarrow> msg \<Rightarrow> bool" where
  "codec_ok lib m \<longleftrightarrow> (\<exists>p. marshal lib m = Inr p \<and> unmarshal lib p = Inr m)"

text \<open>
  The subtree below a key is complete in a store: the object is there, its child keys can be
  read, and the subtrees below them are complete.
\<close>

inductive tree_complete :: "('w, 's, 'z) core_lib_scheme \<Rightarrow> 's \<Rightarrow> key \<Rightarrow> bool"
  for lib :: "('w, 's, 'z) core_lib_scheme" and st :: 's where
  completeI: "st_get lib st k = Inr d \<Longrightarrow> child_keys lib k d = Inr ks \<Longrightarrow>
     (\<forall>c\<in>set ks. tree_complete lib st c) \<Longrightarrow> tree_complete lib st k"

inductive_cases tree_complete_cases: "tree_complete lib st k"

text \<open>\<open>CheckComplete\<close> returns nil exactly for a complete subtree.\<close>

definition check_law :: "('w, 's, 'z) core_lib_scheme \<Rightarrow> bool" where
  "check_law lib \<longleftrightarrow> (\<forall>st jobs k.
     check_complete lib k (st_get lib st) (st_has lib st) jobs = None \<longleftrightarrow> tree_complete lib st k)"

text \<open>
  \<open>WriteParallel\<close>: without an error it took every object, each can be read back, and
  nothing that was stored before has changed.
\<close>

definition write_law :: "('w, 's, 'z) core_lib_scheme \<Rightarrow> bool" where
  "write_law lib \<longleftrightarrow> (\<forall>st objs st' n.
     st_write lib st objs = (st', n, None) \<longrightarrow>
       n = length objs \<and>
       (\<forall>ob\<in>set objs. st_get lib st' (oKey ob) = Inr (oData ob)) \<and>
       (\<forall>k d. st_get lib st k = Inr d \<longrightarrow> st_get lib st' k = Inr d))"

lemma complete_mono:
  assumes "tree_complete lib st k" and "\<And>k d. st_get lib st k = Inr d \<Longrightarrow> st_get lib st' k = Inr d"
  shows "tree_complete lib st' k"
  using assms(1)
proof induction
  case (completeI k d ks)
  then have "\<forall>c\<in>set ks. tree_complete lib st' c" by simp
  with completeI.hyps(1,2) assms(2) show ?case by (auto intro: tree_complete.completeI)
qed

end
