(* ===== verification/Sample_Lib.thy ===== *)
theory Sample_Lib
  imports Core_Lib
begin

text \<open>
  A small concrete instance of the external libraries, on which the witnesses evaluate:
  a codec that numbers a given list of messages, and a store of objects whose key is the
  first byte of their data and whose remaining bytes name the children, which must have
  smaller numbers.  It shows that the documented behaviour assumed of the libraries can
  hold; no property rests on it.
\<close>

section \<open>A codec\<close>

text \<open>
  Data frames (type 7) are a zero byte and the data, want frames (type 6) with one-byte keys
  a one and the keys; any other message is encoded as a two and its number in a given list.
\<close>

fun index_of :: "'a \<Rightarrow> 'a list \<Rightarrow> nat option" where
  "index_of x [] = None"
| "index_of x (y # ys) = (if x = y then Some 0 else map_option Suc (index_of x ys))"

definition book_marshal :: "msg list \<Rightarrow> msg \<Rightarrow> goerr + bytes" where
  "book_marshal ms m =
     (if m = zero_msg\<lparr>mType := 7, mData := mData m\<rparr> then Inr (0 # mData m)
      else if m = zero_msg\<lparr>mType := 6, mKeys := mKeys m\<rparr> \<and> (\<forall>k\<in>set (mKeys m). length k = 1)
      then Inr (1 # concat (mKeys m))
      else (case index_of m ms of None \<Rightarrow> Inl (LibErr ''cbor'') | Some i \<Rightarrow> Inr [2, of_nat i]))"

definition book_unmarshal :: "msg list \<Rightarrow> bytes \<Rightarrow> goerr + msg" where
  "book_unmarshal ms bs =
     (case bs of
        [] \<Rightarrow> Inl (LibErr ''cbor'')
      | t # r \<Rightarrow>
          if t = 0 then Inr (zero_msg\<lparr>mType := 7, mData := r\<rparr>)
          else if t = 1 then Inr (zero_msg\<lparr>mType := 6, mKeys := map (\<lambda>b. [b]) r\<rparr>)
          else (case r of
                  [b] \<Rightarrow> if unat b < length ms then Inr (ms ! unat b) else Inl (LibErr ''cbor'')
                | _ \<Rightarrow> Inl (LibErr ''cbor'')))"

section \<open>Records\<close>

text \<open>A record is its length and the data; a zero byte ends the pack.\<close>

fun sample_read :: "nat \<Rightarrow> bytes \<Rightarrow> goerr option \<Rightarrow> (object \<times> bool) list \<times> goerr option \<times> bool" where
  "sample_read 0 bs t = ([], Some (LibErr ''malformed''), True)"
| "sample_read (Suc f) [] t = ([], Some (LibErr ''malformed''), True)"
| "sample_read (Suc f) (b # bs) t =
     (let n = unat b in
      if n = 0 then ([], None, False)
      else if length bs < n then ([], Some (LibErr ''malformed''), True)
      else (case sample_read f (drop n bs) t of
              (os, e, x) \<Rightarrow> ((\<lparr>oKey = Key [hd bs], oData = take n bs\<rparr>, False) # os, e, x)))"

definition sample_record :: "bytes \<Rightarrow> bytes" where
  "sample_record d = of_nat (length d) # d"

section \<open>A store\<close>

type_synonym sample_store = "(key \<times> bytes) list"

definition sample_children :: "key \<Rightarrow> bytes \<Rightarrow> goerr + key list" where
  "sample_children k d =
     (if d = [] \<or> (\<exists>c\<in>set (tl d). hd d \<le> c) \<or> k \<noteq> Key [hd d] then Inl (LibErr ''bad object'')
      else Inr (map (\<lambda>c. Key [c]) (tl d)))"

definition sample_get :: "sample_store \<Rightarrow> key \<Rightarrow> goerr + bytes" where
  "sample_get st k = (case map_of st k of None \<Rightarrow> Inl StoreNotFound | Some d \<Rightarrow> Inr d)"

definition sample_has :: "sample_store \<Rightarrow> key \<Rightarrow> goerr + bool" where
  "sample_has st k = Inr (map_of st k \<noteq> None)"

fun sample_check :: "nat \<Rightarrow> (key \<Rightarrow> goerr + bytes) \<Rightarrow> key \<Rightarrow> goerr option" where
  "sample_check 0 get k = Some (LibErr ''too deep'')"
| "sample_check (Suc f) get k =
     (case get k of
        Inl e \<Rightarrow> Some e
      | Inr d \<Rightarrow>
          (case sample_children k d of
             Inl e \<Rightarrow> Some e
           | Inr ks \<Rightarrow>
               (case filter (\<lambda>r. r \<noteq> None) (map (sample_check f get) ks) of
                  [] \<Rightarrow> None | r # _ \<Rightarrow> r)))"

lemma sample_check_numeral:
  "sample_check (numeral v) get k =
     (case get k of
        Inl e \<Rightarrow> Some e
      | Inr d \<Rightarrow>
          (case sample_children k d of
             Inl e \<Rightarrow> Some e
           | Inr ks \<Rightarrow>
               (case filter (\<lambda>r. r \<noteq> None) (map (sample_check (pred_numeral v) get) ks) of
                  [] \<Rightarrow> None | r # _ \<Rightarrow> r)))"
  by (simp add: numeral_eq_Suc)

fun sample_write :: "sample_store \<Rightarrow> object list \<Rightarrow> sample_store \<times> nat \<times> goerr option" where
  "sample_write st [] = (st, 0, None)"
| "sample_write st (ob # obs) =
     (if oData ob = [] \<or> oKey ob \<noteq> Key [hd (oData ob)]
      then (st, 1, Some (LibErr ''verification failed''))
      else (case map_of st (oKey ob) of
              Some d \<Rightarrow>
                if d = oData ob
                then (case sample_write st obs of (st', n, e) \<Rightarrow> (st', Suc n, e))
                else (st, 1, Some (LibErr ''collision''))
            | None \<Rightarrow>
                (case sample_write ((oKey ob, oData ob) # st) obs of (st', n, e) \<Rightarrow> (st', Suc n, e))))"

definition sample_lib :: "msg list \<Rightarrow> (unit, sample_store) core_lib" where
  "sample_lib ms =
     \<lparr>marshal = book_marshal ms, unmarshal = book_unmarshal ms,
      aw_new = (), aw_add = (\<lambda>w ob. (w, [sample_record (oData ob)], None)),
      aw_add_record = (\<lambda>w r. (w, [r], None)), aw_close = (\<lambda>w. ([[0]], None)),
      amber_read = (\<lambda>bs t. sample_read (Suc (length bs)) bs t),
      amber_ulen = (\<lambda>r. Inr (length r)),
      key_parse = (\<lambda>b. if length b = 1 then Inr (Key b) else Inl (LibErr ''bad key'')),
      key_length = (\<lambda>k. ucast (hd (key_bytes k))),
      key_string = (\<lambda>k. map (\<lambda>b. char_of (unat b)) (key_bytes k)),
      child_keys = sample_children,
      check_complete = (\<lambda>k get has jobs. sample_check 257 get k),
      st_has = sample_has, st_get = sample_get,
      st_get_record = (\<lambda>st k. map_sum id sample_record (sample_get st k)),
      st_sort = (\<lambda>st ks. sort ks),
      st_write = sample_write\<rparr>"

section \<open>The instance behaves as documented\<close>

lemma sample_write_ok:
  "sample_write st obs = (st', n, None) \<Longrightarrow>
     n = length obs \<and> (\<forall>ob\<in>set obs. sample_get st' (oKey ob) = Inr (oData ob)) \<and>
     (\<forall>k d. sample_get st k = Inr d \<longrightarrow> sample_get st' k = Inr d)"
proof (induction st obs arbitrary: st' n rule: sample_write.induct)
  case (1 st)
  then show ?case by simp
next
  case (2 st ob obs)
  from "2.prems" have v: "oData ob \<noteq> []" "oKey ob = Key [hd (oData ob)]"
    by (auto split: if_splits)
  show ?case
  proof (cases "map_of st (oKey ob)")
    case None
    with "2.prems" v obtain n0 where
      w: "sample_write ((oKey ob, oData ob) # st) obs = (st', n0, None)" "n = Suc n0"
      by (auto split: prod.splits)
    from "2.IH"(1) [OF _ None w(1)] v
    have ih: "n0 = length obs" "\<forall>ob\<in>set obs. sample_get st' (oKey ob) = Inr (oData ob)"
      "\<And>k d. sample_get ((oKey ob, oData ob) # st) k = Inr d \<Longrightarrow> sample_get st' k = Inr d"
      by auto
    have "sample_get st' (oKey ob) = Inr (oData ob)" by (rule ih(3)) (simp add: sample_get_def)
    moreover have "sample_get st' k = Inr d" if "sample_get st k = Inr d" for k d
      using that None by (intro ih(3)) (auto simp: sample_get_def split: option.splits)
    ultimately show ?thesis using ih w(2) by simp
  next
    case (Some d)
    with "2.prems" v have d: "d = oData ob" by (auto split: if_splits)
    with "2.prems" v Some obtain n0 where w: "sample_write st obs = (st', n0, None)" "n = Suc n0"
      by (auto split: prod.splits)
    from "2.IH"(2) [OF _ Some d w(1)] v
    have ih: "n0 = length obs" "\<forall>ob\<in>set obs. sample_get st' (oKey ob) = Inr (oData ob)"
      "\<And>k d. sample_get st k = Inr d \<Longrightarrow> sample_get st' k = Inr d"
      by auto
    have "sample_get st' (oKey ob) = Inr (oData ob)" by (rule ih(3)) (simp add: sample_get_def Some d)
    with ih w(2) show ?thesis by simp
  qed
qed

lemma sample_write_law: "write_law (sample_lib ms)"
  by (auto simp: write_law_def sample_lib_def dest: sample_write_ok)

lemma sample_check_complete:
  "sample_check f (sample_get st) k = None \<Longrightarrow> tree_complete (sample_lib ms) st k"
proof (induction f arbitrary: k)
  case (Suc f)
  then obtain d ks where d: "sample_get st k = Inr d" "sample_children k d = Inr ks"
    and "filter (\<lambda>r. r \<noteq> None) (map (sample_check f (sample_get st)) ks) = []"
    by (auto split: sum.splits list.splits dest: filter_eq_ConsD)
  then have "\<forall>c\<in>set ks. sample_check f (sample_get st) c = None" by (auto simp: filter_empty_conv)
  with Suc.IH d show ?case
    by (intro completeI) (auto simp: sample_lib_def)
qed simp

lemma complete_sample_check:
  "tree_complete (sample_lib ms) st k \<Longrightarrow> unat (hd (key_bytes k)) < f \<Longrightarrow>
     sample_check f (sample_get st) k = None"
proof (induction arbitrary: f rule: tree_complete.induct)
  case (completeI k d ks)
  then obtain g where f: "f = Suc g" by (cases f) auto
  from completeI.hyps have d: "sample_get st k = Inr d" "sample_children k d = Inr ks"
    by (simp_all add: sample_lib_def)
  then have ks: "ks = map (\<lambda>c. Key [c]) (tl d)" "k = Key [hd d]" "\<forall>c\<in>set (tl d). c < hd d"
    by (auto simp: sample_children_def split: if_splits)
  have "sample_check g (sample_get st) c = None" if c: "c \<in> set ks" for c
  proof -
    from c ks obtain x where x: "c = Key [x]" "x < hd d" by auto
    then have "unat x < g" using completeI.prems ks(2) f by (simp add: word_less_nat_alt)
    with completeI.IH c x show ?thesis by auto
  qed
  with d f show ?case by (auto split: list.splits dest: filter_eq_ConsD)
qed

lemma sample_check_law: "check_law (sample_lib ms)"
proof -
  have "unat (hd (key_bytes k)) < 257" for k
  proof -
    have "unat (hd (key_bytes k)) < 2 ^ LENGTH(8)" by (rule unsigned_less)
    then show ?thesis by simp
  qed
  then show ?thesis
    unfolding check_law_def
    using sample_check_complete complete_sample_check by (fastforce simp: sample_lib_def)
qed

lemma index_of_nth: "index_of x xs = Some i \<Longrightarrow> i < length xs \<and> xs ! i = x"
  by (induction xs arbitrary: i) (auto split: if_splits)

lemma index_of_mem: "x \<in> set xs \<Longrightarrow> \<exists>i. index_of x xs = Some i"
  by (induction xs) auto

lemma concat_singletons: "\<forall>k\<in>set ks. length k = 1 \<Longrightarrow> map (\<lambda>b. [b]) (concat ks) = ks"
proof (induction ks)
  case (Cons k ks)
  then obtain b where "k = [b]" by (auto simp: length_Suc_conv)
  with Cons show ?case by simp
qed simp

lemma sample_codec_ok: "length ms \<le> 256 \<Longrightarrow> m \<in> set ms \<Longrightarrow> codec_ok (sample_lib ms) m"
proof -
  assume l: "length ms \<le> 256" and "m \<in> set ms"
  then obtain i where i: "index_of m ms = Some i" using index_of_mem by metis
  with index_of_nth have "i < length ms" "ms ! i = m" by metis+
  moreover from this l have "unat (of_nat i :: 8 word) = i" by (simp add: unat_of_nat take_bit_nat_eq_self)
  ultimately show ?thesis
    by (auto simp: codec_ok_def sample_lib_def book_marshal_def book_unmarshal_def i concat_singletons)
qed

lemma sample_codec_data: "codec_ok (sample_lib ms) (zero_msg\<lparr>mType := 7, mData := d\<rparr>)"
  by (simp add: codec_ok_def sample_lib_def book_marshal_def book_unmarshal_def)

lemma sample_marshal_data:
  "marshal (sample_lib ms) (zero_msg\<lparr>mType := 7, mData := d\<rparr>) = Inr (0 # d)"
  by (simp add: sample_lib_def book_marshal_def)

end
