(* ===== verification/Protocol.thy ===== *)
theory Protocol
  imports Core_Lib Sample_Lib
begin

text \<open>
  protocol/protocol.go: the frame constants, \<open>WriteMsg\<close> and \<open>ReadMsg\<close> (a 4-byte
  big-endian length, then the CBOR payload), and \<open>RemoteFromMsg\<close>.
\<close>

definition MaxFrame :: nat where "MaxFrame = 16777216"
definition ChunkSize :: nat where "ChunkSize = 1048576"

definition TPush :: int where "TPush = 1"
definition TPull :: int where "TPull = 2"
definition TRefList :: int where "TRefList = 3"
definition TRef :: int where "TRef = 4"
definition TRefs :: int where "TRefs = 5"
definition TWants :: int where "TWants = 6"
definition TData :: int where "TData = 7"
definition TDataEnd :: int where "TDataEnd = 8"
definition TOK :: int where "TOK = 9"
definition TErr :: int where "TErr = 10"
definition TAttach :: int where "TAttach = 11"
definition TAccept :: int where "TAccept = 12"
definition TPin :: int where "TPin = 13"

lemmas frame_types = TPush_def TPull_def TRefList_def TRef_def TRefs_def TWants_def TData_def
  TDataEnd_def TOK_def TErr_def TAttach_def TAccept_def TPin_def

definition CodeCASMismatch :: string where "CodeCASMismatch = ''cas-mismatch''"
definition CodeUnknownRef :: string where "CodeUnknownRef = ''unknown-ref''"
definition CodeBadRequest :: string where "CodeBadRequest = ''bad-request''"
definition CodeInternal :: string where "CodeInternal = ''internal''"

section \<open>Frames\<close>

definition frame_limit_err :: "nat \<Rightarrow> goerr" where
  "frame_limit_err n =
     ErrorText (''protocol: frame of '' @ dec_nat n @ '' bytes exceeds limit '' @ dec_nat MaxFrame)"

definition write_msg :: "'a wire_lib_scheme \<Rightarrow> 'w writer \<Rightarrow> 'w \<Rightarrow> msg \<Rightarrow> 'w \<times> goerr option" where
  "write_msg lib wr w m =
     (case marshal lib m of
        Inl e \<Rightarrow> (w, Some (Wrapf ''protocol: encode frame: '' e []))
      | Inr payload \<Rightarrow>
          if MaxFrame < length payload then (w, Some (frame_limit_err (length payload)))
          else (case wr w (put_uint32 (of_nat (length payload))) of
                  (w1, _, Some e) \<Rightarrow> (w1, Some e)
                | (w1, _, None) \<Rightarrow>
                    (case wr w1 payload of (w2, _, e) \<Rightarrow> (w2, e))))"

definition read_msg :: "'a wire_lib_scheme \<Rightarrow> instream \<Rightarrow> instream \<times> (goerr + msg)" where
  "read_msg lib r =
     (case read_full r 4 of
        (r1, Inl e) \<Rightarrow>
          (r1, Inl (if errors_is e IoUnexpectedEOF then IoUnexpectedEOF else e))
      | (r1, Inr hdr) \<Rightarrow>
          (let n = unat (be_uint32 hdr) in
           if MaxFrame < n then (r1, Inl (frame_limit_err n))
           else (case read_full r1 n of
                   (r2, Inl e) \<Rightarrow> (r2, Inl (Wrapf ''protocol: short frame: '' e []))
                 | (r2, Inr payload) \<Rightarrow>
                     (case unmarshal lib payload of
                        Inl e \<Rightarrow> (r2, Inl (Wrapf ''protocol: decode frame: '' e []))
                      | Inr m \<Rightarrow> (r2, Inr m)))))"

definition remote_from_msg :: "msg \<Rightarrow> goerr" where
  "remote_from_msg m = RemoteError (mCode m) (mText m) (mCurrent m)"

section \<open>The bytes of a frame\<close>

text \<open>The frame of a message, when the codec encodes it within the limit.\<close>

definition frame_bytes :: "'a wire_lib_scheme \<Rightarrow> msg \<Rightarrow> bytes option" where
  "frame_bytes lib m =
     (case marshal lib m of
        Inl _ \<Rightarrow> None
      | Inr p \<Rightarrow> if MaxFrame < length p then None else Some (put_uint32 (of_nat (length p)) @ p))"

lemma unat_frame_len: "n \<le> MaxFrame \<Longrightarrow> unat (of_nat n :: 32 word) = n"
  by (simp add: MaxFrame_def unat_of_nat take_bit_nat_eq_self)

context io_writer
begin

lemma write_msg_ok:
  assumes "write_msg lib wr w m = (w', None)"
  shows "\<exists>b. frame_bytes lib m = Some b \<and> sent w' = sent w @ b"
  using assms unfolding write_msg_def frame_bytes_def
  by (auto split: sum.splits if_splits prod.splits option.splits dest!: write_ok)

lemma write_msg_reject:
  assumes "frame_bytes lib m = None"
  shows "fst (write_msg lib wr w m) = w \<and> snd (write_msg lib wr w m) \<noteq> None"
  using assms by (auto simp: write_msg_def frame_bytes_def split: sum.splits if_splits)

lemma write_msg_prefix:
  assumes "write_msg lib wr w m = (w', e)" and "frame_bytes lib m = Some b"
  shows "\<exists>q. sent w' = sent w @ q \<and> prefix q b"
proof -
  from assms(2) obtain p where p: "marshal lib m = Inr p" "length p \<le> MaxFrame"
    and b: "b = put_uint32 (of_nat (length p)) @ p"
    by (auto simp: frame_bytes_def split: sum.splits if_splits)
  obtain w1 n1 e1 where w1: "wr w (put_uint32 (of_nat (length p))) = (w1, n1, e1)"
    by (cases "wr w (put_uint32 (of_nat (length p)))") auto
  obtain w2 n2 e2 where w2: "wr w1 p = (w2, n2, e2)" by (cases "wr w1 p") auto
  show ?thesis
  proof (cases e1)
    case None
    then have "w' = w2" using assms(1) p w1 w2 by (simp add: write_msg_def)
    moreover have "sent w1 = sent w @ put_uint32 (of_nat (length p))"
      using w1 None by (simp add: write_ok)
    moreover obtain q where "sent w2 = sent w1 @ q" "prefix q p" using write_prefix [OF w2] by blast
    ultimately show ?thesis by (auto simp: b)
  next
    case (Some x)
    then have "w' = w1" using assms(1) p w1 by (simp add: write_msg_def)
    then show ?thesis using write_prefix [OF w1] by (auto simp: b prefix_def)
  qed
qed

end

context reliable_writer
begin

lemma write_msg_healthy:
  assumes "frame_bytes lib m = Some b" and "healthy w"
  shows "\<exists>w'. write_msg lib wr w m = (w', None) \<and> healthy w' \<and> sent w' = sent w @ b"
proof -
  from assms(1) obtain p where p: "marshal lib m = Inr p" "length p \<le> MaxFrame"
    and b: "b = put_uint32 (of_nat (length p)) @ p"
    by (auto simp: frame_bytes_def split: sum.splits if_splits)
  let ?h = "put_uint32 (of_nat (length p))"
  from write_healthy [OF assms(2), of ?h] obtain w1
    where w1: "wr w ?h = (w1, length ?h, None)" "healthy w1" by blast
  from write_healthy [OF w1(2), of p] obtain w2
    where w2: "wr w1 p = (w2, length p, None)" "healthy w2" by blast
  from write_ok [OF w1(1)] write_ok [OF w2(1)] have "sent w2 = sent w @ b" by (simp add: b)
  with p w1 w2 show ?thesis by (simp add: write_msg_def)
qed

end

section \<open>Reading frames back\<close>

lemma read_frame:
  assumes "frame_bytes lib m = Some b" and "codec_ok lib m"
  shows "read_msg lib \<lparr>avail = b @ r, fin = f\<rparr> = (\<lparr>avail = r, fin = f\<rparr>, Inr m)"
proof -
  from assms obtain p where p: "marshal lib m = Inr p" "unmarshal lib p = Inr m"
    "length p \<le> MaxFrame" and b: "b = put_uint32 (of_nat (length p)) @ p"
    by (auto simp: frame_bytes_def codec_ok_def split: sum.splits if_splits)
  then show ?thesis by (simp add: read_msg_def io_simps unat_frame_len)
qed

lemma read_msg_Inr:
  assumes "read_msg lib s = (s', Inr m)"
  shows "length (avail s') + 4 \<le> length (avail s)" and "fin s' = fin s"
  using assms unfolding read_msg_def
  by (auto simp: Let_def split: prod.splits sum.splits if_splits
      dest!: read_full_len dest: read_full_fin)

lemma read_msg_avail_le: "read_msg lib s = (s', x) \<Longrightarrow> length (avail s') \<le> length (avail s)"
  unfolding read_msg_def
  by (auto simp: Let_def split: prod.splits sum.splits if_splits
      dest!: read_full_avail_le intro: order_trans)

lemma read_msg_fin: "read_msg lib s = (s', x) \<Longrightarrow> fin s' = fin s"
  unfolding read_msg_def
  by (auto simp: Let_def split: prod.splits sum.splits if_splits dest!: read_full_fin)

text \<open>
  The interface the pack layer and the want loop use: a message has a frame, the next frame
  on a stream is read back whole and leaves the rest, and every frame read takes bytes off
  the stream (which is why loops over frames end on a stream that ends).
\<close>

locale frame_link =
  fixes frame :: "'m \<Rightarrow> bytes option"
    and recv :: "instream \<Rightarrow> instream \<times> (goerr + 'm)"
  assumes recv_frame: "frame m = Some b \<Longrightarrow>
      recv \<lparr>avail = b @ r, fin = f\<rparr> = (\<lparr>avail = r, fin = f\<rparr>, Inr m)"
    and recv_progress: "recv s = (s', Inr m) \<Longrightarrow> length (avail s') < length (avail s)"
    and recv_shrinks: "recv s = (s', x) \<Longrightarrow> length (avail s') \<le> length (avail s)"
    and recv_fin: "recv s = (s', x) \<Longrightarrow> fin s' = fin s"
begin

lemma frame_nonempty: "frame m = Some b \<Longrightarrow> b \<noteq> []"
proof
  assume f: "frame m = Some b" and "b = []"
  with recv_frame [of m "[]" "[]" IoEOF] recv_progress show False by fastforce
qed

lemma frame_not_prefix:
  assumes "frame m = Some b" and "frame m' = Some b'" and "prefix b b'"
  shows "m = m' \<and> b = b'"
proof -
  from assms(3) obtain r where r: "b' = b @ r" by (auto simp: prefix_def)
  from recv_frame [OF assms(1), of r IoEOF] recv_frame [OF assms(2), of "[]" IoEOF] r
  show ?thesis by simp
qed

end

definition good_frame :: "'a wire_lib_scheme \<Rightarrow> msg \<Rightarrow> bytes option" where
  "good_frame lib m = (if codec_ok lib m then frame_bytes lib m else None)"

interpretation wire: frame_link "good_frame lib" "read_msg lib" for lib
proof
  fix m b r f
  assume "good_frame lib m = Some b"
  then show "read_msg lib \<lparr>avail = b @ r, fin = f\<rparr> = (\<lparr>avail = r, fin = f\<rparr>, Inr m)"
    by (simp add: good_frame_def read_frame split: if_splits)
next
  fix s s' m
  assume "read_msg lib s = (s', Inr m)"
  from read_msg_Inr(1) [OF this] show "length (avail s') < length (avail s)" by simp
qed (blast dest: read_msg_avail_le read_msg_fin)+

section \<open>Properties of the frame layer\<close>

text \<open>
  Claim C14 (round trip).  When \<open>WriteMsg\<close> reports success, the bytes it put on the stream,
  followed by anything, are read back by \<open>ReadMsg\<close> as the same message, and the reader is
  left exactly at what follows.
\<close>

theorem frame_roundtrip:
  assumes "write_msg lib os_write w m = (w', None)" and "codec_ok lib m"
  shows "\<exists>b. os_sent w' = os_sent w @ b \<and>
    (\<forall>r f. read_msg lib \<lparr>avail = b @ r, fin = f\<rparr> = (\<lparr>avail = r, fin = f\<rparr>, Inr m))"
  using os.write_msg_ok [OF assms(1)] read_frame [OF _ assms(2)] by blast

definition sample_data :: msg where
  "sample_data = zero_msg\<lparr>mType := TData, mData := [1, 2, 3]\<rparr>"

definition fresh_out :: ostream where
  "fresh_out = \<lparr>os_sent = [], os_room = None, os_fail = IoEOF\<rparr>"

lemma sample_frame: "frame_bytes (sample_lib [sample_data]) sample_data = Some [0, 0, 0, 4, 0, 1, 2, 3]"
  by (simp add: frame_bytes_def sample_lib_def book_marshal_def MaxFrame_def put_uint32_def
      sample_data_def zero_msg_def TData_def)

lemma sample_data_ok: "codec_ok (sample_lib [sample_data]) sample_data"
  by (simp add: sample_codec_ok)

theorem frame_roundtrip_witness:
  "\<exists>b. os_sent (fst (write_msg (sample_lib [sample_data]) os_write fresh_out sample_data)) = os_sent fresh_out @ b \<and>
    (\<forall>r f. read_msg (sample_lib [sample_data]) \<lparr>avail = b @ r, fin = f\<rparr> =
      (\<lparr>avail = r, fin = f\<rparr>, Inr sample_data))"
proof -
  have "os_up fresh_out" by (simp add: os_up_def fresh_out_def)
  from os.write_msg_healthy [OF sample_frame this] obtain w'
    where w: "write_msg (sample_lib [sample_data]) os_write fresh_out sample_data = (w', None)" by blast
  from frame_roundtrip [OF w sample_data_ok] w show ?thesis by simp
qed

text \<open>
  Fact (truncation).  A stream that ends after \<open>k\<close> bytes of a frame makes \<open>ReadMsg\<close>
  report \<open>io.EOF\<close> when \<open>k\<close> is 0, \<open>io.ErrUnexpectedEOF\<close> inside the header, and inside the
  payload a \<open>short frame\<close> error that wraps \<open>io.ErrUnexpectedEOF\<close>; when the cut falls exactly
  between header and payload, the wrapped error is \<open>io.EOF\<close>.
\<close>

theorem truncated_frame:
  assumes "frame_bytes lib m = Some b" and "k < length b"
  shows "snd (read_msg lib \<lparr>avail = take k b, fin = IoEOF\<rparr>) = Inl
    (if k = 0 then IoEOF else if k < 4 then IoUnexpectedEOF
     else if k = 4 then Wrapf ''protocol: short frame: '' IoEOF []
     else Wrapf ''protocol: short frame: '' IoUnexpectedEOF [])"
proof -
  from assms(1) obtain p where p: "length p \<le> MaxFrame" and b: "b = put_uint32 (of_nat (length p)) @ p"
    by (auto simp: frame_bytes_def split: sum.splits if_splits)
  show ?thesis
  proof (cases "k < 4")
    case True
    then show ?thesis by (auto simp: b read_msg_def read_full_def)
  next
    case False
    then have t: "take k b = put_uint32 (of_nat (length p)) @ take (k - 4) p" by (simp add: b)
    have "k - 4 < length p" using False assms(2) by (simp add: b)
    then show ?thesis using False p unfolding t
      by (auto simp: read_msg_def io_simps unat_frame_len read_full_def)
  qed
qed

theorem truncated_frame_witness:
  "snd (read_msg (sample_lib [sample_data]) \<lparr>avail = [0, 0, 0, 4], fin = IoEOF\<rparr>) =
     Inl (Wrapf ''protocol: short frame: '' IoEOF [])"
  using truncated_frame [OF sample_frame, of 4] by simp

lemma read_full_takes: "read_full s n = (s', x) \<Longrightarrow> \<exists>c. length c \<le> n \<and> avail s = c @ avail s'"
proof (cases "n \<le> length (avail s)")
  case True
  then show "read_full s n = (s', x) \<Longrightarrow> ?thesis" by (intro exI [of _ "take n (avail s)"]) (auto simp: read_full_def)
qed (auto simp: read_full_def)

lemma read_msg_takes: "\<exists>c. length c \<le> 4 + MaxFrame \<and> avail s = c @ avail (fst (read_msg lib s))"
proof -
  obtain r1 x1 where h: "read_full s 4 = (r1, x1)" by (metis surj_pair)
  from read_full_takes [OF h] obtain c1 where c1: "length c1 \<le> 4" "avail s = c1 @ avail r1" by blast
  show ?thesis
  proof (cases "\<exists>hdr. x1 = Inr hdr \<and> unat (be_uint32 hdr) \<le> MaxFrame")
    case True
    then obtain hdr where hdr: "x1 = Inr hdr" "unat (be_uint32 hdr) \<le> MaxFrame" by blast
    obtain r2 x2 where b: "read_full r1 (unat (be_uint32 hdr)) = (r2, x2)" by (metis surj_pair)
    from read_full_takes [OF b] obtain c2 where c2: "length c2 \<le> unat (be_uint32 hdr)" "avail r1 = c2 @ avail r2" by blast
    have "fst (read_msg lib s) = r2"
      using h hdr b by (auto simp: read_msg_def Let_def split: sum.splits)
    with c1 c2 hdr(2) show ?thesis by (intro exI [of _ "c1 @ c2"]) simp
  next
    case False
    with h have "fst (read_msg lib s) = r1" by (cases x1) (auto simp: read_msg_def Let_def)
    with c1 show ?thesis by (intro exI [of _ c1]) simp
  qed
qed

text \<open>
  Claim C26 (frame limit).  A payload of any length up to \<open>MaxFrame\<close> is sent whole behind its exact
  length and read back whole; one that is longer, be it by so much that the length does not fit
  the header's 32 bits, is never sent: \<open>WriteMsg\<close> fails before it writes anything.  A header that
  announces more than \<open>MaxFrame\<close> bytes is refused as soon as it is read, and whatever arrives,
  \<open>ReadMsg\<close> takes at most a header and \<open>MaxFrame\<close> bytes off the stream.
\<close>

theorem frame_limit:
  assumes "marshal lib m = Inr p"
  shows "(if length p \<le> MaxFrame
      then (os_up w \<longrightarrow> (\<exists>w'. write_msg lib os_write w m = (w', None) \<and>
             os_sent w' = os_sent w @ put_uint32 (of_nat (length p)) @ p)) \<and>
         read_msg lib \<lparr>avail = put_uint32 (of_nat (length p)) @ p @ r, fin = f\<rparr> = (\<lparr>avail = r, fin = f\<rparr>,
           case unmarshal lib p of Inl e \<Rightarrow> Inl (Wrapf ''protocol: decode frame: '' e []) | Inr m' \<Rightarrow> Inr m')
      else \<forall>wr (u :: 'w). write_msg lib wr u m = (u, Some (frame_limit_err (length p)))) \<and>
    (MaxFrame < unat n \<longrightarrow> read_msg lib \<lparr>avail = put_uint32 n @ r, fin = f\<rparr> =
      (\<lparr>avail = r, fin = f\<rparr>, Inl (frame_limit_err (unat n)))) \<and>
    (\<exists>c. length c \<le> 4 + MaxFrame \<and> avail inp = c @ avail (fst (read_msg lib inp)))"
proof (intro conjI)
  show "\<exists>c. length c \<le> 4 + MaxFrame \<and> avail inp = c @ avail (fst (read_msg lib inp))" by (rule read_msg_takes)
  show "MaxFrame < unat n \<longrightarrow> read_msg lib \<lparr>avail = put_uint32 n @ r, fin = f\<rparr> =
      (\<lparr>avail = r, fin = f\<rparr>, Inl (frame_limit_err (unat n)))" by (simp add: read_msg_def io_simps)
  show "if length p \<le> MaxFrame
      then (os_up w \<longrightarrow> (\<exists>w'. write_msg lib os_write w m = (w', None) \<and>
             os_sent w' = os_sent w @ put_uint32 (of_nat (length p)) @ p)) \<and>
         read_msg lib \<lparr>avail = put_uint32 (of_nat (length p)) @ p @ r, fin = f\<rparr> = (\<lparr>avail = r, fin = f\<rparr>,
           case unmarshal lib p of Inl e \<Rightarrow> Inl (Wrapf ''protocol: decode frame: '' e []) | Inr m' \<Rightarrow> Inr m')
      else \<forall>wr (u :: 'w). write_msg lib wr u m = (u, Some (frame_limit_err (length p)))"
  proof (cases "length p \<le> MaxFrame")
    case True
    with assms have "frame_bytes lib m = Some (put_uint32 (of_nat (length p)) @ p)" by (simp add: frame_bytes_def)
    from os.write_msg_healthy [OF this, of w] True show ?thesis
      by (auto simp: read_msg_def io_simps unat_frame_len split: sum.split)
  next
    case False
    with assms show ?thesis by (simp add: write_msg_def)
  qed
qed

theorem frame_limit_witness:
  "write_msg ((sample_lib [])\<lparr>marshal := \<lambda>m. Inr (replicate 16777217 0)\<rparr>) os_write fresh_out zero_msg =
     (fresh_out, Some (frame_limit_err 16777217)) \<and>
   read_msg ((sample_lib [])\<lparr>marshal := \<lambda>m. Inr [7]\<rparr>) \<lparr>avail = [1, 0, 0, 1, 9], fin = IoEOF\<rparr> =
     (\<lparr>avail = [9], fin = IoEOF\<rparr>, Inl (frame_limit_err 16777217)) \<and>
   (\<exists>w'. write_msg ((sample_lib [])\<lparr>marshal := \<lambda>m. Inr [7]\<rparr>) os_write fresh_out zero_msg = (w', None) \<and> os_sent w' = [0, 0, 0, 1, 7])"
proof (intro conjI)
  have n: "MaxFrame < unat (16777217 :: 32 word)" by (simp add: MaxFrame_def)
  have h: "put_uint32 16777217 = [1, 0, 0, 1]" "put_uint32 1 = [0, 0, 0, 1]" by (simp_all add: put_uint32_def)
  have m: "marshal ((sample_lib [])\<lparr>marshal := \<lambda>m. Inr q\<rparr>) zero_msg = Inr q" for q by simp
  from frame_limit [where 'w = ostream, OF m, of "replicate 16777217 0" fresh_out "[]" IoEOF 0 "\<lparr>avail = [], fin = IoEOF\<rparr>"]
  show "write_msg ((sample_lib [])\<lparr>marshal := \<lambda>m. Inr (replicate 16777217 0)\<rparr>) os_write fresh_out zero_msg =
     (fresh_out, Some (frame_limit_err 16777217))" by (simp add: MaxFrame_def)
  show "read_msg ((sample_lib [])\<lparr>marshal := \<lambda>m. Inr [7]\<rparr>) \<lparr>avail = [1, 0, 0, 1, 9], fin = IoEOF\<rparr> =
     (\<lparr>avail = [9], fin = IoEOF\<rparr>, Inl (frame_limit_err 16777217))"
    using frame_limit [where 'w = ostream, OF m, of "[7]" fresh_out "[9]" IoEOF 16777217 "\<lparr>avail = [], fin = IoEOF\<rparr>"] n h(1)
    by simp
  from frame_limit [where 'w = ostream, OF m, of "[7]" fresh_out "[]" IoEOF 0 "\<lparr>avail = [], fin = IoEOF\<rparr>"]
  show "\<exists>w'. write_msg ((sample_lib [])\<lparr>marshal := \<lambda>m. Inr [7]\<rparr>) os_write fresh_out zero_msg = (w', None) \<and> os_sent w' = [0, 0, 0, 1, 7]"
    by (auto simp: MaxFrame_def h fresh_out_def os_up_def)
qed

end
