(* ===== verification/Pack.thy ===== *)
theory Pack
  imports Protocol
begin

text \<open>
  protocol/pack.go: the chunk writer that cuts pack bytes into \<open>TData\<close> frames of
  \<open>ChunkSize\<close> bytes, \<open>SendPack\<close> and \<open>SendPackRecords\<close>, and the pack reader that
  turns a \<open>TData\<close>...\<open>TDataEnd\<close> frame sequence back into a byte stream.  The writers are
  proved over any \<open>io.Writer\<close>; reading back what they sent gives the pack bytes.
\<close>

section \<open>The chunk writer\<close>

record 'w chunk_writer =
  cwW :: 'w
  cwBuf :: bytes

definition data_msg :: "bytes \<Rightarrow> msg" where
  "data_msg d = zero_msg\<lparr>mType := TData, mData := d\<rparr>"

definition end_msg :: msg where
  "end_msg = zero_msg\<lparr>mType := TDataEnd\<rparr>"

definition cw_flush ::
  "'a wire_lib_scheme \<Rightarrow> 'w writer \<Rightarrow> 'w chunk_writer \<Rightarrow> 'w chunk_writer \<times> goerr option" where
  "cw_flush lib wr c =
     (if cwBuf c = [] then (c, None)
      else (case write_msg lib wr (cwW c) (data_msg (cwBuf c)) of
              (w, e) \<Rightarrow> (c\<lparr>cwW := w, cwBuf := []\<rparr>, e)))"

text \<open>
  The loop of \<open>Write\<close>.  A buffer above \<open>ChunkSize\<close> would make the slice expression
  \<open>p[:take]\<close> panic; that branch is written out and never reached.
\<close>

function cw_loop ::
  "'a wire_lib_scheme \<Rightarrow> 'w writer \<Rightarrow> 'w chunk_writer \<Rightarrow> bytes \<Rightarrow> 'w chunk_writer \<times> goerr option" where
  "cw_loop lib wr c p =
     (if p = [] then (c, None)
      else if ChunkSize < length (cwBuf c) then (c, Some (GoPanic ''slice bounds out of range''))
      else
        let tk = min (ChunkSize - length (cwBuf c)) (length p);
            c1 = c\<lparr>cwBuf := cwBuf c @ take tk p\<rparr>;
            p1 = drop tk p in
        if length (cwBuf c1) = ChunkSize
        then (case cw_flush lib wr c1 of
                (c2, Some e) \<Rightarrow> (c2, Some e)
              | (c2, None) \<Rightarrow> cw_loop lib wr c2 p1)
        else cw_loop lib wr c1 p1)"
  by pat_completeness auto

lemma ChunkSize_pos: "0 < ChunkSize" and ChunkSize_not_0 [simp]: "ChunkSize \<noteq> 0"
  by (simp_all add: ChunkSize_def)

lemma cw_flush_buf: "cw_flush lib wr c = (c', e) \<Longrightarrow> cwBuf c' = []"
  by (auto simp: cw_flush_def split: if_splits prod.splits)

termination cw_loop
  by (relation "measure (\<lambda>(lib, wr, c, p).
      2 * length p + (if length (cwBuf c) = ChunkSize then 1 else 0))")
    (auto simp: min_def not_less split: if_splits
      dest!: sym [of _ "cw_flush _ _ _"] cw_flush_buf)

declare cw_loop.simps [simp del]

definition cw_write :: "'a wire_lib_scheme \<Rightarrow> 'w writer \<Rightarrow> 'w chunk_writer writer" where
  "cw_write lib wr c p =
     (case cw_loop lib wr c p of
        (c', None) \<Rightarrow> (c', length p, None)
      | (c', Some e) \<Rightarrow> (c', 0, Some e))"

definition cw_finish ::
  "'a wire_lib_scheme \<Rightarrow> 'w writer \<Rightarrow> 'w chunk_writer \<Rightarrow> 'w chunk_writer \<times> goerr option" where
  "cw_finish lib wr c =
     (case cw_flush lib wr c of
        (c1, Some e) \<Rightarrow> (c1, Some e)
      | (c1, None) \<Rightarrow>
          (case write_msg lib wr (cwW c1) end_msg of (w, e) \<Rightarrow> (c1\<lparr>cwW := w\<rparr>, e)))"

section \<open>Sending a pack\<close>

text \<open>
  The loop over the iterator of \<open>SendPack\<close> and \<open>SendPackRecords\<close>: \<open>xs\<close> is what the
  iterator would yield (an object or record, or an error), \<open>add\<close> the library's \<open>Add\<close> or
  \<open>AddRecord\<close>.  The number returned is how many items were drawn without an error.
\<close>

fun pack_loop ::
  "('p \<Rightarrow> 'x \<Rightarrow> 'p \<times> bytes list \<times> goerr option) \<Rightarrow> 'c writer \<Rightarrow> 'c \<Rightarrow> 'p \<Rightarrow> (goerr + 'x) list \<Rightarrow>
     'c \<times> 'p \<times> nat \<times> goerr option" where
  "pack_loop add cwr c pw [] = (c, pw, 0, None)"
| "pack_loop add cwr c pw (Inl e # xs) = (c, pw, 0, Some e)"
| "pack_loop add cwr c pw (Inr x # xs) =
     (case add pw x of
        (pw1, ws, e) \<Rightarrow>
          (case run_writes cwr c ws of
             (c1, Some e1) \<Rightarrow> (c1, pw1, 1, Some e1)
           | (c1, None) \<Rightarrow>
               (case e of
                  Some e2 \<Rightarrow> (c1, pw1, 1, Some e2)
                | None \<Rightarrow>
                    (case pack_loop add cwr c1 pw1 xs of
                       (c2, pw2, n, e3) \<Rightarrow> (c2, pw2, Suc n, e3)))))"

definition send_items ::
  "('p \<Rightarrow> 'x \<Rightarrow> 'p \<times> bytes list \<times> goerr option) \<Rightarrow> ('p, 'z) pack_lib_scheme \<Rightarrow> 'w writer \<Rightarrow> 'w \<Rightarrow>
     (goerr + 'x) list \<Rightarrow> 'w \<times> nat \<times> goerr option" where
  "send_items add lib wr w xs =
     (case pack_loop add (cw_write lib wr) \<lparr>cwW = w, cwBuf = []\<rparr> (aw_new lib) xs of
        (c1, pw, n, Some e) \<Rightarrow> (cwW c1, n, Some e)
      | (c1, pw, n, None) \<Rightarrow>
          (case aw_close lib pw of
             (ws, e) \<Rightarrow>
               (case run_writes (cw_write lib wr) c1 ws of
                  (c2, Some e1) \<Rightarrow> (cwW c2, n, Some e1)
                | (c2, None) \<Rightarrow>
                    (case e of
                       Some e2 \<Rightarrow> (cwW c2, n, Some e2)
                     | None \<Rightarrow>
                         (case cw_finish lib wr c2 of (c3, e3) \<Rightarrow> (cwW c3, n, e3))))))"

definition send_pack ::
  "('p, 'z) pack_lib_scheme \<Rightarrow> 'w writer \<Rightarrow> 'w \<Rightarrow> (goerr + object) list \<Rightarrow> 'w \<times> nat \<times> goerr option" where
  "send_pack lib = send_items (aw_add lib) lib"

definition send_pack_records ::
  "('p, 'z) pack_lib_scheme \<Rightarrow> 'w writer \<Rightarrow> 'w \<Rightarrow> (goerr + bytes) list \<Rightarrow> 'w \<times> nat \<times> goerr option" where
  "send_pack_records lib = send_items (aw_add_record lib) lib"

text \<open>
  What every frame of the types \<open>T\<close> preserves, sending a pack preserves: \<open>R\<close> relates a writer to
  its later states.
\<close>

locale frame_trace =
  fixes lib :: "('p, 'z) pack_lib_scheme"
    and wr :: "'w \<Rightarrow> bytes \<Rightarrow> 'w \<times> nat \<times> goerr option"
    and R :: "'w \<Rightarrow> 'w \<Rightarrow> bool"
    and T :: "int set"
  assumes R_refl: "R w w"
    and R_trans: "R w1 w2 \<Longrightarrow> R w2 w3 \<Longrightarrow> R w1 w3"
    and R_msg: "mType m \<in> T \<Longrightarrow> write_msg lib wr w m = (w', e) \<Longrightarrow> R w w'"
    and pack_types: "TData \<in> T" "TDataEnd \<in> T"
begin

lemma data_msg_R: "write_msg lib wr w (data_msg d) = (w', e) \<Longrightarrow> R w w'"
  by (rule R_msg [of "data_msg d"]) (simp_all add: data_msg_def pack_types)

lemma end_msg_R: "write_msg lib wr w end_msg = (w', e) \<Longrightarrow> R w w'"
  by (rule R_msg [of end_msg]) (simp_all add: end_msg_def pack_types)

lemma cw_flush_R: "cw_flush lib wr c = (c', e) \<Longrightarrow> R (cwW c) (cwW c')"
  by (auto simp: cw_flush_def split: if_splits prod.splits intro: R_refl dest: data_msg_R)

lemma cw_loop_R: "cw_loop l u c p = (c', e) \<Longrightarrow> l = lib \<Longrightarrow> u = wr \<Longrightarrow> R (cwW c) (cwW c')"
proof (induction l u c p rule: cw_loop.induct)
  case (1 l u c p)
  define tk where "tk = min (ChunkSize - length (cwBuf c)) (length p)"
  define c1 where "c1 = c\<lparr>cwBuf := cwBuf c @ take tk p\<rparr>"
  have c1: "cwW c1 = cwW c" by (simp add: c1_def)
  show ?case
  proof (cases "p = [] \<or> ChunkSize < length (cwBuf c)")
    case True
    with "1.prems" show ?thesis by (subst (asm) cw_loop.simps) (auto intro: R_refl split: if_splits)
  next
    case False
    then have eq: "cw_loop l u c p =
      (if length (cwBuf c1) = ChunkSize
       then (case cw_flush l u c1 of
               (c2, Some e) \<Rightarrow> (c2, Some e)
             | (c2, None) \<Rightarrow> cw_loop l u c2 (drop tk p))
       else cw_loop l u c1 (drop tk p))"
      by (subst cw_loop.simps) (simp add: tk_def c1_def Let_def)
    from False have p: "p \<noteq> []" "\<not> ChunkSize < length (cwBuf c)" by auto
    note prem = p tk_def c1_def refl
    show ?thesis
    proof (cases "length (cwBuf c1) = ChunkSize")
      case full: True
      obtain c2 e2 where fl: "cw_flush l u c1 = (c2, e2)" by (cases "cw_flush l u c1")
      have R2: "R (cwW c) (cwW c2)" using cw_flush_R [OF fl [unfolded "1.prems"(2,3)]] c1 by simp
      show ?thesis
      proof (cases e2)
        case None
        with "1.prems"(1) eq full fl have "cw_loop l u c2 (drop tk p) = (c', e)" by simp
        from "1.IH"(1) [OF prem full fl [unfolded None, symmetric] refl this "1.prems"(2,3)] R2
        show ?thesis by (rule R_trans [rotated])
      next
        case (Some x)
        with "1.prems"(1) eq full fl R2 show ?thesis by simp
      qed
    next
      case nf: False
      with "1.prems"(1) eq have "cw_loop l u c1 (drop tk p) = (c', e)" by simp
      from "1.IH"(2) [OF prem nf this "1.prems"(2,3)] c1 show ?thesis by simp
    qed
  qed
qed

lemma cw_write_R: "cw_write lib wr c p = (c', n, e) \<Longrightarrow> R (cwW c) (cwW c')"
  by (auto simp: cw_write_def split: prod.splits option.splits intro: cw_loop_R [OF _ refl refl])

lemma run_writes_R: "run_writes (cw_write lib wr) c ps = (c', e) \<Longrightarrow> R (cwW c) (cwW c')"
proof (induction ps arbitrary: c)
  case (Cons p ps)
  obtain c1 n e1 where w: "cw_write lib wr c p = (c1, n, e1)" by (metis prod_cases3)
  with Cons cw_write_R [OF w] show ?case by (cases e1) (auto intro: R_trans)
qed (simp add: R_refl)

lemma pack_loop_R: "pack_loop add (cw_write lib wr) c pw xs = (c', pw', n, e) \<Longrightarrow> R (cwW c) (cwW c')"
proof (induction xs arbitrary: c pw c' pw' n e)
  case (Cons x xs)
  show ?case
  proof (cases x)
    case (Inr y)
    obtain pw1 ws e1 where ad: "add pw y = (pw1, ws, e1)" by (metis prod_cases3)
    obtain c1 e2 where rw: "run_writes (cw_write lib wr) c ws = (c1, e2)"
      by (cases "run_writes (cw_write lib wr) c ws")
    obtain c2 pw2 m e3 where pl: "pack_loop add (cw_write lib wr) c1 pw1 xs = (c2, pw2, m, e3)"
      by (metis prod_cases4)
    from Cons.prems Inr ad rw pl run_writes_R [OF rw] Cons.IH [OF pl] show ?thesis
      by (auto split: option.splits intro: R_trans)
  qed (use Cons.prems in \<open>auto intro: R_refl\<close>)
qed (auto intro: R_refl)

lemma cw_finish_R: "cw_finish lib wr c = (c', e) \<Longrightarrow> R (cwW c) (cwW c')"
  by (auto simp: cw_finish_def split: prod.splits option.splits dest!: cw_flush_R end_msg_R intro: R_trans)

lemma send_items_R: "send_items add lib wr w xs = (w', n, e) \<Longrightarrow> R w w'"
  unfolding send_items_def
  by (auto split: prod.splits option.splits dest!: pack_loop_R run_writes_R cw_finish_R intro: R_trans)

end

text \<open>In particular what every write preserves.\<close>

locale writer_trace =
  fixes wr :: "'w \<Rightarrow> bytes \<Rightarrow> 'w \<times> nat \<times> goerr option"
    and R :: "'w \<Rightarrow> 'w \<Rightarrow> bool"
  assumes R_refl: "R w w"
    and R_trans: "R w1 w2 \<Longrightarrow> R w2 w3 \<Longrightarrow> R w1 w3"
    and R_write: "wr w p = (w', n, e) \<Longrightarrow> R w w'"
begin

lemma write_msg_R: "write_msg lib wr w m = (w', e) \<Longrightarrow> R w w'"
  unfolding write_msg_def
  by (auto split: sum.splits if_splits prod.splits option.splits intro: R_refl dest: R_write intro: R_trans)

end

sublocale writer_trace < frames: frame_trace lib wr R UNIV for lib
  by unfold_locales (auto intro: R_refl R_trans write_msg_R)

section \<open>The pack reader\<close>

record pack_reader =
  prR :: instream
  prCur :: bytes
  prDone :: bool
  prErr :: "goerr option"

definition new_pack_reader :: "instream \<Rightarrow> pack_reader" where
  "new_pack_reader r = \<lparr>prR = r, prCur = [], prDone = False, prErr = None\<rparr>"

definition pack_frame_err :: "msg \<Rightarrow> goerr" where
  "pack_frame_err m =
     Wrapf [] ProtocolErr ('': type '' @ dec_int (mType m) @ '' during pack transfer'')"

text \<open>
  The loop of \<open>Read\<close>: \<open>None\<close> when there are bytes to hand out.  Every turn that goes
  round again has read a frame, so it ends on a stream that ends.
\<close>

function pr_fill :: "'a wire_lib_scheme \<Rightarrow> pack_reader \<Rightarrow> pack_reader \<times> goerr option" where
  "pr_fill lib p =
     (if prCur p \<noteq> [] then (p, None)
      else (case prErr p of
              Some e \<Rightarrow> (p, Some e)
            | None \<Rightarrow>
                if prDone p then (p, Some IoEOF)
                else (case read_msg lib (prR p) of
                        (r, Inl e) \<Rightarrow> (p\<lparr>prR := r, prErr := Some e\<rparr>, Some e)
                      | (r, Inr m) \<Rightarrow>
                          if mType m = TData then pr_fill lib (p\<lparr>prR := r, prCur := mData m\<rparr>)
                          else if mType m = TDataEnd then pr_fill lib (p\<lparr>prR := r, prDone := True\<rparr>)
                          else if mType m = TErr
                          then (p\<lparr>prR := r, prErr := Some (remote_from_msg m)\<rparr>, Some (remote_from_msg m))
                          else (p\<lparr>prR := r, prErr := Some (pack_frame_err m)\<rparr>, Some (pack_frame_err m)))))"
  by pat_completeness auto
termination
  by (relation "measure (\<lambda>(lib, p). length (avail (prR p)))")
    (auto dest!: sym [of _ "read_msg _ _"] dest: wire.recv_progress)

declare pr_fill.simps [simp del]

definition pr_read :: "'a wire_lib_scheme \<Rightarrow> pack_reader \<Rightarrow> nat \<Rightarrow> pack_reader \<times> (goerr + bytes)" where
  "pr_read lib p n =
     (case pr_fill lib p of
        (p1, Some e) \<Rightarrow> (p1, Inl e)
      | (p1, None) \<Rightarrow> (p1\<lparr>prCur := drop n (prCur p1)\<rparr>, Inr (take n (prCur p1))))"

text \<open>
  Reading to the end with a buffer of \<open>Suc k\<close> bytes (\<open>io.ReadAll\<close>, \<open>io.Copy\<close>): the bytes
  read, and the error that ended the reading, nil for \<open>io.EOF\<close>.
\<close>

lemma pr_fill_None:
  "pr_fill lib p = (p', None) \<Longrightarrow> prCur p' \<noteq> [] \<and> (p' = p \<or> length (avail (prR p')) < length (avail (prR p)))"
proof (induction lib p rule: pr_fill.induct)
  case (1 lib p)
  show ?case
  proof (cases "prCur p = [] \<and> prErr p = None \<and> \<not> prDone p")
    case False
    with 1(3) show ?thesis by (subst (asm) pr_fill.simps) (auto split: option.splits if_splits)
  next
    case True
    obtain r x where rm: "read_msg lib (prR p) = (r, x)" by (cases "read_msg lib (prR p)")
    with 1(3) True obtain m where x: "x = Inr m"
      by (subst (asm) pr_fill.simps) (cases x; auto)
    have len: "length (avail r) < length (avail (prR p))" using rm x wire.recv_progress by blast
    from 1(3) True rm x consider
      (data) "mType m = TData" "pr_fill lib (p\<lparr>prR := r, prCur := mData m\<rparr>) = (p', None)"
      | (fin) "mType m \<noteq> TData" "mType m = TDataEnd" "pr_fill lib (p\<lparr>prR := r, prDone := True\<rparr>) = (p', None)"
      by (subst (asm) pr_fill.simps) (auto split: if_splits)
    then show ?thesis
    proof cases
      case data
      from 1(1) [OF _ _ _ rm [symmetric] x data] True len show ?thesis by auto
    next
      case fin
      from 1(2) [OF _ _ _ rm [symmetric] x fin] True len show ?thesis by auto
    qed
  qed
qed

function pr_read_all ::
  "'a wire_lib_scheme \<Rightarrow> nat \<Rightarrow> pack_reader \<Rightarrow> pack_reader \<times> bytes \<times> goerr option" where
  "pr_read_all lib k p =
     (case pr_read lib p (Suc k) of
        (p1, Inl e) \<Rightarrow> (p1, [], if e = IoEOF then None else Some e)
      | (p1, Inr b) \<Rightarrow> (case pr_read_all lib k p1 of (p2, bs, e) \<Rightarrow> (p2, b @ bs, e)))"
  by pat_completeness auto
termination
  by (relation "measures [\<lambda>(lib, k, p). length (avail (prR p)), \<lambda>(lib, k, p). length (prCur p)]")
    (auto simp: pr_read_def split: prod.splits option.splits dest!: pr_fill_None)

declare pr_read_all.simps [simp del]

section \<open>What a pack reader delivers\<close>

text \<open>
  The meaning of the frames on a stream, read one after the other: the payload bytes up to
  the first frame that is not \<open>TData\<close>, and the error that ended it (none for \<open>TDataEnd\<close>).
\<close>

function pack_spec :: "'a wire_lib_scheme \<Rightarrow> instream \<Rightarrow> instream \<times> bytes \<times> goerr option" where
  "pack_spec lib r =
     (case read_msg lib r of
        (r1, Inl e) \<Rightarrow> (r1, [], Some e)
      | (r1, Inr m) \<Rightarrow>
          if mType m = TData then (case pack_spec lib r1 of (r2, bs, e) \<Rightarrow> (r2, mData m @ bs, e))
          else if mType m = TDataEnd then (r1, [], None)
          else if mType m = TErr then (r1, [], Some (remote_from_msg m))
          else (r1, [], Some (pack_frame_err m)))"
  by pat_completeness auto
termination
  by (relation "measure (\<lambda>(lib, r). length (avail r))")
    (auto dest!: sym [of _ "read_msg _ _"] dest: wire.recv_progress)

declare pack_spec.simps [simp del]

definition pr_open :: "pack_reader \<Rightarrow> bool" where
  "pr_open p \<longleftrightarrow> prErr p = None \<and> \<not> prDone p"

definition pr_rest :: "'a wire_lib_scheme \<Rightarrow> pack_reader \<Rightarrow> instream \<times> bytes \<times> goerr option" where
  "pr_rest lib p = (case pack_spec lib (prR p) of (r, bs, e) \<Rightarrow> (r, prCur p @ bs, e))"

lemma pr_open_new [simp]: "pr_open (new_pack_reader r)"
  by (simp add: pr_open_def new_pack_reader_def)

lemma pr_fill_done: "prCur p = [] \<Longrightarrow> prErr p = None \<Longrightarrow> prDone p \<Longrightarrow> pr_fill lib p = (p, Some IoEOF)"
  by (subst pr_fill.simps) simp

lemma pr_fill_cur: "prCur p \<noteq> [] \<Longrightarrow> pr_fill lib p = (p, None)"
  by (subst pr_fill.simps) simp

lemma pr_fill_spec:
  "pr_open p \<Longrightarrow> pr_fill lib p = (p', x) \<Longrightarrow>
     (case x of
        None \<Rightarrow> pr_open p' \<and> pr_rest lib p' = pr_rest lib p \<and> prCur p' \<noteq> []
      | Some e \<Rightarrow> prCur p' = [] \<and>
          (if prDone p' then e = IoEOF \<and> prErr p' = None \<and> pr_rest lib p = (prR p', [], None)
           else prErr p' = Some e \<and> pr_rest lib p = (prR p', [], Some e)))"
proof (induction lib p rule: pr_fill.induct)
  case (1 lib p)
  show ?case
  proof (cases "prCur p = []")
    case False
    with 1(3,4) show ?thesis by (auto simp add: pr_fill_cur split: option.splits)
  next
    case cur: True
    from 1(3) have opn: "prErr p = None" "\<not> prDone p" by (auto simp: pr_open_def)
    obtain r y where rm: "read_msg lib (prR p) = (r, y)" by (cases "read_msg lib (prR p)")
    have fill: "pr_fill lib p = (case y of
        Inl e \<Rightarrow> (p\<lparr>prR := r, prErr := Some e\<rparr>, Some e)
      | Inr m \<Rightarrow>
          if mType m = TData then pr_fill lib (p\<lparr>prR := r, prCur := mData m\<rparr>)
          else if mType m = TDataEnd then pr_fill lib (p\<lparr>prR := r, prDone := True\<rparr>)
          else if mType m = TErr
          then (p\<lparr>prR := r, prErr := Some (remote_from_msg m)\<rparr>, Some (remote_from_msg m))
          else (p\<lparr>prR := r, prErr := Some (pack_frame_err m)\<rparr>, Some (pack_frame_err m)))"
      by (subst pr_fill.simps) (simp add: cur opn rm)
    have rest: "pr_rest lib p = (case y of
        Inl e \<Rightarrow> (r, [], Some e)
      | Inr m \<Rightarrow>
          if mType m = TData then pr_rest lib (p\<lparr>prR := r, prCur := mData m\<rparr>)
          else if mType m = TDataEnd then (r, [], None)
          else if mType m = TErr then (r, [], Some (remote_from_msg m))
          else (r, [], Some (pack_frame_err m)))"
      unfolding pr_rest_def by (subst pack_spec.simps) (simp add: cur rm split: sum.splits prod.splits)
    show ?thesis
    proof (cases "\<exists>m. y = Inr m \<and> mType m = TData")
      case True
      then obtain m where m: "y = Inr m" "mType m = TData" by blast
      have "pr_open (p\<lparr>prR := r, prCur := mData m\<rparr>)" using opn by (simp add: pr_open_def)
      from 1(1) [OF _ _ _ rm [symmetric] m(1,2) this] 1(4) show ?thesis
        using cur opn fill rest m by (cases x) (auto split: if_splits)
    next
      case False
      then show ?thesis using 1(4) cur opn fill rest
        by (auto simp: pr_fill_done split: sum.splits if_splits)
    qed
  qed
qed

definition eof_nil :: "goerr option \<Rightarrow> goerr option" where
  "eof_nil x = (case x of None \<Rightarrow> None | Some e \<Rightarrow> if e = IoEOF then None else Some e)"

lemma pr_read_all_open:
  "pr_open p \<Longrightarrow> pr_read_all lib k p = (p', bs, e) \<Longrightarrow> pr_rest lib p = (r, cs, x) \<Longrightarrow>
     prR p' = r \<and> bs = cs \<and> e = eof_nil x \<and> prErr p' = x"
proof (induction lib k p arbitrary: p' bs e cs rule: pr_read_all.induct)
  case (1 lib k p)
  obtain p1 y where fill: "pr_fill lib p = (p1, y)" by (cases "pr_fill lib p")
  note spec = pr_fill_spec [OF "1.prems"(1) fill]
  show ?case
  proof (cases y)
    case (Some err)
    with fill have "pr_read lib p (Suc k) = (p1, Inl err)" by (simp add: pr_read_def)
    with "1.prems"(2) have "p' = p1" "bs = []" "e = (if err = IoEOF then None else Some err)"
      by (auto simp: pr_read_all.simps [of lib k p])
    with spec Some "1.prems"(3) show ?thesis by (auto simp: eof_nil_def split: if_splits option.splits)
  next
    case None
    define p2 where "p2 = p1\<lparr>prCur := drop (Suc k) (prCur p1)\<rparr>"
    define b where "b = take (Suc k) (prCur p1)"
    from None fill have rd: "pr_read lib p (Suc k) = (p2, Inr b)"
      by (simp add: pr_read_def p2_def b_def)
    obtain q cs' e' where rec: "pr_read_all lib k p2 = (q, cs', e')" by (cases "pr_read_all lib k p2")
    with "1.prems"(2) rd have res: "p' = q" "bs = b @ cs'" "e = e'"
      by (auto simp: pr_read_all.simps [of lib k p])
    from spec None have op: "pr_open p2" and "pr_rest lib p1 = pr_rest lib p"
      by (auto simp: p2_def pr_open_def)
    then obtain ds where rest: "pr_rest lib p2 = (r, ds, x)" "cs = b @ ds"
      using "1.prems"(3) append_take_drop_id [of "Suc k" "prCur p1"]
      by (auto simp: pr_rest_def p2_def b_def split: prod.splits)
    from "1.IH" [OF rd [symmetric] refl op rec rest(1)] res rest(2) show ?thesis by simp
  qed
qed

lemma pack_spec_frames:
  assumes "list_all2 (\<lambda>d b. good_frame lib (data_msg d) = Some b) ds bs"
  shows "pack_spec lib \<lparr>avail = concat bs @ t, fin = f\<rparr> =
    (case pack_spec lib \<lparr>avail = t, fin = f\<rparr> of (r, cs, e) \<Rightarrow> (r, concat ds @ cs, e))"
  using assms
proof (induction rule: list_all2_induct)
  case Nil
  show ?case by (simp split: prod.splits)
next
  case (Cons d ds b bs)
  have "mType (data_msg d) = TData" "mData (data_msg d) = d" by (simp_all add: data_msg_def)
  with Cons show ?case
    by (subst pack_spec.simps) (simp add: wire.recv_frame split: prod.splits)
qed

lemma pack_spec_end:
  "good_frame lib end_msg = Some b \<Longrightarrow>
     pack_spec lib \<lparr>avail = b @ t, fin = f\<rparr> = (\<lparr>avail = t, fin = f\<rparr>, [], None)"
  by (subst pack_spec.simps)
    (simp add: wire.recv_frame, simp add: end_msg_def TData_def TDataEnd_def)

section \<open>What a chunk writer emits\<close>

text \<open>
  \<open>p\<close> went through the chunk writer without an error: full chunks left as \<open>TData\<close>
  frames, in order, and the rest is in the buffer.
\<close>

definition cw_emits ::
  "'a wire_lib_scheme \<Rightarrow> ('w \<Rightarrow> bytes) \<Rightarrow> 'w chunk_writer \<Rightarrow> bytes \<Rightarrow> 'w chunk_writer \<Rightarrow> bool" where
  "cw_emits lib sent c p c' \<longleftrightarrow> length (cwBuf c') < ChunkSize \<and>
     (\<exists>ds bs. list_all2 (\<lambda>d b. frame_bytes lib (data_msg d) = Some b) ds bs \<and>
        (\<forall>d\<in>set ds. length d = ChunkSize) \<and>
        sent (cwW c') = sent (cwW c) @ concat bs \<and> cwBuf c @ p = concat ds @ cwBuf c')"

lemma cw_emitsI:
  "list_all2 (\<lambda>d b. frame_bytes lib (data_msg d) = Some b) ds bs \<Longrightarrow> (\<forall>d\<in>set ds. length d = ChunkSize) \<Longrightarrow>
     sent (cwW c') = sent (cwW c) @ concat bs \<Longrightarrow> cwBuf c @ p = concat ds @ cwBuf c' \<Longrightarrow>
     length (cwBuf c') < ChunkSize \<Longrightarrow> cw_emits lib sent c p c'"
  unfolding cw_emits_def by blast

lemma cw_emits_refl: "length (cwBuf c) < ChunkSize \<Longrightarrow> cw_emits lib sent c [] c"
  by (rule cw_emitsI [where ds = "[]" and bs = "[]"]) simp_all

lemma cw_emits_trans:
  assumes "cw_emits lib sent c p c1" and "cw_emits lib sent c1 q c2"
  shows "cw_emits lib sent c (p @ q) c2"
proof -
  from assms(1) obtain ds bs where 1: "list_all2 (\<lambda>d b. frame_bytes lib (data_msg d) = Some b) ds bs"
    "\<forall>d\<in>set ds. length d = ChunkSize" "sent (cwW c1) = sent (cwW c) @ concat bs"
    "cwBuf c @ p = concat ds @ cwBuf c1" by (auto simp: cw_emits_def)
  from assms(2) obtain es cs where 2: "list_all2 (\<lambda>d b. frame_bytes lib (data_msg d) = Some b) es cs"
    "\<forall>d\<in>set es. length d = ChunkSize" "sent (cwW c2) = sent (cwW c1) @ concat cs"
    "cwBuf c1 @ q = concat es @ cwBuf c2" "length (cwBuf c2) < ChunkSize" by (auto simp: cw_emits_def)
  have "cwBuf c @ p @ q = concat (ds @ es) @ cwBuf c2"
    using 1(4) 2(4) by (metis append.assoc concat_append)
  moreover have "list_all2 (\<lambda>d b. frame_bytes lib (data_msg d) = Some b) (ds @ es) (bs @ cs)"
    using 1(1) 2(1) by (rule list_all2_appendI)
  moreover have "\<forall>d\<in>set (ds @ es). length d = ChunkSize" using 1(2) 2(2) by auto
  moreover have "sent (cwW c2) = sent (cwW c) @ concat (bs @ cs)" using 1(3) 2(3) by simp
  ultimately show ?thesis unfolding cw_emits_def using 2(5) by blast
qed

context io_writer
begin

lemma cw_flush_ok:
  assumes "cw_flush lib wr c = (c', None)" and "cwBuf c \<noteq> []"
  shows "\<exists>b. frame_bytes lib (data_msg (cwBuf c)) = Some b \<and> sent (cwW c') = sent (cwW c) @ b \<and> cwBuf c' = []"
  using assms unfolding cw_flush_def
  by (auto split: prod.splits if_splits dest!: write_msg_ok)

lemma cw_loop_emits:
  "cw_loop lib u c p = (c', None) \<Longrightarrow> length (cwBuf c) < ChunkSize \<Longrightarrow> u = wr \<Longrightarrow>
     cw_emits lib sent c p c'"
proof (induction lib u c p rule: cw_loop.induct)
  case (1 lib u c p)
  define tk where "tk = min (ChunkSize - length (cwBuf c)) (length p)"
  define c1 where "c1 = c\<lparr>cwBuf := cwBuf c @ take tk p\<rparr>"
  have first: "cw_loop lib u c p =
    (if p = [] then (c, None)
     else if length (cwBuf c1) = ChunkSize
     then (case cw_flush lib u c1 of
             (c2, Some e) \<Rightarrow> (c2, Some e)
           | (c2, None) \<Rightarrow> cw_loop lib u c2 (drop tk p))
     else cw_loop lib u c1 (drop tk p))"
    using "1.prems"(2) by (subst cw_loop.simps) (simp add: tk_def c1_def Let_def)
  show ?case
  proof (cases "p = []")
    case True
    with "1.prems" first show ?thesis by (simp add: cw_emits_refl)
  next
    case p: False
    note prem = p not_less [THEN iffD2, OF less_imp_le, OF "1.prems"(2)] tk_def c1_def refl
    show ?thesis
    proof (cases "length (cwBuf c1) = ChunkSize")
      case True
      with "1.prems"(1) first p obtain c2 where fl: "cw_flush lib u c1 = (c2, None)"
        and rec: "cw_loop lib u c2 (drop tk p) = (c', None)"
        by (auto split: prod.splits option.splits)
      have "cwBuf c1 \<noteq> []" using True ChunkSize_pos by auto
      from cw_flush_ok [OF fl [unfolded "1.prems"(3)] this] obtain b where
        b: "frame_bytes lib (data_msg (cwBuf c1)) = Some b" "sent (cwW c2) = sent (cwW c) @ b" "cwBuf c2 = []"
        by (auto simp: c1_def)
      have "cw_emits lib sent c (take tk p) c2"
        using b True ChunkSize_pos
        by (intro cw_emitsI [where ds = "[cwBuf c @ take tk p]" and bs = "[b]"]) (simp_all add: c1_def)
      moreover have "cw_emits lib sent c2 (drop tk p) c'"
        using "1.IH"(1) [OF prem True fl [symmetric] refl rec _ "1.prems"(3)] b(3) ChunkSize_pos by simp
      ultimately show ?thesis using cw_emits_trans by fastforce
    next
      case False
      with "1.prems"(1) first p have rec: "cw_loop lib u c1 (drop tk p) = (c', None)" by simp
      have len: "length (cwBuf c1) < ChunkSize" using False "1.prems"(2) by (auto simp: c1_def tk_def)
      then have "cw_emits lib sent c (take tk p) c1"
        by (intro cw_emitsI [where ds = "[]" and bs = "[]"]) (simp_all add: c1_def)
      moreover have "cw_emits lib sent c1 (drop tk p) c'"
        using "1.IH"(2) [OF prem False rec len "1.prems"(3)] .
      ultimately show ?thesis using cw_emits_trans by fastforce
    qed
  qed
qed

lemma cw_write_emits:
  "cw_write lib wr c p = (c', n, None) \<Longrightarrow> length (cwBuf c) < ChunkSize \<Longrightarrow> cw_emits lib sent c p c'"
  by (auto simp: cw_write_def split: prod.splits option.splits intro: cw_loop_emits)

lemma run_writes_emits:
  "run_writes (cw_write lib wr) c ws = (c', None) \<Longrightarrow> length (cwBuf c) < ChunkSize \<Longrightarrow>
     cw_emits lib sent c (concat ws) c'"
proof (induction ws arbitrary: c)
  case (Cons p ws)
  then obtain c1 n where 1: "cw_write lib wr c p = (c1, n, None)"
    and 2: "run_writes (cw_write lib wr) c1 ws = (c', None)"
    by (auto split: prod.splits option.splits)
  have e: "cw_emits lib sent c p c1" using cw_write_emits [OF 1 Cons.prems(2)] .
  then have "length (cwBuf c1) < ChunkSize" by (simp add: cw_emits_def)
  from cw_emits_trans [OF e Cons.IH [OF 2 this]] show ?case by simp
qed (simp add: cw_emits_refl)

end

text \<open>The bytes a pack consists of: what the library writes for the items, then the end.\<close>

fun pack_writes ::
  "('p \<Rightarrow> 'x \<Rightarrow> 'p \<times> bytes list \<times> goerr option) \<Rightarrow> 'p \<Rightarrow> (goerr + 'x) list \<Rightarrow> 'p \<times> bytes" where
  "pack_writes add pw (Inr x # xs) =
     (case add pw x of
        (pw1, ws, e) \<Rightarrow> (case pack_writes add pw1 xs of (pw2, bs) \<Rightarrow> (pw2, concat ws @ bs)))"
| "pack_writes add pw _ = (pw, [])"

definition pack_content ::
  "('p \<Rightarrow> 'x \<Rightarrow> 'p \<times> bytes list \<times> goerr option) \<Rightarrow> ('p, 'z) pack_lib_scheme \<Rightarrow> (goerr + 'x) list \<Rightarrow> bytes" where
  "pack_content add lib xs =
     (case pack_writes add (aw_new lib) xs of (pw, bs) \<Rightarrow> bs @ concat (fst (aw_close lib pw)))"

text \<open>A byte string cut into pieces of \<open>n\<close> bytes, the last one possibly shorter.\<close>

fun chunks :: "nat \<Rightarrow> 'a list \<Rightarrow> 'a list list" where
  "chunks n xs = (if xs = [] \<or> n = 0 then [] else take n xs # chunks n (drop n xs))"

declare chunks.simps [simp del]

lemma chunks_Nil [simp]: "chunks n [] = []"
  by (simp add: chunks.simps)

lemma chunks_full:
  "\<forall>d\<in>set ds. length d = n \<Longrightarrow> length r < n \<Longrightarrow>
     chunks n (concat ds @ r) = ds @ (if r = [] then [] else [r])"
proof (induction ds)
  case Nil
  then show ?case by (simp add: chunks.simps [of n r])
next
  case (Cons d ds)
  then have "d @ concat ds @ r \<noteq> []" by auto
  with Cons show ?case by (subst chunks.simps) auto
qed

lemma concat_chunks: "0 < n \<Longrightarrow> concat (chunks n xs) = xs"
  by (induction n xs rule: chunks.induct) (subst chunks.simps, simp)

lemma chunks_length: "d \<in> set (chunks n xs) \<Longrightarrow> d \<noteq> [] \<and> length d \<le> n"
  by (induction n xs rule: chunks.induct) (subst (asm) (2) chunks.simps, auto split: if_splits)

context io_writer
begin

lemma pack_loop_emits:
  "pack_loop add (cw_write lib wr) c pw xs = (c', pw', n, None) \<Longrightarrow> length (cwBuf c) < ChunkSize \<Longrightarrow>
     cw_emits lib sent c (snd (pack_writes add pw xs)) c' \<and> pw' = fst (pack_writes add pw xs) \<and>
     n = length xs \<and> (\<forall>x\<in>set xs. \<not> isl x)"
proof (induction xs arbitrary: c pw n)
  case Nil
  then show ?case by (auto simp: cw_emits_refl)
next
  case (Cons x xs)
  show ?case
  proof (cases x)
    case (Inl e)
    with Cons.prems show ?thesis by simp
  next
    case (Inr y)
    obtain pw1 ws e where add: "add pw y = (pw1, ws, e)" by (cases "add pw y") auto
    with Cons.prems Inr obtain c1 m where 1: "run_writes (cw_write lib wr) c ws = (c1, None)"
      and 2: "pack_loop add (cw_write lib wr) c1 pw1 xs = (c', pw', m, None)" and n: "n = Suc m"
      by (auto split: prod.splits option.splits)
    have em: "cw_emits lib sent c (concat ws) c1" using run_writes_emits [OF 1 Cons.prems(2)] .
    then have "length (cwBuf c1) < ChunkSize" by (simp add: cw_emits_def)
    note ih = Cons.IH [OF 2 this]
    from cw_emits_trans [OF em] ih add Inr n show ?thesis by (auto split: prod.splits)
  qed
qed

lemma send_items_ok:
  assumes "send_items add lib wr w xs = (w', n, None)"
  shows "\<exists>bs b. list_all2 (\<lambda>d b. frame_bytes lib (data_msg d) = Some b) (chunks ChunkSize (pack_content add lib xs)) bs \<and>
    frame_bytes lib end_msg = Some b \<and> sent w' = sent w @ concat bs @ b \<and>
    n = length xs \<and> (\<forall>x\<in>set xs. \<not> isl x)"
proof -
  let ?c0 = "\<lparr>cwW = w, cwBuf = []\<rparr>"
  from assms obtain c1 pw ws c2 c3 where
    1: "pack_loop add (cw_write lib wr) ?c0 (aw_new lib) xs = (c1, pw, n, None)"
    and cl: "aw_close lib pw = (ws, None)"
    and 2: "run_writes (cw_write lib wr) c1 ws = (c2, None)"
    and 3: "cw_finish lib wr c2 = (c3, None)" and w': "w' = cwW c3"
    unfolding send_items_def by (auto split: prod.splits option.splits)
  have "length (cwBuf ?c0) < ChunkSize" using ChunkSize_pos by simp
  note loop = pack_loop_emits [OF 1 this]
  then have "length (cwBuf c1) < ChunkSize" by (simp add: cw_emits_def)
  note em = cw_emits_trans [OF conjunct1 [OF loop] run_writes_emits [OF 2 this]]
  have content: "snd (pack_writes add (aw_new lib) xs) @ concat ws = pack_content add lib xs"
    using loop cl by (auto simp: pack_content_def split: prod.splits)
  from em content obtain ds bs where
    ds: "list_all2 (\<lambda>d b. frame_bytes lib (data_msg d) = Some b) ds bs" "\<forall>d\<in>set ds. length d = ChunkSize"
      "sent (cwW c2) = sent w @ concat bs" "pack_content add lib xs = concat ds @ cwBuf c2"
      "length (cwBuf c2) < ChunkSize"
    by (auto simp: cw_emits_def)
  have ch: "chunks ChunkSize (pack_content add lib xs) = ds @ (if cwBuf c2 = [] then [] else [cwBuf c2])"
    unfolding ds(4) using ds(2,5) by (rule chunks_full)
  from 3 obtain c4 where fl: "cw_flush lib wr c2 = (c4, None)"
    and en: "write_msg lib wr (cwW c4) end_msg = (cwW c3, None)"
    by (auto simp: cw_finish_def split: prod.splits option.splits)
  from write_msg_ok [OF en] obtain b where b: "frame_bytes lib end_msg = Some b" "sent w' = sent (cwW c4) @ b"
    by (auto simp: w')
  show ?thesis
  proof (cases "cwBuf c2 = []")
    case True
    then have "c4 = c2" using fl by (simp add: cw_flush_def)
    with True ds b ch loop show ?thesis by (intro exI [of _ bs] exI [of _ b]) simp
  next
    case False
    from cw_flush_ok [OF fl this] obtain z where
      "frame_bytes lib (data_msg (cwBuf c2)) = Some z" "sent (cwW c4) = sent (cwW c2) @ z" by blast
    with False ds b ch loop show ?thesis
      by (intro exI [of _ "bs @ [z]"] exI [of _ b]) (simp add: list_all2_appendI)
  qed
qed

end

section \<open>Sending on a connection that stays up\<close>

text \<open>The codec encodes every chunk and the end frame within the frame limit and reads it back.\<close>

definition data_codec :: "'a wire_lib_scheme \<Rightarrow> bool" where
  "data_codec lib \<longleftrightarrow>
     (\<forall>d. length d \<le> ChunkSize \<longrightarrow> good_frame lib (data_msg d) \<noteq> None) \<and> good_frame lib end_msg \<noteq> None"

lemma good_frame_bytes: "good_frame lib m = Some b \<Longrightarrow> frame_bytes lib m = Some b"
  by (simp add: good_frame_def split: if_splits)

lemma data_codec_frame:
  "data_codec lib \<Longrightarrow> length d \<le> ChunkSize \<Longrightarrow> \<exists>b. good_frame lib (data_msg d) = Some b"
  unfolding data_codec_def by blast

lemma data_codec_end: "data_codec lib \<Longrightarrow> \<exists>b. good_frame lib end_msg = Some b"
  unfolding data_codec_def by blast

text \<open>The error an iteration ends with when no write fails.\<close>

fun pack_err ::
  "('p \<Rightarrow> 'x \<Rightarrow> 'p \<times> bytes list \<times> goerr option) \<Rightarrow> 'p \<Rightarrow> (goerr + 'x) list \<Rightarrow> goerr option" where
  "pack_err add pw [] = None"
| "pack_err add pw (Inl e # xs) = Some e"
| "pack_err add pw (Inr x # xs) =
     (case add pw x of (pw1, ws, Some e) \<Rightarrow> Some e | (pw1, ws, None) \<Rightarrow> pack_err add pw1 xs)"

context reliable_writer
begin

lemma cw_flush_healthy:
  assumes "data_codec lib" and "healthy (cwW c)" and "length (cwBuf c) \<le> ChunkSize"
  shows "\<exists>c'. cw_flush lib wr c = (c', None) \<and> healthy (cwW c') \<and> cwBuf c' = []"
proof (cases "cwBuf c = []")
  case True
  with assms(2) show ?thesis by (simp add: cw_flush_def)
next
  case False
  from data_codec_frame [OF assms(1,3)] obtain b where "frame_bytes lib (data_msg (cwBuf c)) = Some b"
    using good_frame_bytes by blast
  from write_msg_healthy [OF this assms(2)] False show ?thesis by (auto simp: cw_flush_def)
qed

lemma cw_loop_healthy:
  "data_codec lib \<Longrightarrow> healthy (cwW c) \<Longrightarrow> length (cwBuf c) < ChunkSize \<Longrightarrow> u = wr \<Longrightarrow>
     \<exists>c'. cw_loop lib u c p = (c', None) \<and> healthy (cwW c')"
proof (induction lib u c p rule: cw_loop.induct)
  case (1 lib u c p)
  define tk where "tk = min (ChunkSize - length (cwBuf c)) (length p)"
  define c1 where "c1 = c\<lparr>cwBuf := cwBuf c @ take tk p\<rparr>"
  have first: "cw_loop lib u c p =
    (if p = [] then (c, None)
     else if length (cwBuf c1) = ChunkSize
     then (case cw_flush lib u c1 of
             (c2, Some e) \<Rightarrow> (c2, Some e)
           | (c2, None) \<Rightarrow> cw_loop lib u c2 (drop tk p))
     else cw_loop lib u c1 (drop tk p))"
    using "1.prems"(3) by (subst cw_loop.simps) (simp add: tk_def c1_def Let_def)
  show ?case
  proof (cases "p = []")
    case True
    with "1.prems" first show ?thesis by simp
  next
    case p: False
    note prem = p not_less [THEN iffD2, OF less_imp_le, OF "1.prems"(3)] tk_def c1_def refl
    have h1: "healthy (cwW c1)" using "1.prems"(2) by (simp add: c1_def)
    show ?thesis
    proof (cases "length (cwBuf c1) = ChunkSize")
      case True
      from cw_flush_healthy [OF "1.prems"(1) h1] True obtain c2 where
        fl: "cw_flush lib wr c1 = (c2, None)" "healthy (cwW c2)" "cwBuf c2 = []" by auto
      from "1.IH"(1) [OF prem True fl(1) [folded "1.prems"(4), symmetric] refl "1.prems"(1) fl(2)]
        fl(3) ChunkSize_pos "1.prems"(4) p True first fl(1)
      show ?thesis by simp
    next
      case False
      have "length (cwBuf c1) < ChunkSize" using False "1.prems"(3) by (auto simp: c1_def tk_def)
      from "1.IH"(2) [OF prem False "1.prems"(1) h1 this "1.prems"(4)] p False first
      show ?thesis by simp
    qed
  qed
qed

lemma run_writes_cw_healthy:
  "data_codec lib \<Longrightarrow> healthy (cwW c) \<Longrightarrow> length (cwBuf c) < ChunkSize \<Longrightarrow>
     \<exists>c'. run_writes (cw_write lib wr) c ws = (c', None) \<and> healthy (cwW c') \<and>
          cw_emits lib sent c (concat ws) c'"
proof (induction ws arbitrary: c)
  case Nil
  then show ?case by (simp add: cw_emits_refl)
next
  case (Cons p ws)
  from cw_loop_healthy [OF Cons.prems refl, of p] obtain c1
    where 1: "cw_write lib wr c p = (c1, length p, None)" "healthy (cwW c1)"
    by (auto simp: cw_write_def)
  from cw_write_emits [OF 1(1) Cons.prems(3)] have e: "cw_emits lib sent c p c1" .
  then have l: "length (cwBuf c1) < ChunkSize" by (simp add: cw_emits_def)
  from Cons.IH [OF Cons.prems(1) 1(2) l] cw_emits_trans [OF e] 1(1) show ?case by fastforce
qed

lemma pack_loop_healthy:
  "data_codec lib \<Longrightarrow> healthy (cwW c) \<Longrightarrow> length (cwBuf c) < ChunkSize \<Longrightarrow>
     \<exists>c' pw' n q. pack_loop add (cw_write lib wr) c pw xs = (c', pw', n, pack_err add pw xs) \<and>
       healthy (cwW c') \<and> cw_emits lib sent c q c' \<and>
       (pack_err add pw xs = None \<longrightarrow> pw' = fst (pack_writes add pw xs) \<and> n = length xs)"
proof (induction xs arbitrary: c pw)
  case Nil
  then show ?case using cw_emits_refl by fastforce
next
  case (Cons x xs)
  show ?case
  proof (cases x)
    case (Inl e)
    then show ?thesis using Cons.prems cw_emits_refl by fastforce
  next
    case (Inr y)
    obtain pw1 ws e where add: "add pw y = (pw1, ws, e)" by (cases "add pw y") auto
    from run_writes_cw_healthy [OF Cons.prems, of ws] obtain c1 where
      1: "run_writes (cw_write lib wr) c ws = (c1, None)" "healthy (cwW c1)" "cw_emits lib sent c (concat ws) c1"
      by blast
    show ?thesis
    proof (cases e)
      case (Some z)
      then show ?thesis using 1 add Inr by auto
    next
      case None
      have "length (cwBuf c1) < ChunkSize" using 1(3) by (simp add: cw_emits_def)
      from Cons.IH [OF Cons.prems(1) 1(2) this, of pw1] obtain c2 pw2 n q where
        2: "pack_loop add (cw_write lib wr) c1 pw1 xs = (c2, pw2, n, pack_err add pw1 xs)" "healthy (cwW c2)"
          "cw_emits lib sent c1 q c2"
          "pack_err add pw1 xs = None \<longrightarrow> pw2 = fst (pack_writes add pw1 xs) \<and> n = length xs"
        by (elim exE conjE) (rule that)
      from cw_emits_trans [OF 1(3) 2(3)] show ?thesis
        using 1 2 add Inr None by (auto split: prod.splits)
    qed
  qed
qed

end

context reliable_writer
begin

lemma send_items_abort:
  assumes "data_codec lib" and "healthy w" and "pack_err add (aw_new lib) xs = Some e"
  shows "\<exists>w' n ds bs. send_items add lib wr w xs = (w', n, Some e) \<and> healthy w' \<and>
    list_all2 (\<lambda>d b. frame_bytes lib (data_msg d) = Some b) ds bs \<and> (\<forall>d\<in>set ds. length d = ChunkSize) \<and>
    sent w' = sent w @ concat bs"
proof -
  let ?c0 = "\<lparr>cwW = w, cwBuf = []\<rparr>"
  from pack_loop_healthy [OF assms(1), of ?c0 add "aw_new lib" xs] assms(2,3) ChunkSize_pos
  obtain c pw n q where 1: "pack_loop add (cw_write lib wr) ?c0 (aw_new lib) xs = (c, pw, n, Some e)"
    and h: "healthy (cwW c)" and em: "cw_emits lib sent ?c0 q c" by auto
  from em obtain ds bs where "list_all2 (\<lambda>d b. frame_bytes lib (data_msg d) = Some b) ds bs"
    "\<forall>d\<in>set ds. length d = ChunkSize" "sent (cwW c) = sent w @ concat bs"
    by (auto simp: cw_emits_def)
  moreover have "send_items add lib wr w xs = (cwW c, n, Some e)" by (simp add: send_items_def 1)
  ultimately show ?thesis using h by blast
qed

lemma send_items_healthy:
  assumes "data_codec lib" and "healthy w" and "pack_err add (aw_new lib) xs = None"
    and "snd (aw_close lib (fst (pack_writes add (aw_new lib) xs))) = None"
  shows "\<exists>w'. send_items add lib wr w xs = (w', length xs, None) \<and> healthy w'"
proof -
  let ?c0 = "\<lparr>cwW = w, cwBuf = []\<rparr>"
  from pack_loop_healthy [OF assms(1), of ?c0 add "aw_new lib" xs] assms(2,3) ChunkSize_pos
  obtain c q where 1: "pack_loop add (cw_write lib wr) ?c0 (aw_new lib) xs =
      (c, fst (pack_writes add (aw_new lib) xs), length xs, None)"
    and h: "healthy (cwW c)" and em: "cw_emits lib sent ?c0 q c" by auto
  obtain ws where cl: "aw_close lib (fst (pack_writes add (aw_new lib) xs)) = (ws, None)"
    using assms(4) by (metis prod.collapse)
  from em have "length (cwBuf c) < ChunkSize" by (simp add: cw_emits_def)
  from run_writes_cw_healthy [OF assms(1) h this, of ws] obtain c2 where
    2: "run_writes (cw_write lib wr) c ws = (c2, None)" "healthy (cwW c2)" "length (cwBuf c2) < ChunkSize"
    by (auto simp: cw_emits_def)
  from cw_flush_healthy [OF assms(1) 2(2)] 2(3) obtain c3 where
    3: "cw_flush lib wr c2 = (c3, None)" "healthy (cwW c3)" by auto
  obtain b where "frame_bytes lib end_msg = Some b"
    using data_codec_end [OF assms(1)] good_frame_bytes by blast
  from write_msg_healthy [OF this 3(2)] obtain w' where
    "write_msg lib wr (cwW c3) end_msg = (w', None)" "healthy w'" by blast
  with 1 cl 2(1) 3(1) show ?thesis by (simp add: send_items_def cw_finish_def)
qed

end

lemma sample_data_codec: "length ms \<le> 256 \<Longrightarrow> end_msg \<in> set ms \<Longrightarrow> data_codec (sample_lib ms)"
proof -
  assume ms: "length ms \<le> 256" "end_msg \<in> set ms"
  have "good_frame (sample_lib ms) (data_msg d) \<noteq> None" if "length d \<le> ChunkSize" for d
    using that sample_codec_data [of ms d] sample_marshal_data [of ms d]
    by (simp add: good_frame_def data_msg_def TData_def frame_bytes_def ChunkSize_def MaxFrame_def)
  moreover obtain i where "index_of end_msg ms = Some i" using index_of_mem [OF ms(2)] by blast
  then have "frame_bytes (sample_lib ms) end_msg \<noteq> None"
    by (simp add: frame_bytes_def sample_lib_def book_marshal_def MaxFrame_def end_msg_def
        zero_msg_def TDataEnd_def)
  ultimately show ?thesis using sample_codec_ok [OF ms] by (simp add: data_codec_def good_frame_def)
qed

text \<open>A pack of two records, on the sample instance.\<close>

definition sample_err :: msg where
  "sample_err = zero_msg\<lparr>mType := TErr, mCode := CodeInternal, mText := ''gone''\<rparr>"

abbreviation pack_sample :: "(unit, sample_store) core_lib" where
  "pack_sample \<equiv> sample_lib [end_msg, sample_err]"

definition two_records :: "(goerr + bytes) list" where
  "two_records = [Inr [2, 7, 5], Inr [1, 5]]"

lemma pack_sample_codec: "data_codec pack_sample"
  by (rule sample_data_codec) simp_all

lemma fresh_up: "os_up fresh_out"
  by (simp add: os_up_def fresh_out_def)

lemma sample_content: "pack_content (aw_add_record pack_sample) pack_sample two_records = [2, 7, 5, 1, 5, 0]"
  by (simp add: pack_content_def two_records_def sample_lib_def)

lemma sample_send: "\<exists>w'. send_pack_records pack_sample os_write fresh_out two_records = (w', 2, None)"
proof -
  have "pack_err (aw_add_record pack_sample) (aw_new pack_sample) two_records = None"
    "snd (aw_close pack_sample (fst (pack_writes (aw_add_record pack_sample) (aw_new pack_sample) two_records))) = None"
    "length two_records = 2"
    by (simp_all add: two_records_def sample_lib_def)
  with os.send_items_healthy [OF pack_sample_codec fresh_up, of "aw_add_record pack_sample" two_records]
  show ?thesis unfolding send_pack_records_def by auto
qed

section \<open>Properties of the pack layer\<close>

lemma good_frames:
  assumes "data_codec lib" and "list_all2 (\<lambda>d b. frame_bytes lib (data_msg d) = Some b) ds bs"
    and "\<forall>d\<in>set ds. length d \<le> ChunkSize"
  shows "list_all2 (\<lambda>d b. good_frame lib (data_msg d) = Some b) ds bs"
  using assms(2,3)
proof (induction rule: list_all2_induct)
  case (Cons d ds b bs)
  with data_codec_frame [OF assms(1), of d] good_frame_bytes show ?case by fastforce
qed simp

lemma pr_read_all_spec:
  "\<exists>p. pr_read_all lib k (new_pack_reader r) =
      (p, fst (snd (pack_spec lib r)), eof_nil (snd (snd (pack_spec lib r)))) \<and>
    prR p = fst (pack_spec lib r)"
proof -
  obtain p bs e where rd: "pr_read_all lib k (new_pack_reader r) = (p, bs, e)"
    by (cases "pr_read_all lib k (new_pack_reader r)") auto
  obtain r' cs x where sp: "pack_spec lib r = (r', cs, x)" by (cases "pack_spec lib r") auto
  then have "pr_rest lib (new_pack_reader r) = (r', cs, x)"
    by (simp add: pr_rest_def new_pack_reader_def)
  from pr_read_all_open [OF pr_open_new rd this] rd sp show ?thesis by simp
qed

text \<open>
  Claim C16 (refinement).  Reading a pack to its end with buffers of any size hands out exactly
  the data of the \<open>TData\<close> frames up to the first other frame, leaves the stream right after that
  frame, and ends with the error that frame means (nil for \<open>TDataEnd\<close>).
\<close>

theorem pack_reader_refines:
  "\<exists>p. pr_read_all lib k (new_pack_reader r) =
      (p, fst (snd (pack_spec lib r)), eof_nil (snd (snd (pack_spec lib r)))) \<and>
    prR p = fst (pack_spec lib r)"
  by (rule pr_read_all_spec)

lemma read_pack_frames:
  assumes "list_all2 (\<lambda>d b. good_frame lib (data_msg d) = Some b) ds bs"
    and "pack_spec lib \<lparr>avail = t, fin = f\<rparr> = (r, [], x)"
  shows "\<exists>p. pr_read_all lib k (new_pack_reader \<lparr>avail = concat bs @ t, fin = f\<rparr>) =
      (p, concat ds, eof_nil x) \<and> prR p = r"
  using pr_read_all_spec [of lib k "\<lparr>avail = concat bs @ t, fin = f\<rparr>"]
  by (simp add: pack_spec_frames [OF assms(1)] assms(2))

text \<open>What a reader makes of a finished pack, and of one cut off by an error frame.\<close>

lemma read_finished:
  assumes "data_codec lib"
    and "list_all2 (\<lambda>d b. frame_bytes lib (data_msg d) = Some b) (chunks ChunkSize content) bs"
    and "frame_bytes lib end_msg = Some b"
  shows "\<exists>p. pr_read_all lib k (new_pack_reader \<lparr>avail = (concat bs @ b) @ r, fin = f\<rparr>) = (p, content, None) \<and>
    prR p = \<lparr>avail = r, fin = f\<rparr>"
proof -
  have g: "list_all2 (\<lambda>d b. good_frame lib (data_msg d) = Some b) (chunks ChunkSize content) bs"
    using good_frames [OF assms(1,2)] chunks_length by blast
  have "good_frame lib end_msg = Some b"
    using data_codec_end [OF assms(1)] assms(3) good_frame_bytes by fastforce
  from read_pack_frames [OF g pack_spec_end [OF this], of k r f] show ?thesis
    by (simp add: eof_nil_def concat_chunks [OF ChunkSize_pos])
qed

lemma read_aborted:
  assumes "data_codec lib" and "list_all2 (\<lambda>d b. frame_bytes lib (data_msg d) = Some b) ds bs"
    and "\<forall>d\<in>set ds. length d = ChunkSize" and "good_frame lib em = Some eb" and "mType em = TErr"
  shows "snd (snd (pr_read_all lib k (new_pack_reader \<lparr>avail = concat bs @ eb @ r, fin = f\<rparr>))) =
    Some (remote_from_msg em)"
proof -
  from good_frames [OF assms(1,2)] assms(3)
  have g: "list_all2 (\<lambda>d b. good_frame lib (data_msg d) = Some b) ds bs" by simp
  have sp: "pack_spec lib \<lparr>avail = eb @ r, fin = f\<rparr> = (\<lparr>avail = r, fin = f\<rparr>, [], Some (remote_from_msg em))"
    using assms(5) by (subst pack_spec.simps) (simp add: wire.recv_frame [OF assms(4)] frame_types)
  show ?thesis using read_pack_frames [OF g sp, of k] by (auto simp: eof_nil_def remote_from_msg_def)
qed

text \<open>
  Fact (chunking).  What \<open>SendPackRecords\<close> puts on the stream when it succeeds is the pack
  cut into pieces of \<open>ChunkSize\<close> bytes (the last possibly shorter, none empty), each in one
  \<open>TData\<close> frame, in order, and then one \<open>TDataEnd\<close> frame; it has drawn every record.
\<close>

theorem pack_chunking:
  assumes "send_pack_records lib os_write w xs = (w', n, None)"
  shows "\<exists>bs b. list_all2 (\<lambda>d b. frame_bytes lib (data_msg d) = Some b)
      (chunks ChunkSize (pack_content (aw_add_record lib) lib xs)) bs \<and>
    frame_bytes lib end_msg = Some b \<and> os_sent w' = os_sent w @ concat bs @ b \<and> n = length xs"
  using os.send_items_ok assms unfolding send_pack_records_def by blast

theorem pack_chunking_witness:
  "\<exists>w' bs b. send_pack_records pack_sample os_write fresh_out two_records = (w', 2, None) \<and>
    list_all2 (\<lambda>d b. frame_bytes pack_sample (data_msg d) = Some b) [[2, 7, 5, 1, 5, 0]] bs \<and>
    frame_bytes pack_sample end_msg = Some b \<and> os_sent w' = concat bs @ b"
proof -
  obtain w' where w: "send_pack_records pack_sample os_write fresh_out two_records = (w', 2, None)"
    using sample_send by blast
  have ch: "chunks ChunkSize [2, 7, 5, 1, 5, 0 :: byte] = [[2, 7, 5, 1, 5, 0]]"
    by (subst chunks.simps) (simp add: ChunkSize_def)
  have "os_sent fresh_out = []" by (simp add: fresh_out_def)
  with pack_chunking [OF w] w show ?thesis unfolding sample_content ch by auto
qed

text \<open>
  Claim C15 (round trip).  A pack that \<open>SendPackRecords\<close> sent without an error is read back by
  the pack reader, with any buffer size, as exactly the bytes the library wrote; the reader ends
  with \<open>io.EOF\<close> and the stream stands at what follows the pack.
\<close>

theorem pack_roundtrip:
  assumes "data_codec lib" and "send_pack_records lib os_write w xs = (w', n, None)"
  shows "\<exists>b. os_sent w' = os_sent w @ b \<and>
    (\<forall>k r f. \<exists>p. pr_read_all lib k (new_pack_reader \<lparr>avail = b @ r, fin = f\<rparr>) =
        (p, pack_content (aw_add_record lib) lib xs, None) \<and> prR p = \<lparr>avail = r, fin = f\<rparr>)"
proof -
  from os.send_items_ok [OF assms(2) [unfolded send_pack_records_def]] obtain bs b where
    bs: "list_all2 (\<lambda>d b. frame_bytes lib (data_msg d) = Some b)
      (chunks ChunkSize (pack_content (aw_add_record lib) lib xs)) bs"
    and b: "frame_bytes lib end_msg = Some b" and sent: "os_sent w' = os_sent w @ concat bs @ b"
    by blast
  from read_finished [OF assms(1) bs b] sent show ?thesis by (intro exI [of _ "concat bs @ b"]) simp
qed

theorem pack_roundtrip_witness:
  "\<exists>w' b. send_pack_records pack_sample os_write fresh_out two_records = (w', 2, None) \<and>
    os_sent w' = b \<and> (\<forall>k r f. fst (snd (pr_read_all pack_sample k
      (new_pack_reader \<lparr>avail = b @ r, fin = f\<rparr>))) = [2, 7, 5, 1, 5, 0])"
proof -
  obtain w' where w: "send_pack_records pack_sample os_write fresh_out two_records = (w', 2, None)"
    using sample_send by blast
  from pack_roundtrip [OF pack_sample_codec w] obtain b where
    "os_sent w' = os_sent fresh_out @ b" and
    "\<forall>k r f. \<exists>p. pr_read_all pack_sample k (new_pack_reader \<lparr>avail = b @ r, fin = f\<rparr>) =
        (p, [2, 7, 5, 1, 5, 0], None) \<and> prR p = \<lparr>avail = r, fin = f\<rparr>"
    unfolding sample_content by blast
  with w show ?thesis by (intro exI [of _ w'] exI [of _ b]) (auto simp: fresh_out_def, metis fst_conv snd_conv)
qed

text \<open>
  Fact (abort).  When the iterator or the library fails while records are packed, on a
  connection that stays up, \<open>SendPackRecords\<close> returns that error and sends no terminator; once
  the sender has written a \<open>TErr\<close> frame after it, the peer's pack reader ends with that frame's
  error and never with a clean end.
\<close>

theorem pack_abort_surfaces:
  assumes "data_codec lib" and "os_up w"
    and "pack_err (aw_add_record lib) (aw_new lib) xs = Some e"
    and "good_frame lib em = Some eb" and "mType em = TErr"
  shows "\<exists>w' n b. send_pack_records lib os_write w xs = (w', n, Some e) \<and> os_sent w' = os_sent w @ b \<and>
    (\<forall>k r f. snd (snd (pr_read_all lib k (new_pack_reader \<lparr>avail = b @ eb @ r, fin = f\<rparr>))) =
       Some (remote_from_msg em))"
proof -
  from os.send_items_abort [OF assms(1-3)] obtain w' n ds bs where
    snd: "send_items (aw_add_record lib) lib os_write w xs = (w', n, Some e)"
    and ds: "list_all2 (\<lambda>d b. frame_bytes lib (data_msg d) = Some b) ds bs"
    "\<forall>d\<in>set ds. length d = ChunkSize" "os_sent w' = os_sent w @ concat bs" by blast
  with read_aborted [OF assms(1) ds(1,2) assms(4,5)] show ?thesis
    unfolding send_pack_records_def by blast
qed

lemma sample_err_frame: "\<exists>b. good_frame pack_sample sample_err = Some b"
proof -
  have "codec_ok pack_sample sample_err" by (rule sample_codec_ok) simp_all
  then show ?thesis
    by (simp add: good_frame_def frame_bytes_def sample_lib_def book_marshal_def MaxFrame_def
        sample_err_def end_msg_def zero_msg_def frame_types)
qed

theorem pack_abort_surfaces_witness:
  "\<exists>w' n b eb. send_pack_records pack_sample os_write fresh_out [Inr [1, 5], Inl StoreNotFound] =
      (w', n, Some StoreNotFound) \<and> os_sent w' = b \<and>
    snd (snd (pr_read_all pack_sample 0 (new_pack_reader \<lparr>avail = b @ eb, fin = IoEOF\<rparr>))) =
      Some (RemoteError ''internal'' ''gone'' [])"
proof -
  obtain eb where eb: "good_frame pack_sample sample_err = Some eb" using sample_err_frame by blast
  have e: "pack_err (aw_add_record pack_sample) (aw_new pack_sample) [Inr [1, 5], Inl StoreNotFound] =
    Some StoreNotFound" by (simp add: sample_lib_def)
  have t: "mType sample_err = TErr" by (simp add: sample_err_def)
  have r: "remote_from_msg sample_err = RemoteError ''internal'' ''gone'' []"
    by (simp add: remote_from_msg_def sample_err_def CodeInternal_def zero_msg_def)
  from pack_abort_surfaces [OF pack_sample_codec fresh_up e eb t] obtain w' n b where
    w: "send_pack_records pack_sample os_write fresh_out [Inr [1, 5], Inl StoreNotFound] = (w', n, Some StoreNotFound)"
      "os_sent w' = b"
    and rd: "\<forall>k r f. snd (snd (pr_read_all pack_sample k (new_pack_reader \<lparr>avail = b @ eb @ r, fin = f\<rparr>))) =
       Some (remote_from_msg sample_err)" by (auto simp: fresh_out_def)
  from rd [rule_format, of 0 "[]" IoEOF] have
    "snd (snd (pr_read_all pack_sample 0 (new_pack_reader \<lparr>avail = b @ eb, fin = IoEOF\<rparr>))) =
      Some (RemoteError ''internal'' ''gone'' [])" by (simp add: r)
  with w show ?thesis by blast
qed

text \<open>
  Fact (a cut pack).  The pack reader reports a stream that ends cleanly between two frames
  exactly as it reports a finished pack: without a \<open>TDataEnd\<close> frame the reader still ends with
  \<open>io.EOF\<close> after the bytes that arrived.
\<close>

theorem cut_pack_reads_as_finished:
  assumes "list_all2 (\<lambda>d b. good_frame lib (data_msg d) = Some b) ds bs"
    and "good_frame lib end_msg = Some b"
  shows "fst (snd (pr_read_all lib k (new_pack_reader \<lparr>avail = concat bs, fin = IoEOF\<rparr>))) = concat ds \<and>
    snd (snd (pr_read_all lib k (new_pack_reader \<lparr>avail = concat bs, fin = IoEOF\<rparr>))) = None \<and>
    snd (pr_read_all lib k (new_pack_reader \<lparr>avail = concat bs, fin = IoEOF\<rparr>)) =
    snd (pr_read_all lib k (new_pack_reader \<lparr>avail = concat bs @ b, fin = IoEOF\<rparr>))"
proof -
  have "pack_spec lib \<lparr>avail = [], fin = IoEOF\<rparr> = (\<lparr>avail = [], fin = IoEOF\<rparr>, [], Some IoEOF)"
    by (subst pack_spec.simps) (simp add: read_msg_def read_full_def)
  from read_pack_frames [OF assms(1) this, of k]
    read_pack_frames [OF assms(1) pack_spec_end [OF assms(2), of "[]" IoEOF], of k]
  show ?thesis by (auto simp: eof_nil_def)
qed

theorem cut_pack_witness:
  "\<exists>b. snd (snd (pr_read_all pack_sample 0 (new_pack_reader \<lparr>avail = b, fin = IoEOF\<rparr>))) = None \<and>
    fst (snd (pr_read_all pack_sample 0 (new_pack_reader \<lparr>avail = b, fin = IoEOF\<rparr>))) = [2, 7]"
proof -
  from data_codec_frame [OF pack_sample_codec, of "[2, 7]"] obtain b where
    b: "good_frame pack_sample (data_msg [2, 7]) = Some b" by (auto simp: ChunkSize_def)
  from data_codec_end [OF pack_sample_codec] obtain e where e: "good_frame pack_sample end_msg = Some e" by blast
  have "list_all2 (\<lambda>d b. good_frame pack_sample (data_msg d) = Some b) [[2, 7]] [b]" by (simp add: b)
  from cut_pack_reads_as_finished [OF this e, of 0] show ?thesis by auto
qed

lemma pr_fill_sticky: "pr_fill lib p = (p1, Some e) \<Longrightarrow> pr_fill lib p1 = (p1, Some e)"
proof (induction lib p rule: pr_fill.induct)
  case (1 lib p)
  show ?case
  proof (cases "prCur p = [] \<and> prErr p = None \<and> \<not> prDone p")
    case False
    with 1(3) have "p1 = p" by (subst (asm) pr_fill.simps) (auto split: option.splits if_splits)
    with 1(3) show ?thesis by simp
  next
    case True
    obtain r x where rm: "read_msg lib (prR p) = (r, x)" by (cases "read_msg lib (prR p)")
    show ?thesis
    proof (cases "\<exists>m. x = Inr m \<and> (mType m = TData \<or> mType m = TDataEnd)")
      case False
      with 1(3) True rm have "prCur p1 = []" "prErr p1 = Some e"
        by (subst (asm) pr_fill.simps, auto split: sum.splits if_splits)+
      then show ?thesis by (subst pr_fill.simps) simp
    next
      case again: True
      then obtain m where x: "x = Inr m" and m: "mType m = TData \<or> mType m = TDataEnd" by blast
      show ?thesis
      proof (cases "mType m = TData")
        case True
        with 1(3) \<open>prCur p = [] \<and> prErr p = None \<and> \<not> prDone p\<close> rm x
        have "pr_fill lib (p\<lparr>prR := r, prCur := mData m\<rparr>) = (p1, Some e)"
          by (subst (asm) pr_fill.simps) simp
        with 1(1) [OF _ _ _ rm [symmetric] x True] \<open>prCur p = [] \<and> prErr p = None \<and> \<not> prDone p\<close>
        show ?thesis by simp
      next
        case False
        with m have e: "mType m = TDataEnd" by blast
        with 1(3) \<open>prCur p = [] \<and> prErr p = None \<and> \<not> prDone p\<close> rm x False
        have "pr_fill lib (p\<lparr>prR := r, prDone := True\<rparr>) = (p1, Some e)"
          by (subst (asm) pr_fill.simps) simp
        with 1(2) [OF _ _ _ rm [symmetric] x False e] \<open>prCur p = [] \<and> prErr p = None \<and> \<not> prDone p\<close>
        show ?thesis by simp
      qed
    qed
  qed
qed

text \<open>
  Fact (sticky end).  Once \<open>Read\<close> has reported an error or \<open>io.EOF\<close>, every later \<open>Read\<close>,
  with any buffer, reports the same and reads nothing more from the stream.
\<close>

theorem pack_reader_sticky:
  assumes "pr_read lib p n = (p1, Inl e)"
  shows "pr_read lib p1 m = (p1, Inl e)"
proof -
  from assms have "pr_fill lib p = (p1, Some e)"
    by (auto simp: pr_read_def split: prod.splits option.splits)
  from pr_fill_sticky [OF this] show ?thesis by (simp add: pr_read_def)
qed

theorem pack_reader_sticky_witness:
  "\<exists>p1. pr_read pack_sample (new_pack_reader \<lparr>avail = [0, 0], fin = IoEOF\<rparr>) 8 = (p1, Inl IoUnexpectedEOF) \<and>
    pr_read pack_sample p1 1 = (p1, Inl IoUnexpectedEOF)"
proof -
  have "\<exists>p1. pr_read pack_sample (new_pack_reader \<lparr>avail = [0, 0], fin = IoEOF\<rparr>) 8 = (p1, Inl IoUnexpectedEOF)"
    unfolding pr_read_def by (subst pr_fill.simps) (simp add: new_pack_reader_def read_msg_def read_full_def)
  with pack_reader_sticky show ?thesis by blast
qed

end
