(* ===== verification/Go_Float.thy ===== *)
theory Go_Float
  imports Prelude Complex_Main
begin

text \<open>
  Go's \<open>float64\<close> (IEEE 754 binary64) as the rationals it denotes.  Every operation
  is the exact rational operation followed by rounding to 53 significant bits, ties to
  even.  The program only forms non-negative floats from 64-bit integers, sums of them
  and quotients of them, which stay far inside the exponent range, so neither overflow nor
  subnormals occur and the exponent is not bounded here.
\<close>

definition pow2 :: "int \<Rightarrow> rat" where
  "pow2 e = (if 0 \<le> e then 2 ^ nat e else 1 / 2 ^ nat (- e))"

lemma pow2_pos [simp]: "0 < pow2 e"
  by (simp add: pow2_def)

lemma pow2_add: "pow2 (a + b) = pow2 a * pow2 b"
proof -
  have *: "pow2 e = 2 powi e" for e
    by (simp add: pow2_def power_int_def field_simps)
  show ?thesis by (simp add: * power_int_add)
qed

lemma pow2_ge0 [simp]: "0 \<le> pow2 e"
  by (simp add: less_imp_le)

lemma pow2_nat: "pow2 (int k) = 2 ^ k"
  by (simp add: pow2_def)

lemma pow2_up: "pow2 (e + int k) = pow2 e * 2 ^ k"
  by (simp add: pow2_add pow2_nat)

text \<open>The number of binary digits of a natural number.\<close>

fun bits :: "nat \<Rightarrow> nat" where
  "bits n = (if n = 0 then 0 else Suc (bits (n div 2)))"

declare bits.simps [simp del]

lemma bits_bounds: "0 < n \<Longrightarrow> 2 ^ (bits n - 1) \<le> n \<and> n < 2 ^ bits n"
proof (induction n rule: bits.induct)
  case (1 n)
  show ?case
  proof (cases "n = 1")
    case True
    have "bits 0 = 0" by (subst bits.simps) simp
    then have "bits 1 = 1" by (subst bits.simps) simp
    with True show ?thesis by simp
  next
    case False
    with "1.prems" have h: "0 < n div 2" by auto
    from "1.IH" "1.prems" h have ih: "2 ^ (bits (n div 2) - 1) \<le> n div 2" "n div 2 < 2 ^ bits (n div 2)"
      by auto
    have b: "bits n = Suc (bits (n div 2))" using "1.prems" by (subst bits.simps) simp
    have "bits (n div 2) \<noteq> 0" using h by (subst bits.simps) simp
    then obtain j where j: "bits (n div 2) = Suc j" by (cases "bits (n div 2)") auto
    from ih j have "2 ^ j \<le> n div 2" "n div 2 < 2 ^ Suc j" by simp_all
    then have "2 ^ Suc j \<le> n" "n < 2 ^ Suc (Suc j)" by auto
    with b j show ?thesis by simp
  qed
qed

text \<open>The exponent \<open>e\<close> with \<open>2 ^ e \<le> q < 2 ^ (e + 1)\<close> of a positive rational.\<close>

definition ilog2 :: "rat \<Rightarrow> int" where
  "ilog2 q = (case quotient_of q of (a, b) \<Rightarrow>
     let e = int (bits (nat a)) - int (bits (nat b)) in
     if pow2 e \<le> q then e else e - 1)"

definition round_even :: "rat \<Rightarrow> int" where
  "round_even q = (let f = \<lfloor>q\<rfloor>; d = q - of_int f in
     if d < 1 / 2 then f else if 1 / 2 < d then f + 1 else if even f then f else f + 1)"

definition rnd64 :: "rat \<Rightarrow> rat" where
  "rnd64 q =
     (if q \<le> 0 then 0
      else let e = ilog2 q - 52 in of_int (round_even (q / pow2 e)) * pow2 e)"

definition f64_of_int :: "int \<Rightarrow> rat" where
  "f64_of_int i = rnd64 (of_int i)"

definition f64_add :: "rat \<Rightarrow> rat \<Rightarrow> rat" where
  "f64_add a b = rnd64 (a + b)"

definition f64_div :: "rat \<Rightarrow> rat \<Rightarrow> rat" where
  "f64_div a b = rnd64 (a / b)"

definition f64_mul :: "rat \<Rightarrow> rat \<Rightarrow> rat" where
  "f64_mul a b = rnd64 (a * b)"

section \<open>Rounding keeps the sign and is monotone\<close>

lemma round_even_near: "\<bar>of_int (round_even q) - q\<bar> \<le> 1 / 2"
proof -
  have "of_int \<lfloor>q\<rfloor> \<le> q" "q < of_int \<lfloor>q\<rfloor> + 1" by linarith+
  then show ?thesis by (auto simp: round_even_def Let_def)
qed

lemma round_even_int [simp]: "round_even (of_int i) = i"
  by (simp add: round_even_def)

lemma round_even_mono: "p \<le> q \<Longrightarrow> round_even p \<le> round_even q"
proof (cases "\<lfloor>p\<rfloor> = \<lfloor>q\<rfloor>")
  case True
  assume "p \<le> q"
  with True show ?thesis by (auto simp: round_even_def Let_def)
next
  case False
  assume "p \<le> q"
  with False have "\<lfloor>p\<rfloor> + 1 \<le> \<lfloor>q\<rfloor>" using floor_mono [of p q] by linarith
  moreover have "round_even p \<le> \<lfloor>p\<rfloor> + 1" "\<lfloor>q\<rfloor> \<le> round_even q"
    by (auto simp: round_even_def Let_def)
  ultimately show ?thesis by linarith
qed

lemma ilog2_bounds:
  assumes "0 < q"
  shows "pow2 (ilog2 q) \<le> q \<and> q < pow2 (ilog2 q + 1)"
proof -
  obtain a b where ab: "quotient_of q = (a, b)" by (cases "quotient_of q")
  have b: "0 < b" using quotient_of_denom_pos [OF ab] .
  have q: "q = of_int a / of_int b" using quotient_of_div [OF ab] .
  with assms b have a: "0 < a" by (simp add: zero_less_divide_iff)
  define m where "m = int (bits (nat a))"
  define n where "n = int (bits (nat b))"
  have pn: "pow2 (int k) = of_nat (2 ^ k)" for k by (simp add: pow2_def)
  have bd: "pow2 (int (bits (nat x)) - 1) \<le> of_int x \<and> of_int x < pow2 (int (bits (nat x)))"
    if "0 < x" for x
  proof -
    from that have x: "0 < nat x" by simp
    from bits_bounds [OF x] have lo: "2 ^ (bits (nat x) - 1) \<le> nat x" and hi: "nat x < 2 ^ bits (nat x)"
      by auto
    have "bits (nat x) \<noteq> 0" using x by (subst bits.simps) simp
    then have e: "int (bits (nat x)) - 1 = int (bits (nat x) - 1)" by simp
    have "of_int x = (of_nat (nat x) :: rat)" using that by simp
    with lo hi show ?thesis unfolding e pn by (metis of_nat_le_iff of_nat_less_iff)
  qed
  have A: "pow2 (m - 1) \<le> of_int a" "of_int a < pow2 m" using bd [OF a] by (auto simp: m_def)
  have B: "pow2 (n - 1) \<le> of_int b" "of_int b < pow2 n" using bd [OF b] by (auto simp: n_def)
  have b': "(0::rat) < of_int b" using b by simp
  have up: "q < pow2 (m - n + 1)"
  proof -
    have "pow2 m \<le> pow2 (m - n + 1) * of_int b"
      using mult_left_mono [OF B(1), of "pow2 (m - n + 1)"] by (simp flip: pow2_add)
    with A(2) have "of_int a < pow2 (m - n + 1) * of_int b" by linarith
    with b' show ?thesis by (simp add: q divide_less_eq)
  qed
  have lo: "pow2 (m - n - 1) \<le> q"
  proof -
    have "pow2 (m - n - 1) * of_int b \<le> pow2 (m - 1)"
      using mult_left_mono [OF less_imp_le [OF B(2)], of "pow2 (m - n - 1)"]
      by (simp flip: pow2_add)
    with A(1) have "pow2 (m - n - 1) * of_int b \<le> of_int a" by linarith
    with b' show ?thesis by (simp add: q le_divide_eq)
  qed
  have "ilog2 q = (if pow2 (m - n) \<le> q then m - n else m - n - 1)"
    by (simp add: ilog2_def ab m_def n_def Let_def)
  with up lo show ?thesis by auto
qed

lemma pow2_mono: "a \<le> b \<Longrightarrow> pow2 a \<le> pow2 b"
proof -
  assume "a \<le> b"
  then have "pow2 b = pow2 a * 2 ^ nat (b - a)"
    using pow2_add [of a "b - a"] by (simp add: pow2_def)
  then show ?thesis by simp
qed

lemma ilog2_mono:
  assumes "0 < p" "p \<le> q"
  shows "ilog2 p \<le> ilog2 q"
proof (rule ccontr)
  assume "\<not> ilog2 p \<le> ilog2 q"
  then have "pow2 (ilog2 q + 1) \<le> pow2 (ilog2 p)" by (intro pow2_mono) simp
  moreover have "q < pow2 (ilog2 q + 1)" "pow2 (ilog2 p) \<le> p"
    using ilog2_bounds [of q] ilog2_bounds [of p] assms by auto
  ultimately show False using assms by linarith
qed

lemma pow2_split: "pow2 e * pow2 (- e) = 1"
  using pow2_add [of e "- e"] by (simp add: pow2_def)

lemma scaled_ilog2:
  assumes "0 < q"
  shows "2 ^ 52 \<le> q / pow2 (ilog2 q - 52)" and "q / pow2 (ilog2 q - 52) < 2 ^ 53"
proof -
  have "pow2 (ilog2 q) = pow2 (ilog2 q - 52) * 2 ^ 52"
    using pow2_up [of "ilog2 q - 52" 52] by simp
  moreover have "pow2 (ilog2 q + 1) = pow2 (ilog2 q - 52) * 2 ^ 53"
    using pow2_up [of "ilog2 q - 52" 53] by (simp add: add.commute)
  ultimately show "2 ^ 52 \<le> q / pow2 (ilog2 q - 52)" "q / pow2 (ilog2 q - 52) < 2 ^ 53"
    using ilog2_bounds [OF assms] by (simp_all add: le_divide_eq divide_less_eq mult.commute)
qed

lemma rnd64_window:
  assumes "0 < q"
  shows "pow2 (ilog2 q) \<le> rnd64 q" and "rnd64 q \<le> pow2 (ilog2 q + 1)"
proof -
  let ?e = "ilog2 q - 52" and ?m = "q / pow2 (ilog2 q - 52)"
  have "round_even (of_int (2 ^ 52)) \<le> round_even ?m" "round_even ?m \<le> round_even (of_int (2 ^ 53))"
    using scaled_ilog2 [OF assms] by (auto intro!: round_even_mono)
  then have m: "2 ^ 52 \<le> round_even ?m" "round_even ?m \<le> 2 ^ 53"
    unfolding round_even_int by auto
  have r: "rnd64 q = of_int (round_even ?m) * pow2 ?e" using assms by (simp add: rnd64_def Let_def)
  have "of_int (2 ^ 52) * pow2 ?e \<le> rnd64 q" "rnd64 q \<le> of_int (2 ^ 53) * pow2 ?e"
    unfolding r using m by (intro mult_right_mono; simp only: of_int_le_iff; simp add: less_imp_le)+
  moreover have "of_int (2 ^ 52) * pow2 ?e = pow2 (ilog2 q)" "of_int (2 ^ 53) * pow2 ?e = pow2 (ilog2 q + 1)"
    using pow2_up [of ?e 52] pow2_up [of ?e 53] by (simp_all add: mult.commute add.commute)
  ultimately show "pow2 (ilog2 q) \<le> rnd64 q" "rnd64 q \<le> pow2 (ilog2 q + 1)" by simp_all
qed

lemma rnd64_nonneg: "0 \<le> rnd64 q"
proof (cases "0 < q")
  case True
  from rnd64_window(1) [OF this] pow2_pos [of "ilog2 q"] show ?thesis by linarith
qed (simp add: rnd64_def)

lemma rnd64_pos: "0 < q \<Longrightarrow> 0 < rnd64 q"
  using rnd64_window(1) [of q] pow2_pos [of "ilog2 q"] by linarith

lemma rnd64_0 [simp]: "rnd64 0 = 0"
  by (simp add: rnd64_def)

lemma rnd64_mono:
  assumes "p \<le> q"
  shows "rnd64 p \<le> rnd64 q"
proof (cases "0 < p")
  case False
  then show ?thesis using rnd64_nonneg by (simp add: rnd64_def)
next
  case True
  with assms have q: "0 < q" by linarith
  show ?thesis
  proof (cases "ilog2 p = ilog2 q")
    case eq: True
    have "p / pow2 (ilog2 q - 52) \<le> q / pow2 (ilog2 q - 52)"
      using assms by (simp add: divide_right_mono less_imp_le)
    from round_even_mono [OF this] show ?thesis
      using True q eq by (simp add: rnd64_def Let_def mult_right_mono less_imp_le)
  next
    case False
    with ilog2_mono [OF True assms] have "ilog2 p + 1 \<le> ilog2 q" by simp
    with pow2_mono rnd64_window(2) [OF True] rnd64_window(1) [OF q] show ?thesis
      by (meson order_trans)
  qed
qed

end
