(* ===== verification/Want_Lists.thy ===== *)
theory Want_Lists
  imports Pack Go_Float
begin

text \<open>
  The pure parts of wantsync/wantsync.go: which keys are wanted (\<open>Wants\<close>), how many of
  them one round asks for (\<open>splitWants\<close>), how they are dealt to the channels
  (\<open>dealWants\<close>, \<open>shardWants\<close>), how they travel (\<open>encodeKeys\<close>, \<open>decodeKeys\<close>), and
  whether all of them came (\<open>checkDelivered\<close>); the transfer accounting.
\<close>

definition maxWantsPerRound :: nat where "maxWantsPerRound = 32768"

definition split_wants :: "key list \<Rightarrow> nat \<Rightarrow> key list \<times> key list" where
  "split_wants wants mx =
     (if length wants \<le> mx then (wants, []) else (take mx wants, drop mx wants))"

section \<open>Which keys are wanted\<close>

definition is_missing :: "goerr \<Rightarrow> bool" where
  "is_missing e \<longleftrightarrow> as_missing e \<or> errors_is e StoreNotFound"

fun wants_loop ::
  "('w, 's, 'z) core_lib_scheme \<Rightarrow> 's \<Rightarrow> int \<Rightarrow> key set \<Rightarrow> key list \<Rightarrow> key list \<Rightarrow> goerr + key list" where
  "wants_loop lib st jobs seen acc [] = Inr acc"
| "wants_loop lib st jobs seen acc (k # ks) =
     (if k \<in> seen then wants_loop lib st jobs seen acc ks
      else
        (case st_has lib st k of
           Inl e \<Rightarrow> Inl e
         | Inr ok \<Rightarrow>
             if \<not> ok then wants_loop lib st jobs (insert k seen) (acc @ [k]) ks
             else
               (case check_complete lib k (st_get lib st) (st_has lib st) jobs of
                  None \<Rightarrow> wants_loop lib st jobs (insert k seen) acc ks
                | Some e \<Rightarrow>
                    if is_missing e then wants_loop lib st jobs (insert k seen) (acc @ [k]) ks
                    else Inl e)))"

definition wants ::
  "('w, 's, 'z) core_lib_scheme \<Rightarrow> 's \<Rightarrow> key list \<Rightarrow> int \<Rightarrow> goerr + key list" where
  "wants lib st frontier jobs = wants_loop lib st jobs {} [] frontier"

section \<open>Keys on the wire\<close>

definition encode_keys :: "key list \<Rightarrow> bytes list" where
  "encode_keys ks = map key_bytes ks"

fun decode_keys :: "('w, 's, 'z) core_lib_scheme \<Rightarrow> bytes list \<Rightarrow> goerr + key list" where
  "decode_keys lib [] = Inr []"
| "decode_keys lib (b # bs) =
     (case key_parse lib b of
        Inl e \<Rightarrow> Inl e
      | Inr k \<Rightarrow> (case decode_keys lib bs of Inl e \<Rightarrow> Inl e | Inr ks \<Rightarrow> Inr (k # ks)))"

definition wants_msg :: "key list \<Rightarrow> msg" where
  "wants_msg ks = zero_msg\<lparr>mType := TWants, mKeys := encode_keys ks\<rparr>"

definition dedupe_keys :: "key list \<Rightarrow> key list" where
  "dedupe_keys ks = dedup_seen {} ks"

section \<open>Accounting\<close>

text \<open>
  \<open>keyBytes\<close> adds up in Go's \<open>int64\<close>, which wraps around.  A \<open>Progress\<close> observer is
  modelled by the totals reported to it (its calls are independent of how reads and
  goroutines interleave only in total); \<open>None\<close> is the nil observer, which is ignored.
\<close>

fun key_bytes_sum :: "('w, 's, 'z) core_lib_scheme \<Rightarrow> 64 word \<Rightarrow> key list \<Rightarrow> 64 word" where
  "key_bytes_sum lib n [] = n"
| "key_bytes_sum lib n (k # ks) = key_bytes_sum lib (n + key_length lib k) ks"

record progress =
  pgReqObjs :: int
  pgReqBytes :: "64 word"
  pgXferObjs :: int
  pgXferBytes :: int
  pgWire :: int

definition prog_requested :: "int \<Rightarrow> 64 word \<Rightarrow> progress option \<Rightarrow> progress option" where
  "prog_requested n b = map_option (\<lambda>p. p\<lparr>pgReqObjs := pgReqObjs p + n, pgReqBytes := pgReqBytes p + b\<rparr>)"

definition prog_transferred :: "int \<Rightarrow> int \<Rightarrow> progress option \<Rightarrow> progress option" where
  "prog_transferred n b = map_option (\<lambda>p. p\<lparr>pgXferObjs := pgXferObjs p + n, pgXferBytes := pgXferBytes p + b\<rparr>)"

definition prog_wire :: "int \<Rightarrow> progress option \<Rightarrow> progress option" where
  "prog_wire n = map_option (\<lambda>p. p\<lparr>pgWire := pgWire p + n\<rparr>)"

text \<open>
  The counters of a transfer are \<open>int\<close> and \<open>int64\<close> in the code.  They only grow, by at most the number of
  keys of a round and the bytes of a frame, and are unbounded here: 2 to the 63 is out of reach.
  The sum of the lengths that keys announce is not bounded by anything, and keeps its 64 bits.
\<close>

record stats =
  stRounds :: nat
  stRequested :: nat
  stReceived :: nat
  stBytes :: int

section \<open>Dealing keys to channels\<close>

fun shard_loop :: "nat \<Rightarrow> nat \<Rightarrow> key list list \<Rightarrow> key list \<Rightarrow> key list list" where
  "shard_loop i n shards [] = shards"
| "shard_loop i n shards (k # ks) =
     shard_loop (Suc i) n (shards[i mod n := shards ! (i mod n) @ [k]]) ks"

definition shard_wants :: "key list \<Rightarrow> nat \<Rightarrow> goerr + key list list" where
  "shard_wants ks n =
     (if n = 0 \<and> ks \<noteq> [] then Inl (GoPanic ''integer divide by zero'')
      else Inr (shard_loop 0 n (replicate n []) ks))"

text \<open>
  The inner loop of \<open>dealWants\<close> over the channels \<open>1, ..., n - 1\<close>: a channel takes over when
  its ratio of assigned bytes to weight is strictly smaller.
\<close>

definition ratio :: "rat list \<Rightarrow> rat list \<Rightarrow> nat \<Rightarrow> rat" where
  "ratio assigned w i = f64_div (assigned ! i) (w ! i)"

fun best_channel :: "rat list \<Rightarrow> rat list \<Rightarrow> nat \<Rightarrow> nat list \<Rightarrow> nat" where
  "best_channel assigned w best [] = best"
| "best_channel assigned w best (i # is) =
     best_channel assigned w (if ratio assigned w i < ratio assigned w best then i else best) is"

definition key_weight :: "('w, 's, 'z) core_lib_scheme \<Rightarrow> key \<Rightarrow> rat" where
  "key_weight lib k = (let b = f64_of_int (uint (key_length lib k)) in if b < 1 then 1 else b)"

fun deal_loop ::
  "('w, 's, 'z) core_lib_scheme \<Rightarrow> rat list \<Rightarrow> rat list \<Rightarrow> key list list \<Rightarrow> key list \<Rightarrow> key list list" where
  "deal_loop lib w assigned shards [] = shards"
| "deal_loop lib w assigned shards (k # ks) =
     (let best = best_channel assigned w 0 [1..<length w] in
      deal_loop lib w (assigned[best := f64_add (assigned ! best) (key_weight lib k)])
        (shards[best := shards ! best @ [k]]) ks)"

definition channel_weight :: "int \<Rightarrow> rat" where
  "channel_weight wt = f64_of_int (if wt < 1 then 1 else wt)"

definition deal_wants ::
  "('w, 's, 'z) core_lib_scheme \<Rightarrow> key list \<Rightarrow> int list \<Rightarrow> goerr + key list list" where
  "deal_wants lib ks weights =
     (let n = length weights in
      if n = 1 then Inr [ks]
      else if n = 0 \<and> ks \<noteq> [] then Inl (GoPanic ''index out of range'')
      else Inr (deal_loop lib (map channel_weight weights) (replicate n 0) (replicate n []) ks))"

section \<open>Was everything delivered\<close>

fun missing_loop :: "key set \<Rightarrow> nat \<Rightarrow> key \<Rightarrow> key list \<Rightarrow> nat \<times> key" where
  "missing_loop received missing example [] = (missing, example)"
| "missing_loop received missing example (k # ks) =
     (if k \<in> received then missing_loop received missing example ks
      else missing_loop received (Suc missing) (if missing = 0 then k else example) ks)"

definition check_delivered :: "('w, 's, 'z) core_lib_scheme \<Rightarrow> key set \<Rightarrow> key list \<Rightarrow> goerr option" where
  "check_delivered lib received ks =
     (case missing_loop received 0 (Key []) ks of
        (missing, example) \<Rightarrow>
          if 0 < missing
          then Some (ErrorText (''sender omitted '' @ dec_nat missing @ '' of '' @ dec_nat (length ks) @
                 '' requested objects (e.g. '' @ key_string lib example @ '')''))
          else None)"

section \<open>Lemmas\<close>

lemma split_wants_append: "split_wants ks mx = (send, carry) \<Longrightarrow> send @ carry = ks"
  by (auto simp: split_wants_def split: if_splits)

lemma split_wants_send_le: "split_wants ks mx = (send, carry) \<Longrightarrow> length send \<le> mx"
  by (auto simp: split_wants_def split: if_splits)

lemma split_wants_Nil: "0 < mx \<Longrightarrow> split_wants ks mx = ([], carry) \<Longrightarrow> ks = [] \<and> carry = []"
  by (auto simp: split_wants_def split: if_splits)

definition pruned :: "('w, 's, 'z) core_lib_scheme \<Rightarrow> 's \<Rightarrow> int \<Rightarrow> key \<Rightarrow> bool" where
  "pruned lib st jobs k \<longleftrightarrow> st_has lib st k = Inr True \<and>
     check_complete lib k (st_get lib st) (st_has lib st) jobs = None"

lemma wants_loop_spec:
  "wants_loop lib st jobs seen acc ks = Inr res \<Longrightarrow>
     res = acc @ filter (\<lambda>k. \<not> pruned lib st jobs k) (dedup_seen seen ks)"
  by (induction lib st jobs seen acc ks rule: wants_loop.induct)
    (auto simp: pruned_def split: sum.splits if_splits option.splits)

lemma wants_filter:
  "wants lib st ks jobs = Inr res \<Longrightarrow> res = filter (\<lambda>k. \<not> pruned lib st jobs k) (dedup_seen {} ks)"
  by (auto simp: wants_def dest: wants_loop_spec)

lemma pruned_complete: "check_law lib \<Longrightarrow> pruned lib st jobs k \<longleftrightarrow> st_has lib st k = Inr True \<and> tree_complete lib st k"
  by (simp add: pruned_def check_law_def)

subsection \<open>Dealing\<close>

lemma best_channel_mem: "best_channel a w b is \<in> insert b (set is)"
  by (induction a w b "is" rule: best_channel.induct) auto

lemma best_channel_least:
  "i \<in> insert b (set is) \<Longrightarrow> ratio a w (best_channel a w b is) \<le> ratio a w i"
proof (induction a w b "is" arbitrary: i rule: best_channel.induct)
  case (2 a w b j js)
  let ?b = "if ratio a w j < ratio a w b then j else b"
  have le: "ratio a w (best_channel a w ?b js) \<le> ratio a w ?b" using "2.IH" [of ?b] by simp
  show ?case
  proof (cases "i \<in> insert ?b (set js)")
    case True
    with "2.IH" show ?thesis by simp
  next
    case False
    with "2.prems" have "ratio a w ?b \<le> ratio a w i" by (auto split: if_splits)
    with le show ?thesis by simp
  qed
qed simp

lemma best_channel_first:
  "sorted_wrt (<) (b # is) \<Longrightarrow> i \<in> insert b (set is) \<Longrightarrow> i < best_channel a w b is \<Longrightarrow>
     ratio a w (best_channel a w b is) < ratio a w i"
proof (induction a w b "is" arbitrary: i rule: best_channel.induct)
  case (2 a w b j js)
  let ?b = "if ratio a w j < ratio a w b then j else b"
  let ?r = "best_channel a w ?b js"
  have srt: "sorted_wrt (<) (?b # js)" using "2.prems"(1) by (auto split: if_splits)
  have le: "ratio a w ?r \<le> ratio a w ?b" by (rule best_channel_least) simp
  show ?case
  proof (cases "i \<in> insert ?b (set js)")
    case True
    with "2.IH" [OF srt True] "2.prems"(3) show ?thesis by simp
  next
    case False
    with "2.prems"(2) consider "i = b" "ratio a w j < ratio a w b" | "i = j" "\<not> ratio a w j < ratio a w b"
      by (auto split: if_splits)
    then show ?thesis
    proof cases
      case 1
      with le show ?thesis by simp
    next
      case 2
      with "2.prems"(3) have "?r \<noteq> b" and "j < ?r" using "2.prems"(1) by auto
      moreover have "b < ?r" using calculation(2) "2.prems"(1) by auto
      ultimately have "ratio a w ?r < ratio a w b"
        using "2.IH" [OF srt, of b] 2 by auto
      with 2 show ?thesis by simp
    qed
  qed
qed simp

lemma best_channel_lt: "w \<noteq> [] \<Longrightarrow> best_channel a w 0 [1..<length w] < length w"
  using best_channel_mem [of a w 0 "[1..<length w]"] by auto

lemma channel_weight_pos: "0 < channel_weight wt"
  unfolding channel_weight_def f64_of_int_def by (rule rnd64_pos) simp

lemma key_weight_pos: "0 < key_weight lib k"
  by (auto simp: key_weight_def Let_def not_less intro: order.strict_trans2 [of 0 1])

lemma f64_add_pos: "0 \<le> a \<Longrightarrow> 0 < b \<Longrightarrow> 0 < f64_add a b"
  unfolding f64_add_def by (rule rnd64_pos) simp

lemma f64_div_pos_iff: "0 \<le> a \<Longrightarrow> 0 < b \<Longrightarrow> 0 < f64_div a b \<longleftrightarrow> 0 < a"
  using rnd64_pos [of "a / b"] by (cases "a = 0") (auto simp: f64_div_def)

lemma f64_div_nonneg: "0 \<le> f64_div a b"
  by (simp add: f64_div_def rnd64_nonneg)

lemma mset_concat_snoc:
  "i < length xs \<Longrightarrow> mset (concat (xs[i := xs ! i @ [k]])) = add_mset k (mset (concat xs))"
proof -
  assume i: "i < length xs"
  then have "xs[i := xs ! i @ [k]] = take i xs @ (xs ! i @ [k]) # drop (Suc i) xs"
    by (simp add: upd_conv_take_nth_drop)
  moreover have "concat xs = concat (take i xs @ xs ! i # drop (Suc i) xs)"
    using id_take_nth_drop [OF i] by metis
  ultimately show ?thesis by simp
qed

text \<open>The loop invariant: nothing assigned yet exactly where the shard is empty.\<close>

definition deal_inv :: "rat list \<Rightarrow> rat list \<Rightarrow> key list list \<Rightarrow> bool" where
  "deal_inv w assigned shards \<longleftrightarrow> w \<noteq> [] \<and> length assigned = length w \<and> length shards = length w \<and>
     (\<forall>i<length w. 0 < w ! i \<and> 0 \<le> assigned ! i \<and> (assigned ! i = 0 \<longleftrightarrow> shards ! i = []))"

lemma deal_inv_step:
  assumes "deal_inv w a sh" and "b < length w"
  shows "deal_inv w (a[b := f64_add (a ! b) (key_weight lib k)]) (sh[b := sh ! b @ [k]])"
proof -
  have "0 < f64_add (a ! b) (key_weight lib k)"
    using assms by (intro f64_add_pos key_weight_pos) (simp add: deal_inv_def)
  with assms show ?thesis by (auto simp: deal_inv_def nth_list_update)
qed

lemma deal_inv_init: "weights \<noteq> [] \<Longrightarrow>
    deal_inv (map channel_weight weights) (replicate (length weights) 0) (replicate (length weights) [])"
  by (simp add: deal_inv_def channel_weight_pos)

lemma deal_loop_mset:
  "deal_inv w a sh \<Longrightarrow> length (deal_loop lib w a sh ks) = length w \<and>
     mset (concat (deal_loop lib w a sh ks)) = mset (concat sh) + mset ks"
proof (induction lib w a sh ks rule: deal_loop.induct)
  case (2 lib w a sh k ks)
  have b: "best_channel a w 0 [1..<length w] < length w"
    using 2(2) by (intro best_channel_lt) (simp add: deal_inv_def)
  with 2(1) [OF refl deal_inv_step [OF 2(2) b]] 2(2) show ?case
    by (simp add: Let_def deal_inv_def mset_concat_snoc)
qed (simp add: deal_inv_def)

lemma deal_loop_subseq:
  "deal_inv w a sh \<Longrightarrow> i < length w \<Longrightarrow> \<exists>t. deal_loop lib w a sh ks ! i = sh ! i @ t \<and> subseq t ks"
proof (induction lib w a sh ks rule: deal_loop.induct)
  case (2 lib w a sh k ks)
  define b where "b = best_channel a w 0 [1..<length w]"
  have bl: "b < length w"
    unfolding b_def using 2(2) by (intro best_channel_lt) (simp add: deal_inv_def)
  from 2(1) [OF b_def deal_inv_step [OF 2(2) bl] 2(3)] obtain t where
    t: "deal_loop lib w (a[b := f64_add (a ! b) (key_weight lib k)]) (sh[b := sh ! b @ [k]]) ks ! i =
        sh[b := sh ! b @ [k]] ! i @ t" "subseq t ks" by blast
  have step: "deal_loop lib w a sh (k # ks) =
      deal_loop lib w (a[b := f64_add (a ! b) (key_weight lib k)]) (sh[b := sh ! b @ [k]]) ks"
    by (simp only: deal_loop.simps Let_def b_def)
  have "length sh = length w" using 2(2) by (simp add: deal_inv_def)
  with t bl show ?case unfolding step
    by (cases "i = b") (auto intro: exI [of _ "k # t"] exI [of _ t])
qed simp

text \<open>While a channel has nothing, the next key goes to such a channel.\<close>

lemma best_channel_empty:
  assumes "deal_inv w a sh" and "i < length w" and "sh ! i = []"
  shows "sh ! best_channel a w 0 [1..<length w] = []"
proof -
  let ?b = "best_channel a w 0 [1..<length w]"
  have b: "?b < length w" using assms(2) by (intro best_channel_lt) auto
  have i: "i \<in> insert 0 (set [1..<length w])" using assms(2) by auto
  have "a ! i = 0" using assms by (simp add: deal_inv_def)
  then have "ratio a w i = 0" by (simp add: ratio_def f64_div_def)
  with best_channel_least [OF i, of a w] have "\<not> 0 < ratio a w ?b" by simp
  with b assms(1) show ?thesis
    by (auto simp: ratio_def deal_inv_def f64_div_pos_iff order.not_eq_order_implies_strict)
qed

definition n_empty :: "'a list list \<Rightarrow> nat" where
  "n_empty sh = length (filter (\<lambda>s. s = []) sh)"

lemma n_empty_update:
  assumes "b < length sh" and "s \<noteq> []"
  shows "n_empty (sh[b := s]) = n_empty sh - (if sh ! b = [] then 1 else 0)"
proof -
  have "sh[b := s] = take b sh @ s # drop (Suc b) sh" using assms(1) by (simp add: upd_conv_take_nth_drop)
  moreover have "n_empty sh = n_empty (take b sh @ sh ! b # drop (Suc b) sh)"
    using id_take_nth_drop [OF assms(1)] by metis
  ultimately show ?thesis using assms(2) by (simp add: n_empty_def)
qed

lemma n_empty_0: "n_empty sh = 0 \<longleftrightarrow> (\<forall>i<length sh. sh ! i \<noteq> [])"
  by (auto simp: n_empty_def filter_empty_conv in_set_conv_nth)

lemma deal_loop_empty:
  "deal_inv w a sh \<Longrightarrow> n_empty (deal_loop lib w a sh ks) = n_empty sh - length ks"
proof (induction lib w a sh ks rule: deal_loop.induct)
  case (2 lib w a sh k ks)
  define b where "b = best_channel a w 0 [1..<length w]"
  have bl: "b < length w"
    unfolding b_def using 2(2) by (intro best_channel_lt) (simp add: deal_inv_def)
  have len: "length sh = length w" using 2(2) by (simp add: deal_inv_def)
  have "n_empty (sh[b := sh ! b @ [k]]) = n_empty sh - 1"
  proof (cases "n_empty sh = 0")
    case True
    then show ?thesis using bl len by (subst n_empty_update) auto
  next
    case False
    then obtain i where "i < length w" "sh ! i = []" using len by (auto simp: n_empty_0)
    from best_channel_empty [OF 2(2) this] show ?thesis
      using bl len unfolding b_def [symmetric] by (subst n_empty_update) auto
  qed
  have step: "deal_loop lib w a sh (k # ks) =
      deal_loop lib w (a[b := f64_add (a ! b) (key_weight lib k)]) (sh[b := sh ! b @ [k]]) ks"
    by (simp only: deal_loop.simps Let_def b_def)
  with 2(1) [OF b_def deal_inv_step [OF 2(2) bl]] show ?case
    unfolding step by (simp add: \<open>n_empty (sh[b := sh ! b @ [k]]) = n_empty sh - 1\<close>)
qed simp

subsection \<open>Delivery\<close>

lemma missing_loop_count:
  "fst (missing_loop received n x ks) = n + length (filter (\<lambda>k. k \<notin> received) ks)"
  by (induction received n x ks rule: missing_loop.induct) auto

lemma missing_loop_example:
  "0 < n \<Longrightarrow> snd (missing_loop received n x ks) = x"
  by (induction received n x ks rule: missing_loop.induct) auto

lemma missing_loop_first:
  "filter (\<lambda>k. k \<notin> received) ks = y # ys \<Longrightarrow> snd (missing_loop received 0 x ks) = y"
  by (induction ks) (auto simp: missing_loop_example)

lemma check_delivered_None: "check_delivered lib received ks = None \<longleftrightarrow> set ks \<subseteq> received"
  using missing_loop_count [of received 0 "Key []" ks]
  by (auto simp: check_delivered_def filter_empty_conv split: prod.splits)

section \<open>Properties\<close>

text \<open>
  Claim C12 (wanted keys).  When \<open>Wants\<close> returns without an error, it returns the frontier
  without repetitions, in order, less exactly those keys whose object is present and whose whole
  subtree is complete: presence alone never prunes.
\<close>

theorem wants_exact:
  assumes "check_law lib" and "wants lib st frontier jobs = Inr ks"
  shows "ks = filter (\<lambda>k. \<not> (st_has lib st k = Inr True \<and> tree_complete lib st k)) (dedup_seen {} frontier)"
  using wants_filter [OF assms(2)] by (simp add: pruned_complete [OF assms(1)])

text \<open>The sample store: a root \<open>9\<close> with children \<open>4\<close> and \<open>3\<close>, of which \<open>3\<close> is absent.\<close>

definition partial_store :: sample_store where
  "partial_store = [(Key [9], [9, 4, 3]), (Key [4], [4])]"

lemma partial_check_9: "sample_check 257 (sample_get partial_store) (Key [9]) = Some StoreNotFound"
  by (simp add: sample_check_numeral partial_store_def sample_get_def sample_children_def)

lemma partial_check_4: "sample_check 257 (sample_get partial_store) (Key [4]) = None"
  by (simp add: sample_check_numeral partial_store_def sample_get_def sample_children_def)

lemma partial_wants: "wants pack_sample partial_store [Key [4], Key [9], Key [9], Key [3]] 0 = Inr [Key [9], Key [3]]"
  using partial_check_9 partial_check_4
  by (simp add: wants_def sample_lib_def sample_has_def is_missing_def partial_store_def)

theorem wants_exact_witness:
  "[Key [9], Key [3]] = filter (\<lambda>k. \<not> (st_has pack_sample partial_store k = Inr True \<and>
     tree_complete pack_sample partial_store k)) (dedup_seen {} [Key [4], Key [9], Key [9], Key [3]])"
  using wants_exact [OF sample_check_law partial_wants] .

text \<open>
  Rounds are capped.  \<open>splitWants\<close> loses and reorders nothing, sends at most the cap,
  and never produces an empty request while something is wanted (an empty request would end
  the transfer).
\<close>

theorem split_wants_sound:
  assumes "0 < mx"
  shows "fst (split_wants ks mx) @ snd (split_wants ks mx) = ks \<and>
    length (fst (split_wants ks mx)) \<le> mx \<and> (fst (split_wants ks mx) = [] \<longleftrightarrow> ks = [])"
  using assms by (auto simp: split_wants_def)

theorem split_wants_witness:
  "fst (split_wants [Key [1], Key [2], Key [3]] 2) = [Key [1], Key [2]] \<and>
   fst (split_wants [Key [1], Key [2], Key [3]] 2) @ snd (split_wants [Key [1], Key [2], Key [3]] 2) =
     [Key [1], Key [2], Key [3]]"
  using split_wants_sound [of 2 "[Key [1], Key [2], Key [3]]"] by (simp add: split_wants_def)

text \<open>
  Fact (dealing is a partition).  \<open>dealWants\<close> makes one shard per channel; together the
  shards hold every wanted key exactly as often as it is wanted, and each shard keeps the order
  of the request.
\<close>

theorem deal_partition:
  assumes "deal_wants lib ks weights = Inr shards"
  shows "length shards = length weights \<and> mset (concat shards) = mset ks \<and> (\<forall>s\<in>set shards. subseq s ks)"
proof (cases "length weights \<le> 1")
  case True
  with assms show ?thesis by (cases weights) (auto simp: deal_wants_def split: if_splits)
next
  case False
  then have "weights \<noteq> []" by auto
  note inv = deal_inv_init [OF this]
  have sh: "shards = deal_loop lib (map channel_weight weights) (replicate (length weights) 0)
      (replicate (length weights) []) ks"
    using assms False by (auto simp: deal_wants_def Let_def split: if_splits)
  have "mset (concat (replicate n [] :: key list list)) = {#}" for n by (induction n) auto
  moreover have "subseq (shards ! i) ks" if "i < length weights" for i
    using deal_loop_subseq [OF inv, of i lib ks] that by (auto simp: sh)
  ultimately show ?thesis
    using deal_loop_mset [OF inv, of lib ks] by (auto simp: sh [symmetric] in_set_conv_nth)
qed

definition heavy_keys :: "key list" where
  "heavy_keys = [Key [200], Key [10], Key [20], Key [30]]"

theorem deal_partition_witness:
  "\<exists>shards. deal_wants pack_sample heavy_keys [5, 0, 2] = Inr shards \<and> length shards = 3 \<and>
     mset (concat shards) = mset heavy_keys"
proof -
  obtain shards where d: "deal_wants pack_sample heavy_keys [5, 0, 2] = Inr shards"
    by (auto simp: deal_wants_def)
  from deal_partition [OF d] d show ?thesis by auto
qed

text \<open>
  Claim C27 (no channel is locked out).  Whatever the measured weights, zero and negative ones
  included, the number of channels that get nothing in a round is the number of channels less
  the number of keys: with at least as many keys as channels every channel gets work.
\<close>

theorem deal_no_starvation:
  assumes "deal_wants lib ks weights = Inr shards" and "weights \<noteq> []"
  shows "n_empty shards = length weights - length ks"
proof (cases "length weights = 1")
  case True
  with assms(1) have "shards = [ks]" by (simp add: deal_wants_def)
  with True show ?thesis by (cases ks) (simp_all add: n_empty_def)
next
  case False
  then have sh: "shards = deal_loop lib (map channel_weight weights) (replicate (length weights) 0)
      (replicate (length weights) []) ks"
    using assms by (auto simp: deal_wants_def Let_def split: if_splits)
  have "n_empty (replicate n [] :: key list list) = n" for n by (induction n) (auto simp: n_empty_def)
  with deal_loop_empty [OF deal_inv_init [OF assms(2)]] show ?thesis unfolding sh by simp
qed

theorem deal_no_starvation_witness:
  "\<exists>shards. deal_wants pack_sample heavy_keys [900000, -3, 0] = Inr shards \<and> n_empty shards = 0"
proof -
  obtain shards where d: "deal_wants pack_sample heavy_keys [900000, -3, 0] = Inr shards"
    by (auto simp: deal_wants_def)
  from deal_no_starvation [OF d] d show ?thesis by (simp add: heavy_keys_def)
qed

text \<open>
  Greedy choice.  The channel a key goes to has the lowest ratio of assigned bytes to
  weight of all channels, computed in \<open>float64\<close>, and is the first channel with that ratio.
\<close>

theorem deal_greedy:
  assumes "w \<noteq> []"
  shows "best_channel a w 0 [1..<length w] < length w \<and>
    (\<forall>i<length w. ratio a w (best_channel a w 0 [1..<length w]) \<le> ratio a w i) \<and>
    (\<forall>i<best_channel a w 0 [1..<length w]. ratio a w (best_channel a w 0 [1..<length w]) < ratio a w i)"
proof -
  let ?b = "best_channel a w 0 [1..<length w]"
  have b: "?b < length w" using best_channel_lt [OF assms] .
  have "sorted_wrt (<) (0 # [1..<length w])" by (auto simp: sorted_wrt_upt)
  then have "ratio a w ?b < ratio a w i" if "i < ?b" for i
    using that b by (intro best_channel_first) auto
  moreover have "ratio a w ?b \<le> ratio a w i" if "i < length w" for i
    using that by (intro best_channel_least) auto
  ultimately show ?thesis using b by blast
qed

theorem deal_greedy_witness:
  "best_channel [3, 1, 1] [1, 1, 1] 0 [1..<3] < 3 \<and>
   ratio [3, 1, 1] [1, 1, 1] (best_channel [3, 1, 1] [1, 1, 1] 0 [1..<3]) \<le> ratio [3, 1, 1] [1, 1, 1] 1"
  using deal_greedy [of "[1, 1, 1]" "[3, 1, 1]"] by (simp add: numeral_eq_Suc)

text \<open>
  Fact (delivery check).  \<open>checkDelivered\<close> is silent exactly when every requested key came
  in the packs; otherwise its error names how many of how many are missing and the first
  missing key.
\<close>

theorem check_delivered_exact:
  "check_delivered lib received ks =
    (case filter (\<lambda>k. k \<notin> received) ks of
       [] \<Rightarrow> None
     | y # ys \<Rightarrow> Some (ErrorText (''sender omitted '' @ dec_nat (Suc (length ys)) @ '' of '' @
         dec_nat (length ks) @ '' requested objects (e.g. '' @ key_string lib y @ '')'')))"
proof (cases "filter (\<lambda>k. k \<notin> received) ks")
  case Nil
  then show ?thesis using missing_loop_count [of received 0 "Key []" ks]
    by (auto simp: check_delivered_def split: prod.splits)
next
  case (Cons y ys)
  then show ?thesis
    using missing_loop_count [of received 0 "Key []" ks] missing_loop_first [OF Cons, of "Key []"]
    by (auto simp: check_delivered_def split: prod.splits)
qed

lemma key_bytes_sum_unat:
  "unat n + (\<Sum>k\<leftarrow>ks. unat (key_length lib k)) < 2 ^ 64 \<Longrightarrow>
     unat (key_bytes_sum lib n ks) = unat n + (\<Sum>k\<leftarrow>ks. unat (key_length lib k))"
proof (induction ks arbitrary: n)
  case (Cons k ks)
  have "unat (n + key_length lib k) = unat n + unat (key_length lib k)"
    using Cons.prems by (intro unat_add_lem [THEN iffD1]) simp
  with Cons show ?case by (simp add: add.assoc)
qed simp

text \<open>
  Accounting width.  The \<open>int64\<close> sum of \<open>keyBytes\<close> is the sum of the keys' logical
  lengths as long as that fits 63 bits.
\<close>

theorem key_bytes_exact:
  assumes "(\<Sum>k\<leftarrow>ks. unat (key_length lib k)) < 2 ^ 63"
  shows "sint (key_bytes_sum lib 0 ks) = (\<Sum>k\<leftarrow>ks. uint (key_length lib k))"
proof -
  let ?s = "key_bytes_sum lib 0 ks"
  have u: "unat ?s = (\<Sum>k\<leftarrow>ks. unat (key_length lib k))"
    using key_bytes_sum_unat [of 0 lib ks] assms by simp
  have i: "(\<Sum>k\<leftarrow>xs. uint (key_length lib k)) = int (\<Sum>k\<leftarrow>xs. unat (key_length lib k))" for xs
    by (induction xs) auto
  have lt: "uint ?s < 2 ^ 63"
    using u assms by (simp add: uint_nat)
  have "sint ?s = uint ?s"
    unfolding sint_uint using lt
    by (intro signed_take_bit_int_eq_self order_trans [OF _ uint_ge_0]) simp_all
  also have "\<dots> = int (unat ?s)" by (simp only: uint_nat)
  also have "\<dots> = (\<Sum>k\<leftarrow>ks. uint (key_length lib k))" by (simp only: u i)
  finally show ?thesis .
qed

theorem key_bytes_exact_witness:
  "sint (key_bytes_sum pack_sample 0 heavy_keys) = 260"
  using key_bytes_exact [of pack_sample heavy_keys] by (simp add: heavy_keys_def sample_lib_def)

text \<open>
  Key codec.  Keys that the library accepts survive a \<open>TWants\<close> frame: decoding
  what was encoded gives the same list.
\<close>

theorem key_codec_roundtrip:
  assumes "\<forall>k\<in>set ks. key_parse lib (key_bytes k) = Inr k"
  shows "decode_keys lib (encode_keys ks) = Inr ks"
  using assms by (induction ks) (simp_all add: encode_keys_def)

theorem key_codec_witness: "decode_keys pack_sample (encode_keys heavy_keys) = Inr heavy_keys"
  using key_codec_roundtrip [of heavy_keys pack_sample] by (simp add: heavy_keys_def sample_lib_def)

lemma shard_loop_nth:
  "length shards = n \<Longrightarrow> j < n \<Longrightarrow>
     length (shard_loop i n shards ks) = n \<and>
     shard_loop i n shards ks ! j = shards ! j @ nths ks {p. (i + p) mod n = j}"
proof (induction i n shards ks rule: shard_loop.induct)
  case (2 i n shards k ks)
  have "nths (k # ks) {p. (i + p) mod n = j} =
      (if i mod n = j then [k] else []) @ nths ks {p. (Suc i + p) mod n = j}"
    by (simp add: nths_Cons)
  with 2 show ?case by (auto simp: nth_list_update)
qed simp

text \<open>
  Round robin.  \<open>shardWants\<close> deals in turn: shard \<open>j\<close> holds the keys at the
  positions congruent to \<open>j\<close>, in order.
\<close>

theorem shard_wants_round_robin:
  assumes "j < n"
  shows "\<exists>shards. shard_wants ks n = Inr shards \<and> length shards = n \<and> shards ! j = nths ks {p. p mod n = j}"
  using assms shard_loop_nth [of "replicate n []" n j 0 ks] by (auto simp: shard_wants_def)

theorem shard_wants_witness:
  "\<exists>shards. shard_wants heavy_keys 3 = Inr shards \<and> length shards = 3 \<and> shards ! 1 = nths heavy_keys {p. p mod 3 = 1}"
  using shard_wants_round_robin [of 1 3 heavy_keys] by simp

end
