(* ===== verification/Receive_Loop.thy ===== *)
theory Receive_Loop
  imports Want_Lists
begin

text \<open>
  The receiving half of the want loop, \<open>Receive\<close> of wantsync/wantsync.go, with the counting
  and error-tracking readers it puts on its channels.  A round (the body of the \<open>for\<close> loop)
  is a function of the state and of a \<open>round_env\<close> that stands for what the scheduler decides:
  in which order the decoders' objects reach the one consumer, and how far a decoder had
  come when the consumer gave up.  The theorems hold for every environment.
\<close>

section \<open>Channels\<close>

text \<open>
  A channel with its \<open>countingReader\<close>: the bytes still to come, the sending side, and the
  count of bytes read.  A read reports its bytes to the \<open>Progress\<close>.
\<close>

record 'w channel =
  chIn :: instream
  chOut :: 'w
  chRead :: int

definition ch_read_to :: "instream \<Rightarrow> 'w channel \<Rightarrow> 'w channel" where
  "ch_read_to r c =
     c\<lparr>chIn := r, chRead := chRead c + (int (length (avail (chIn c))) - int (length (avail r)))\<rparr>"

definition wire_total :: "'w channel list \<Rightarrow> int" where
  "wire_total chans = (\<Sum>c\<leftarrow>chans. chRead c)"

text \<open>An observer that has been told nothing yet.\<close>

definition no_progress :: progress where
  "no_progress = \<lparr>pgReqObjs = 0, pgReqBytes = 0, pgXferObjs = 0, pgXferBytes = 0, pgWire = 0\<rparr>"

section \<open>Decoding one pack\<close>

text \<open>
  What the goroutine of one active channel does: the items it hands on (each with whether the
  pack reader had reported its end or an error when the item was decoded), its entry in
  \<open>decodeErrs\<close>, whether the reader's end or error had been seen by then, and whether it came
  to drain the pack through its \<open>TDataEnd\<close> frame.
\<close>

fun decode_items ::
  "('w, 's, 'z) core_lib_scheme \<Rightarrow> (object \<times> bool) list \<Rightarrow> goerr option \<Rightarrow> bool \<Rightarrow> goerr option \<Rightarrow>
     (object \<times> key list \<times> bool) list \<times> goerr option \<times> bool \<times> bool" where
  "decode_items lib [] e saw x =
     (case e of
        Some err \<Rightarrow> ([], Some err, saw, False)
      | None \<Rightarrow> ([], x, saw, True))"
| "decode_items lib ((ob, s) # obs) e saw x =
     (case child_keys lib (oKey ob) (oData ob) of
        Inl err \<Rightarrow> ([], Some err, s, False)
      | Inr kids \<Rightarrow>
          (case decode_items lib obs e saw x of
             (its, derr, saw', dr) \<Rightarrow> ((ob, kids, s) # its, derr, saw', dr)))"

text \<open>
  \<open>dTerm\<close> is the error the pack reader ends with (nil for \<open>io.EOF\<close>), which is what
  \<open>errTrackingReader\<close> records once it has been seen.
\<close>

record decoder =
  dIdx :: nat
  dItems :: "(object \<times> key list \<times> bool) list"
  dErr :: "goerr option"
  dSaw :: bool
  dDrained :: bool
  dTerm :: "goerr option"
  dRest :: instream

definition decode_channel ::
  "('w, 's, 'z) core_lib_scheme \<Rightarrow> 'c channel list \<Rightarrow> nat \<Rightarrow> decoder" where
  "decode_channel lib chans i =
     (case pr_read_all lib 4095 (new_pack_reader (chIn (chans ! i))) of
        (p, bs, x) \<Rightarrow>
          (case amber_read lib bs x of
             (obs, e, saw) \<Rightarrow>
               (case decode_items lib obs e saw x of
                  (its, derr, saw', dr) \<Rightarrow>
                    \<lparr>dIdx = i, dItems = its, dErr = derr, dSaw = saw', dDrained = dr,
                     dTerm = x, dRest = prR p\<rparr>)))"

section \<open>What the scheduler decides\<close>

record round_env =
  rePicks :: "nat list"
  reStops :: "nat \<Rightarrow> nat"
  reReads :: "nat \<Rightarrow> nat"

text \<open>
  The order in which the decoders' items reach the \<open>merged\<close> channel: any interleaving of
  their sequences, picked step by step.
\<close>

definition nonempty :: "'a list list \<Rightarrow> nat list" where
  "nonempty qs = filter (\<lambda>i. qs ! i \<noteq> []) [0..<length qs]"

lemma nonempty_Nil: "nonempty qs = [] \<longleftrightarrow> (\<forall>q\<in>set qs. q = [])"
  by (auto simp: nonempty_def filter_empty_conv set_conv_nth)

definition pick :: "nat list \<Rightarrow> 'a list list \<Rightarrow> nat" where
  "pick ps qs = nonempty qs ! ((case ps of [] \<Rightarrow> 0 | p # _ \<Rightarrow> p) mod length (nonempty qs))"

lemma pick_in: "nonempty qs \<noteq> [] \<Longrightarrow> pick ps qs \<in> set (nonempty qs)"
  by (simp add: pick_def)

lemma pick_nonempty: "nonempty qs \<noteq> [] \<Longrightarrow> pick ps qs < length qs \<and> qs ! pick ps qs \<noteq> []"
  using pick_in [of qs ps] by (simp add: nonempty_def)

lemma sum_length_upd:
  "i < length qs \<Longrightarrow> qs ! i \<noteq> [] \<Longrightarrow>
     Suc (sum_list (map length (qs[i := tl (qs ! i)]))) = sum_list (map length qs)"
proof (induction qs arbitrary: i)
  case (Cons q qs)
  then show ?case by (cases i) (auto simp: Suc_diff_Suc)
qed simp

function merge :: "nat list \<Rightarrow> 'a list list \<Rightarrow> 'a list" where
  "merge ps qs =
     (if nonempty qs = [] then []
      else hd (qs ! pick ps qs) # merge (tl ps) (qs[pick ps qs := tl (qs ! pick ps qs)]))"
  by pat_completeness auto
termination
proof (relation "measure (\<lambda>(ps, qs). sum_list (map length qs))")
  fix ps and qs :: "'a list list"
  assume "nonempty qs \<noteq> []"
  from pick_nonempty [OF this, of ps] sum_length_upd [of "pick ps qs" qs]
  show "((tl ps, qs[pick ps qs := tl (qs ! pick ps qs)]), ps, qs) \<in> measure (\<lambda>(ps, qs). sum_list (map length qs))"
    by simp
qed simp

declare merge.simps [simp del]

text \<open>
  One decoder when the consumer took everything, and when the consumer gave up: it then
  stopped at item \<open>stop\<close> (which it had decoded but could not hand on), or ran to its end.
  The result is the error its tracking reader holds and its entry in \<open>decodeErrs\<close>.
\<close>

definition decoder_errs :: "bool \<Rightarrow> nat \<Rightarrow> decoder \<Rightarrow> goerr option \<times> goerr option" where
  "decoder_errs all_taken stop d =
     (if \<not> all_taken \<and> stop < length (dItems d)
      then (if snd (snd (dItems d ! stop)) then dTerm d else None, None)
      else (if dSaw d then dTerm d else None, dErr d))"

text \<open>Whether that decoder's channel was read up to the end of its pack.\<close>

definition decoder_read_all :: "bool \<Rightarrow> nat \<Rightarrow> decoder \<Rightarrow> bool" where
  "decoder_read_all all_taken stop d \<longleftrightarrow>
     (if \<not> all_taken \<and> stop < length (dItems d) then snd (snd (dItems d ! stop))
      else dSaw d \<or> dDrained d)"

definition read_decoder :: "bool \<Rightarrow> nat \<Rightarrow> nat \<Rightarrow> decoder \<Rightarrow> 'w channel list \<Rightarrow> 'w channel list" where
  "read_decoder all_taken stop k d chans =
     (let c = chans ! dIdx d;
          r = (if decoder_read_all all_taken stop d then dRest d
               else (chIn c)\<lparr>avail := drop (min k (length (avail (chIn c)) - length (avail (dRest d)))) (avail (chIn c))\<rparr>) in
      chans[dIdx d := ch_read_to r c])"

section \<open>The state of the loop and its rounds\<close>

record ('w, 's) rstate =
  rsChans :: "'w channel list"
  rsStore :: 's
  rsFrontier :: "key list"
  rsPrev :: "int list"
  rsStats :: stats
  rsProg :: "progress option"

datatype outcome = Finished | Failed goerr | Again

text \<open>The closing empty \<open>TWants\<close>, to every channel.\<close>

fun send_finals ::
  "'a wire_lib_scheme \<Rightarrow> 'w writer \<Rightarrow> 'w channel list \<Rightarrow> 'w channel list \<times> goerr option" where
  "send_finals lib wr [] = ([], None)"
| "send_finals lib wr (c # cs) =
     (case write_msg lib wr (chOut c) (zero_msg\<lparr>mType := TWants\<rparr>) of
        (w, Some e) \<Rightarrow> (c\<lparr>chOut := w\<rparr> # cs, Some e)
      | (w, None) \<Rightarrow>
          (case send_finals lib wr cs of (cs', e) \<Rightarrow> (c\<lparr>chOut := w\<rparr> # cs', e)))"

text \<open>One \<open>TWants\<close> per non-empty shard; the result names the active channels.\<close>

fun send_shards ::
  "('p, 's, 'z) core_lib_scheme \<Rightarrow> 'w writer \<Rightarrow> nat \<Rightarrow> key list list \<Rightarrow> 'w channel list \<Rightarrow>
     'w channel list \<times> nat list \<times> goerr option" where
  "send_shards lib wr i [] chans = (chans, [], None)"
| "send_shards lib wr i (shard # shards) chans =
     (if shard = [] then send_shards lib wr (Suc i) shards chans
      else
        (case write_msg lib wr (chOut (chans ! i)) (wants_msg shard) of
           (w, Some e) \<Rightarrow> (chans[i := (chans ! i)\<lparr>chOut := w\<rparr>], [], Some e)
         | (w, None) \<Rightarrow>
             (case send_shards lib wr (Suc i) shards (chans[i := (chans ! i)\<lparr>chOut := w\<rparr>]) of
                (chans', is, e) \<Rightarrow> (chans', i # is, e))))"

text \<open>The error a round ends with: a tracked remote error, else the decode errors, else the
  store's, else what \<open>checkDelivered\<close> says.\<close>

definition round_err ::
  "('p, 's, 'z) core_lib_scheme \<Rightarrow> (goerr option \<times> goerr option) list \<Rightarrow> goerr option \<Rightarrow>
     key set \<Rightarrow> key list \<Rightarrow> goerr option" where
  "round_err lib errs werr received ks =
     (case find (\<lambda>t. case t of None \<Rightarrow> False | Some e \<Rightarrow> as_remote e \<noteq> None) (map fst errs) of
        Some t \<Rightarrow> t
      | None \<Rightarrow>
          (case errors_join (map snd errs) of
             Some e \<Rightarrow> Some e
           | None \<Rightarrow> (case werr of Some e \<Rightarrow> Some e | None \<Rightarrow> check_delivered lib received ks)))"

text \<open>
  Decoding, merging, storing and the checks of a round that asked for \<open>ks\<close> on the channels
  \<open>is\<close>; \<open>carry\<close> is what the cap kept back.
\<close>

definition receive_packs ::
  "('p, 's, 'z) core_lib_scheme \<Rightarrow> round_env \<Rightarrow> nat list \<Rightarrow> key list \<Rightarrow> key list \<Rightarrow>
     ('w, 's) rstate \<Rightarrow> ('w, 's) rstate \<times> outcome" where
  "receive_packs lib env is ks carry s =
     (let ds = map (decode_channel lib (rsChans s)) is;
          merged = merge (rePicks env) (map (\<lambda>d. map (Pair (dIdx d)) (dItems d)) ds) in
      case st_write lib (rsStore s) (map (\<lambda>(i, ob, kids, f). ob) merged) of
        (st', n, werr) \<Rightarrow>
          let taken = take n merged;
              all_taken = (length merged \<le> n);
              stop = (\<lambda>d. max (reStops env (dIdx d)) (length (filter (\<lambda>t. fst t = dIdx d) taken)));
              received = set (map (\<lambda>(i, ob, kids, f). oKey ob) taken);
              errs = map (\<lambda>d. decoder_errs all_taken (stop d) d) ds;
              chans' = fold (\<lambda>d. read_decoder all_taken (stop d) (reReads env (dIdx d)) d) ds (rsChans s);
              prog' = fold (\<lambda>(i, ob, kids, f). prog_transferred 1 (int (length (oData ob)))) taken
                (prog_wire (wire_total chans' - wire_total (rsChans s)) (rsProg s));
              s' = s\<lparr>rsChans := chans', rsStore := st', rsProg := prog',
                rsStats := (rsStats s)\<lparr>stReceived := stReceived (rsStats s) + card received\<rparr>\<rparr> in
          (case round_err lib errs werr received ks of
             Some e \<Rightarrow> (s', Failed e)
           | None \<Rightarrow> (s'\<lparr>rsFrontier := concat (map (\<lambda>(i, ob, kids, f). kids) taken) @ carry\<rparr>, Again)))"

definition receive_round ::
  "('p, 's, 'z) core_lib_scheme \<Rightarrow> 'w writer \<Rightarrow> int \<Rightarrow> round_env \<Rightarrow> ('w, 's) rstate \<Rightarrow>
     ('w, 's) rstate \<times> outcome" where
  "receive_round lib wr jobs env s =
     (case wants lib (rsStore s) (rsFrontier s) jobs of
        Inl e \<Rightarrow> (s, Failed e)
      | Inr ks \<Rightarrow>
          (case split_wants ks maxWantsPerRound of
             (ask, carry) \<Rightarrow>
               let s1 = s\<lparr>rsStats := (rsStats s)\<lparr>stRounds := Suc (stRounds (rsStats s)),
                       stRequested := stRequested (rsStats s) + length ask\<rparr>,
                     rsProg := (if ask = [] then rsProg s
                       else prog_requested (int (length ask)) (key_bytes_sum lib 0 ask) (rsProg s))\<rparr> in
               if ask = [] then
                 (case send_finals lib wr (rsChans s1) of
                    (chans', Some e) \<Rightarrow> (s1\<lparr>rsChans := chans'\<rparr>, Failed e)
                  | (chans', None) \<Rightarrow>
                      (s1\<lparr>rsChans := chans',
                          rsStats := (rsStats s1)\<lparr>stBytes := wire_total chans'\<rparr>\<rparr>, Finished))
               else
                 (let weights = map2 (\<lambda>c p. chRead c - p) (rsChans s1) (rsPrev s1);
                      s2 = s1\<lparr>rsPrev := map chRead (rsChans s1)\<rparr> in
                  case deal_wants lib ask weights of
                    Inl e \<Rightarrow> (s2, Failed e)
                  | Inr shards \<Rightarrow>
                      (case send_shards lib wr 0 shards (rsChans s2) of
                         (chans', is, Some e) \<Rightarrow> (s2\<lparr>rsChans := chans'\<rparr>, Failed e)
                       | (chans', is, None) \<Rightarrow>
                           receive_packs lib env is ask carry (s2\<lparr>rsChans := chans'\<rparr>)))))"

text \<open>
  The \<open>for\<close> loop, with a bound on its rounds (\<open>None\<close>: not finished within the bound).
  \<open>envs\<close> gives each round its environment.
\<close>

fun receive_loop ::
  "('p, 's, 'z) core_lib_scheme \<Rightarrow> 'w writer \<Rightarrow> int \<Rightarrow> (nat \<Rightarrow> round_env) \<Rightarrow> nat \<Rightarrow> ('w, 's) rstate \<Rightarrow>
     (('w, 's) rstate \<times> goerr option) option" where
  "receive_loop lib wr jobs envs 0 s = None"
| "receive_loop lib wr jobs envs (Suc fuel) s =
     (case receive_round lib wr jobs (envs 0) s of
        (s', Finished) \<Rightarrow> Some (s', None)
      | (s', Failed e) \<Rightarrow> Some (s', Some e)
      | (s', Again) \<Rightarrow> receive_loop lib wr jobs (\<lambda>n. envs (Suc n)) fuel s')"

definition receive_start ::
  "'w channel list \<Rightarrow> 's \<Rightarrow> key \<Rightarrow> progress option \<Rightarrow> ('w, 's) rstate" where
  "receive_start chans st rootk prog =
     \<lparr>rsChans = chans, rsStore = st, rsFrontier = [rootk], rsPrev = replicate (length chans) 0,
      rsStats = \<lparr>stRounds = 0, stRequested = 0, stReceived = 0, stBytes = 0\<rparr>, rsProg = prog\<rparr>"

definition receive ::
  "('p, 's, 'z) core_lib_scheme \<Rightarrow> 'w writer \<Rightarrow> (nat \<Rightarrow> round_env) \<Rightarrow> nat \<Rightarrow>
     (instream \<times> 'w) list \<Rightarrow> 's \<Rightarrow> key \<Rightarrow> int \<Rightarrow> progress option \<Rightarrow>
     (('w, 's) rstate \<times> goerr option) option" where
  "receive lib wr envs fuel links st rootk jobs prog =
     receive_loop lib wr jobs envs fuel
       (receive_start (map (\<lambda>(r, w). \<lparr>chIn = r, chOut = w, chRead = 0\<rparr>) links) st rootk prog)"

section \<open>Lemmas: interleaving\<close>

text \<open>
  The interleavings of the decoders' sequences: each step takes the head of one of them.
  The choices of \<open>merge\<close> reach exactly these.
\<close>

inductive interleaving :: "'a list list \<Rightarrow> 'a list \<Rightarrow> bool" where
  il_Nil: "\<forall>q\<in>set qs. q = [] \<Longrightarrow> interleaving qs []"
| il_Step: "i < length qs \<Longrightarrow> qs ! i = x # xs \<Longrightarrow> interleaving (qs[i := xs]) zs \<Longrightarrow>
    interleaving qs (x # zs)"

lemma merge_interleaving: "interleaving qs (merge ps qs)"
proof (induction ps qs rule: merge.induct)
  case (1 ps qs)
  show ?case
  proof (cases "nonempty qs = []")
    case True
    then show ?thesis by (subst merge.simps) (simp add: nonempty_Nil interleaving.il_Nil)
  next
    case False
    from pick_nonempty [OF this, of ps] have p: "pick ps qs < length qs" "qs ! pick ps qs \<noteq> []" by auto
    then have "qs ! pick ps qs = hd (qs ! pick ps qs) # tl (qs ! pick ps qs)" by simp
    from interleaving.il_Step [OF p(1) this 1 [OF False]] False show ?thesis
      by (subst merge.simps) simp
  qed
qed

lemma interleaving_merge: "interleaving qs zs \<Longrightarrow> \<exists>ps. merge ps qs = zs"
proof (induction rule: interleaving.induct)
  case (il_Nil qs)
  then have "merge [] qs = []" by (subst merge.simps) (simp add: nonempty_Nil)
  then show ?case by blast
next
  case (il_Step i qs x xs zs)
  then obtain ps where ps: "merge ps (qs[i := xs]) = zs" by blast
  have "i \<in> set (nonempty qs)" using il_Step.hyps by (simp add: nonempty_def)
  then obtain p where p: "p < length (nonempty qs)" "nonempty qs ! p = i" by (auto simp: in_set_conv_nth)
  then have ne: "nonempty qs \<noteq> []" by auto
  have "pick (p # ps) qs = i" using p by (simp add: pick_def)
  then have "merge (p # ps) qs = x # zs"
    using ne ps il_Step.hyps by (subst merge.simps) simp
  then show ?case by blast
qed

lemma mset_concat_upd:
  "i < length qs \<Longrightarrow> qs ! i = x # xs \<Longrightarrow> mset (concat qs) = add_mset x (mset (concat (qs[i := xs])))"
proof (induction qs arbitrary: i)
  case (Cons q qs)
  then show ?case by (cases i) auto
qed simp

lemma interleaving_mset: "interleaving qs zs \<Longrightarrow> mset zs = mset (concat qs)"
proof (induction rule: interleaving.induct)
  case (il_Nil qs)
  then have "concat qs = []" by simp
  then show ?case by simp
next
  case (il_Step i qs x xs zs)
  then show ?case using mset_concat_upd [of i qs x xs] by simp
qed

lemma merge_mset: "mset (merge ps qs) = mset (concat qs)"
  by (rule interleaving_mset) (rule merge_interleaving)

lemma merge_set: "set (merge ps qs) = (\<Union>q\<in>set qs. set q)"
  using arg_cong [OF merge_mset, of set_mset ps qs] by simp

section \<open>Lemmas: decoding\<close>

lemma decode_items_kids:
  "decode_items lib obs e saw x = (its, derr, saw', dr) \<Longrightarrow> (ob, kids, f) \<in> set its \<Longrightarrow>
     child_keys lib (oKey ob) (oData ob) = Inr kids \<and> (ob, f) \<in> set obs"
  by (induction obs arbitrary: its derr saw' dr)
    (auto split: sum.splits option.splits prod.splits)

lemma decode_items_ok:
  "decode_items lib obs e saw x = (its, None, saw', dr) \<Longrightarrow>
     e = None \<and> x = None \<and> dr \<and> map (\<lambda>(ob, kids, f). (ob, f)) its = obs"
  by (induction obs arbitrary: its saw' dr) (auto split: sum.splits option.splits prod.splits)

lemma decode_channel_kids:
  "(ob, kids, f) \<in> set (dItems (decode_channel lib chans i)) \<Longrightarrow>
     child_keys lib (oKey ob) (oData ob) = Inr kids"
  by (auto simp: decode_channel_def split: prod.splits dest: decode_items_kids)

lemma decode_channel_idx [simp]: "dIdx (decode_channel lib chans i) = i"
  by (simp add: decode_channel_def split: prod.splits)

text \<open>A channel that was decoded without an error was read to the end of its pack.\<close>

lemma decode_channel_ok:
  assumes "dErr (decode_channel lib chans i) = None"
    and "pr_read_all lib 4095 (new_pack_reader (chIn (chans ! i))) = (p, bs, x)"
  shows "x = None \<and> dDrained (decode_channel lib chans i) \<and> dRest (decode_channel lib chans i) = prR p \<and>
    (\<exists>obs saw. amber_read lib bs None = (obs, None, saw) \<and>
       map (\<lambda>(ob, kids, f). (ob, f)) (dItems (decode_channel lib chans i)) = obs)"
  using assms by (auto simp: decode_channel_def split: prod.splits dest!: decode_items_ok)

lemma decode_channel_drained: "dErr (decode_channel lib chans i) = None \<Longrightarrow> dDrained (decode_channel lib chans i)"
  using decode_channel_ok [of lib chans i] by (metis prod_cases3)

section \<open>Lemmas: one round\<close>

text \<open>The receipts of a round: what the consumer took, in order.\<close>

type_synonym receipt = "nat \<times> object \<times> key list \<times> bool"

abbreviation receipt_object :: "receipt \<Rightarrow> object" where
  "receipt_object \<equiv> \<lambda>(i, ob, kids, f). ob"

abbreviation receipt_kids :: "receipt \<Rightarrow> key list" where
  "receipt_kids \<equiv> \<lambda>(i, ob, kids, f). kids"

definition merged_items ::
  "('p, 's, 'z) core_lib_scheme \<Rightarrow> round_env \<Rightarrow> nat list \<Rightarrow> 'w channel list \<Rightarrow> receipt list" where
  "merged_items lib env is chans =
     merge (rePicks env) (map (\<lambda>d. map (Pair (dIdx d)) (dItems d)) (map (decode_channel lib chans) is))"

lemma merged_items_kids:
  "t \<in> set (merged_items lib env is chans) \<Longrightarrow>
     child_keys lib (oKey (receipt_object t)) (oData (receipt_object t)) = Inr (receipt_kids t)"
  by (auto simp: merged_items_def merge_set dest: decode_channel_kids)

lemma missing_loop_zero: "fst (missing_loop received m ex ks) = m + length (filter (\<lambda>k. k \<notin> received) ks)"
  by (induction ks arbitrary: m ex) auto

lemma check_delivered_silent: "check_delivered lib received ks = None \<Longrightarrow> set ks \<subseteq> received"
  using missing_loop_zero [of received 0 "Key []" ks]
  by (auto simp: check_delivered_def filter_empty_conv split: prod.splits if_splits)

lemma round_err_None:
  "round_err lib errs werr received ks = None \<Longrightarrow>
     (\<forall>(t, d)\<in>set errs. d = None) \<and> werr = None \<and> set ks \<subseteq> received"
  by (fastforce simp: round_err_def find_Some_iff split: option.splits
      dest!: check_delivered_silent sym [of "Some None"])

lemma receive_packs_Again:
  assumes "receive_packs lib env is ks carry s = (s', Again)"
  obtains n where
    "st_write lib (rsStore s) (map receipt_object (merged_items lib env is (rsChans s))) = (rsStore s', n, None)"
    "set ks \<subseteq> (\<lambda>t. oKey (receipt_object t)) ` set (take n (merged_items lib env is (rsChans s)))"
    "rsFrontier s' = concat (map receipt_kids (take n (merged_items lib env is (rsChans s)))) @ carry"
    "n < length (merged_items lib env is (rsChans s)) \<or>
       (\<forall>i\<in>set is. dErr (decode_channel lib (rsChans s) i) = None)"
proof -
  let ?m = "merged_items lib env is (rsChans s)"
  obtain st' n werr where w: "st_write lib (rsStore s) (map receipt_object ?m) = (st', n, werr)"
    by (cases "st_write lib (rsStore s) (map receipt_object ?m)") auto
  have *: "werr = None \<and> set ks \<subseteq> set (map (\<lambda>(i, ob, kids, f). oKey ob) (take n ?m)) \<and> rsStore s' = st' \<and>
      rsFrontier s' = concat (map receipt_kids (take n ?m)) @ carry \<and>
      (n < length ?m \<or> (\<forall>i\<in>set is. dErr (decode_channel lib (rsChans s) i) = None))"
    using assms w unfolding receive_packs_def Let_def merged_items_def [symmetric]
    by (auto split: option.splits dest!: round_err_None simp: decoder_errs_def not_less)
  have "(\<lambda>(i, ob, kids, f). oKey ob) = (\<lambda>t. oKey (receipt_object t))" by auto
  with * have "set ks \<subseteq> (\<lambda>t. oKey (receipt_object t)) ` set (take n ?m)" by simp
  with * w show ?thesis using that by simp
qed

lemma map_update_same: "f x = f (xs ! i) \<Longrightarrow> map f (xs[i := x]) = map f xs"
proof (rule nth_equalityI)
  fix j assume "f x = f (xs ! i)" and "j < length (map f (xs[i := x]))"
  then show "map f (xs[i := x]) ! j = map f xs ! j" by (cases "i = j") simp_all
qed simp

lemma deal_loop_length [simp]: "length (deal_loop lib w a sh ks) = length sh"
  by (induction lib w a sh ks rule: deal_loop.induct) (simp_all add: Let_def)

lemma deal_wants_length: "deal_wants lib ks weights = Inr shards \<Longrightarrow> length shards = length weights"
  by (auto simp: deal_wants_def Let_def split: if_splits)

lemma send_shards_keeps:
  "send_shards lib wr i shards chans = (chans', is, e) \<Longrightarrow>
     map chIn chans' = map chIn chans \<and> map chRead chans' = map chRead chans \<and>
     sorted_wrt (<) is \<and> (\<forall>j\<in>set is. i \<le> j \<and> j < i + length shards)"
proof (induction lib wr i shards chans arbitrary: chans' "is" e rule: send_shards.induct)
  case (2 lib wr i shard shards chans)
  show ?case
  proof (cases "shard = []")
    case True
    with 2 show ?thesis by fastforce
  next
    case False
    obtain w e1 where w: "write_msg lib wr (chOut (chans ! i)) (wants_msg shard) = (w, e1)"
      by (cases "write_msg lib wr (chOut (chans ! i)) (wants_msg shard)")
    let ?chans = "chans[i := (chans ! i)\<lparr>chOut := w\<rparr>]"
    have upd: "map chIn ?chans = map chIn chans" "map chRead ?chans = map chRead chans"
      by (simp_all add: map_update_same)
    show ?thesis
    proof (cases e1)
      case (Some x)
      with "2.prems" False w upd show ?thesis by auto
    next
      case None
      obtain chans2 is2 e2 where r: "send_shards lib wr (Suc i) shards ?chans = (chans2, is2, e2)"
        by (cases "send_shards lib wr (Suc i) shards ?chans") auto
      from "2.IH"(2) [OF False w [symmetric] None r] upd "2.prems" False w None r
      show ?thesis by (auto simp: Suc_le_eq intro: less_imp_le)
    qed
  qed
qed auto

lemma round_shards:
  assumes "receive_round lib wr jobs env s = (s', Again)"
  obtains ask carry shards chans' "is" s2 where
    "split_wants (ask @ carry) maxWantsPerRound = (ask, carry)"
    "wants lib (rsStore s) (rsFrontier s) jobs = Inr (ask @ carry)" "ask \<noteq> []"
    "deal_wants lib ask (map2 (\<lambda>c p. chRead c - p) (rsChans s) (rsPrev s)) = Inr shards"
    "send_shards lib wr 0 shards (rsChans s) = (chans', is, None)"
    "receive_packs lib env is ask carry s2 = (s', Again)" "rsChans s2 = chans'" "rsStore s2 = rsStore s"
proof -
  obtain ks where ks: "wants lib (rsStore s) (rsFrontier s) jobs = Inr ks"
    using assms by (auto simp: receive_round_def split: sum.splits)
  obtain ask carry where sp: "split_wants ks maxWantsPerRound = (ask, carry)"
    by (cases "split_wants ks maxWantsPerRound")
  note ks_eq = split_wants_append [OF sp]
  have ask: "ask \<noteq> []"
    using assms ks sp by (auto simp: receive_round_def Let_def split: prod.splits option.splits)
  let ?wt = "map2 (\<lambda>c p. chRead c - p) (rsChans s) (rsPrev s)"
  obtain shards where sh: "deal_wants lib ask ?wt = Inr shards"
    using assms ks sp ask by (auto simp: receive_round_def Let_def split: sum.splits)
  obtain chans' "is" e where ss: "send_shards lib wr 0 shards (rsChans s) = (chans', is, e)"
    by (cases "send_shards lib wr 0 shards (rsChans s)") auto
  have e: "e = None" using assms ks sp ask sh ss by (cases e) (auto simp: receive_round_def Let_def)
  have "\<exists>s2. receive_packs lib env is ask carry s2 = (s', Again) \<and> rsChans s2 = chans' \<and> rsStore s2 = rsStore s"
    using assms ks sp ask sh ss e by (auto simp: receive_round_def Let_def)
  then show ?thesis using sp ks ask sh ss e ks_eq by (auto intro: that)
qed

lemma receive_round_Again:
  assumes "receive_round lib wr jobs env s = (s', Again)"
  obtains ask carry "is" s2 where
    "wants lib (rsStore s) (rsFrontier s) jobs = Inr (ask @ carry)" "ask \<noteq> []"
    "receive_packs lib env is ask carry s2 = (s', Again)" "rsStore s2 = rsStore s"
    "map chIn (rsChans s2) = map chIn (rsChans s)" "map chRead (rsChans s2) = map chRead (rsChans s)"
    "sorted_wrt (<) is" "set is \<subseteq> {..<length (rsChans s)}"
proof -
  obtain ask carry shards chans' "is" s2 where *:
    "wants lib (rsStore s) (rsFrontier s) jobs = Inr (ask @ carry)" "ask \<noteq> []"
    "deal_wants lib ask (map2 (\<lambda>c p. chRead c - p) (rsChans s) (rsPrev s)) = Inr shards"
    "send_shards lib wr 0 shards (rsChans s) = (chans', is, None)"
    "receive_packs lib env is ask carry s2 = (s', Again)" "rsChans s2 = chans'" "rsStore s2 = rsStore s"
    using round_shards [OF assms] by metis
  have "length shards \<le> length (rsChans s)" using deal_wants_length [OF *(3)] by simp
  with * send_shards_keeps [OF *(4)] show ?thesis by (intro that [of ask carry "is" s2]) auto
qed

section \<open>Lemmas: what the frontier stands for\<close>

definition grows :: "('p, 's, 'z) core_lib_scheme \<Rightarrow> 's \<Rightarrow> 's \<Rightarrow> bool" where
  "grows lib st st' \<longleftrightarrow> (\<forall>k d. st_get lib st k = Inr d \<longrightarrow> st_get lib st' k = Inr d)"

lemma grows_refl [simp]: "grows lib st st"
  by (simp add: grows_def)

lemma grows_trans: "grows lib a b \<Longrightarrow> grows lib b c \<Longrightarrow> grows lib a c"
  by (simp add: grows_def)

lemma grows_complete: "grows lib st st' \<Longrightarrow> tree_complete lib st k \<Longrightarrow> tree_complete lib st' k"
  using complete_mono by (fastforce simp: grows_def)

text \<open>
  The loop's invariant: in every later store, the tree below the goal is complete as soon as
  the subtrees of the frontier are.
\<close>

definition covers :: "('p, 's, 'z) core_lib_scheme \<Rightarrow> key \<Rightarrow> ('w, 's) rstate \<Rightarrow> bool" where
  "covers lib goal s \<longleftrightarrow> (\<forall>st'. grows lib (rsStore s) st' \<longrightarrow>
     (\<forall>k\<in>set (rsFrontier s). tree_complete lib st' k) \<longrightarrow> tree_complete lib st' goal)"

lemma dedup_seen_set: "set (dedup_seen seen ks) = set ks - seen"
  by (induction ks arbitrary: seen) auto

lemma frontier_cases:
  assumes "check_law lib" and "wants lib st ks jobs = Inr res" and "k \<in> set ks"
  shows "k \<in> set res \<or> tree_complete lib st k"
  using wants_filter [OF assms(2)] assms(3) pruned_complete [OF assms(1)]
  by (auto simp: dedup_seen_set)

lemma write_law_D:
  assumes "write_law lib" and "st_write lib st objs = (st', n, None)"
  shows "n = length objs \<and> grows lib st st' \<and> (\<forall>ob\<in>set objs. st_get lib st' (oKey ob) = Inr (oData ob))"
  using assms unfolding write_law_def grows_def by blast

lemma round_delivered:
  assumes "write_law lib" and "receive_round lib wr jobs env s = (s', Again)"
  obtains ask carry where "wants lib (rsStore s) (rsFrontier s) jobs = Inr (ask @ carry)" "ask \<noteq> []"
    "grows lib (rsStore s) (rsStore s')" "set carry \<subseteq> set (rsFrontier s')"
    "\<forall>k\<in>set ask. \<exists>d kids. st_get lib (rsStore s') k = Inr d \<and> child_keys lib k d = Inr kids \<and>
       set kids \<subseteq> set (rsFrontier s')"
proof -
  obtain ask carry "is" s2 where w: "wants lib (rsStore s) (rsFrontier s) jobs = Inr (ask @ carry)" "ask \<noteq> []"
    and rp: "receive_packs lib env is ask carry s2 = (s', Again)" and st2: "rsStore s2 = rsStore s"
    using receive_round_Again [OF assms(2)] by metis
  let ?m = "merged_items lib env is (rsChans s2)"
  obtain n where sw: "st_write lib (rsStore s2) (map receipt_object ?m) = (rsStore s', n, None)"
    and got: "set ask \<subseteq> (\<lambda>t. oKey (receipt_object t)) ` set (take n ?m)"
    and fr: "rsFrontier s' = concat (map receipt_kids (take n ?m)) @ carry"
    using receive_packs_Again [OF rp] by metis
  note wl = write_law_D [OF assms(1) sw]
  have "\<exists>d kids. st_get lib (rsStore s') k = Inr d \<and> child_keys lib k d = Inr kids \<and> set kids \<subseteq> set (rsFrontier s')"
    if "k \<in> set ask" for k
  proof -
    from that got obtain t where t: "t \<in> set (take n ?m)" "k = oKey (receipt_object t)" by auto
    then have tm: "t \<in> set ?m" by (meson in_set_takeD)
    with wl have "st_get lib (rsStore s') k = Inr (oData (receipt_object t))" using t(2) by simp
    moreover have "child_keys lib k (oData (receipt_object t)) = Inr (receipt_kids t)"
      using merged_items_kids [OF tm] t(2) by simp
    moreover have "set (receipt_kids t) \<subseteq> set (rsFrontier s')"
      using t(1) unfolding fr set_append set_concat set_map by blast
    ultimately show ?thesis by blast
  qed
  with w wl st2 fr show ?thesis by (intro that [of ask carry]) auto
qed

lemma round_covers:
  assumes "check_law lib" and "write_law lib" and "receive_round lib wr jobs env s = (s', Again)"
  shows "grows lib (rsStore s) (rsStore s') \<and> (covers lib goal s \<longrightarrow> covers lib goal s')"
proof -
  obtain ask carry where w: "wants lib (rsStore s) (rsFrontier s) jobs = Inr (ask @ carry)"
    and gr: "grows lib (rsStore s) (rsStore s')" and carry: "set carry \<subseteq> set (rsFrontier s')"
    and ask: "\<forall>k\<in>set ask. \<exists>d kids. st_get lib (rsStore s') k = Inr d \<and> child_keys lib k d = Inr kids \<and>
       set kids \<subseteq> set (rsFrontier s')"
    using round_delivered [OF assms(2,3)] by metis
  have "tree_complete lib st' k"
    if g: "grows lib (rsStore s') st'" and all: "\<forall>k\<in>set (rsFrontier s'). tree_complete lib st' k"
      and k: "k \<in> set (rsFrontier s)" for st' k
  proof -
    from frontier_cases [OF assms(1) w k] consider
      "k \<in> set ask" | "k \<in> set carry" | "tree_complete lib (rsStore s) k" by auto
    then show ?thesis
    proof cases
      case 1
      with ask obtain d kids where d: "st_get lib (rsStore s') k = Inr d" "child_keys lib k d = Inr kids"
        "set kids \<subseteq> set (rsFrontier s')" by blast
      from d(3) all have kids: "\<forall>c\<in>set kids. tree_complete lib st' c" by blast
      from d(1) g have "st_get lib st' k = Inr d" by (simp add: grows_def)
      from completeI [OF this d(2) kids] show ?thesis .
    next
      case 2
      with carry all show ?thesis by blast
    next
      case 3
      then show ?thesis by (rule grows_complete [OF grows_trans [OF gr g]])
    qed
  qed
  note step = this
  have "covers lib goal s'" if "covers lib goal s"
    unfolding covers_def
  proof (intro allI impI)
    fix st' assume g: "grows lib (rsStore s') st'" and "\<forall>k\<in>set (rsFrontier s'). tree_complete lib st' k"
    with step have "\<forall>k\<in>set (rsFrontier s). tree_complete lib st' k" by blast
    with that grows_trans [OF gr g] show "tree_complete lib st' goal" by (simp add: covers_def)
  qed
  with gr show ?thesis by blast
qed

lemma round_Finished:
  assumes "receive_round lib wr jobs env s = (s', Finished)"
  shows "wants lib (rsStore s) (rsFrontier s) jobs = Inr [] \<and> rsStore s' = rsStore s"
proof -
  obtain ks where ks: "wants lib (rsStore s) (rsFrontier s) jobs = Inr ks"
    using assms by (auto simp: receive_round_def split: sum.splits)
  obtain ask carry where sp: "split_wants ks maxWantsPerRound = (ask, carry)"
    by (cases "split_wants ks maxWantsPerRound")
  have "ask = []"
    using assms ks sp
    by (auto simp: receive_round_def receive_packs_def Let_def split: prod.splits option.splits sum.splits if_splits)
  moreover from this have "ks = []"
    using split_wants_Nil [of maxWantsPerRound ks carry] sp by (simp add: maxWantsPerRound_def)
  ultimately show ?thesis
    using assms ks sp by (auto simp: receive_round_def Let_def split: prod.splits option.splits)
qed

lemma loop_complete:
  assumes "check_law lib" and "write_law lib"
  shows "receive_loop lib wr jobs envs fuel s = Some (s', None) \<Longrightarrow> covers lib goal s \<Longrightarrow>
    grows lib (rsStore s) (rsStore s') \<and> tree_complete lib (rsStore s') goal"
proof (induction fuel arbitrary: envs s)
  case (Suc fuel)
  obtain s1 out where r: "receive_round lib wr jobs (envs 0) s = (s1, out)"
    by (cases "receive_round lib wr jobs (envs 0) s")
  show ?case
  proof (cases out)
    case Finished
    note fin = round_Finished [OF r [unfolded Finished]]
    from fin have "\<forall>k\<in>set (rsFrontier s). tree_complete lib (rsStore s) k"
      using frontier_cases [OF assms(1)] by fastforce
    with Suc.prems r Finished fin show ?thesis by (auto simp: covers_def)
  next
    case (Failed e)
    with Suc.prems r show ?thesis by simp
  next
    case Again
    with r round_covers [OF assms, of wr jobs "envs 0" s s1 goal] Suc.prems(2)
    have "grows lib (rsStore s) (rsStore s1)" "covers lib goal s1" by auto
    with Suc.IH [of "\<lambda>n. envs (Suc n)" s1] Suc.prems(1) r Again show ?thesis
      by (auto intro: grows_trans)
  qed
qed simp

section \<open>Lemmas: what a round reads\<close>

lemma pack_spec_shrinks:
  "pack_spec lib r = (r', bs, x) \<Longrightarrow>
     length (avail r') \<le> length (avail r) \<and> (bs \<noteq> [] \<longrightarrow> length (avail r') < length (avail r))"
proof (induction lib r arbitrary: r' bs x rule: pack_spec.induct)
  case (1 lib r)
  obtain r1 y where rm: "read_msg lib r = (r1, y)" by (cases "read_msg lib r")
  show ?case
  proof (cases y)
    case (Inl e)
    with "1.prems" rm show ?thesis
      by (subst (asm) pack_spec.simps) (auto dest: wire.recv_shrinks)
  next
    case (Inr m)
    with rm have lt: "length (avail r1) < length (avail r)" by (auto dest: wire.recv_progress)
    show ?thesis
    proof (cases "mType m = TData")
      case True
      obtain r2 cs z where sp: "pack_spec lib r1 = (r2, cs, z)" by (cases "pack_spec lib r1") auto
      with "1.IH" [OF rm [symmetric] Inr True sp] have "length (avail r2) \<le> length (avail r1)" by simp
      with "1.prems" rm Inr True lt sp show ?thesis by (subst (asm) pack_spec.simps) auto
    next
      case False
      with "1.prems" rm Inr lt show ?thesis by (subst (asm) pack_spec.simps) (auto split: if_splits)
    qed
  qed
qed

lemma read_pack:
  "pr_read_all lib k (new_pack_reader r) = (p, bs, x) \<Longrightarrow>
     \<exists>y. pack_spec lib r = (prR p, bs, y) \<and> x = eof_nil y"
  using pr_read_all_open [OF pr_open_new, of lib k r p bs x]
  by (cases "pack_spec lib r") (auto simp: pr_rest_def new_pack_reader_def)

lemma decode_channel_rest: "dRest (decode_channel lib chans i) = fst (pack_spec lib (chIn (chans ! i)))"
  by (auto simp: decode_channel_def split: prod.splits dest!: read_pack)

lemma fold_update_length: "length (fold (\<lambda>d xs. xs[ix d := g d (xs ! ix d)]) ds xs) = length xs"
  by (induction ds arbitrary: xs) simp_all

lemma fold_update_nth:
  "distinct (map ix ds) \<Longrightarrow> d \<in> set ds \<Longrightarrow> ix d < length xs \<Longrightarrow>
     fold (\<lambda>d xs. xs[ix d := g d (xs ! ix d)]) ds xs ! ix d = g d (xs ! ix d)"
proof (induction ds arbitrary: xs)
  case (Cons e ds)
  have other: "i \<notin> ix ` set ds \<Longrightarrow> fold (\<lambda>d xs. xs[ix d := g d (xs ! ix d)]) ds xs ! i = xs ! i" for i xs
    by (induction ds arbitrary: xs) auto
  show ?case
  proof (cases "e = d")
    case True
    with Cons.prems other show ?thesis by simp
  next
    case False
    with Cons.prems have "ix e \<noteq> ix d" by (metis distinct.simps(2) image_eqI list.simps(9) set_ConsD set_map)
    with Cons False show ?thesis by simp
  qed
qed simp

lemma fold_update_other:
  "i \<notin> ix ` set ds \<Longrightarrow> fold (\<lambda>d xs. xs[ix d := g d (xs ! ix d)]) ds xs ! i = xs ! i"
  by (induction ds arbitrary: xs) auto

text \<open>Where the channels stand after a round in which every pack was read to its end.\<close>

definition after_packs ::
  "'a wire_lib_scheme \<Rightarrow> nat list \<Rightarrow> 'w channel list \<Rightarrow> 'w channel list" where
  "after_packs lib is chans =
     map (\<lambda>i. if i \<in> set is then ch_read_to (fst (pack_spec lib (chIn (chans ! i)))) (chans ! i) else chans ! i)
       [0..<length chans]"

lemma read_decoders:
  assumes "distinct is" and "set is \<subseteq> {..<length chans}"
    and "\<forall>i\<in>set is. dDrained (decode_channel lib chans i)"
  shows "fold (\<lambda>d. read_decoder True (stop d) (k d) d) (map (decode_channel lib chans) is) chans =
    after_packs lib is chans"
proof -
  let ?g = "\<lambda>d c. ch_read_to (if decoder_read_all True (stop d) d then dRest d
    else (chIn c)\<lparr>avail := drop (min (k d) (length (avail (chIn c)) - length (avail (dRest d)))) (avail (chIn c))\<rparr>) c"
  let ?F = "fold (\<lambda>d xs. xs[dIdx d := ?g d (xs ! dIdx d)])"
  let ?ds = "map (decode_channel lib chans) is"
  have F: "fold (\<lambda>d. read_decoder True (stop d) (k d) d) ?ds chans = ?F ?ds chans"
    by (rule arg_cong [where f = "\<lambda>f. fold f ?ds chans"]) (auto simp: fun_eq_iff read_decoder_def Let_def)
  have nth: "?F ?ds chans ! i = after_packs lib is chans ! i" if i: "i < length chans" for i
  proof (cases "i \<in> set is")
    case True
    let ?d = "decode_channel lib chans i"
    have "distinct (map dIdx ?ds)" using assms(1) by (simp add: comp_def)
    from fold_update_nth [where ix = dIdx and g = ?g, OF this, of ?d chans] True i
    have "?F ?ds chans ! i = ?g ?d (chans ! i)" by simp
    also have "\<dots> = ch_read_to (dRest ?d) (chans ! i)"
      using assms(3) True by (simp add: decoder_read_all_def)
    finally show ?thesis using True i by (simp add: after_packs_def decode_channel_rest)
  next
    case False
    with i fold_update_other [of i dIdx ?ds] show ?thesis by (simp add: after_packs_def image_comp comp_def)
  qed
  have len: "length (?F ?ds chans) = length chans"
    using fold_update_length [where ix = dIdx and g = ?g] .
  have "?F ?ds chans = after_packs lib is chans"
  proof (rule nth_equalityI)
    show "length (?F ?ds chans) = length (after_packs lib is chans)"
      unfolding len by (simp add: after_packs_def)
    show "?F ?ds chans ! i = after_packs lib is chans ! i" if "i < length (?F ?ds chans)" for i
      using nth [of i] that unfolding len .
  qed
  then show ?thesis unfolding F .
qed

lemma receive_packs_channels:
  assumes "st_write lib (rsStore s) (map receipt_object (merged_items lib env is (rsChans s))) = (st', n, werr)"
  shows "rsChans (fst (receive_packs lib env is ks carry s)) =
    fold (\<lambda>d. read_decoder (length (merged_items lib env is (rsChans s)) \<le> n)
      (max (reStops env (dIdx d)) (length (filter (\<lambda>t. fst t = dIdx d) (take n (merged_items lib env is (rsChans s))))))
      (reReads env (dIdx d)) d) (map (decode_channel lib (rsChans s)) is) (rsChans s)"
  unfolding receive_packs_def Let_def merged_items_def [symmetric] assms prod.case
  by (simp split: option.split)

lemma packs_Again_channels:
  assumes "write_law lib" and "receive_packs lib env is ask carry s = (s', Again)"
    and "distinct is" and "set is \<subseteq> {..<length (rsChans s)}"
  shows "rsChans s' = after_packs lib is (rsChans s)"
proof -
  obtain n where
    sw: "st_write lib (rsStore s) (map receipt_object (merged_items lib env is (rsChans s))) = (rsStore s', n, None)"
    and full: "n < length (merged_items lib env is (rsChans s)) \<or>
       (\<forall>i\<in>set is. dErr (decode_channel lib (rsChans s) i) = None)"
    using receive_packs_Again [OF assms(2)] by metis
  from write_law_D [OF assms(1) sw] have n: "n = length (merged_items lib env is (rsChans s))" by simp
  have dr: "\<forall>i\<in>set is. dDrained (decode_channel lib (rsChans s) i)"
    using full n by (auto intro: decode_channel_drained)
  note eq = read_decoders [OF assms(3,4) dr]
  show ?thesis using receive_packs_channels [OF sw, of ask carry] assms(2) n eq by simp
qed

section \<open>Lemmas: the loop ends\<close>

text \<open>A pack of no bytes holds no object (\<open>amberpack\<close> reads objects off the stream).\<close>

definition amber_law :: "('p, 's, 'z) core_lib_scheme \<Rightarrow> bool" where
  "amber_law lib \<longleftrightarrow> (\<forall>x. fst (amber_read lib [] x) = [])"

definition unread :: "'w channel list \<Rightarrow> nat" where
  "unread chans = (\<Sum>c\<leftarrow>chans. length (avail (chIn c)))"

lemma unread_cong: "map chIn chans = map chIn chans' \<Longrightarrow> unread chans = unread chans'"
proof -
  have "unread cs = sum_list (map (\<lambda>r. length (avail r)) (map chIn cs))" for cs :: "'z channel list"
    by (simp add: unread_def comp_def)
  then show "map chIn chans = map chIn chans' \<Longrightarrow> unread chans = unread chans'" by metis
qed

lemma decode_channel_item:
  assumes "amber_law lib" and "dItems (decode_channel lib chans i) \<noteq> []"
  shows "length (avail (fst (pack_spec lib (chIn (chans ! i))))) < length (avail (chIn (chans ! i)))"
proof -
  obtain p bs x where rd: "pr_read_all lib 4095 (new_pack_reader (chIn (chans ! i))) = (p, bs, x)"
    by (cases "pr_read_all lib 4095 (new_pack_reader (chIn (chans ! i)))") auto
  from read_pack [OF rd] obtain y where sp: "pack_spec lib (chIn (chans ! i)) = (prR p, bs, y)" by blast
  obtain obs e saw where am: "amber_read lib bs x = (obs, e, saw)" by (cases "amber_read lib bs x") auto
  from assms(2) rd am have "obs \<noteq> []"
    by (cases obs) (auto simp: decode_channel_def split: prod.splits option.splits)
  with assms(1) am have "bs \<noteq> []" by (metis amber_law_def fst_conv)
  with pack_spec_shrinks [OF sp] sp show ?thesis by simp
qed

lemma after_packs_unread:
  assumes "i \<in> set is" and "i < length chans"
    and "length (avail (fst (pack_spec lib (chIn (chans ! i))))) < length (avail (chIn (chans ! i)))"
  shows "unread (after_packs lib is chans) < unread chans"
proof -
  let ?a = "after_packs lib is chans"
  have len: "length ?a = length chans" by (simp add: after_packs_def)
  have le: "length (avail (chIn (?a ! j))) \<le> length (avail (chIn (chans ! j)))" if "j < length chans" for j
    using that pack_spec_shrinks [of lib "chIn (chans ! j)"]
    by (cases "pack_spec lib (chIn (chans ! j))") (auto simp: after_packs_def ch_read_to_def)
  have lt: "length (avail (chIn (?a ! i))) < length (avail (chIn (chans ! i)))"
    using assms by (simp add: after_packs_def ch_read_to_def)
  have "(\<Sum>j<length chans. length (avail (chIn (?a ! j)))) < (\<Sum>j<length chans. length (avail (chIn (chans ! j))))"
    using le lt assms(2) by (intro sum_strict_mono_ex1) auto
  then show ?thesis by (simp add: unread_def sum_list_sum_nth len atLeast0LessThan)
qed

lemma round_reads:
  assumes "write_law lib" and "amber_law lib" and "receive_round lib wr jobs env s = (s', Again)"
  shows "unread (rsChans s') < unread (rsChans s)"
proof -
  obtain ask carry "is" s2 where ask: "ask \<noteq> []" and rp: "receive_packs lib env is ask carry s2 = (s', Again)"
    and ch: "map chIn (rsChans s2) = map chIn (rsChans s)"
    and idx: "sorted_wrt (<) is" "set is \<subseteq> {..<length (rsChans s)}"
    using receive_round_Again [OF assms(3)] by metis
  have len: "length (rsChans s2) = length (rsChans s)" using ch by (rule map_eq_imp_length_eq)
  with idx have d: "distinct is" and b: "set is \<subseteq> {..<length (rsChans s2)}"
    by (simp_all add: strict_sorted_iff)
  obtain n where "set ask \<subseteq> (\<lambda>t. oKey (receipt_object t)) ` set (take n (merged_items lib env is (rsChans s2)))"
    using receive_packs_Again [OF rp] by metis
  with ask have "merged_items lib env is (rsChans s2) \<noteq> []" by auto
  then have "set (merged_items lib env is (rsChans s2)) \<noteq> {}" by simp
  then obtain i where i: "i \<in> set is" "dItems (decode_channel lib (rsChans s2) i) \<noteq> []"
    by (auto simp: merged_items_def merge_set)
  from decode_channel_item [OF assms(2) i(2)] i(1) b
  have "unread (after_packs lib is (rsChans s2)) < unread (rsChans s2)"
    by (intro after_packs_unread) auto
  then show ?thesis
    using packs_Again_channels [OF assms(1) rp d b] unread_cong [OF ch] by simp
qed

lemma loop_ends:
  assumes "write_law lib" and "amber_law lib"
  shows "unread (rsChans s) < fuel \<Longrightarrow> \<exists>r. receive_loop lib wr jobs envs fuel s = Some r"
proof (induction fuel arbitrary: envs s)
  case (Suc fuel)
  obtain s1 out where r: "receive_round lib wr jobs (envs 0) s = (s1, out)"
    by (cases "receive_round lib wr jobs (envs 0) s")
  show ?case
  proof (cases out)
    case Again
    with round_reads [OF assms, of wr jobs "envs 0" s s1] r Suc.prems
    have "unread (rsChans s1) < fuel" by simp
    from Suc.IH [OF this] r Again show ?thesis by simp
  qed (use r in simp_all)
qed simp

text \<open>More rounds allowed change nothing once the loop has ended.\<close>

lemma loop_fuel_mono:
  "receive_loop lib wr jobs envs fuel s = Some r \<Longrightarrow> fuel \<le> fuel' \<Longrightarrow>
     receive_loop lib wr jobs envs fuel' s = Some r"
proof (induction lib wr jobs envs fuel s arbitrary: fuel' rule: receive_loop.induct)
  case (2 lib wr jobs envs fuel s)
  then obtain f where f: "fuel' = Suc f" "fuel \<le> f" by (cases fuel') auto
  obtain s1 out where r: "receive_round lib wr jobs (envs 0) s = (s1, out)"
    by (cases "receive_round lib wr jobs (envs 0) s")
  with 2(1) [OF r [symmetric]] 2(2) f show ?case by (cases out) simp_all
qed simp

section \<open>Lemmas: accounting\<close>

definition ch_total :: "'w channel \<Rightarrow> int" where
  "ch_total c = chRead c + int (length (avail (chIn c)))"

lemma ch_read_to_total [simp]: "ch_total (ch_read_to r c) = ch_total c"
  by (simp add: ch_total_def ch_read_to_def)

lemma ch_total_cong:
  "map chIn chans = map chIn chans' \<Longrightarrow> map chRead chans = map chRead chans' \<Longrightarrow>
     map ch_total chans = map ch_total chans'"
  by (simp add: ch_total_def list_eq_iff_nth_eq)

lemma read_decoders_total:
  "map ch_total (fold (\<lambda>d. read_decoder (a d) (b d) (k d) d) ds chans) = map ch_total chans"
  by (induction ds arbitrary: chans) (simp_all add: read_decoder_def Let_def map_update_same)

lemma wire_total_eq: "wire_total chans = (\<Sum>n\<leftarrow>map ch_total chans. n) - int (unread chans)"
  by (induction chans) (auto simp: wire_total_def ch_total_def unread_def)

lemma wire_total_cong: "map chRead chans = map chRead chans' \<Longrightarrow> wire_total chans = wire_total chans'"
  by (simp add: wire_total_def)

text \<open>What a stretch of the loop does to the counters, the observer's totals included.\<close>

definition accounts :: "('w, 's) rstate \<Rightarrow> ('w, 's) rstate \<Rightarrow> bool" where
  "accounts s s' \<longleftrightarrow> map ch_total (rsChans s') = map ch_total (rsChans s) \<and>
     (\<forall>p. rsProg s = Some p \<longrightarrow> (\<exists>p'. rsProg s' = Some p' \<and>
        pgWire p' - wire_total (rsChans s') = pgWire p - wire_total (rsChans s) \<and>
        pgReqObjs p' - int (stRequested (rsStats s')) = pgReqObjs p - int (stRequested (rsStats s))))"

lemma accounts_trans: "accounts a b \<Longrightarrow> accounts b c \<Longrightarrow> accounts a c"
  unfolding accounts_def by fastforce

lemma transferred_keeps:
  "\<exists>p'. fold (\<lambda>(i, ob, kids, f). prog_transferred 1 (g ob)) ts (Some p) = Some p' \<and>
     pgWire p' = pgWire p \<and> pgReqObjs p' = pgReqObjs p \<and> pgXferObjs p' = pgXferObjs p + int (length ts)"
proof (induction ts arbitrary: p)
  case (Cons t ts)
  obtain i ob kids f where t: "t = (i, ob, kids, f)" by (cases t) auto
  from Cons.IH [of "p\<lparr>pgXferObjs := pgXferObjs p + 1, pgXferBytes := pgXferBytes p + g ob\<rparr>"]
  show ?case by (auto simp: t prog_transferred_def)
qed simp

lemma send_finals_keeps:
  "send_finals lib wr chans = (chans', e) \<Longrightarrow>
     map chIn chans' = map chIn chans \<and> map chRead chans' = map chRead chans"
  by (induction lib wr chans arbitrary: chans' e rule: send_finals.induct)
    (auto split: prod.splits option.splits)

lemma receive_packs_accounts: "accounts s (fst (receive_packs lib env is ks carry s))"
proof -
  obtain st' n werr where
    w: "st_write lib (rsStore s) (map receipt_object (merged_items lib env is (rsChans s))) = (st', n, werr)"
    by (cases "st_write lib (rsStore s) (map receipt_object (merged_items lib env is (rsChans s)))") auto
  let ?s' = "fst (receive_packs lib env is ks carry s)"
  note ch = receive_packs_channels [OF w, of ks carry]
  have tot: "map ch_total (rsChans ?s') = map ch_total (rsChans s)"
    unfolding ch by (rule read_decoders_total)
  have prog: "rsProg ?s' = fold (\<lambda>(i, ob, kids, f). prog_transferred 1 (int (length (oData ob))))
      (take n (merged_items lib env is (rsChans s)))
      (prog_wire (wire_total (rsChans ?s') - wire_total (rsChans s)) (rsProg s))"
    and req: "stRequested (rsStats ?s') = stRequested (rsStats s)"
    unfolding ch
    unfolding receive_packs_def Let_def merged_items_def [symmetric] w prod.case
    by (simp_all split: option.split)
  have "\<exists>p'. rsProg ?s' = Some p' \<and> pgWire p' - wire_total (rsChans ?s') = pgWire p - wire_total (rsChans s) \<and>
      pgReqObjs p' = pgReqObjs p" if "rsProg s = Some p" for p
  proof -
    let ?p = "p\<lparr>pgWire := pgWire p + (wire_total (rsChans ?s') - wire_total (rsChans s))\<rparr>"
    have "rsProg ?s' = fold (\<lambda>(i, ob, kids, f). prog_transferred 1 (int (length (oData ob))))
        (take n (merged_items lib env is (rsChans s))) (Some ?p)"
      using that by (simp only: prog prog_wire_def option.map)
    with transferred_keeps [of "\<lambda>ob. int (length (oData ob))" "take n (merged_items lib env is (rsChans s))" ?p]
    show ?thesis by auto
  qed
  with tot req show ?thesis unfolding accounts_def by auto
qed

lemma accounts_same:
  assumes "map chIn (rsChans s') = map chIn (rsChans s)" and "map chRead (rsChans s') = map chRead (rsChans s)"
    and "rsProg s' = (if n = 0 then rsProg s else prog_requested (int n) b (rsProg s))"
    and "stRequested (rsStats s') = stRequested (rsStats s) + n"
  shows "accounts s s'"
  using assms(3,4) ch_total_cong [OF assms(1,2)] wire_total_cong [OF assms(2)]
  by (auto simp: accounts_def prog_requested_def)

lemma round_accounts:
  assumes "receive_round lib wr jobs env s = (s', out)"
  shows "accounts s s' \<and> (out = Finished \<longrightarrow> stBytes (rsStats s') = wire_total (rsChans s'))"
proof (cases "wants lib (rsStore s) (rsFrontier s) jobs")
  case (Inl e)
  with assms show ?thesis by (auto simp: receive_round_def accounts_def)
next
  case (Inr ks)
  obtain ask carry where sp: "split_wants ks maxWantsPerRound = (ask, carry)"
    by (cases "split_wants ks maxWantsPerRound")
  show ?thesis
  proof (cases "ask = []")
    case True
    obtain chans' e where f: "send_finals lib wr (rsChans s) = (chans', e)"
      by (cases "send_finals lib wr (rsChans s)")
    from assms Inr sp True f send_finals_keeps [OF f] show ?thesis
      by (auto simp: receive_round_def intro!: accounts_same [where n = 0] split: option.splits)
  next
    case False
    let ?s1 = "s\<lparr>rsStats := (rsStats s)\<lparr>stRounds := Suc (stRounds (rsStats s)),
        stRequested := stRequested (rsStats s) + length ask\<rparr>,
      rsProg := prog_requested (int (length ask)) (key_bytes_sum lib 0 ask) (rsProg s)\<rparr>"
    let ?s2 = "?s1\<lparr>rsPrev := map chRead (rsChans s)\<rparr>"
    let ?wt = "map2 (\<lambda>c p. chRead c - p) (rsChans s) (rsPrev s)"
    note eq = assms [unfolded receive_round_def, simplified Inr sp Let_def False if_False sum.case prod.case]
    have s2: "accounts s (?s2\<lparr>rsChans := chans'\<rparr>)"
      if "map chIn chans' = map chIn (rsChans s)" "map chRead chans' = map chRead (rsChans s)" for chans'
      using that False by (intro accounts_same [where n = "length ask" and b = "key_bytes_sum lib 0 ask"]) simp_all
    show ?thesis
    proof (cases "deal_wants lib ask ?wt")
      case (Inl e)
      with eq s2 [of "rsChans s"] show ?thesis by (auto simp: accounts_def)
    next
      case sh: (Inr shards)
      obtain chans' "is" e where ss: "send_shards lib wr 0 shards (rsChans s) = (chans', is, e)"
        by (cases "send_shards lib wr 0 shards (rsChans s)") auto
      note k = send_shards_keeps [OF ss]
      show ?thesis
      proof (cases e)
        case (Some err)
        with eq sh ss k s2 [of chans'] show ?thesis by auto
      next
        case None
        with eq sh ss have rp: "receive_packs lib env is ask carry (?s2\<lparr>rsChans := chans'\<rparr>) = (s', out)"
          by (simp add: False)
        then have "out \<noteq> Finished"
          by (auto simp: receive_packs_def Let_def split: prod.splits option.splits)
        with receive_packs_accounts [of "?s2\<lparr>rsChans := chans'\<rparr>" lib env "is" ask carry] rp k s2 [of chans']
        show ?thesis by (auto intro: accounts_trans)
      qed
    qed
  qed
qed

lemma loop_accounts:
  "receive_loop lib wr jobs envs fuel s = Some (s', e) \<Longrightarrow>
     accounts s s' \<and> (e = None \<longrightarrow> stBytes (rsStats s') = wire_total (rsChans s'))"
proof (induction fuel arbitrary: envs s)
  case (Suc fuel)
  obtain s1 out where r: "receive_round lib wr jobs (envs 0) s = (s1, out)"
    by (cases "receive_round lib wr jobs (envs 0) s")
  note ra = round_accounts [OF r]
  show ?case
  proof (cases out)
    case Again
    with Suc.prems r have "receive_loop lib wr jobs (\<lambda>n. envs (Suc n)) fuel s1 = Some (s', e)" by simp
    from Suc.IH [OF this] ra show ?thesis by (auto intro: accounts_trans)
  qed (use ra r Suc.prems in auto)
qed simp

end
