(* ===== verification/Send_Loop.thy ===== *)
theory Send_Loop
  imports Receive_Loop
begin

text \<open>
  The sending half of the want loop, \<open>Send\<close> of wantsync/wantsync.go, with its \<open>wireWriter\<close>:
  each \<open>TWants\<close> frame is answered with one pack of the stored records of the requested keys,
  until an empty \<open>TWants\<close> ends the loop; a local read failure is told to the peer in a \<open>TErr\<close>
  frame.
\<close>

section \<open>The writer that reports to the observer\<close>

record 'w wire_writer =
  wwW :: 'w
  wwProg :: "progress option"

definition ww_write :: "'w writer \<Rightarrow> 'w wire_writer writer" where
  "ww_write wr u p =
     (case wr (wwW u) p of
        (w, n, e) \<Rightarrow> (\<lparr>wwW = w, wwProg = (if 0 < n then prog_wire (int n) (wwProg u) else wwProg u)\<rparr>, n, e))"

interpretation ww: reliable_writer "ww_write os_write" "\<lambda>u. os_sent (wwW u)" "\<lambda>u. os_up (wwW u)"
proof
  fix w p w' n
  assume "ww_write os_write w p = (w', n, None)"
  then show "n = length p \<and> os_sent (wwW w') = os_sent (wwW w) @ p"
    by (auto simp: ww_write_def split: prod.splits dest: os.write_ok)
next
  fix w p w' n e
  assume "ww_write os_write w p = (w', n, Some e)"
  then show "n \<le> length p \<and> os_sent (wwW w') = os_sent (wwW w) @ take n p"
    by (auto simp: ww_write_def split: prod.splits dest: os.write_err)
next
  fix w :: "ostream wire_writer" and p
  assume "os_up (wwW w)"
  from os.write_healthy [OF this, of p] show "\<exists>w'. ww_write os_write w p = (w', length p, None) \<and> os_up (wwW w')"
    by (auto simp: ww_write_def)
qed

text \<open>The observer learns of exactly the bytes that go out.\<close>

definition ww_counts :: "ostream wire_writer \<Rightarrow> ostream wire_writer \<Rightarrow> bool" where
  "ww_counts u u' \<longleftrightarrow> (\<exists>k. length (os_sent (wwW u')) = length (os_sent (wwW u)) + k \<and>
     wwProg u' = prog_wire (int k) (wwProg u))"

lemma prog_wire_0 [simp]: "prog_wire 0 p = p"
  by (cases p) (simp_all add: prog_wire_def)

lemma prog_wire_add [simp]: "prog_wire a (prog_wire b p) = prog_wire (b + a) p"
  by (cases p) (simp_all add: prog_wire_def)

interpretation ww: writer_trace "ww_write os_write" ww_counts
proof
  fix u show "ww_counts u u" by (auto simp: ww_counts_def intro: exI [of _ 0])
next
  fix a b c assume "ww_counts a b" "ww_counts b c"
  then obtain k l where "length (os_sent (wwW b)) = length (os_sent (wwW a)) + k" "wwProg b = prog_wire (int k) (wwProg a)"
    "length (os_sent (wwW c)) = length (os_sent (wwW b)) + l" "wwProg c = prog_wire (int l) (wwProg b)"
    by (auto simp: ww_counts_def)
  then show "ww_counts a c" by (auto simp: ww_counts_def intro!: exI [of _ "k + l"])
next
  fix u p u' n e
  assume w: "ww_write os_write u p = (u', n, e)"
  obtain v m f where os: "os_write (wwW u) p = (v, m, f)" by (metis prod_cases3)
  have "length (os_sent v) = length (os_sent (wwW u)) + m"
    using os.write_ok [of "wwW u" p v m] os.write_err [of "wwW u" p v m] os by (cases f) auto
  with w os show "ww_counts u u'" by (auto simp: ww_write_def ww_counts_def intro!: exI [of _ m])
qed

section \<open>Answering a request\<close>

text \<open>
  The iterator over the stored records: what it yields, up to the first error.  An object that
  is handed on has been reported with the uncompressed length its record names.
\<close>

definition object_err :: "('p, 's, 'z) core_lib_scheme \<Rightarrow> key \<Rightarrow> string \<Rightarrow> goerr \<Rightarrow> goerr" where
  "object_err lib k what e = Wrapf (''object '' @ key_string lib k @ '': '' @ what) e []"

fun record_items :: "('p, 's, 'z) core_lib_scheme \<Rightarrow> 's \<Rightarrow> key list \<Rightarrow> (goerr + bytes) list" where
  "record_items lib st [] = []"
| "record_items lib st (k # ks) =
     (case st_get_record lib st k of
        Inl e \<Rightarrow> [Inl (object_err lib k [] e)]
      | Inr rec \<Rightarrow>
          (case amber_ulen lib rec of
             Inl e \<Rightarrow> [Inl (object_err lib k ''stored record: '' e)]
           | Inr u \<Rightarrow> Inr rec # record_items lib st ks))"

definition report_record ::
  "('p, 's, 'z) core_lib_scheme \<Rightarrow> goerr + bytes \<Rightarrow> progress option \<Rightarrow> progress option" where
  "report_record lib x p =
     (case x of
        Inl e \<Rightarrow> p
      | Inr rec \<Rightarrow> (case amber_ulen lib rec of Inl e \<Rightarrow> p | Inr u \<Rightarrow> prog_transferred 1 (int u) p))"

record 'w send_state =
  ssIn :: instream
  ssOut :: 'w
  ssProg :: "progress option"

definition send_err_msg :: "('p, 's, 'z) core_lib_scheme \<Rightarrow> goerr \<Rightarrow> msg" where
  "send_err_msg lib e = zero_msg\<lparr>mType := TErr, mCode := CodeInternal, mText := err_text (key_string lib) e\<rparr>"

definition send_answer ::
  "('p, 's, 'z) core_lib_scheme \<Rightarrow> 'w writer \<Rightarrow> 's \<Rightarrow> key list \<Rightarrow> 'w send_state \<Rightarrow> 'w send_state \<times> outcome" where
  "send_answer lib wr st requested s =
     (let ks = dedupe_keys requested;
          items = record_items lib st (st_sort lib st ks) in
      case send_pack_records lib (ww_write wr)
          \<lparr>wwW = ssOut s, wwProg = prog_requested (int (length ks)) (key_bytes_sum lib 0 ks) (ssProg s)\<rparr> items of
        (u, n, e) \<Rightarrow>
          let s' = s\<lparr>ssOut := wwW u, ssProg := fold (report_record lib) (take n items) (wwProg u)\<rparr> in
          (case e of
             None \<Rightarrow> (s', Again)
           | Some err \<Rightarrow>
               (case write_msg lib wr (ssOut s') (send_err_msg lib err) of
                  (w, _) \<Rightarrow> (s'\<lparr>ssOut := w\<rparr>, Failed err))))"

definition wants_type_err :: "msg \<Rightarrow> goerr" where
  "wants_type_err m = Wrapf [] ProtocolErr ('': type '' @ dec_int (mType m) @ '', want TWants'')"

definition send_round ::
  "('p, 's, 'z) core_lib_scheme \<Rightarrow> 'w writer \<Rightarrow> 's \<Rightarrow> 'w send_state \<Rightarrow> 'w send_state \<times> outcome" where
  "send_round lib wr st s =
     (case read_msg lib (ssIn s) of
        (r, Inl e) \<Rightarrow> (s\<lparr>ssIn := r\<rparr>, Failed e)
      | (r, Inr m) \<Rightarrow>
          let s1 = s\<lparr>ssIn := r\<rparr> in
          if mType m = TErr then (s1, Failed (remote_from_msg m))
          else if mType m \<noteq> TWants then (s1, Failed (wants_type_err m))
          else if mKeys m = [] then (s1, Finished)
          else (case decode_keys lib (mKeys m) of
                  Inl e \<Rightarrow> (s1, Failed e)
                | Inr ks \<Rightarrow> send_answer lib wr st ks s1))"

lemma send_answer_in: "send_answer lib wr st ks s = (s', out) \<Longrightarrow> ssIn s' = ssIn s"
  by (auto simp: send_answer_def Let_def split: prod.splits option.splits)

lemma send_round_Again:
  assumes "send_round lib wr st s = (s', Again)"
  obtains m ks where "read_msg lib (ssIn s) = (ssIn s', Inr m)" "mType m = TWants" "mKeys m \<noteq> []"
    "decode_keys lib (mKeys m) = Inr ks" "send_answer lib wr st ks (s\<lparr>ssIn := ssIn s'\<rparr>) = (s', Again)"
proof -
  obtain r x where rm: "read_msg lib (ssIn s) = (r, x)" by (cases "read_msg lib (ssIn s)")
  with assms obtain m where m: "x = Inr m" "mType m = TWants" "mKeys m \<noteq> []"
    by (auto simp: send_round_def Let_def split: sum.splits if_splits)
  with assms rm obtain ks where ks: "decode_keys lib (mKeys m) = Inr ks"
    by (cases "decode_keys lib (mKeys m)") (auto simp: send_round_def Let_def split: if_splits)
  have "send_answer lib wr st ks (s\<lparr>ssIn := r\<rparr>) = (s', Again)"
    using assms rm m ks by (auto simp: send_round_def Let_def TWants_def TErr_def)
  with send_answer_in [OF this] rm m ks show ?thesis by (auto intro: that)
qed

lemma send_round_shrinks:
  "send_round lib wr st s = (s', Again) \<Longrightarrow> length (avail (ssIn s')) < length (avail (ssIn s))"
  by (blast elim: send_round_Again dest: wire.recv_progress)

text \<open>Every turn has read a frame, so the loop ends on every finite input.\<close>

function send_loop ::
  "('p, 's, 'z) core_lib_scheme \<Rightarrow> 'w writer \<Rightarrow> 's \<Rightarrow> 'w send_state \<Rightarrow> 'w send_state \<times> goerr option" where
  "send_loop lib wr st s =
     (case send_round lib wr st s of
        (s', Finished) \<Rightarrow> (s', None)
      | (s', Failed e) \<Rightarrow> (s', Some e)
      | (s', Again) \<Rightarrow> send_loop lib wr st s')"
  by pat_completeness auto
termination
  by (relation "measure (\<lambda>(lib, wr, st, s). length (avail (ssIn s)))")
    (auto dest!: sym [of _ "send_round _ _ _ _"] dest: send_round_shrinks)

declare send_loop.simps [simp del]

section \<open>Lemmas\<close>

text \<open>\<open>SortByLocation\<close> reorders the keys.\<close>

definition sort_law :: "('p, 's, 'z) core_lib_scheme \<Rightarrow> bool" where
  "sort_law lib \<longleftrightarrow> (\<forall>st ks. mset (st_sort lib st ks) = mset ks)"

lemma record_items_ok:
  "\<forall>x\<in>set (record_items lib st ks). \<not> isl x \<Longrightarrow>
     \<exists>recs. record_items lib st ks = map Inr recs \<and> list_all2 (\<lambda>k r. st_get_record lib st k = Inr r) ks recs"
proof (induction ks)
  case (Cons k ks)
  then obtain rec u where r: "st_get_record lib st k = Inr rec" "amber_ulen lib rec = Inr u"
    by (auto split: sum.splits)
  with Cons obtain recs where "record_items lib st ks = map Inr recs"
    "list_all2 (\<lambda>k r. st_get_record lib st k = Inr r) ks recs" by auto
  with r show ?case by (auto intro!: exI [of _ "rec # recs"])
qed simp

lemma dedup_seen_distinct: "distinct (dedup_seen seen ks)"
  by (induction ks arbitrary: seen) (auto simp: dedup_seen_set)

lemma dedupe_mset: "mset (dedupe_keys ks) = mset_set (set ks)"
  using dedup_seen_distinct [of "{}" ks] mset_set_set [of "dedup_seen {} ks"]
  by (simp add: dedupe_keys_def dedup_seen_set)

lemma dedupe_length: "length (dedupe_keys ks) = card (set ks)"
  using dedup_seen_distinct [of "{}" ks] distinct_card [of "dedup_seen {} ks"]
  by (simp add: dedupe_keys_def dedup_seen_set)

text \<open>What a successful answer consists of.\<close>

lemma send_answer_Again:
  assumes "send_answer lib os_write st ks s = (s', Again)" and "sort_law lib"
  obtains sorted recs u where "mset sorted = mset_set (set ks)"
    "list_all2 (\<lambda>k r. st_get_record lib st k = Inr r) sorted recs"
    "record_items lib st sorted = map Inr recs"
    "send_items (aw_add_record lib) lib (ww_write os_write)
       \<lparr>wwW = ssOut s, wwProg = prog_requested (int (card (set ks))) (key_bytes_sum lib 0 (dedupe_keys ks)) (ssProg s)\<rparr>
       (map Inr recs) = (u, length recs, None)"
    "ssOut s' = wwW u" "ssProg s' = fold (report_record lib) (map Inr recs) (wwProg u)"
proof -
  let ?sorted = "st_sort lib st (dedupe_keys ks)"
  let ?items = "record_items lib st ?sorted"
  let ?u = "\<lparr>wwW = ssOut s, wwProg = prog_requested (int (card (set ks))) (key_bytes_sum lib 0 (dedupe_keys ks)) (ssProg s)\<rparr>"
  obtain u n where snd: "send_items (aw_add_record lib) lib (ww_write os_write) ?u ?items = (u, n, None)"
    and s': "ssOut s' = wwW u" "ssProg s' = fold (report_record lib) (take n ?items) (wwProg u)"
    using assms(1) unfolding send_answer_def send_pack_records_def Let_def dedupe_length
    by (auto split: prod.splits option.splits)
  from ww.send_items_ok [OF snd] have n: "n = length ?items" and "\<forall>x\<in>set ?items. \<not> isl x" by auto
  from record_items_ok [OF this(2)] obtain recs where recs: "?items = map Inr recs"
    "list_all2 (\<lambda>k r. st_get_record lib st k = Inr r) ?sorted recs" by blast
  have "mset ?sorted = mset_set (set ks)" using assms(2) by (simp add: sort_law_def dedupe_mset)
  with recs snd n s' show ?thesis by (intro that [of ?sorted recs u]) simp_all
qed

lemma report_records:
  "\<forall>x\<in>set recs. \<not> isl (amber_ulen lib x) \<Longrightarrow>
     \<exists>p'. fold (report_record lib) (map Inr recs) (Some p) = Some p' \<and>
       pgXferObjs p' = pgXferObjs p + int (length recs) \<and> pgWire p' = pgWire p \<and> pgReqObjs p' = pgReqObjs p"
proof (induction recs arbitrary: p)
  case (Cons r recs)
  then obtain u where u: "amber_ulen lib r = Inr u" by (auto simp: isl_def split: sum.splits) (metis sum.exhaust)
  with Cons.prems Cons.IH [of "p\<lparr>pgXferObjs := pgXferObjs p + 1, pgXferBytes := pgXferBytes p + int u\<rparr>"]
  show ?case by (auto simp: report_record_def prog_transferred_def)
qed simp

lemma record_items_ulen:
  "record_items lib st ks = map Inr recs \<Longrightarrow> \<forall>x\<in>set recs. \<not> isl (amber_ulen lib x)"
proof (induction ks arbitrary: recs)
  case (Cons k ks)
  then show ?case by (auto split: sum.splits)
qed simp

section \<open>Properties\<close>

text \<open>
  Claim C13 (exactly the requested objects).  When \<open>Send\<close> goes on to another round, it has
  answered the \<open>TWants\<close> with one pack holding the stored record of every requested key once,
  however often the peer asked for it, and of no other key; a pack reader gets exactly these
  records back and ends where the next frame begins.
\<close>

theorem send_answers_exactly:
  assumes "sort_law lib" and "data_codec lib" and "send_round lib os_write st s = (s', Again)"
  shows "\<exists>m ks sorted recs b. read_msg lib (ssIn s) = (ssIn s', Inr m) \<and> mType m = TWants \<and>
    decode_keys lib (mKeys m) = Inr ks \<and> mset sorted = mset_set (set ks) \<and>
    list_all2 (\<lambda>k r. st_get_record lib st k = Inr r) sorted recs \<and> os_sent (ssOut s') = os_sent (ssOut s) @ b \<and>
    (\<forall>k r f. \<exists>p. pr_read_all lib k (new_pack_reader \<lparr>avail = b @ r, fin = f\<rparr>) =
       (p, pack_content (aw_add_record lib) lib (map Inr recs), None) \<and> prR p = \<lparr>avail = r, fin = f\<rparr>)"
proof -
  obtain m ks where m: "read_msg lib (ssIn s) = (ssIn s', Inr m)" "mType m = TWants"
    "decode_keys lib (mKeys m) = Inr ks" and an: "send_answer lib os_write st ks (s\<lparr>ssIn := ssIn s'\<rparr>) = (s', Again)"
    using send_round_Again [OF assms(3)] by metis
  from an assms(1) obtain sorted recs u where a: "mset sorted = mset_set (set ks)"
    "list_all2 (\<lambda>k r. st_get_record lib st k = Inr r) sorted recs" "ssOut s' = wwW u"
    and sd: "send_items (aw_add_record lib) lib (ww_write os_write)
       \<lparr>wwW = ssOut (s\<lparr>ssIn := ssIn s'\<rparr>), wwProg = prog_requested (int (card (set ks)))
          (key_bytes_sum lib 0 (dedupe_keys ks)) (ssProg (s\<lparr>ssIn := ssIn s'\<rparr>))\<rparr>
       (map Inr recs) = (u, length recs, None)"
    by (rule send_answer_Again)
  from ww.send_items_ok [OF sd] obtain bs b where
    bs: "list_all2 (\<lambda>d b. frame_bytes lib (data_msg d) = Some b)
      (chunks ChunkSize (pack_content (aw_add_record lib) lib (map Inr recs))) bs"
    and b: "frame_bytes lib end_msg = Some b" and sent: "os_sent (wwW u) = os_sent (ssOut s) @ concat bs @ b" by auto
  have "os_sent (ssOut s') = os_sent (ssOut s) @ concat bs @ b" using a(3) sent by simp
  with m a(1,2) read_finished [OF assms(2) bs b] show ?thesis by blast
qed

text \<open>The sample sender is asked twice for \<open>9\<close> and once for \<open>4\<close>.\<close>

definition sample_source :: sample_store where
  "sample_source = [(Key [4], [4]), (Key [9], [9, 4])]"

definition sample_request :: "key list" where
  "sample_request = [Key [9], Key [4], Key [9]]"

lemma sample_request_card: "card (set sample_request) = 2"
  by (simp add: sample_request_def card_insert_if)

lemma sample_sort_law: "sort_law (sample_lib ms)"
  by (simp add: sort_law_def sample_lib_def)

lemma sample_request_frame:
  "\<exists>b. good_frame pack_sample (wants_msg sample_request) = Some b"
proof -
  have w: "wants_msg sample_request = zero_msg\<lparr>mType := 6, mKeys := [[9], [4], [9]]\<rparr>"
    by (simp add: wants_msg_def encode_keys_def sample_request_def TWants_def)
  have "codec_ok pack_sample (wants_msg sample_request)"
    unfolding w by (simp add: codec_ok_def sample_lib_def book_marshal_def book_unmarshal_def zero_msg_def)
  then show ?thesis
    unfolding w by (simp add: good_frame_def frame_bytes_def sample_lib_def book_marshal_def MaxFrame_def zero_msg_def)
qed

definition sample_sender :: "ostream send_state" where
  "sample_sender = \<lparr>ssIn = \<lparr>avail = the (good_frame pack_sample (wants_msg sample_request)), fin = IoEOF\<rparr>,
     ssOut = fresh_out, ssProg = Some no_progress\<rparr>"

lemma sample_sender_reads:
  "read_msg pack_sample (ssIn sample_sender) = (\<lparr>avail = [], fin = IoEOF\<rparr>, Inr (wants_msg sample_request))"
proof -
  obtain b where b: "good_frame pack_sample (wants_msg sample_request) = Some b"
    using sample_request_frame by blast
  from wire.recv_frame [OF b, of "[]" IoEOF] show ?thesis by (simp add: sample_sender_def b)
qed

lemma sample_decode_request:
  "decode_keys pack_sample (mKeys (wants_msg sample_request)) = Inr sample_request"
  by (simp add: wants_msg_def encode_keys_def sample_request_def sample_lib_def)

lemma sample_send_round: "\<exists>s'. send_round pack_sample os_write sample_source sample_sender = (s', Again)"
proof -
  let ?ks = "dedupe_keys sample_request"
  let ?items = "record_items pack_sample sample_source (st_sort pack_sample sample_source ?ks)"
  have srt: "st_sort pack_sample sample_source ?ks = [Key [4], Key [9]]"
    by (simp add: sample_lib_def dedupe_keys_def sample_request_def less_eq_key_def less_key_def)
  have items: "?items = [Inr [1, 4], Inr [2, 9, 4]]"
    unfolding srt
    by (simp add: sample_lib_def sample_get_def sample_source_def sample_record_def)
  let ?u = "\<lparr>wwW = ssOut sample_sender, wwProg = prog_requested (int (length ?ks)) (key_bytes_sum pack_sample 0 ?ks) (ssProg sample_sender)\<rparr>"
  have "pack_err (aw_add_record pack_sample) (aw_new pack_sample) ?items = None"
    "snd (aw_close pack_sample (fst (pack_writes (aw_add_record pack_sample) (aw_new pack_sample) ?items))) = None"
    unfolding items by (simp_all add: sample_lib_def)
  moreover have "os_up (wwW ?u)" by (simp add: sample_sender_def fresh_up)
  ultimately obtain u where
    "send_items (aw_add_record pack_sample) pack_sample (ww_write os_write) ?u ?items = (u, length ?items, None)"
    using ww.send_items_healthy [OF pack_sample_codec] by blast
  then have "\<exists>s'. send_answer pack_sample os_write sample_source sample_request
      (sample_sender\<lparr>ssIn := \<lparr>avail = [], fin = IoEOF\<rparr>\<rparr>) = (s', Again)"
    by (simp add: send_answer_def send_pack_records_def Let_def)
  moreover have "mType (wants_msg sample_request) = TWants" "mKeys (wants_msg sample_request) \<noteq> []" "TWants \<noteq> TErr"
    by (simp_all add: wants_msg_def encode_keys_def sample_request_def TWants_def TErr_def)
  ultimately show ?thesis
    by (simp add: send_round_def sample_sender_reads sample_decode_request Let_def)
qed

theorem send_answers_exactly_witness:
  "\<exists>s' recs. send_round pack_sample os_write sample_source sample_sender = (s', Again) \<and> length recs = 2 \<and>
    fst (snd (pr_read_all pack_sample 0 (new_pack_reader \<lparr>avail = os_sent (ssOut s'), fin = IoEOF\<rparr>))) =
      pack_content (aw_add_record pack_sample) pack_sample (map Inr recs)"
proof -
  obtain s' where r: "send_round pack_sample os_write sample_source sample_sender = (s', Again)"
    using sample_send_round by blast
  from send_answers_exactly [OF sample_sort_law pack_sample_codec r] obtain ks sorted recs b where
    k: "decode_keys pack_sample (mKeys (wants_msg sample_request)) = Inr ks" "mset sorted = mset_set (set ks)"
    "list_all2 (\<lambda>k r. st_get_record pack_sample sample_source k = Inr r) sorted recs"
    and b: "os_sent (ssOut s') = os_sent (ssOut sample_sender) @ b"
    and rd: "\<forall>k r f. \<exists>p. pr_read_all pack_sample k (new_pack_reader \<lparr>avail = b @ r, fin = f\<rparr>) =
       (p, pack_content (aw_add_record pack_sample) pack_sample (map Inr recs), None) \<and> prR p = \<lparr>avail = r, fin = f\<rparr>"
    unfolding sample_sender_reads by blast
  have "size (mset sorted) = card (set ks)" unfolding k(2) by simp
  moreover have "ks = sample_request" using k(1) by (simp add: sample_decode_request)
  ultimately have "length recs = 2"
    using list_all2_lengthD [OF k(3)] by (simp add: sample_request_card)
  moreover have "os_sent (ssOut s') = b @ []" using b by (simp add: sample_sender_def fresh_out_def)
  ultimately show ?thesis using r rd by (metis fst_conv snd_conv)
qed

text \<open>
  Fact (what the sender's observer sees).  In a round that \<open>Send\<close> answers, the observer is
  told of exactly the bytes that went out, and of one requested and one transferred object for
  every distinct key the peer asked for.
\<close>

theorem send_accounting:
  assumes "sort_law lib" and "send_round lib os_write st s = (s', Again)" and "ssProg s = Some p"
  shows "\<exists>m ks p'. read_msg lib (ssIn s) = (ssIn s', Inr m) \<and> decode_keys lib (mKeys m) = Inr ks \<and> ssProg s' = Some p' \<and>
    pgWire p' = pgWire p + int (length (os_sent (ssOut s')) - length (os_sent (ssOut s))) \<and>
    pgReqObjs p' = pgReqObjs p + int (card (set ks)) \<and> pgXferObjs p' = pgXferObjs p + int (card (set ks))"
proof -
  obtain m ks where m: "read_msg lib (ssIn s) = (ssIn s', Inr m)" "decode_keys lib (mKeys m) = Inr ks"
    and an: "send_answer lib os_write st ks (s\<lparr>ssIn := ssIn s'\<rparr>) = (s', Again)"
    using send_round_Again [OF assms(2)] by metis
  let ?s = "s\<lparr>ssIn := ssIn s'\<rparr>"
  let ?u = "\<lparr>wwW = ssOut ?s, wwProg = prog_requested (int (card (set ks))) (key_bytes_sum lib 0 (dedupe_keys ks)) (ssProg ?s)\<rparr>"
  from an assms(1) obtain sorted recs u where a: "mset sorted = mset_set (set ks)"
    "list_all2 (\<lambda>k r. st_get_record lib st k = Inr r) sorted recs" "record_items lib st sorted = map Inr recs"
    "ssOut s' = wwW u" "ssProg s' = fold (report_record lib) (map Inr recs) (wwProg u)"
    and sd: "send_items (aw_add_record lib) lib (ww_write os_write) ?u (map Inr recs) = (u, length recs, None)"
    by (rule send_answer_Again)
  have "length recs = size (mset sorted)" using a(2) by (simp add: list_all2_lengthD)
  then have len: "length recs = card (set ks)" unfolding a(1) by simp
  from ww.frames.send_items_R [OF sd] obtain k where
    k: "length (os_sent (wwW u)) = length (os_sent (ssOut s)) + k" "wwProg u = prog_wire (int k) (wwProg ?u)"
    by (auto simp: ww_counts_def)
  from k(2) assms(3) obtain q where q: "wwProg u = Some q" "pgWire q = pgWire p + int k"
    "pgReqObjs q = pgReqObjs p + int (card (set ks))" "pgXferObjs q = pgXferObjs p"
    by (auto simp: prog_requested_def prog_wire_def)
  from report_records [OF record_items_ulen [OF a(3)], of q] a(4,5) k(1) q len m show ?thesis by auto
qed

theorem send_accounting_witness:
  "\<exists>s' p'. send_round pack_sample os_write sample_source sample_sender = (s', Again) \<and> ssProg s' = Some p' \<and>
    pgWire p' = int (length (os_sent (ssOut s'))) \<and> pgXferObjs p' = 2"
proof -
  obtain s' where r: "send_round pack_sample os_write sample_source sample_sender = (s', Again)"
    using sample_send_round by blast
  have "ssProg sample_sender = Some no_progress" "os_sent (ssOut sample_sender) = []"
    by (simp_all add: sample_sender_def fresh_out_def)
  moreover note sample_request_card
  ultimately show ?thesis
    using send_accounting [OF sample_sort_law r] r
    by (auto simp: sample_sender_reads sample_decode_request no_progress_def)
qed

text \<open>
  Claim C30 (a failed answer is reported).  When a requested object cannot be read from the
  store, on a connection that stays up, \<open>Send\<close> returns that error, and whatever part of the
  pack went out is followed by a \<open>TErr\<close> frame: the peer's pack reader ends with a
  \<open>RemoteError\<close> of code \<open>internal\<close> that carries the text of the error.
\<close>

theorem send_failure_reported:
  assumes "data_codec lib" and "os_up (ssOut s)" and "read_msg lib (ssIn s) = (r, Inr m)"
    and "mType m = TWants" and "mKeys m \<noteq> []" and "decode_keys lib (mKeys m) = Inr ks"
    and "pack_err (aw_add_record lib) (aw_new lib) (record_items lib st (st_sort lib st (dedupe_keys ks))) = Some e"
    and "good_frame lib (send_err_msg lib e) = Some eb"
  shows "\<exists>s' b. send_loop lib os_write st s = (s', Some e) \<and> os_sent (ssOut s') = os_sent (ssOut s) @ b \<and>
    (\<forall>k r f. snd (snd (pr_read_all lib k (new_pack_reader \<lparr>avail = b @ r, fin = f\<rparr>))) =
       Some (RemoteError CodeInternal (err_text (key_string lib) e) []))"
proof -
  let ?items = "record_items lib st (st_sort lib st (dedupe_keys ks))"
  let ?u = "\<lparr>wwW = ssOut s, wwProg = prog_requested (int (length (dedupe_keys ks)))
    (key_bytes_sum lib 0 (dedupe_keys ks)) (ssProg s)\<rparr>"
  have up: "os_up (wwW ?u)" using assms(2) by simp
  from ww.send_items_abort [OF assms(1) up assms(7)] obtain u n ds bs where
    sd: "send_items (aw_add_record lib) lib (ww_write os_write) ?u ?items = (u, n, Some e)" and h: "os_up (wwW u)"
    and ds: "list_all2 (\<lambda>d b. frame_bytes lib (data_msg d) = Some b) ds bs" "\<forall>d\<in>set ds. length d = ChunkSize"
    and sent: "os_sent (wwW u) = os_sent (ssOut s) @ concat bs" by auto
  from os.write_msg_healthy [OF good_frame_bytes [OF assms(8)] h] obtain w where
    w: "write_msg lib os_write (wwW u) (send_err_msg lib e) = (w, None)" "os_sent w = os_sent (wwW u) @ eb" by blast
  have "\<exists>s'. send_round lib os_write st s = (s', Failed e) \<and> ssOut s' = w"
    using assms(3-6) sd w(1)
    by (simp add: send_round_def send_answer_def send_pack_records_def Let_def TWants_def TErr_def)
  then obtain s' where "send_round lib os_write st s = (s', Failed e)" and sw: "ssOut s' = w" by blast
  then have sl: "send_loop lib os_write st s = (s', Some e)" by (subst send_loop.simps) simp
  note s' = sl sw
  have "mType (send_err_msg lib e) = TErr"
    "remote_from_msg (send_err_msg lib e) = RemoteError CodeInternal (err_text (key_string lib) e) []"
    by (simp_all add: send_err_msg_def remote_from_msg_def zero_msg_def)
  with read_aborted [OF assms(1) ds assms(8)] s' w(2) sent show ?thesis
    by (intro exI [of _ s'] exI [of _ "concat bs @ eb"]) simp
qed

text \<open>The sample sender whose store is empty.\<close>

definition absent_err :: goerr where
  "absent_err = object_err pack_sample (Key [9]) [] StoreNotFound"

abbreviation fail_sample :: "(unit, sample_store) core_lib" where
  "fail_sample \<equiv> sample_lib [end_msg, send_err_msg pack_sample absent_err]"

lemma fail_sample_frames:
  "\<exists>b. good_frame fail_sample (wants_msg [Key [9]]) = Some b"
  "\<exists>b. good_frame fail_sample (send_err_msg fail_sample absent_err) = Some b"
proof -
  have w: "wants_msg [Key [9]] = zero_msg\<lparr>mType := 6, mKeys := [[9]]\<rparr>"
    by (simp add: wants_msg_def encode_keys_def TWants_def)
  have "codec_ok fail_sample (wants_msg [Key [9]])"
    unfolding w by (simp add: codec_ok_def sample_lib_def book_marshal_def book_unmarshal_def zero_msg_def)
  then show "\<exists>b. good_frame fail_sample (wants_msg [Key [9]]) = Some b"
    unfolding w by (simp add: good_frame_def frame_bytes_def sample_lib_def book_marshal_def MaxFrame_def zero_msg_def)
  have e: "send_err_msg fail_sample absent_err = send_err_msg pack_sample absent_err"
    by (simp add: send_err_msg_def sample_lib_def)
  have "codec_ok fail_sample (send_err_msg pack_sample absent_err)" by (rule sample_codec_ok) simp_all
  moreover have "\<exists>p. marshal fail_sample (send_err_msg pack_sample absent_err) = Inr p \<and> length p = 2"
    by (simp add: sample_lib_def book_marshal_def send_err_msg_def end_msg_def zero_msg_def TErr_def TDataEnd_def)
  ultimately show "\<exists>b. good_frame fail_sample (send_err_msg fail_sample absent_err) = Some b"
    unfolding e by (auto simp: good_frame_def frame_bytes_def MaxFrame_def)
qed

theorem send_failure_reported_witness:
  "\<exists>r s' b. send_loop fail_sample os_write [] \<lparr>ssIn = r, ssOut = fresh_out, ssProg = None\<rparr> = (s', Some absent_err) \<and>
    os_sent (ssOut s') = b \<and>
    (\<exists>txt. snd (snd (pr_read_all fail_sample 0 (new_pack_reader \<lparr>avail = b, fin = IoEOF\<rparr>))) = Some (RemoteError CodeInternal txt []))"
proof -
  obtain b where b: "good_frame fail_sample (wants_msg [Key [9]]) = Some b" using fail_sample_frames(1) by blast
  obtain eb where eb: "good_frame fail_sample (send_err_msg fail_sample absent_err) = Some eb"
    using fail_sample_frames(2) by blast
  let ?s = "\<lparr>ssIn = \<lparr>avail = b, fin = IoEOF\<rparr>, ssOut = fresh_out, ssProg = None\<rparr>"
  have dc: "data_codec fail_sample" by (rule sample_data_codec) simp_all
  have rd: "read_msg fail_sample (ssIn ?s) = (\<lparr>avail = [], fin = IoEOF\<rparr>, Inr (wants_msg [Key [9]]))"
    using wire.recv_frame [OF b, of "[]" IoEOF] by simp
  have t: "mType (wants_msg [Key [9]]) = TWants" "mKeys (wants_msg [Key [9]]) \<noteq> []"
    "decode_keys fail_sample (mKeys (wants_msg [Key [9]])) = Inr [Key [9]]"
    by (simp_all add: wants_msg_def encode_keys_def sample_lib_def)
  have e: "pack_err (aw_add_record fail_sample) (aw_new fail_sample)
      (record_items fail_sample [] (st_sort fail_sample [] (dedupe_keys [Key [9]]))) = Some absent_err"
    by (simp add: sample_lib_def dedupe_keys_def sample_get_def absent_err_def object_err_def)
  have up: "os_up (ssOut ?s)" by (simp add: fresh_up)
  from send_failure_reported [OF dc up rd t e eb] obtain s' c where
    "send_loop fail_sample os_write [] ?s = (s', Some absent_err)" "os_sent (ssOut s') = os_sent fresh_out @ c"
    and rd2: "\<forall>k r f. snd (snd (pr_read_all fail_sample k (new_pack_reader \<lparr>avail = c @ r, fin = f\<rparr>))) =
       Some (RemoteError CodeInternal (err_text (key_string fail_sample) absent_err) [])" by auto
  moreover from rd2 [rule_format, of 0 "[]" IoEOF] have
    "snd (snd (pr_read_all fail_sample 0 (new_pack_reader \<lparr>avail = c, fin = IoEOF\<rparr>))) =
      Some (RemoteError CodeInternal (err_text (key_string fail_sample) absent_err) [])" by simp
  moreover have "os_sent fresh_out = []" by (simp add: fresh_out_def)
  ultimately show ?thesis by (metis append_Nil)
qed

text \<open>
  Fact (anything else ends the loop).  A frame other than \<open>TWants\<close> ends \<open>Send\<close> at once and
  writes nothing: a \<open>TErr\<close> is returned as the \<open>RemoteError\<close> it carries, any other type as an
  error that wraps \<open>ErrProtocol\<close>; an empty \<open>TWants\<close> ends it with nil.
\<close>

theorem send_ends:
  assumes "read_msg lib (ssIn s) = (r, Inr m)" and "mType m \<noteq> TWants \<or> mKeys m = []"
  shows "\<exists>e. send_loop lib wr st s = (s\<lparr>ssIn := r\<rparr>, e) \<and>
    (if mType m = TErr then e = Some (remote_from_msg m)
     else if mType m \<noteq> TWants then \<exists>err. e = Some err \<and> errors_is err ProtocolErr
     else e = None)"
  using assms
  by (subst send_loop.simps) (auto simp: send_round_def Let_def wants_type_err_def TErr_def TWants_def)

theorem send_ends_witness:
  "\<exists>r e. send_loop pack_sample os_write [] \<lparr>ssIn = r, ssOut = fresh_out, ssProg = None\<rparr> =
    (\<lparr>ssIn = \<lparr>avail = [], fin = IoEOF\<rparr>, ssOut = fresh_out, ssProg = None\<rparr>, Some e) \<and>
    errors_is e ProtocolErr"
proof -
  obtain b where b: "good_frame pack_sample end_msg = Some b" using data_codec_end [OF pack_sample_codec] by blast
  let ?s = "\<lparr>ssIn = \<lparr>avail = b, fin = IoEOF\<rparr>, ssOut = fresh_out, ssProg = None\<rparr>"
  have rd: "read_msg pack_sample (ssIn ?s) = (\<lparr>avail = [], fin = IoEOF\<rparr>, Inr end_msg)"
    using wire.recv_frame [OF b, of "[]" IoEOF] by simp
  have t: "mType end_msg \<noteq> TWants \<or> mKeys end_msg = []" "mType end_msg \<noteq> TErr" "mType end_msg \<noteq> TWants"
    by (simp_all add: end_msg_def TDataEnd_def TWants_def TErr_def)
  from send_ends [OF rd t(1), of os_write "[]"] t(2,3) show ?thesis by auto
qed

end
