(* ===== verification/Transfers.thy ===== *)
theory Transfers
  imports Core_Lib
begin

text \<open>
  The transfer registry of server/server.go (\<open>transfers\<close>): tokens of sharded transfers in
  progress, each with the buffered channel through which attaching data streams reach it.
  First the operations as they run undisturbed, then the same operations cut at their lock
  boundaries, as steps of goroutines that interleave.
\<close>

section \<open>The registry\<close>

definition maxDataConns :: nat where "maxDataConns = 16"

text \<open>
  Streams are known by their identity, a number.  \<open>tfChans\<close> is the heap of Go channels: a
  channel made by \<open>create\<close> outlives its entry in \<open>tfPending\<close> while a goroutine still holds it.
\<close>

type_synonym stream = nat

record transfers =
  tfPending :: "bytes \<Rightarrow> nat option"
  tfChans :: "nat \<Rightarrow> stream list"
  tfNext :: nat

definition no_transfers :: transfers where
  "no_transfers = \<lparr>tfPending = Map.empty, tfChans = \<lambda>c. [], tfNext = 0\<rparr>"

text \<open>\<open>rnd\<close> is what \<open>crypto/rand\<close> gives for the token.\<close>

definition tf_create :: "goerr + bytes \<Rightarrow> transfers \<Rightarrow> transfers \<times> (goerr + bytes)" where
  "tf_create rnd t =
     (case rnd of
        Inl e \<Rightarrow> (t, Inl e)
      | Inr token \<Rightarrow>
          (t\<lparr>tfPending := (tfPending t)(token \<mapsto> tfNext t), tfChans := (tfChans t)(tfNext t := []),
             tfNext := Suc (tfNext t)\<rparr>, Inr token))"

text \<open>The non-blocking send of \<open>attach\<close> into a channel buffered for \<open>maxDataConns\<close> streams.\<close>

definition tf_send :: "nat \<Rightarrow> stream \<Rightarrow> transfers \<Rightarrow> transfers \<times> bool" where
  "tf_send c rw t =
     (if length (tfChans t c) < maxDataConns
      then (t\<lparr>tfChans := (tfChans t)(c := tfChans t c @ [rw])\<rparr>, True)
      else (t, False))"

definition tf_attach :: "bytes \<Rightarrow> stream \<Rightarrow> transfers \<Rightarrow> transfers \<times> bool" where
  "tf_attach token rw t =
     (case tfPending t token of None \<Rightarrow> (t, False) | Some c \<Rightarrow> tf_send c rw t)"

text \<open>
  What happens while \<open>gather\<close> waits: another goroutine attaches a stream, the \<open>select\<close> takes
  the next stream from the channel, or it takes the deadline.  At the end of the list the
  deadline is taken.
\<close>

datatype gather_event = Attached bytes stream | TakeNext | Deadline

fun gather_loop :: "nat \<Rightarrow> nat \<Rightarrow> stream list \<Rightarrow> gather_event list \<Rightarrow> transfers \<Rightarrow> transfers \<times> stream list" where
  "gather_loop c n out [] t = (t, out)"
| "gather_loop c n out (ev # evs) t =
     (if n \<le> length out then (t, out)
      else case ev of
        Attached token rw \<Rightarrow> gather_loop c n out evs (fst (tf_attach token rw t))
      | TakeNext \<Rightarrow>
          (case tfChans t c of
             [] \<Rightarrow> gather_loop c n out evs t
           | rw # q \<Rightarrow> gather_loop c n (out @ [rw]) evs (t\<lparr>tfChans := (tfChans t)(c := q)\<rparr>))
      | Deadline \<Rightarrow> (t, out))"

definition tf_gather :: "bytes \<Rightarrow> nat \<Rightarrow> gather_event list \<Rightarrow> transfers \<Rightarrow> transfers \<times> stream list" where
  "tf_gather token n evs t =
     (case tfPending t token of None \<Rightarrow> (t, []) | Some c \<Rightarrow> gather_loop c n [] evs t)"

text \<open>\<open>drop\<close> unregisters the token and returns the queued streams, which it closes.\<close>

definition tf_drop :: "bytes \<Rightarrow> transfers \<Rightarrow> transfers \<times> stream list" where
  "tf_drop token t =
     (case tfPending t token of
        None \<Rightarrow> (t, [])
      | Some c \<Rightarrow>
          (t\<lparr>tfPending := (tfPending t)(token := None), tfChans := (tfChans t)(c := [])\<rparr>, tfChans t c))"

section \<open>Interleaved goroutines\<close>

text \<open>
  The state of all goroutines at work on the registry: the attaching streams that have been
  looked up but not yet sent (\<open>tsLooked\<close>), the streams each transfer has gathered, the channels
  that a \<open>drop\<close> has unregistered and is draining, the ones it is done with, the closed streams
  in the order of closing, and all streams that have asked to attach.
\<close>

record tsys =
  tsT :: transfers
  tsLooked :: "(stream \<times> nat) list"
  tsHeld :: "nat \<Rightarrow> stream list"
  tsDraining :: "nat set"
  tsDone :: "nat set"
  tsClosed :: "stream list"
  tsSeen :: "stream set"

definition tsys_start :: tsys where
  "tsys_start = \<lparr>tsT = no_transfers, tsLooked = [], tsHeld = \<lambda>c. [], tsDraining = {}, tsDone = {},
     tsClosed = [], tsSeen = {}\<rparr>"

text \<open>
  The steps between two lock operations or channel operations.  \<open>attach\<close> takes the mutex only
  for the lookup, and \<open>drop\<close> only for the removal of the token; a token is a fresh random one.
\<close>

inductive tstep :: "tsys \<Rightarrow> tsys \<Rightarrow> bool" where
  ts_create: "tfPending (tsT s) token = None \<Longrightarrow>
    tstep s (s\<lparr>tsT := fst (tf_create (Inr token) (tsT s))\<rparr>)"
| ts_refuse: "rw \<notin> tsSeen s \<Longrightarrow> tfPending (tsT s) token = None \<Longrightarrow>
    tstep s (s\<lparr>tsSeen := insert rw (tsSeen s), tsClosed := tsClosed s @ [rw]\<rparr>)"
| ts_lookup: "rw \<notin> tsSeen s \<Longrightarrow> tfPending (tsT s) token = Some c \<Longrightarrow>
    tstep s (s\<lparr>tsSeen := insert rw (tsSeen s), tsLooked := (rw, c) # tsLooked s\<rparr>)"
| ts_send: "(rw, c) \<in> set (tsLooked s) \<Longrightarrow> tf_send c rw (tsT s) = (t', True) \<Longrightarrow>
    tstep s (s\<lparr>tsT := t', tsLooked := remove1 (rw, c) (tsLooked s)\<rparr>)"
| ts_full: "(rw, c) \<in> set (tsLooked s) \<Longrightarrow> tf_send c rw (tsT s) = (t', False) \<Longrightarrow>
    tstep s (s\<lparr>tsLooked := remove1 (rw, c) (tsLooked s), tsClosed := tsClosed s @ [rw]\<rparr>)"
| ts_take: "tfPending (tsT s) token = Some c \<Longrightarrow> length (tsHeld s c) < maxDataConns \<Longrightarrow>
    tfChans (tsT s) c = rw # q \<Longrightarrow>
    tstep s (s\<lparr>tsT := (tsT s)\<lparr>tfChans := (tfChans (tsT s))(c := q)\<rparr>,
               tsHeld := (tsHeld s)(c := tsHeld s c @ [rw])\<rparr>)"
| ts_unregister: "tfPending (tsT s) token = Some c \<Longrightarrow>
    tstep s (s\<lparr>tsT := (tsT s)\<lparr>tfPending := (tfPending (tsT s))(token := None)\<rparr>,
               tsDraining := insert c (tsDraining s)\<rparr>)"
| ts_drain: "c \<in> tsDraining s \<Longrightarrow> tfChans (tsT s) c = rw # q \<Longrightarrow>
    tstep s (s\<lparr>tsT := (tsT s)\<lparr>tfChans := (tfChans (tsT s))(c := q)\<rparr>, tsClosed := tsClosed s @ [rw]\<rparr>)"
| ts_drained: "c \<in> tsDraining s \<Longrightarrow> tfChans (tsT s) c = [] \<Longrightarrow>
    tstep s (s\<lparr>tsDraining := tsDraining s - {c}, tsDone := insert c (tsDone s)\<rparr>)"
| ts_release: "c \<in> tsDone s \<Longrightarrow> tsHeld s c = rw # q \<Longrightarrow>
    tstep s (s\<lparr>tsHeld := (tsHeld s)(c := q), tsClosed := tsClosed s @ [rw]\<rparr>)"

abbreviation tsteps :: "tsys \<Rightarrow> tsys \<Rightarrow> bool" where
  "tsteps \<equiv> tstep\<^sup>*\<^sup>*"

inductive_cases tstep_cases: "tstep s s'"

section \<open>Lemmas: no stream is lost or closed twice\<close>

text \<open>Where streams can be: looked up, queued, gathered, closed.\<close>

definition places :: "tsys \<Rightarrow> stream list" where
  "places s = map fst (tsLooked s) @
     concat (map (\<lambda>c. tfChans (tsT s) c @ tsHeld s c) [0..<tfNext (tsT s)]) @ tsClosed s"

definition tsys_bounds :: "tsys \<Rightarrow> bool" where
  "tsys_bounds s \<longleftrightarrow>
     (\<forall>token c. tfPending (tsT s) token = Some c \<longrightarrow> c < tfNext (tsT s)) \<and>
     (\<forall>(rw, c)\<in>set (tsLooked s). c < tfNext (tsT s)) \<and>
     (\<forall>c\<in>tsDraining s \<union> tsDone s. c < tfNext (tsT s)) \<and>
     (\<forall>c\<ge>tfNext (tsT s). tfChans (tsT s) c = [] \<and> tsHeld s c = []) \<and>
     (\<forall>c. length (tfChans (tsT s) c) \<le> maxDataConns \<and> length (tsHeld s c) \<le> maxDataConns)"

definition tsys_inv :: "tsys \<Rightarrow> bool" where
  "tsys_inv s \<longleftrightarrow> distinct (places s) \<and> set (places s) = tsSeen s \<and> tsys_bounds s"

lemma mset_concat_map_upd:
  assumes "c < n" and "\<And>d. d < n \<Longrightarrow> d \<noteq> c \<Longrightarrow> g d = f d"
  shows "mset (concat (map g [0..<n])) + mset (f c) = mset (concat (map f [0..<n])) + mset (g c)"
  using assms
proof (induction n)
  case (Suc n)
  show ?case
  proof (cases "c = n")
    case True
    have "map g [0..<n] = map f [0..<n]" using Suc.prems(2) True by (intro map_cong) auto
    then have "mset (concat (map g [0..<n])) = mset (concat (map f [0..<n]))" by (rule arg_cong)
    with True show ?thesis by simp
  next
    case False
    with Suc.prems have "c < n" "g n = f n" by auto
    with Suc.IH Suc.prems(2) show ?thesis by simp
  qed
qed simp

lemma mset_remove1_fst:
  "x \<in> set xs \<Longrightarrow> add_mset (fst x) (mset (map fst (remove1 x xs))) = mset (map fst xs)"
  by (induction xs) auto

text \<open>Only a stream that asks to attach is new; every other step moves streams around.\<close>

lemma tstep_places:
  assumes "tstep s s'" and "tsys_inv s"
  shows "(mset (places s') = mset (places s) \<and> tsSeen s' = tsSeen s) \<or>
    (\<exists>rw. rw \<notin> tsSeen s \<and> mset (places s') = add_mset rw (mset (places s)) \<and> tsSeen s' = insert rw (tsSeen s))"
proof -
  have lt: "c < tfNext (tsT s)" if "tfChans (tsT s) c \<noteq> [] \<or> tsHeld s c \<noteq> []" for c
    using assms(2) that unfolding tsys_inv_def tsys_bounds_def by (metis not_le)
  let ?f = "\<lambda>c. tfChans (tsT s) c @ tsHeld s c"
  show ?thesis
    using assms(1)
  proof cases
    case (ts_create token)
    have "map (\<lambda>c. (if c = tfNext (tsT s) then [] else tfChans (tsT s) c) @ tsHeld s c) [0..<tfNext (tsT s)] =
        map ?f [0..<tfNext (tsT s)]" by (intro map_cong) auto
    then have "mset (concat (map (\<lambda>c. (if c = tfNext (tsT s) then [] else tfChans (tsT s) c) @ tsHeld s c)
        [0..<tfNext (tsT s)])) = mset (concat (map ?f [0..<tfNext (tsT s)]))" by (rule arg_cong)
    moreover have "tsHeld s (tfNext (tsT s)) = []" using assms(2) by (simp add: tsys_inv_def tsys_bounds_def)
    ultimately show ?thesis using ts_create by (simp add: places_def tf_create_def)
  next
    case (ts_send rw c t')
    then have t': "t' = (tsT s)\<lparr>tfChans := (tfChans (tsT s))(c := tfChans (tsT s) c @ [rw])\<rparr>"
      by (auto simp: tf_send_def split: if_splits)
    have c: "c < tfNext (tsT s)" using assms(2) ts_send(2) by (auto simp: tsys_inv_def tsys_bounds_def)
    from mset_concat_map_upd [OF c, of "\<lambda>d. tfChans t' d @ tsHeld s d" ?f]
    show ?thesis using ts_send mset_remove1_fst [OF ts_send(2)]
      by (auto simp: places_def t')
  next
    case (ts_full rw c t')
    with mset_remove1_fst [OF ts_full(2)] show ?thesis by (auto simp: places_def)
  next
    case (ts_take token c rw q)
    then have c: "c < tfNext (tsT s)" using lt by simp
    from mset_concat_map_upd [OF c, of "\<lambda>d. ((tfChans (tsT s))(c := q)) d @ ((tsHeld s)(c := tsHeld s c @ [rw])) d" ?f]
    show ?thesis using ts_take by (simp add: places_def)
  next
    case (ts_drain c rw q)
    then have c: "c < tfNext (tsT s)" using lt by simp
    from mset_concat_map_upd [OF c, of "\<lambda>d. ((tfChans (tsT s))(c := q)) d @ tsHeld s d" ?f]
    show ?thesis using ts_drain by (simp add: places_def)
  next
    case (ts_release c rw q)
    then have c: "c < tfNext (tsT s)" using lt by simp
    from mset_concat_map_upd [OF c, of "\<lambda>d. tfChans (tsT s) d @ ((tsHeld s)(c := q)) d" ?f]
    show ?thesis using ts_release by (simp add: places_def)
  qed (auto simp: places_def)
qed

lemma tstep_bounds:
  assumes "tstep s s'" and "tsys_bounds s"
  shows "tsys_bounds s'"
  using assms(1)
proof cases
  case (ts_create token)
  with assms(2) show ?thesis by (auto simp: tsys_bounds_def tf_create_def less_SucI split: if_splits)
next
  case (ts_lookup rw token c)
  with assms(2) show ?thesis by (auto simp: tsys_bounds_def)
next
  case (ts_send rw c t')
  then have t': "t' = (tsT s)\<lparr>tfChans := (tfChans (tsT s))(c := tfChans (tsT s) c @ [rw])\<rparr>"
    and room: "length (tfChans (tsT s) c) < maxDataConns"
    by (auto simp: tf_send_def split: if_splits)
  have "c < tfNext (tsT s)" using assms(2) ts_send(2) by (auto simp: tsys_bounds_def)
  with ts_send room assms(2) show ?thesis
    by (auto simp: tsys_bounds_def t' dest!: set_remove1_subset [THEN subsetD])
next
  case (ts_full rw c t')
  with assms(2) show ?thesis
    by (auto simp: tsys_bounds_def dest!: set_remove1_subset [THEN subsetD])
next
  case (ts_take token c rw q)
  then have "length q \<le> maxDataConns"
    using assms(2) unfolding tsys_bounds_def by (metis Suc_leD length_Cons)
  with ts_take assms(2) show ?thesis by (auto simp: tsys_bounds_def)
next
  case (ts_unregister token c)
  with assms(2) show ?thesis by (auto simp: tsys_bounds_def)
next
  case (ts_drain c rw q)
  then have "length q \<le> maxDataConns"
    using assms(2) unfolding tsys_bounds_def by (metis Suc_leD length_Cons)
  with ts_drain assms(2) show ?thesis by (auto simp: tsys_bounds_def)
next
  case (ts_release c rw q)
  then have "length q \<le> maxDataConns"
    using assms(2) unfolding tsys_bounds_def by (metis Suc_leD length_Cons)
  with ts_release assms(2) show ?thesis by (auto simp: tsys_bounds_def)
qed (use assms(2) in \<open>auto simp: tsys_bounds_def\<close>)

lemma tstep_inv:
  assumes "tstep s s'" and "tsys_inv s"
  shows "tsys_inv s'"
proof -
  have "tsys_bounds s'" using tstep_bounds [OF assms(1)] assms(2) by (simp add: tsys_inv_def)
  moreover have "distinct (places s') \<and> set (places s') = tsSeen s'"
    using tstep_places [OF assms]
  proof
    assume "mset (places s') = mset (places s) \<and> tsSeen s' = tsSeen s"
    with assms(2) show ?thesis
      unfolding tsys_inv_def by (metis mset_eq_imp_distinct_iff mset_eq_setD)
  next
    assume "\<exists>rw. rw \<notin> tsSeen s \<and> mset (places s') = add_mset rw (mset (places s)) \<and> tsSeen s' = insert rw (tsSeen s)"
    then obtain rw where rw: "rw \<notin> tsSeen s" "mset (places s') = mset (rw # places s)" "tsSeen s' = insert rw (tsSeen s)"
      by auto
    from assms(2) rw(1) have "distinct (rw # places s)" "set (rw # places s) = insert rw (tsSeen s)"
      by (auto simp: tsys_inv_def)
    with rw(2,3) show ?thesis by (metis mset_eq_imp_distinct_iff mset_eq_setD)
  qed
  ultimately show ?thesis by (simp add: tsys_inv_def)
qed

lemma tsys_start_inv: "tsys_inv tsys_start"
  by (simp add: tsys_inv_def tsys_bounds_def tsys_start_def places_def no_transfers_def)

lemma tsteps_inv: "tsteps tsys_start s \<Longrightarrow> tsys_inv s"
  by (induction rule: rtranclp_induct) (auto intro: tsys_start_inv tstep_inv)

text \<open>A channel that \<open>drop\<close> is done with stays unregistered.\<close>

definition retired :: "nat \<Rightarrow> tsys \<Rightarrow> bool" where
  "retired c s \<longleftrightarrow> c < tfNext (tsT s) \<and> c \<notin> tsDraining s \<and> (\<forall>token. tfPending (tsT s) token \<noteq> Some c)"

lemma retired_queue:
  assumes "tstep s s'" and "retired c s" and "rw \<in> set (tfChans (tsT s) c)"
  shows "retired c s' \<and> rw \<in> set (tfChans (tsT s') c)"
  using assms
  by (auto elim!: tstep_cases simp: retired_def tf_create_def tf_send_def split: if_splits)

lemma distinct_concat_part: "distinct (concat (map f [0..<n])) \<Longrightarrow> c < n \<Longrightarrow> distinct (f c)"
  by (induction n) (auto simp: less_Suc_eq)

lemma distinct_concat_index:
  "distinct (concat (map f [0..<n])) \<Longrightarrow> c < n \<Longrightarrow> e < n \<Longrightarrow> x \<in> set (f c) \<Longrightarrow> x \<in> set (f e) \<Longrightarrow> c = e"
proof (induction n)
  case (Suc n)
  have "set (f a) \<inter> set (f n) = {}" if "a < n" for a
    using Suc.prems(1) that by fastforce
  with Suc show ?case by (auto simp: less_Suc_eq)
qed simp

lemma queued_only:
  assumes "tsys_inv s" and "c < tfNext (tsT s)" and "rw \<in> set (tfChans (tsT s) c)"
  shows "rw \<notin> set (tsClosed s) \<and> (\<forall>d. rw \<notin> set (tsHeld s d))"
proof -
  let ?f = "\<lambda>c. tfChans (tsT s) c @ tsHeld s c"
  have d: "distinct (concat (map ?f [0..<tfNext (tsT s)]) @ tsClosed s)"
    using assms(1) by (simp add: tsys_inv_def places_def)
  have mem: "rw \<in> set (concat (map ?f [0..<tfNext (tsT s)]))" using assms(2,3) by auto
  have dc: "distinct (concat (map ?f [0..<tfNext (tsT s)]))" using d by simp
  have "rw \<notin> set (tsHeld s e)" if e: "e < tfNext (tsT s)" for e
  proof
    assume h: "rw \<in> set (tsHeld s e)"
    with assms(3) distinct_concat_index [OF dc assms(2) e, of rw] have "c = e" by simp
    with h assms(3) distinct_concat_part [OF dc e] show False by auto
  qed
  moreover have "tsHeld s e = []" if "\<not> e < tfNext (tsT s)" for e
    using assms(1) that by (simp add: tsys_inv_def tsys_bounds_def)
  ultimately have "rw \<notin> set (tsHeld s e)" for e by (cases "e < tfNext (tsT s)") auto
  with d mem show ?thesis by auto
qed

section \<open>Properties\<close>

definition attached_to :: "bytes \<Rightarrow> gather_event list \<Rightarrow> stream list" where
  "attached_to token evs =
     List.map_filter (\<lambda>ev. case ev of Attached tok rw \<Rightarrow> if tok = token then Some rw else None | _ \<Rightarrow> None) evs"

lemma attached_to_simps [simp]:
  "attached_to token [] = []"
  "attached_to token (Attached tok rw # evs) = (if tok = token then [rw] else []) @ attached_to token evs"
  "attached_to token (TakeNext # evs) = attached_to token evs"
  "attached_to token (Deadline # evs) = attached_to token evs"
  by (simp_all add: attached_to_def map_filter_simps)

lemma gather_loop_fifo:
  "gather_loop c n out evs t = (t', out') \<Longrightarrow> tfPending t token = Some c \<Longrightarrow>
     (\<forall>tok. tfPending t tok = Some c \<longrightarrow> tok = token) \<Longrightarrow> length out \<le> n \<Longrightarrow>
     tfPending t' = tfPending t \<and> length out' \<le> n \<and>
     (\<exists>acc. subseq acc (attached_to token evs) \<and> out' @ tfChans t' c = out @ tfChans t c @ acc)"
proof (induction c n out evs t rule: gather_loop.induct)
  case (2 c n out ev evs t)
  show ?case
  proof (cases "n \<le> length out")
    case True
    with "2.prems" have "t' = t" "out' = out" by simp_all
    with "2.prems"(4) show ?thesis by (intro conjI exI [of _ "[]"]) simp_all
  next
    case False
    show ?thesis
    proof (cases ev)
      case (Attached tok rw)
      let ?t = "fst (tf_attach tok rw t)"
      have p: "tfPending ?t = tfPending t"
        by (simp add: tf_attach_def tf_send_def split: option.split)
      have ch: "tfChans ?t c = tfChans t c \<or> tok = token \<and> tfChans ?t c = tfChans t c @ [rw]"
        using "2.prems"(3) by (auto simp: tf_attach_def tf_send_def split: option.split)
      have "gather_loop c n out evs ?t = (t', out')" using "2.prems"(1) False Attached by simp
      from "2.IH"(1) [OF False Attached this, unfolded p, OF "2.prems"(2-4)] obtain acc where
        acc: "tfPending t' = tfPending t" "length out' \<le> n" "subseq acc (attached_to token evs)"
        "out' @ tfChans t' c = out @ tfChans ?t c @ acc" by (elim conjE exE)
      from ch show ?thesis
      proof
        assume "tfChans ?t c = tfChans t c"
        moreover have "subseq acc (attached_to token (ev # evs))"
          using acc(3) Attached by (simp add: list_emb_append2)
        ultimately show ?thesis using acc by metis
      next
        assume h: "tok = token \<and> tfChans ?t c = tfChans t c @ [rw]"
        have "out' @ tfChans t' c = out @ tfChans t c @ rw # acc"
          unfolding acc(4) conjunct2 [OF h] by simp
        moreover have "subseq (rw # acc) (attached_to token (ev # evs))"
          using acc(3) Attached h by simp
        ultimately show ?thesis using acc(1,2) by metis
      qed
    next
      case TakeNext
      show ?thesis
      proof (cases "tfChans t c")
        case Nil
        with "2.prems"(1) False TakeNext have "gather_loop c n out evs t = (t', out')" by simp
        from "2.IH"(2) [OF False TakeNext Nil this "2.prems"(2-4)] TakeNext show ?thesis by simp
      next
        case (Cons rw q)
        let ?t = "t\<lparr>tfChans := (tfChans t)(c := q)\<rparr>"
        have g: "gather_loop c n (out @ [rw]) evs ?t = (t', out')" using "2.prems"(1) False TakeNext Cons by simp
        have "tfPending ?t = tfPending t" by simp
        note p = "2.prems"(2,3) [folded this]
        have l: "length (out @ [rw]) \<le> n" using False by simp
        from "2.IH"(3) [OF False TakeNext Cons g p l] TakeNext Cons show ?thesis by simp
      qed
    next
      case Deadline
      with "2.prems" False have "t' = t" "out' = out" by simp_all
      with "2.prems"(4) show ?thesis by (intro conjI exI [of _ "[]"]) simp_all
    qed
  qed
next
  case (1 c n out t)
  then have "t' = t" "out' = out" by simp_all
  with "1.prems"(4) show ?case by (intro conjI exI [of _ "[]"]) simp_all
qed

text \<open>
  Fact (an undisturbed transfer keeps its streams).  The streams that attach to a transfer
  while it gathers come out in the order in which they attached, at most as many as asked for;
  those that were not gathered are what \<open>drop\<close> closes, so each accepted stream is handed to the
  transfer or closed, and the token is gone.
\<close>

theorem transfer_keeps_streams:
  assumes "tfPending t token = Some c" and "\<forall>tok. tfPending t tok = Some c \<longrightarrow> tok = token"
    and "tf_gather token n evs t = (t', out)" and "tf_drop token t' = (t'', closed)"
  shows "length out \<le> n \<and> tfPending t'' token = None \<and>
    (\<exists>acc. subseq acc (attached_to token evs) \<and> out @ closed = tfChans t c @ acc)"
proof -
  from assms(1,3) have "gather_loop c n [] evs t = (t', out)" by (simp add: tf_gather_def)
  from gather_loop_fifo [OF this assms(1,2)] obtain acc where
    g: "tfPending t' = tfPending t" "length out \<le> n" "subseq acc (attached_to token evs)"
    "out @ tfChans t' c = tfChans t c @ acc" by auto
  with assms(1,4) show ?thesis by (auto simp: tf_drop_def)
qed

theorem transfer_keeps_streams_witness:
  "\<exists>t t' t'' out closed. tf_create (Inr [1]) no_transfers = (t, Inr [1]) \<and>
    tf_gather [1] 1 [Attached [1] 5, TakeNext, Attached [1] 6] t = (t', out) \<and>
    tf_drop [1] t' = (t'', closed) \<and> length out \<le> 1 \<and> tfPending t'' [1] = None \<and> out = [5]"
proof -
  let ?t = "fst (tf_create (Inr [1]) no_transfers)"
  obtain t' out where g: "tf_gather [1] 1 [Attached [1] 5, TakeNext, Attached [1] 6] ?t = (t', out)"
    by (metis surj_pair)
  obtain t'' closed where d: "tf_drop [1] t' = (t'', closed)" by (metis surj_pair)
  have p: "tfPending ?t [1] = Some 0" "\<forall>tok. tfPending ?t tok = Some 0 \<longrightarrow> tok = [1]"
    by (auto simp: tf_create_def no_transfers_def split: if_splits)
  from transfer_keeps_streams [OF p g d] g d show ?thesis
    by (auto simp: tf_create_def no_transfers_def tf_gather_def tf_attach_def tf_send_def maxDataConns_def)
qed

text \<open>
  Claim C20 (no stream in two places).  However the goroutines interleave, every stream that
  ever asked to attach is in exactly one place: looked up and about to be sent, queued,
  gathered, or closed (once).  No channel and no transfer ever holds more than
  \<open>maxDataConns\<close> streams.
\<close>

theorem streams_in_one_place:
  assumes "tsteps tsys_start s"
  shows "distinct (places s) \<and> set (places s) = tsSeen s \<and>
    (\<forall>c. length (tfChans (tsT s) c) \<le> maxDataConns \<and> length (tsHeld s c) \<le> maxDataConns)"
  using tsteps_inv [OF assms] by (simp add: tsys_inv_def tsys_bounds_def)

text \<open>The run of the race: lookup, unregistering and draining, then the send.\<close>

definition race_end :: tsys where
  "race_end = \<lparr>tsT = \<lparr>tfPending = (Map.empty([1] \<mapsto> 0))([1] := None), tfChans = (\<lambda>c. [])(0 := [5]), tfNext = 1\<rparr>,
     tsLooked = [], tsHeld = \<lambda>c. [], tsDraining = {}, tsDone = {0}, tsClosed = [], tsSeen = {5}\<rparr>"

lemma race_run: "tsteps tsys_start race_end"
proof -
  let ?t1 = "\<lparr>tfPending = Map.empty([1] \<mapsto> 0), tfChans = (\<lambda>c. [])(0 := []), tfNext = 1\<rparr>"
  let ?s1 = "tsys_start\<lparr>tsT := ?t1\<rparr>"
  let ?s2 = "?s1\<lparr>tsSeen := {5}, tsLooked := [(5, 0)]\<rparr>"
  let ?s3 = "?s2\<lparr>tsT := ?t1\<lparr>tfPending := (tfPending ?t1)([1] := None)\<rparr>, tsDraining := {0}\<rparr>"
  let ?s4 = "?s3\<lparr>tsDraining := {}, tsDone := {0}\<rparr>"
  have 1: "tstep tsys_start ?s1"
    using ts_create [of tsys_start "[1]"] by (simp add: tsys_start_def no_transfers_def tf_create_def)
  have 2: "tstep ?s1 ?s2"
    using ts_lookup [of 5 ?s1 "[1]" 0] by (simp add: tsys_start_def)
  have 3: "tstep ?s2 ?s3"
    using ts_unregister [of ?s2 "[1]" 0] by (simp add: tsys_start_def)
  have 4: "tstep ?s3 ?s4"
    using ts_drained [of 0 ?s3] by (simp add: tsys_start_def)
  have 5: "tstep ?s4 race_end"
    using ts_send [of 5 0 ?s4] by (simp add: tsys_start_def race_end_def tf_send_def maxDataConns_def)
  from 1 2 3 4 5 show ?thesis by (meson converse_rtranclp_into_rtranclp rtranclp.rtrancl_refl)
qed

theorem streams_in_one_place_witness:
  "tsteps tsys_start race_end \<and> distinct (places race_end) \<and> set (places race_end) = {5}"
  using streams_in_one_place [OF race_run] race_run by (simp add: race_end_def)

text \<open>
  Claim C32 (a leak).  \<open>attach\<close> looks the transfer up under the mutex but sends to its channel
  after releasing it, so a \<open>drop\<close> in between has already drained the channel: the stream is
  accepted, its attach reports success, and no continuation of the program ever closes it or
  hands it to anyone.
\<close>

theorem attach_drop_leak:
  "\<exists>s rw c. tsteps tsys_start s \<and> tsLooked s = [] \<and> c \<in> tsDone s \<and>
    (\<forall>s'. tsteps s s' \<longrightarrow> rw \<in> set (tfChans (tsT s') c) \<and> rw \<notin> set (tsClosed s') \<and> (\<forall>d. rw \<notin> set (tsHeld s' d)))"
proof -
  have stay: "tsteps race_end s' \<Longrightarrow> retired 0 s' \<and> 5 \<in> set (tfChans (tsT s') 0)" for s'
  proof (induction rule: rtranclp_induct)
    case base
    show ?case by (simp add: retired_def race_end_def)
  next
    case (step s1 s2)
    then show ?case using retired_queue by blast
  qed
  have "5 \<notin> set (tsClosed s') \<and> (\<forall>d. 5 \<notin> set (tsHeld s' d))" if "tsteps race_end s'" for s'
  proof -
    from stay [OF that] have q: "0 < tfNext (tsT s')" "5 \<in> set (tfChans (tsT s') 0)" by (auto simp: retired_def)
    have inv: "tsys_inv s'" using tsteps_inv race_run that by (meson rtranclp_trans)
    show ?thesis using queued_only [OF inv q] .
  qed
  with stay race_run show ?thesis
    by (intro exI [of _ race_end] exI [of _ 5] exI [of _ 0]) (simp add: race_end_def)
qed

theorem attach_drop_leak_witness:
  "\<exists>s rw c. tsteps tsys_start s \<and> rw \<in> set (tfChans (tsT s) c) \<and> rw \<notin> set (tsClosed s) \<and> c \<in> tsDone s"
proof -
  from attach_drop_leak obtain s rw c where "tsteps tsys_start s" "c \<in> tsDone s"
    "\<forall>s'. tsteps s s' \<longrightarrow> rw \<in> set (tfChans (tsT s') c) \<and> rw \<notin> set (tsClosed s') \<and> (\<forall>d. rw \<notin> set (tsHeld s' d))" by blast
  then show ?thesis by (meson rtranclp.rtrancl_refl)
qed

end
