(* ===== verification/Server_Ops.thy ===== *)
theory Server_Ops
  imports Send_Loop Transfers
begin

text \<open>
  server/server.go: the operations of a server, one per stream.  The handlers are functions of
  the server's state, which holds the stores, the transfer registry, the streams (a heap of
  open streams, as a transfer reads and writes several) and what the hooks were told.  What
  the environment decides during an operation (the random token, the streams that attach, the
  rounds of the want loop, the clock, what other goroutines do to the references meanwhile)
  is an \<open>op_env\<close>.
\<close>

section \<open>The libraries the server adds\<close>

text \<open>\<open>reference\<close> and \<open>refstore\<close>, and the collector behind \<open>RefGuard\<close>.\<close>

record reference =
  rfName :: string
  rfKey :: bytes
  rfCreatedAt :: "64 word"
  rfUser :: string

text \<open>
  What the hooks and the guard were called with.  A \<open>PrepareRef\<close> that fails leaves no trace;
  whether it fails may depend on the calls so far.
\<close>

datatype hook =
    Accessed string
  | Pinned string
  | Prepared key
  | Committed key
  | Aborted key

record ('p, 's, 'r) server_lib = "('p, 's) core_lib" +
  ref_validate :: "string \<Rightarrow> goerr option"
  ref_decode :: "bytes \<Rightarrow> goerr + reference"
  ref_encode :: "reference \<Rightarrow> goerr + bytes"
  rf_all :: "'r \<Rightarrow> goerr + (string \<times> bytes) list"
  rf_get :: "'r \<Rightarrow> string \<Rightarrow> goerr + bytes"
  rf_put :: "'r \<Rightarrow> string \<Rightarrow> bytes \<Rightarrow> 'r \<times> goerr option"
  gc_prepare :: "hook list \<Rightarrow> key \<Rightarrow> goerr option"

text \<open>\<open>Put\<close> and \<open>Get\<close>: a reference that was put is found, and the others are as before.\<close>

definition ref_law :: "('p, 's, 'r, 'z) server_lib_scheme \<Rightarrow> bool" where
  "ref_law lib \<longleftrightarrow> (\<forall>rf name raw rf'. rf_put lib rf name raw = (rf', None) \<longrightarrow>
     rf_get lib rf' name = Inr raw \<and> (\<forall>n. n \<noteq> name \<longrightarrow> rf_get lib rf' n = rf_get lib rf n))"

section \<open>The server's state\<close>

record 'w link =
  lkIn :: instream
  lkOut :: 'w

text \<open>
  \<open>svClosed\<close> lists the calls of \<open>closeStream\<close> in order, and \<open>svShut\<close> keeps what had been read and
  written of a stream when it was closed first: a peer receives nothing that is written later.
\<close>

record ('w, 's, 'r) server =
  svObjects :: 's
  svRefs :: 'r
  svJobs :: int
  svDataPorts :: "16 word list"
  svDataEndpoints :: "data_endpoint_rec list option"
  svOnAccess :: bool
  svOnPin :: bool
  svGuard :: bool
  svHooks :: "hook list"
  svTransfers :: transfers
  svRefLocks :: "string set"
  svStreams :: "stream \<Rightarrow> 'w link"
  svClosed :: "stream list"
  svShut :: "stream \<Rightarrow> 'w link option"

record 'r op_env =
  oeToken :: "goerr + bytes"
  oeGather :: "gather_event list"
  oeRounds :: "nat \<Rightarrow> round_env"
  oeFuel :: nat
  oeNow :: "64 word"
  oeRefs :: "'r \<Rightarrow> 'r"

definition new_server :: "'s \<Rightarrow> 'r \<Rightarrow> (stream \<Rightarrow> 'w link) \<Rightarrow> ('w, 's, 'r) server" where
  "new_server objects refs streams =
     \<lparr>svObjects = objects, svRefs = refs, svJobs = 0, svDataPorts = [], svDataEndpoints = None,
      svOnAccess = False, svOnPin = False, svGuard = False, svHooks = [], svTransfers = no_transfers,
      svRefLocks = {}, svStreams = streams, svClosed = [], svShut = Map.empty\<rparr>"

definition set_data_ports :: "16 word list \<Rightarrow> ('w, 's, 'r) server \<Rightarrow> ('w, 's, 'r) server" where
  "set_data_ports ports s = s\<lparr>svDataPorts := ports\<rparr>"

definition set_data_endpoints :: "data_endpoint_rec list \<Rightarrow> ('w, 's, 'r) server \<Rightarrow> ('w, 's, 'r) server" where
  "set_data_endpoints snapshot s = s\<lparr>svDataEndpoints := Some snapshot\<rparr>"

definition set_on_access :: "('w, 's, 'r) server \<Rightarrow> ('w, 's, 'r) server" where
  "set_on_access s = s\<lparr>svOnAccess := True\<rparr>"

definition set_on_pin :: "('w, 's, 'r) server \<Rightarrow> ('w, 's, 'r) server" where
  "set_on_pin s = s\<lparr>svOnPin := True\<rparr>"

definition set_ref_guard :: "('w, 's, 'r) server \<Rightarrow> ('w, 's, 'r) server" where
  "set_ref_guard s = s\<lparr>svGuard := True\<rparr>"

text \<open>\<open>closeStream\<close>: FIN on the send side and STOP_SENDING on the other.\<close>

definition close_stream :: "stream \<Rightarrow> ('w, 's, 'r) server \<Rightarrow> ('w, 's, 'r) server" where
  "close_stream i s =
     s\<lparr>svClosed := svClosed s @ [i],
       svShut := (case svShut s i of None \<Rightarrow> (svShut s)(i \<mapsto> svStreams s i) | Some _ \<Rightarrow> svShut s)\<rparr>"

definition srv_write ::
  "('p, 's, 'r, 'z) server_lib_scheme \<Rightarrow> 'w writer \<Rightarrow> stream \<Rightarrow> msg \<Rightarrow> ('w, 's, 'r) server \<Rightarrow>
     ('w, 's, 'r) server \<times> goerr option" where
  "srv_write lib wr i m s =
     (case write_msg lib wr (lkOut (svStreams s i)) m of
        (w, e) \<Rightarrow> (s\<lparr>svStreams := (svStreams s)(i := (svStreams s i)\<lparr>lkOut := w\<rparr>)\<rparr>, e))"

definition err_msg :: "string \<Rightarrow> string \<Rightarrow> msg" where
  "err_msg code txt = zero_msg\<lparr>mType := TErr, mCode := code, mText := txt\<rparr>"

definition srv_fail ::
  "('p, 's, 'r, 'z) server_lib_scheme \<Rightarrow> 'w writer \<Rightarrow> stream \<Rightarrow> string \<Rightarrow> goerr \<Rightarrow> ('w, 's, 'r) server \<Rightarrow>
     ('w, 's, 'r) server \<times> goerr option" where
  "srv_fail lib wr i code e s =
     (fst (srv_write lib wr i (err_msg code (err_text (key_string lib) e)) s), Some e)"

definition fail_local ::
  "('p, 's, 'r, 'z) server_lib_scheme \<Rightarrow> 'w writer \<Rightarrow> stream \<Rightarrow> goerr \<Rightarrow> ('w, 's, 'r) server \<Rightarrow>
     ('w, 's, 'r) server \<times> goerr option" where
  "fail_local lib wr i e s =
     (if as_remote e \<noteq> None then (s, Some e) else srv_fail lib wr i CodeInternal e s)"

section \<open>Listing and pinning references\<close>

fun ref_infos :: "('p, 's, 'r, 'z) server_lib_scheme \<Rightarrow> (string \<times> bytes) list \<Rightarrow> goerr + ref_info list" where
  "ref_infos lib [] = Inr []"
| "ref_infos lib ((name, data) # recs) =
     (case ref_decode lib data of
        Inl e \<Rightarrow> Inl (Wrapf (''reference '' @ go_quote name @ '': '') e [])
      | Inr rec \<Rightarrow>
          (case ref_infos lib recs of
             Inl e \<Rightarrow> Inl e
           | Inr infos \<Rightarrow>
               Inr (\<lparr>riName = name, riKey = rfKey rec, riCreatedAt = rfCreatedAt rec, riUser = rfUser rec\<rparr> # infos)))"

definition handle_ref_list ::
  "('p, 's, 'r, 'z) server_lib_scheme \<Rightarrow> 'w writer \<Rightarrow> stream \<Rightarrow> ('w, 's, 'r) server \<Rightarrow>
     ('w, 's, 'r) server \<times> goerr option" where
  "handle_ref_list lib wr i s =
     (case rf_all lib (svRefs s) of
        Inl e \<Rightarrow> srv_fail lib wr i CodeInternal e s
      | Inr recs \<Rightarrow>
          (case ref_infos lib recs of
             Inl e \<Rightarrow> srv_fail lib wr i CodeInternal e s
           | Inr infos \<Rightarrow> srv_write lib wr i (zero_msg\<lparr>mType := TRefs, mRefs := infos\<rparr>) s))"

fun pin_loop ::
  "('p, 's, 'r, 'z) server_lib_scheme \<Rightarrow> string list \<Rightarrow> ('w, 's, 'r) server \<Rightarrow>
     ('w, 's, 'r) server \<times> goerr option" where
  "pin_loop lib [] s = (s, None)"
| "pin_loop lib (name # names) s =
     (case rf_get lib (svRefs s) name of
        Inl e \<Rightarrow> if errors_is e RefNotFound then pin_loop lib names s else (s, Some e)
      | Inr raw \<Rightarrow>
          pin_loop lib names (if svOnPin s then s\<lparr>svHooks := svHooks s @ [Pinned name]\<rparr> else s))"

definition handle_pin ::
  "('p, 's, 'r, 'z) server_lib_scheme \<Rightarrow> 'w writer \<Rightarrow> stream \<Rightarrow> msg \<Rightarrow> ('w, 's, 'r) server \<Rightarrow>
     ('w, 's, 'r) server \<times> goerr option" where
  "handle_pin lib wr i m s =
     (case pin_loop lib (mNames m) s of
        (s1, Some e) \<Rightarrow> srv_fail lib wr i CodeInternal e s1
      | (s1, None) \<Rightarrow> srv_write lib wr i (zero_msg\<lparr>mType := TOK\<rparr>) s1)"

section \<open>The push precondition\<close>

text \<open>The key a reference has now, empty when there is no such reference.\<close>

definition ref_current :: "('p, 's, 'r, 'z) server_lib_scheme \<Rightarrow> 'r \<Rightarrow> string \<Rightarrow> goerr + bytes" where
  "ref_current lib refs name =
     (case rf_get lib refs name of
        Inr raw \<Rightarrow> (case ref_decode lib raw of Inl e \<Rightarrow> Inl e | Inr rec \<Rightarrow> Inr (rfKey rec))
      | Inl e \<Rightarrow> if errors_is e RefNotFound then Inr [] else Inl e)"

definition cas_msg :: "string \<Rightarrow> bytes \<Rightarrow> msg" where
  "cas_msg name current =
     zero_msg\<lparr>mType := TErr, mCode := CodeCASMismatch,
       mText := ''remote ref '' @ go_quote name @ '' changed'', mCurrent := current\<rparr>"

definition check_cas ::
  "('p, 's, 'r, 'z) server_lib_scheme \<Rightarrow> 'w writer \<Rightarrow> stream \<Rightarrow> msg \<Rightarrow> ('w, 's, 'r) server \<Rightarrow>
     ('w, 's, 'r) server \<times> goerr option" where
  "check_cas lib wr i m s =
     (case ref_current lib (svRefs s) (mName m) of
        Inl e \<Rightarrow> srv_fail lib wr i CodeInternal e s
      | Inr current \<Rightarrow>
          if current = mExpectedOld m then (s, None)
          else (fst (srv_write lib wr i (cas_msg (mName m) current) s),
                Some (ErrorText (''cas mismatch on '' @ go_quote (mName m)))))"

section \<open>Channels of a sharded transfer\<close>

definition close_all :: "stream list \<Rightarrow> ('w, 's, 'r) server \<Rightarrow> ('w, 's, 'r) server" where
  "close_all is s = fold close_stream is s"

definition srv_drop :: "bytes \<Rightarrow> ('w, 's, 'r) server \<Rightarrow> ('w, 's, 'r) server" where
  "srv_drop token s =
     (case tf_drop token (svTransfers s) of (t, queued) \<Rightarrow> close_all queued (s\<lparr>svTransfers := t\<rparr>))"

text \<open>
  \<open>shardChannels\<close>: the control stream and what attached, with what \<open>release\<close> needs.  The
  accept frame is sent before the streams attach.
\<close>

definition shard_channels ::
  "('p, 's, 'r, 'z) server_lib_scheme \<Rightarrow> 'w writer \<Rightarrow> 'r op_env \<Rightarrow> stream \<Rightarrow> int \<Rightarrow> ('w, 's, 'r) server \<Rightarrow>
     ('w, 's, 'r) server \<times> (goerr + stream list \<times> (bytes \<times> stream list) option)" where
  "shard_channels lib wr env i data_conns s =
     (if data_conns \<le> 0 then (s, Inr ([i], None))
      else
        let n = nat (min data_conns (int maxDataConns)) in
        case tf_create (oeToken env) (svTransfers s) of
          (t, Inl e) \<Rightarrow> (s\<lparr>svTransfers := t\<rparr>, Inl e)
        | (t, Inr token) \<Rightarrow>
            let accept = zero_msg\<lparr>mType := TAccept, mToken := token, mDataPorts := svDataPorts s,
                  mDataEndpoints := (case svDataEndpoints s of None \<Rightarrow> [] | Some ds \<Rightarrow> ds)\<rparr> in
            (case srv_write lib wr i accept (s\<lparr>svTransfers := t\<rparr>) of
               (s1, Some e) \<Rightarrow> (srv_drop token s1, Inl e)
             | (s1, None) \<Rightarrow>
                 (case tf_gather token n (oeGather env) (svTransfers s1) of
                    (t1, extras) \<Rightarrow>
                      (s1\<lparr>svTransfers := t1\<rparr>, Inr (i # extras, Some (token, extras))))))"

definition srv_release :: "(bytes \<times> stream list) option \<Rightarrow> ('w, 's, 'r) server \<Rightarrow> ('w, 's, 'r) server" where
  "srv_release h s =
     (case h of None \<Rightarrow> s | Some (token, extras) \<Rightarrow> close_all extras (srv_drop token s))"

section \<open>Push\<close>

text \<open>\<open>Receive\<close> over the streams \<open>is\<close>, which it reads and writes in place.\<close>

fun put_links :: "stream list \<Rightarrow> 'w channel list \<Rightarrow> (stream \<Rightarrow> 'w link) \<Rightarrow> stream \<Rightarrow> 'w link" where
  "put_links (i # is) (c # cs) h = put_links is cs (h(i := \<lparr>lkIn = chIn c, lkOut = chOut c\<rparr>))"
| "put_links _ _ h = h"

definition srv_receive ::
  "('p, 's, 'r, 'z) server_lib_scheme \<Rightarrow> 'w writer \<Rightarrow> 'r op_env \<Rightarrow> stream list \<Rightarrow> key \<Rightarrow> ('w, 's, 'r) server \<Rightarrow>
     (('w, 's, 'r) server \<times> goerr option) option" where
  "srv_receive lib wr env is goal s =
     (case receive lib wr (oeRounds env) (oeFuel env)
         (map (\<lambda>i. (lkIn (svStreams s i), lkOut (svStreams s i))) is) (svObjects s) goal (svJobs s) None of
        None \<Rightarrow> None
      | Some (rs, e) \<Rightarrow>
          Some (s\<lparr>svObjects := rsStore rs, svStreams := put_links is (rsChans rs) (svStreams s)\<rparr>, e))"

text \<open>
  The reference write, inside the guard when there is one.
\<close>

definition put_ref ::
  "('p, 's, 'r, 'z) server_lib_scheme \<Rightarrow> 'w writer \<Rightarrow> stream \<Rightarrow> string \<Rightarrow> key \<Rightarrow> bytes \<Rightarrow> ('w, 's, 'r) server \<Rightarrow>
     ('w, 's, 'r) server \<times> goerr option" where
  "put_ref lib wr i name goal raw s =
     (if svGuard s then
        (case gc_prepare lib (svHooks s) goal of
           Some e \<Rightarrow> srv_fail lib wr i CodeInternal (Wrapf ''gc guard: '' e []) s
         | None \<Rightarrow>
             let s1 = s\<lparr>svHooks := svHooks s @ [Prepared goal]\<rparr> in
             (case rf_put lib (svRefs s1) name raw of
                (rf, Some e) \<Rightarrow>
                  srv_fail lib wr i CodeInternal e (s1\<lparr>svRefs := rf, svHooks := svHooks s1 @ [Aborted goal]\<rparr>)
              | (rf, None) \<Rightarrow> (s1\<lparr>svRefs := rf, svHooks := svHooks s1 @ [Committed goal]\<rparr>, None)))
      else
        (case rf_put lib (svRefs s) name raw of
           (rf, Some e) \<Rightarrow> srv_fail lib wr i CodeInternal e (s\<lparr>svRefs := rf\<rparr>)
         | (rf, None) \<Rightarrow> (s\<lparr>svRefs := rf\<rparr>, None)))"

text \<open>
  The part of \<open>handlePush\<close> under the lock of the name; the references may have changed while the
  transfer ran.
\<close>

definition push_commit ::
  "('p, 's, 'r, 'z) server_lib_scheme \<Rightarrow> 'w writer \<Rightarrow> 'r op_env \<Rightarrow> stream \<Rightarrow> msg \<Rightarrow> key \<Rightarrow> ('w, 's, 'r) server \<Rightarrow>
     ('w, 's, 'r) server \<times> goerr option" where
  "push_commit lib wr env i m goal s0 =
     (let s = s0\<lparr>svRefs := oeRefs env (svRefs s0), svRefLocks := insert (mName m) (svRefLocks s0)\<rparr> in
      case (if mCAS m then check_cas lib wr i m s else (s, None)) of
        (s1, Some e) \<Rightarrow> (s1, Some e)
      | (s1, None) \<Rightarrow>
          (case ref_encode lib \<lparr>rfName = mName m, rfKey = key_bytes goal, rfCreatedAt = oeNow env, rfUser = []\<rparr> of
             Inl e \<Rightarrow> srv_fail lib wr i CodeInternal e s1
           | Inr raw \<Rightarrow>
               (case put_ref lib wr i (mName m) goal raw s1 of
                  (s2, Some e) \<Rightarrow> (s2, Some e)
                | (s2, None) \<Rightarrow>
                    srv_write lib wr i (zero_msg\<lparr>mType := TOK, mKey := key_bytes goal\<rparr>)
                      (if svOnAccess s2 then s2\<lparr>svHooks := svHooks s2 @ [Accessed (mName m)]\<rparr> else s2))))"

definition handle_push ::
  "('p, 's, 'r, 'z) server_lib_scheme \<Rightarrow> 'w writer \<Rightarrow> 'r op_env \<Rightarrow> stream \<Rightarrow> msg \<Rightarrow> ('w, 's, 'r) server \<Rightarrow>
     (('w, 's, 'r) server \<times> goerr option) option" where
  "handle_push lib wr env i m s =
     (case ref_validate lib (mName m) of
        Some e \<Rightarrow> Some (srv_fail lib wr i CodeBadRequest e s)
      | None \<Rightarrow>
          (case key_parse lib (mRoot m) of
             Inl e \<Rightarrow> Some (srv_fail lib wr i CodeBadRequest (Wrapf ''root key: '' e []) s)
           | Inr goal \<Rightarrow>
               (case (if mCAS m then check_cas lib wr i m s else (s, None)) of
                  (s1, Some e) \<Rightarrow> Some (s1, Some e)
                | (s1, None) \<Rightarrow>
                    (case shard_channels lib wr env i (mDataConns m) s1 of
                       (s2, Inl e) \<Rightarrow> Some (srv_fail lib wr i CodeInternal e s2)
                     | (s2, Inr (is, h)) \<Rightarrow>
                         (case srv_receive lib wr env is goal s2 of
                            None \<Rightarrow> None
                          | Some (s3, e) \<Rightarrow>
                              let (s4, e') = (case e of
                                Some err \<Rightarrow> fail_local lib wr i err s3
                              | None \<Rightarrow> push_commit lib wr env i m goal s3) in
                              Some (srv_release h s4, e'))))))"

section \<open>Pull\<close>

text \<open>One \<open>Send\<close> per channel; they share only the store, which they read.\<close>

fun srv_sends ::
  "('p, 's, 'r, 'z) server_lib_scheme \<Rightarrow> 'w writer \<Rightarrow> stream list \<Rightarrow> ('w, 's, 'r) server \<Rightarrow>
     ('w, 's, 'r) server \<times> goerr option list" where
  "srv_sends lib wr [] s = (s, [])"
| "srv_sends lib wr (i # is) s =
     (case send_loop lib wr (svObjects s)
         \<lparr>ssIn = lkIn (svStreams s i), ssOut = lkOut (svStreams s i), ssProg = None\<rparr> of
        (ss, e) \<Rightarrow>
          (case srv_sends lib wr is (s\<lparr>svStreams := (svStreams s)(i := \<lparr>lkIn = ssIn ss, lkOut = ssOut ss\<rparr>)\<rparr>) of
             (s', es) \<Rightarrow> (s', e # es)))"

definition ref_msg :: "bytes \<Rightarrow> bytes option \<Rightarrow> ('w, 's, 'r) server \<Rightarrow> msg" where
  "ref_msg raw tok s =
     (case tok of
        None \<Rightarrow> zero_msg\<lparr>mType := TRef, mRecord := raw\<rparr>
      | Some token \<Rightarrow> zero_msg\<lparr>mType := TRef, mRecord := raw, mToken := token, mDataPorts := svDataPorts s,
        mDataEndpoints := (case svDataEndpoints s of None \<Rightarrow> [] | Some ds \<Rightarrow> ds)\<rparr>)"

definition pull_send ::
  "('p, 's, 'r, 'z) server_lib_scheme \<Rightarrow> 'w writer \<Rightarrow> stream \<Rightarrow> stream list \<Rightarrow> ('w, 's, 'r) server \<Rightarrow>
     ('w, 's, 'r) server \<times> goerr option" where
  "pull_send lib wr i is s =
     (case srv_sends lib wr is s of
        (s', es) \<Rightarrow>
          (case errors_join es of
             Some e \<Rightarrow> fail_local lib wr i e s'
           | None \<Rightarrow> (s', None)))"

definition handle_pull ::
  "('p, 's, 'r, 'z) server_lib_scheme \<Rightarrow> 'w writer \<Rightarrow> 'r op_env \<Rightarrow> stream \<Rightarrow> msg \<Rightarrow> ('w, 's, 'r) server \<Rightarrow>
     ('w, 's, 'r) server \<times> goerr option" where
  "handle_pull lib wr env i m s0 =
     (case rf_get lib (svRefs s0) (mName m) of
        Inl e \<Rightarrow>
          if errors_is e RefNotFound
          then srv_fail lib wr i CodeUnknownRef (ErrorText (''ref '' @ go_quote (mName m) @ '' not found'')) s0
          else srv_fail lib wr i CodeInternal e s0
      | Inr raw \<Rightarrow>
          let s = (if svOnAccess s0 then s0\<lparr>svHooks := svHooks s0 @ [Accessed (mName m)]\<rparr> else s0) in
          if mDataConns m \<le> 0 then
            (case srv_write lib wr i (ref_msg raw None s) s of
               (s1, Some e) \<Rightarrow> (s1, Some e)
             | (s1, None) \<Rightarrow> pull_send lib wr i [i] s1)
          else
            (case tf_create (oeToken env) (svTransfers s) of
               (t, Inl e) \<Rightarrow> srv_fail lib wr i CodeInternal e (s\<lparr>svTransfers := t\<rparr>)
             | (t, Inr token) \<Rightarrow>
                 (case srv_write lib wr i (ref_msg raw (Some token) s) (s\<lparr>svTransfers := t\<rparr>) of
                    (s1, Some e) \<Rightarrow> (srv_drop token s1, Some e)
                  | (s1, None) \<Rightarrow>
                      (case tf_gather token (nat (min (mDataConns m) (int maxDataConns))) (oeGather env) (svTransfers s1) of
                         (t1, extras) \<Rightarrow>
                           (case pull_send lib wr i (i # extras) (s1\<lparr>svTransfers := t1\<rparr>) of
                              (s2, e) \<Rightarrow> (srv_release (Some (token, extras)) s2, e))))))"

section \<open>Dispatch\<close>

text \<open>
  \<open>HandleStream\<close>: the result is the error it logs.  A stream that attaches changes hands and
  stays open; every other stream is closed when its operation is done.
\<close>

definition handle_stream ::
  "('p, 's, 'r, 'z) server_lib_scheme \<Rightarrow> 'w writer \<Rightarrow> 'r op_env \<Rightarrow> stream \<Rightarrow> ('w, 's, 'r) server \<Rightarrow>
     (('w, 's, 'r) server \<times> goerr option) option" where
  "handle_stream lib wr env i s0 =
     (case read_msg lib (lkIn (svStreams s0 i)) of
        (r, x) \<Rightarrow>
          let s = s0\<lparr>svStreams := (svStreams s0)(i := (svStreams s0 i)\<lparr>lkIn := r\<rparr>)\<rparr> in
          (case x of
             Inl e \<Rightarrow> Some (close_stream i s, Some e)
           | Inr m \<Rightarrow>
               if mType m = TAttach then
                 (case tf_attach (mToken m) i (svTransfers s) of
                    (t, True) \<Rightarrow> Some (s\<lparr>svTransfers := t\<rparr>, None)
                  | (t, False) \<Rightarrow>
                      Some (close_stream i (fst (srv_write lib wr i
                        (err_msg CodeBadRequest ''unknown transfer token'') (s\<lparr>svTransfers := t\<rparr>))), None))
               else
                 map_option (\<lambda>(s', e). (close_stream i s', e))
                   (if mType m = TRefList then Some (handle_ref_list lib wr i s)
                    else if mType m = TPush then handle_push lib wr env i m s
                    else if mType m = TPull then Some (handle_pull lib wr env i m s)
                    else if mType m = TPin then Some (handle_pin lib wr i m s)
                    else Some (srv_fail lib wr i CodeBadRequest
                      (ErrorText (''unknown operation '' @ dec_int (mType m))) s))))"

end
