(* ===== verification/Receive_Props.thy ===== *)
theory Receive_Props
  imports Receive_Loop
begin

text \<open>
  What a run of \<open>Receive\<close> guarantees: the tree is complete when it succeeds, it returns on
  every stream, it counts what it reads, and a remote error is reported as such.  The
  witnesses follow one run on the sample libraries: the tree \<open>9\<close> with the child \<open>4\<close> is
  received into an empty store over one channel.
\<close>

section \<open>A run on the sample libraries\<close>

definition sample_pack :: "bytes \<Rightarrow> bytes" where
  "sample_pack d = the (good_frame pack_sample (data_msg d)) @ the (good_frame pack_sample end_msg)"

lemma sample_pack_spec:
  assumes "length d \<le> ChunkSize"
  shows "pack_spec pack_sample \<lparr>avail = sample_pack d @ t, fin = f\<rparr> = (\<lparr>avail = t, fin = f\<rparr>, d, None)"
proof -
  from data_codec_frame [OF pack_sample_codec assms] obtain b where
    b: "good_frame pack_sample (data_msg d) = Some b" by blast
  from data_codec_end [OF pack_sample_codec] obtain e where e: "good_frame pack_sample end_msg = Some e" by blast
  have "list_all2 (\<lambda>d b. good_frame pack_sample (data_msg d) = Some b) [d] [b]" by (simp add: b)
  from pack_spec_frames [OF this, of "e @ t" f] pack_spec_end [OF e, of t f] show ?thesis
    by (simp add: sample_pack_def b e)
qed

lemma sample_pack_read:
  assumes "length d \<le> ChunkSize"
  shows "\<exists>p. pr_read_all pack_sample k (new_pack_reader \<lparr>avail = sample_pack d @ t, fin = f\<rparr>) = (p, d, None) \<and>
    prR p = \<lparr>avail = t, fin = f\<rparr>"
proof -
  obtain p bs x where rd: "pr_read_all pack_sample k (new_pack_reader \<lparr>avail = sample_pack d @ t, fin = f\<rparr>) = (p, bs, x)"
    by (metis prod_cases3)
  from read_pack [OF rd] rd show ?thesis
    by (auto simp: sample_pack_spec [OF assms] eof_nil_def)
qed

lemma sample_write_wants:
  assumes "os_room w = None" and "\<forall>k\<in>set ks. length (key_bytes k) = 1" and "length ks < 1000"
  shows "write_msg pack_sample os_write w (wants_msg ks) =
    (w\<lparr>os_sent := os_sent w @ put_uint32 (of_nat (Suc (length ks))) @ 1 # concat (map key_bytes ks)\<rparr>, None)"
proof -
  have len: "length (concat (map key_bytes ks)) = length ks"
    using assms(2) by (induction ks) auto
  have "marshal pack_sample (wants_msg ks) = Inr (1 # concat (map key_bytes ks))"
    using assms(2)
    by (simp add: sample_lib_def book_marshal_def wants_msg_def encode_keys_def TWants_def zero_msg_def)
  with assms len show ?thesis
    by (simp add: write_msg_def os_write_def MaxFrame_def)
qed

definition sample_env :: "nat \<Rightarrow> round_env" where
  "sample_env n = \<lparr>rePicks = [], reStops = \<lambda>i. 0, reReads = \<lambda>i. 0\<rparr>"

definition sample_link :: "instream \<times> ostream" where
  "sample_link = (\<lparr>avail = sample_pack [2, 9, 4, 0] @ sample_pack [1, 4, 0], fin = IoEOF\<rparr>, fresh_out)"

lemma merge_one: "merge ps [xs] = xs"
proof (induction xs arbitrary: ps)
  case Nil
  then show ?case by (subst merge.simps) (simp add: nonempty_def)
next
  case (Cons x xs)
  have "nonempty [x # xs] = [0]" by (simp add: nonempty_def)
  then show ?case by (subst merge.simps) (simp add: pick_def Cons)
qed

text \<open>One pack with one object, on the only channel.\<close>

lemma sample_decode:
  assumes "chIn c = \<lparr>avail = sample_pack d @ t, fin = f\<rparr>" and "length d \<le> ChunkSize"
    and "sample_read (Suc (length d)) d None = ([(ob, False)], None, False)"
    and "sample_children (oKey ob) (oData ob) = Inr kids"
  shows "decode_channel pack_sample [c] 0 =
    \<lparr>dIdx = 0, dItems = [(ob, kids, False)], dErr = None, dSaw = False, dDrained = True, dTerm = None,
     dRest = \<lparr>avail = t, fin = f\<rparr>\<rparr>"
proof -
  obtain p where "pr_read_all pack_sample 4095 (new_pack_reader \<lparr>avail = sample_pack d @ t, fin = f\<rparr>) = (p, d, None)"
    and "prR p = \<lparr>avail = t, fin = f\<rparr>"
    using sample_pack_read [OF assms(2)] by blast
  with assms show ?thesis by (simp add: decode_channel_def) (simp add: sample_lib_def)
qed

lemma sample_receive_packs:
  assumes "rsChans s = [c]" and "chIn c = \<lparr>avail = sample_pack d @ t, fin = f\<rparr>" and "length d \<le> ChunkSize"
    and "sample_read (Suc (length d)) d None = ([(ob, False)], None, False)"
    and "sample_children (oKey ob) (oData ob) = Inr kids"
    and "sample_write (rsStore s) [ob] = (st', 1, None)"
  shows "receive_packs pack_sample (sample_env n) [0] [oKey ob] [] s =
    (s\<lparr>rsChans := [ch_read_to \<lparr>avail = t, fin = f\<rparr> c], rsStore := st',
       rsProg := prog_transferred 1 (int (length (oData ob)))
         (prog_wire (wire_total [ch_read_to \<lparr>avail = t, fin = f\<rparr> c] - wire_total [c]) (rsProg s)),
       rsStats := (rsStats s)\<lparr>stReceived := Suc (stReceived (rsStats s))\<rparr>, rsFrontier := kids\<rparr>, Again)"
proof -
  have "st_write pack_sample = sample_write" by (simp add: sample_lib_def)
  with assms(1-5) assms(6) [unfolded One_nat_def] show ?thesis
    by (simp del: sample_write.simps
        add: receive_packs_def Let_def sample_decode [OF assms(2-5)] merge_one round_err_def decoder_errs_def
        errors_join_def List.map_filter_def check_delivered_def read_decoder_def decoder_read_all_def)
qed

lemma sample_round:
  assumes "rsChans s = [c]" and "chIn c = \<lparr>avail = sample_pack d @ t, fin = f\<rparr>" and "length d \<le> ChunkSize"
    and "sample_read (Suc (length d)) d None = ([(ob, False)], None, False)"
    and "sample_children (oKey ob) (oData ob) = Inr kids"
    and "sample_write (rsStore s) [ob] = (st', 1, None)"
    and "wants pack_sample (rsStore s) (rsFrontier s) 0 = Inr [oKey ob]" and "length (key_bytes (oKey ob)) = 1"
    and "os_room (chOut c) = None" and "length (rsPrev s) = 1"
  shows "\<exists>s'. receive_round pack_sample os_write 0 (sample_env n) s = (s', Again) \<and>
    rsChans s' = [ch_read_to \<lparr>avail = t, fin = f\<rparr> (c\<lparr>chOut := (chOut c)\<lparr>os_sent :=
        os_sent (chOut c) @ put_uint32 2 @ 1 # key_bytes (oKey ob)\<rparr>\<rparr>)] \<and>
    rsStore s' = st' \<and> rsFrontier s' = kids \<and> length (rsPrev s') = 1 \<and>
    stReceived (rsStats s') = Suc (stReceived (rsStats s)) \<and> stRounds (rsStats s') = Suc (stRounds (rsStats s))"
proof -
  have sp: "split_wants [oKey ob] maxWantsPerRound = ([oKey ob], [])"
    by (simp add: split_wants_def maxWantsPerRound_def)
  let ?w = "(chOut c)\<lparr>os_sent := os_sent (chOut c) @ put_uint32 2 @ 1 # key_bytes (oKey ob)\<rparr>"
  have wr: "write_msg pack_sample os_write (chOut c) (wants_msg [oKey ob]) = (?w, None)"
    using sample_write_wants [of "chOut c" "[oKey ob]"] assms by simp
  let ?s2 = "\<lambda>q. s\<lparr>rsStats := (rsStats s)\<lparr>stRounds := Suc (stRounds (rsStats s)),
                       stRequested := stRequested (rsStats s) + 1\<rparr>, rsProg := q,
      rsPrev := map chRead (rsChans s), rsChans := [c\<lparr>chOut := ?w\<rparr>]\<rparr>"
  have rp: "receive_packs pack_sample (sample_env n) [0] [oKey ob] [] (?s2 q) =
    ((?s2 q)\<lparr>rsChans := [ch_read_to \<lparr>avail = t, fin = f\<rparr> (c\<lparr>chOut := ?w\<rparr>)], rsStore := st',
       rsProg := prog_transferred 1 (int (length (oData ob)))
         (prog_wire (wire_total [ch_read_to \<lparr>avail = t, fin = f\<rparr> (c\<lparr>chOut := ?w\<rparr>)] - wire_total [c\<lparr>chOut := ?w\<rparr>]) q),
       rsStats := (rsStats (?s2 q))\<lparr>stReceived := Suc (stReceived (rsStats (?s2 q)))\<rparr>, rsFrontier := kids\<rparr>, Again)" for q
    by (subst sample_receive_packs [OF _ _ assms(3-5), where st' = st' and t = t and f = f]) (use assms in simp_all)
  obtain pv where pv: "rsPrev s = [pv]" using assms(10) by (cases "rsPrev s") auto
  have "\<exists>q. receive_round pack_sample os_write 0 (sample_env n) s =
      receive_packs pack_sample (sample_env n) [0] [oKey ob] [] (?s2 q)"
    using assms(1,7) by (auto simp: receive_round_def sp Let_def deal_wants_def wr pv)
  then obtain q where r: "receive_round pack_sample os_write 0 (sample_env n) s =
      receive_packs pack_sample (sample_env n) [0] [oKey ob] [] (?s2 q)" by blast
  show ?thesis unfolding r rp by (intro exI conjI, rule refl) (simp_all add: assms(1))
qed

lemma sample_wants_absent:
  "map_of st k = None \<Longrightarrow> wants pack_sample st [k] 0 = Inr [k]"
  by (simp add: wants_def sample_lib_def sample_has_def)

lemma sample_round_end:
  assumes "rsChans s = [c]" and "rsFrontier s = []" and "os_room (chOut c) = None"
  shows "\<exists>s'. receive_round pack_sample os_write 0 env s = (s', Finished) \<and> rsStore s' = rsStore s \<and>
    stRounds (rsStats s') = Suc (stRounds (rsStats s)) \<and> stReceived (rsStats s') = stReceived (rsStats s) \<and>
    rsChans s' = [c\<lparr>chOut := (chOut c)\<lparr>os_sent := os_sent (chOut c) @ put_uint32 1 @ [1]\<rparr>\<rparr>] \<and>
    stBytes (rsStats s') = chRead c"
proof -
  have "wants_msg [] = zero_msg\<lparr>mType := TWants\<rparr>"
    by (simp add: wants_msg_def encode_keys_def zero_msg_def)
  with sample_write_wants [of "chOut c" "[]"] assms(3)
  have "write_msg pack_sample os_write (chOut c) (zero_msg\<lparr>mType := TWants\<rparr>) =
    ((chOut c)\<lparr>os_sent := os_sent (chOut c) @ put_uint32 1 @ [1]\<rparr>, None)" by simp
  with assms show ?thesis
    by (simp add: receive_round_def wants_def split_wants_def wire_total_def)
qed

definition sample_final :: sample_store where
  "sample_final = [(Key [4], [4]), (Key [9], [9, 4])]"

lemma sample_run:
  "\<exists>s'. receive pack_sample os_write sample_env 3 [sample_link] [] (Key [9]) 0 (Some no_progress) = Some (s', None) \<and>
    rsStore s' = sample_final \<and> stRounds (rsStats s') = 3 \<and> stReceived (rsStats s') = 2 \<and>
    map (\<lambda>c. avail (chIn c)) (rsChans s') = [[]]"
proof -
  let ?c0 = "\<lparr>chIn = fst sample_link, chOut = fresh_out, chRead = 0\<rparr>"
  let ?s0 = "receive_start [?c0] [] (Key [9]) (Some no_progress) :: (ostream, sample_store) rstate"
  have r1: "sample_read (Suc (length [2, 9, 4, 0 :: 8 word])) [2, 9, 4, 0] None =
      ([(\<lparr>oKey = Key [9], oData = [9, 4]\<rparr>, False)], None, False)"
    and r2: "sample_read (Suc (length [1, 4, 0 :: 8 word])) [1, 4, 0] None =
      ([(\<lparr>oKey = Key [4], oData = [4]\<rparr>, False)], None, False)"
    by simp_all
  from sample_round [of ?s0 ?c0 "[2, 9, 4, 0]" "sample_pack [1, 4, 0]" IoEOF
      "\<lparr>oKey = Key [9], oData = [9, 4]\<rparr>" "[Key [4]]" "[(Key [9], [9, 4])]" 0] r1
  obtain s1 c1 where s1: "receive_round pack_sample os_write 0 (sample_env 0) ?s0 = (s1, Again)"
    "rsChans s1 = [c1]" "chIn c1 = \<lparr>avail = sample_pack [1, 4, 0] @ [], fin = IoEOF\<rparr>" "os_room (chOut c1) = None"
    "rsStore s1 = [(Key [9], [9, 4])]" "rsFrontier s1 = [Key [4]]" "length (rsPrev s1) = 1"
    "stReceived (rsStats s1) = 1" "stRounds (rsStats s1) = 1"
    by (auto simp: receive_start_def sample_link_def fresh_out_def ChunkSize_def sample_children_def
        sample_wants_absent ch_read_to_def)
  from sample_round [OF s1(2,3), of "\<lparr>oKey = Key [4], oData = [4]\<rparr>" "[]" sample_final 1] r2 s1
  obtain s2 c2 where s2: "receive_round pack_sample os_write 0 (sample_env 1) s1 = (s2, Again)"
    "rsChans s2 = [c2]" "chIn c2 = \<lparr>avail = [], fin = IoEOF\<rparr>" "os_room (chOut c2) = None"
    "rsStore s2 = sample_final" "rsFrontier s2 = []" "stReceived (rsStats s2) = 2" "stRounds (rsStats s2) = 2"
    by (auto simp: ChunkSize_def sample_children_def sample_wants_absent ch_read_to_def sample_final_def)
  from sample_round_end [OF s2(2,6,4), of "sample_env 2"] s2
  obtain s3 where s3: "receive_round pack_sample os_write 0 (sample_env 2) s2 = (s3, Finished)"
    "rsStore s3 = sample_final" "stRounds (rsStats s3) = 3" "stReceived (rsStats s3) = 2"
    "map (\<lambda>c. avail (chIn c)) (rsChans s3) = [[]]" by auto
  have "sample_env (Suc 0) = sample_env 1" "sample_env (Suc (Suc 0)) = sample_env 2"
    by (simp_all add: numeral_2_eq_2)
  moreover have "receive pack_sample os_write sample_env 3 [sample_link] [] (Key [9]) 0 (Some no_progress) =
      receive_loop pack_sample os_write 0 sample_env (Suc (Suc (Suc 0))) ?s0"
    by (simp add: receive_def sample_link_def numeral_3_eq_3)
  ultimately show ?thesis using s1(1) s2(1) s3 by auto
qed

section \<open>Properties\<close>

lemma receive_start_covers: "covers lib goal (receive_start chans st goal prog)"
  by (simp add: covers_def receive_start_def)

text \<open>
  Claim C1 (a successful transfer is complete).  When \<open>Receive\<close> returns nil, the whole tree
  below the root is in the store, whatever the peer sent, on any number of channels, in any
  interleaving of the decoders, and with any writer.  Nothing stored before is lost.
\<close>

theorem receive_complete:
  assumes "check_law lib" and "write_law lib"
    and "receive lib wr envs fuel links st goal jobs prog = Some (s', None)"
  shows "tree_complete lib (rsStore s') goal \<and>
    (\<forall>k d. st_get lib st k = Inr d \<longrightarrow> st_get lib (rsStore s') k = Inr d)"
  using loop_complete [OF assms(1,2) assms(3) [unfolded receive_def] receive_start_covers]
  by (simp add: grows_def receive_start_def)

theorem receive_complete_witness:
  "\<exists>s'. receive pack_sample os_write sample_env 3 [sample_link] [] (Key [9]) 0 (Some no_progress) = Some (s', None) \<and>
    tree_complete pack_sample (rsStore s') (Key [9])"
  using sample_run receive_complete [OF sample_check_law sample_write_law] by blast

text \<open>
  Claim C11 (the want loop ends).  On every finite input, \<open>Receive\<close> returns after at most one
  round more than there are bytes to read: a round that goes on has read bytes of some pack.
  A higher bound on the rounds changes nothing.
\<close>

theorem receive_terminates:
  assumes "write_law lib" and "amber_law lib" and "(\<Sum>(r, w)\<leftarrow>links. length (avail r)) < fuel"
  shows "\<exists>r. receive lib wr envs fuel links st goal jobs prog = Some r \<and>
    (\<forall>fuel'\<ge>fuel. receive lib wr envs fuel' links st goal jobs prog = Some r)"
proof -
  let ?s = "receive_start (map (\<lambda>(r, w). \<lparr>chIn = r, chOut = w, chRead = 0\<rparr>) links) st goal prog"
  have "unread (rsChans ?s) = (\<Sum>(r, w)\<leftarrow>links. length (avail r))"
    by (induction links) (auto simp: unread_def receive_start_def)
  with assms(3) have "unread (rsChans ?s) < fuel" by simp
  from loop_ends [OF assms(1,2) this] obtain r where "receive lib wr envs fuel links st goal jobs prog = Some r"
    unfolding receive_def by blast
  then show ?thesis unfolding receive_def by (blast intro: loop_fuel_mono)
qed

lemma sample_amber_law: "amber_law (sample_lib ms)"
  by (simp add: amber_law_def sample_lib_def)

theorem receive_terminates_witness:
  "\<exists>r. receive pack_sample os_write sample_env 6 [(\<lparr>avail = [0, 0, 1, 0, 7], fin = IoEOF\<rparr>, fresh_out)] [] (Key [9]) 0 None = Some r"
proof -
  have "(\<Sum>(r, w)\<leftarrow>[(\<lparr>avail = [0, 0, 1, 0, 7], fin = IoEOF\<rparr>, fresh_out)]. length (avail r)) < 6" by simp
  from receive_terminates [OF sample_write_law sample_amber_law this] show ?thesis by blast
qed

text \<open>
  Claim C29 (accounting).  When \<open>Receive\<close> succeeds, \<open>Stats.Bytes\<close> is the number of bytes read
  off all channels, the observer has been told of exactly these bytes, and of exactly the
  requested objects that the statistics count.
\<close>

theorem receive_accounting:
  assumes "receive lib wr envs fuel links st goal jobs (Some p) = Some (s', None)"
  shows "stBytes (rsStats s') = int (\<Sum>(r, w)\<leftarrow>links. length (avail r)) - int (\<Sum>c\<leftarrow>rsChans s'. length (avail (chIn c))) \<and>
    (\<exists>p'. rsProg s' = Some p' \<and> pgWire p' = pgWire p + stBytes (rsStats s') \<and>
       pgReqObjs p' = pgReqObjs p + int (stRequested (rsStats s')))"
proof -
  let ?chans = "map (\<lambda>(r, w). \<lparr>chIn = r, chOut = w, chRead = 0\<rparr>) links"
  let ?s = "receive_start ?chans st goal (Some p)"
  have zero: "wire_total ?chans = 0" and un: "unread ?chans = (\<Sum>(r, w)\<leftarrow>links. length (avail r))"
    by (induction links) (auto simp: wire_total_def unread_def)
  from loop_accounts [OF assms [unfolded receive_def]]
  have acc: "accounts ?s s'" and bt: "stBytes (rsStats s') = wire_total (rsChans s')" by simp_all
  from acc have "map ch_total (rsChans s') = map ch_total ?chans" by (simp add: accounts_def receive_start_def)
  with bt zero un wire_total_eq [of ?chans] wire_total_eq [of "rsChans s'"]
  have "stBytes (rsStats s') = int (\<Sum>(r, w)\<leftarrow>links. length (avail r)) - int (unread (rsChans s'))" by simp
  moreover from acc bt zero have "\<exists>p'. rsProg s' = Some p' \<and> pgWire p' = pgWire p + stBytes (rsStats s') \<and>
      pgReqObjs p' = pgReqObjs p + int (stRequested (rsStats s'))"
    by (fastforce simp: accounts_def receive_start_def)
  ultimately show ?thesis by (simp add: unread_def)
qed

theorem receive_accounting_witness:
  "\<exists>s' p'. receive pack_sample os_write sample_env 3 [sample_link] [] (Key [9]) 0 (Some no_progress) = Some (s', None) \<and>
    stBytes (rsStats s') = int (length (avail (fst sample_link))) \<and>
    rsProg s' = Some p' \<and> pgWire p' = int (length (avail (fst sample_link)))"
proof -
  from sample_run obtain s' where
    s': "receive pack_sample os_write sample_env 3 [sample_link] [] (Key [9]) 0 (Some no_progress) = Some (s', None)"
    "map (\<lambda>c. avail (chIn c)) (rsChans s') = [[]]" by (elim exE conjE)
  have "(\<Sum>c\<leftarrow>rsChans s'. length (avail (chIn c))) = sum_list (map length (map (\<lambda>c. avail (chIn c)) (rsChans s')))"
    by (simp add: comp_def)
  then have z: "(\<Sum>c\<leftarrow>rsChans s'. length (avail (chIn c))) = 0" unfolding s'(2) by simp
  have l: "(\<Sum>(r, w)\<leftarrow>[sample_link]. length (avail r)) = length (avail (fst sample_link))"
    by (simp add: split_def)
  from receive_accounting [OF s'(1), unfolded z l] obtain p' where
    "stBytes (rsStats s') = int (length (avail (fst sample_link)))" "rsProg s' = Some p'"
    "pgWire p' = int (length (avail (fst sample_link)))"
    by (auto simp: no_progress_def)
  with s'(1) show ?thesis by blast
qed

section \<open>What a round asks for\<close>

text \<open>Reading never touches the sending side.\<close>

lemma read_decoders_out:
  "map chOut (fold (\<lambda>d. read_decoder (a d) (b d) (k d) d) ds chans) = map chOut chans"
  by (induction ds arbitrary: chans) (simp_all add: read_decoder_def Let_def map_update_same ch_read_to_def)

lemma receive_packs_out: "map chOut (rsChans (fst (receive_packs lib env is ks carry s))) = map chOut (rsChans s)"
proof -
  obtain st' n werr where
    w: "st_write lib (rsStore s) (map receipt_object (merged_items lib env is (rsChans s))) = (st', n, werr)"
    by (cases "st_write lib (rsStore s) (map receipt_object (merged_items lib env is (rsChans s)))") auto
  show ?thesis unfolding receive_packs_channels [OF w] by (rule read_decoders_out)
qed

text \<open>What was put on a channel: the frame of a \<open>TWants\<close> for its shard, or nothing.\<close>

definition asked :: "'a wire_lib_scheme \<Rightarrow> key list \<Rightarrow> ostream \<Rightarrow> ostream \<Rightarrow> bool" where
  "asked lib shard w w' \<longleftrightarrow>
     (if shard = [] then w' = w
      else \<exists>b. frame_bytes lib (wants_msg shard) = Some b \<and> os_sent w' = os_sent w @ b)"

lemma send_shards_asked:
  "send_shards lib os_write i shards chans = (chans', is, None) \<Longrightarrow> i + length shards \<le> length chans \<Longrightarrow>
     (\<forall>j<i. chOut (chans' ! j) = chOut (chans ! j)) \<and>
     (\<forall>j<length shards. asked lib (shards ! j) (chOut (chans ! (i + j))) (chOut (chans' ! (i + j))))"
proof (induction lib "os_write :: ostream writer" i shards chans arbitrary: chans' "is" rule: send_shards.induct)
  case (2 lib i shard shards chans)
  show ?case
  proof (cases "shard = []")
    case True
    with 2 have ih: "\<forall>j<Suc i. chOut (chans' ! j) = chOut (chans ! j)"
      "\<forall>j<length shards. asked lib (shards ! j) (chOut (chans ! (Suc i + j))) (chOut (chans' ! (Suc i + j)))" by simp_all
    from ih(1) have "\<forall>j<i. chOut (chans' ! j) = chOut (chans ! j)" "asked lib [] (chOut (chans ! i)) (chOut (chans' ! i))"
      by (simp_all add: asked_def)
    with ih(2) True show ?thesis by (simp add: All_less_Suc2)
  next
    case False
    obtain w e where w: "write_msg lib os_write (chOut (chans ! i)) (wants_msg shard) = (w, e)"
      by (cases "write_msg lib os_write (chOut (chans ! i)) (wants_msg shard)")
    let ?chans = "chans[i := (chans ! i)\<lparr>chOut := w\<rparr>]"
    from "2.prems"(1) False w have e: "e = None" by (cases e) auto
    obtain chans2 is2 e2 where r: "send_shards lib os_write (Suc i) shards ?chans = (chans2, is2, e2)"
      by (cases "send_shards lib os_write (Suc i) shards ?chans") auto
    with "2.prems"(1) False w e have "e2 = None" "chans2 = chans'" by auto
    with "2.hyps"(2) [OF False w [symmetric] e] r "2.prems"(2)
    have ih: "\<forall>j<Suc i. chOut (chans' ! j) = chOut (?chans ! j)"
      "\<forall>j<length shards. asked lib (shards ! j) (chOut (?chans ! (Suc i + j))) (chOut (chans' ! (Suc i + j)))" by auto
    have "asked lib shard (chOut (chans ! i)) w"
      using os.write_msg_ok [OF w [unfolded e]] False by (auto simp: asked_def)
    moreover have "chOut (chans' ! i) = w" using ih(1) "2.prems"(2) by simp
    moreover have "\<forall>j<i. chOut (chans' ! j) = chOut (chans ! j)" using ih(1) by simp
    ultimately show ?thesis using ih(2) by (simp add: All_less_Suc2)
  qed
qed simp

lemma deal_wants_mset:
  assumes "deal_wants lib ks weights = Inr shards"
  shows "mset (concat shards) = mset ks"
proof (cases "weights = []")
  case True
  with assms show ?thesis by (auto simp: deal_wants_def split: if_splits)
next
  case False
  from deal_loop_mset [OF deal_inv_init [OF False], of lib ks] assms False show ?thesis
    by (auto simp: deal_wants_def Let_def concat_replicate_trivial split: if_splits)
qed

lemma sample_first_round:
  "\<exists>s'. receive_round pack_sample os_write 0 (sample_env 0)
      (receive_start [\<lparr>chIn = fst sample_link, chOut = fresh_out, chRead = 0\<rparr>] [] (Key [9]) None) = (s', Again)"
proof -
  let ?c0 = "\<lparr>chIn = fst sample_link, chOut = fresh_out, chRead = 0\<rparr>"
  let ?s0 = "receive_start [?c0] [] (Key [9]) None :: (ostream, sample_store) rstate"
  have "sample_read (Suc (length [2, 9, 4, 0 :: 8 word])) [2, 9, 4, 0] None =
      ([(\<lparr>oKey = Key [9], oData = [9, 4]\<rparr>, False)], None, False)" by simp
  with sample_round [of ?s0 ?c0 "[2, 9, 4, 0]" "sample_pack [1, 4, 0]" IoEOF
      "\<lparr>oKey = Key [9], oData = [9, 4]\<rparr>" "[Key [4]]" "[(Key [9], [9, 4])]" 0]
  show ?thesis
    by (auto simp: receive_start_def sample_link_def fresh_out_def ChunkSize_def sample_children_def
        sample_wants_absent)
qed

text \<open>
  Fact (what a round asks).  In a round that goes on, what is wanted is at most
  \<open>maxWantsPerRound\<close> keys and at least one, each channel is sent one \<open>TWants\<close> with its shard if
  the shard is not empty and nothing otherwise (an empty \<open>TWants\<close> would end its sender), and
  the shards together hold exactly the wanted keys.
\<close>

theorem receive_round_asks:
  assumes "receive_round lib os_write jobs env s = (s', Again)" and "length (rsPrev s) = length (rsChans s)"
  shows "\<exists>ask carry shards. wants lib (rsStore s) (rsFrontier s) jobs = Inr (ask @ carry) \<and>
    ask \<noteq> [] \<and> length ask \<le> maxWantsPerRound \<and> mset (concat shards) = mset ask \<and> length shards = length (rsChans s) \<and>
    (\<forall>i<length (rsChans s). asked lib (shards ! i) (chOut (rsChans s ! i)) (chOut (rsChans s' ! i)))"
proof -
  obtain ask carry shards chans' "is" s2 where *:
    "split_wants (ask @ carry) maxWantsPerRound = (ask, carry)"
    "wants lib (rsStore s) (rsFrontier s) jobs = Inr (ask @ carry)" "ask \<noteq> []"
    "deal_wants lib ask (map2 (\<lambda>c p. chRead c - p) (rsChans s) (rsPrev s)) = Inr shards"
    "send_shards lib os_write 0 shards (rsChans s) = (chans', is, None)"
    "receive_packs lib env is ask carry s2 = (s', Again)" "rsChans s2 = chans'"
    using round_shards [OF assms(1)] by metis
  have lsh: "length shards = length (rsChans s)" using deal_wants_length [OF *(4)] assms(2) by simp
  have out: "map chOut (rsChans s') = map chOut chans'"
    using receive_packs_out [of lib env "is" ask carry s2] *(6,7) by simp
  then have len: "length (rsChans s') = length (rsChans s)"
    using map_eq_imp_length_eq [OF conjunct1 [OF send_shards_keeps [OF *(5)]]]
    by (metis length_map)
  have "chOut (rsChans s' ! i) = chOut (chans' ! i)" if "i < length (rsChans s)" for i
    using out that len by (metis length_map nth_map)
  with send_shards_asked [OF *(5)] lsh
  have "\<forall>i<length (rsChans s). asked lib (shards ! i) (chOut (rsChans s ! i)) (chOut (rsChans s' ! i))" by simp
  with * lsh deal_wants_mset [OF *(4)] split_wants_send_le [OF *(1)] show ?thesis by blast
qed

theorem receive_round_asks_witness:
  "\<exists>s' shards. receive_round pack_sample os_write 0 (sample_env 0)
      (receive_start [\<lparr>chIn = fst sample_link, chOut = fresh_out, chRead = 0\<rparr>] [] (Key [9]) None) = (s', Again) \<and>
    mset (concat shards) = {#Key [9]#} \<and> length shards = 1 \<and>
    asked pack_sample (shards ! 0) fresh_out (chOut (rsChans s' ! 0))"
proof -
  let ?s0 = "receive_start [\<lparr>chIn = fst sample_link, chOut = fresh_out, chRead = 0\<rparr>] [] (Key [9]) None ::
    (ostream, sample_store) rstate"
  obtain s' where r: "receive_round pack_sample os_write 0 (sample_env 0) ?s0 = (s', Again)"
    using sample_first_round by blast
  have "wants pack_sample (rsStore ?s0) (rsFrontier ?s0) 0 = Inr [Key [9]]"
    by (simp add: receive_start_def sample_wants_absent)
  with receive_round_asks [OF r] obtain ask carry shards where
    "[Key [9]] = ask @ carry" "ask \<noteq> []" "mset (concat shards) = mset ask" "length shards = 1"
    "asked pack_sample (shards ! 0) fresh_out (chOut (rsChans s' ! 0))"
    by (auto simp: receive_start_def)
  moreover from this(1,2) have "ask = [Key [9]]" by (cases ask) auto
  ultimately show ?thesis using r by auto
qed

text \<open>
  Claim C17 (nothing asked for is dropped).  When a round goes on, every key it asked for is
  stored with data whose children are all in the next frontier, and every key the cap kept
  back is in the next frontier too.
\<close>

theorem receive_round_delivers:
  assumes "write_law lib" and "receive_round lib wr jobs env s = (s', Again)"
  shows "\<exists>ask carry. wants lib (rsStore s) (rsFrontier s) jobs = Inr (ask @ carry) \<and> ask \<noteq> [] \<and>
    set carry \<subseteq> set (rsFrontier s') \<and>
    (\<forall>k\<in>set ask. \<exists>d kids. st_get lib (rsStore s') k = Inr d \<and> child_keys lib k d = Inr kids \<and>
       set kids \<subseteq> set (rsFrontier s'))"
  using round_delivered [OF assms] by metis

theorem receive_round_delivers_witness:
  "\<exists>s' d. receive_round pack_sample os_write 0 (sample_env 0)
      (receive_start [\<lparr>chIn = fst sample_link, chOut = fresh_out, chRead = 0\<rparr>] [] (Key [9]) None) = (s', Again) \<and>
    st_get pack_sample (rsStore s') (Key [9]) = Inr d"
proof -
  let ?s0 = "receive_start [\<lparr>chIn = fst sample_link, chOut = fresh_out, chRead = 0\<rparr>] [] (Key [9]) None ::
    (ostream, sample_store) rstate"
  obtain s' where r: "receive_round pack_sample os_write 0 (sample_env 0) ?s0 = (s', Again)"
    using sample_first_round by blast
  have w: "wants pack_sample (rsStore ?s0) (rsFrontier ?s0) 0 = Inr [Key [9]]"
    by (simp add: receive_start_def sample_wants_absent)
  from receive_round_delivers [OF sample_write_law r] obtain ask carry where
    "[Key [9]] = ask @ carry" "ask \<noteq> []"
    and a: "\<forall>k\<in>set ask. \<exists>d kids. st_get pack_sample (rsStore s') k = Inr d \<and> child_keys pack_sample k d = Inr kids \<and>
       set kids \<subseteq> set (rsFrontier s')"
    unfolding w by blast
  then have "Key [9] \<in> set ask" by (cases ask) auto
  with a r show ?thesis by blast
qed

lemma packs_aligned:
  assumes "write_law lib" and "receive_packs lib env is ask carry s = (s', Again)" and "i \<in> set is"
  shows "\<exists>r bs y. pack_spec lib (chIn (rsChans s ! i)) = (r, bs, y) \<and> eof_nil y = None \<and>
    (\<exists>obs saw. amber_read lib bs None = (obs, None, saw))"
proof -
  obtain n where
    sw: "st_write lib (rsStore s) (map receipt_object (merged_items lib env is (rsChans s))) = (rsStore s', n, None)"
    and full: "n < length (merged_items lib env is (rsChans s)) \<or>
       (\<forall>i\<in>set is. dErr (decode_channel lib (rsChans s) i) = None)"
    using receive_packs_Again [OF assms(2)] by metis
  with write_law_D [OF assms(1) sw] assms(3) have ok: "dErr (decode_channel lib (rsChans s) i) = None" by simp
  obtain p bs x where rd: "pr_read_all lib 4095 (new_pack_reader (chIn (rsChans s ! i))) = (p, bs, x)"
    by (metis prod_cases3)
  from decode_channel_ok [OF ok rd] read_pack [OF rd] show ?thesis by metis
qed

text \<open>
  Fact (a broken pack stops the loop, and the channels stay aligned).  A round goes on only
  if some channels carried a pack each, every one of these packs was read to its end without an
  error of the stream, the peer or the library, and these channels stand right behind their
  pack while the others have not been read.
\<close>

theorem receive_round_aligned:
  assumes "write_law lib" and "receive_round lib wr jobs env s = (s', Again)"
  shows "\<exists>is. set is \<subseteq> {..<length (rsChans s)} \<and> length (rsChans s') = length (rsChans s) \<and>
    (\<forall>i<length (rsChans s).
       if i \<in> set is
       then \<exists>bs y. pack_spec lib (chIn (rsChans s ! i)) = (chIn (rsChans s' ! i), bs, y) \<and> eof_nil y = None \<and>
         (\<exists>obs saw. amber_read lib bs None = (obs, None, saw))
       else chIn (rsChans s' ! i) = chIn (rsChans s ! i))"
proof -
  obtain ask carry "is" s2 where rp: "receive_packs lib env is ask carry s2 = (s', Again)"
    and ch: "map chIn (rsChans s2) = map chIn (rsChans s)"
    and idx: "sorted_wrt (<) is" "set is \<subseteq> {..<length (rsChans s)}"
    using receive_round_Again [OF assms(2)] by metis
  have len: "length (rsChans s2) = length (rsChans s)" using ch by (rule map_eq_imp_length_eq)
  with idx have d: "distinct is" "set is \<subseteq> {..<length (rsChans s2)}" by (simp_all add: strict_sorted_iff)
  note ap = packs_Again_channels [OF assms(1) rp d]
  have same: "chIn (rsChans s2 ! i) = chIn (rsChans s ! i)" if "i < length (rsChans s)" for i
    using ch that len by (metis nth_map)
  have "if i \<in> set is
       then \<exists>bs y. pack_spec lib (chIn (rsChans s ! i)) = (chIn (rsChans s' ! i), bs, y) \<and> eof_nil y = None \<and>
         (\<exists>obs saw. amber_read lib bs None = (obs, None, saw))
       else chIn (rsChans s' ! i) = chIn (rsChans s ! i)" if i: "i < length (rsChans s)" for i
  proof (cases "i \<in> set is")
    case True
    from packs_aligned [OF assms(1) rp True] same [OF i] i True len show ?thesis
      by (auto simp: ap after_packs_def ch_read_to_def)
  next
    case False
    with same [OF i] i len show ?thesis by (simp add: ap after_packs_def)
  qed
  moreover have "length (rsChans s') = length (rsChans s)" using len by (simp add: ap after_packs_def)
  ultimately show ?thesis using idx(2) by blast
qed

theorem receive_round_aligned_witness:
  "\<exists>s'. receive_round pack_sample os_write 0 (sample_env 0)
      (receive_start [\<lparr>chIn = fst sample_link, chOut = fresh_out, chRead = 0\<rparr>] [] (Key [9]) None) = (s', Again) \<and>
    length (rsChans s') = 1"
proof -
  let ?s0 = "receive_start [\<lparr>chIn = fst sample_link, chOut = fresh_out, chRead = 0\<rparr>] [] (Key [9]) None ::
    (ostream, sample_store) rstate"
  obtain s' where r: "receive_round pack_sample os_write 0 (sample_env 0) ?s0 = (s', Again)"
    using sample_first_round by blast
  from receive_round_aligned [OF sample_write_law r] have "length (rsChans s') = 1"
    by (auto simp: receive_start_def)
  with r show ?thesis by blast
qed

section \<open>How errors and short runs end\<close>

lemma decode_items_drained: "decode_items lib obs e saw x = (its, derr, saw', True) \<Longrightarrow> derr = x"
  by (induction obs arbitrary: its) (auto split: sum.splits option.splits prod.splits)

lemma decode_channel_term:
  assumes "pack_spec lib (chIn (chans ! i)) = (r, bs, Some e)" and "e \<noteq> IoEOF"
  shows "dTerm (decode_channel lib chans i) = Some e" and "dIdx (decode_channel lib chans i) = i"
    and "dDrained (decode_channel lib chans i) \<Longrightarrow> dErr (decode_channel lib chans i) = Some e"
proof -
  obtain p cs x where rd: "pr_read_all lib 4095 (new_pack_reader (chIn (chans ! i))) = (p, cs, x)" by (metis prod_cases3)
  with read_pack [OF rd] assms have x: "x = Some e" by (auto simp: eof_nil_def)
  obtain obs e' saw where am: "amber_read lib cs x = (obs, e', saw)" by (metis prod_cases3)
  obtain its derr saw' dr where di: "decode_items lib obs e' saw x = (its, derr, saw', dr)" by (metis prod_cases4)
  with rd am x show "dTerm (decode_channel lib chans i) = Some e" "dIdx (decode_channel lib chans i) = i"
    by (simp_all add: decode_channel_def)
  show "dErr (decode_channel lib chans i) = Some e" if "dDrained (decode_channel lib chans i)"
    using that rd am x di decode_items_drained [of lib obs e' saw x its derr saw'] by (simp add: decode_channel_def)
qed

lemma errors_join_remote:
  assumes "Some e \<in> set es" and "as_remote e \<noteq> None"
  shows "\<exists>e'. errors_join es = Some e' \<and> as_remote e' \<noteq> None"
proof -
  have e: "e \<in> set (List.map_filter id es)" using assms(1) by (force simp: List.map_filter_def)
  then obtain y ys where "List.map_filter id es = y # ys" by (cases "List.map_filter id es") auto
  then have j: "errors_join es = Some (JoinErr (List.map_filter id es))" by (simp add: errors_join_def)
  let ?rs = "filter (\<lambda>r. r \<noteq> None) (map as_remote (List.map_filter id es))"
  have "as_remote e \<in> set ?rs" using e assms(2) by (simp del: not_None_eq)
  moreover have "\<forall>r\<in>set ?rs. r \<noteq> None" by (simp del: not_None_eq)
  ultimately obtain r rs where "?rs = r # rs" "r \<noteq> None" by (cases ?rs) (auto simp del: not_None_eq filter.simps)
  then have "as_remote (JoinErr (List.map_filter id es)) \<noteq> None" by (simp only: as_remote.simps list.case not_False_eq_True)
  with j show ?thesis by blast
qed

lemma round_err_remote:
  assumes "(t, d) \<in> set errs" and "t = Some e \<or> d = Some e" and "as_remote e \<noteq> None"
  shows "\<exists>e'. round_err lib errs werr received ks = Some e' \<and> as_remote e' \<noteq> None"
proof -
  let ?P = "\<lambda>t. case t of None \<Rightarrow> False | Some e \<Rightarrow> as_remote e \<noteq> None"
  show ?thesis
  proof (cases "find ?P (map fst errs)")
    case (Some t')
    then have "?P t'" by (auto simp: find_Some_iff)
    with Some show ?thesis by (auto simp: round_err_def split: option.splits)
  next
    case None
    from assms(1) have m: "t \<in> set (map fst errs)" "d \<in> set (map snd errs)" by force+
    with None assms(2,3) have "d = Some e" by (auto simp: find_None_iff)
    with m(2) errors_join_remote [of e "map snd errs"] assms(3) None show ?thesis by (auto simp: round_err_def)
  qed
qed

text \<open>
  Whether the decoder of channel \<open>i\<close> read its pack up to its end before it stopped: it was not told
  to stop, nor ended by an object it could not decode, before that.  How far the store got
  decides when the decoders are told to.
\<close>

definition reads_pack_end ::
  "('p, 's, 'z) core_lib_scheme \<Rightarrow> round_env \<Rightarrow> nat list \<Rightarrow> ('w, 's) rstate \<Rightarrow> nat \<Rightarrow> bool" where
  "reads_pack_end lib env is s i \<longleftrightarrow>
     (let merged = merged_items lib env is (rsChans s) in
      case st_write lib (rsStore s) (map receipt_object merged) of
        (st', n, werr) \<Rightarrow> decoder_read_all (length merged \<le> n)
          (max (reStops env i) (length (filter (\<lambda>t. fst t = i) (take n merged)))) (decode_channel lib (rsChans s) i))"

text \<open>
  Claim C28 (a remote error keeps its type).  When a pack ends in a \<open>TErr\<close> frame and its decoder
  read as far as that, the round fails with an error that is a \<open>RemoteError\<close> for \<open>errors.As\<close>,
  whatever else failed: the store may have failed, the pack library may report the read error in
  words of its own or stop before it, an object may have no children that can be parsed, the
  other channels and \<open>checkDelivered\<close> may report anything.
\<close>

theorem remote_error_surfaces:
  assumes "i \<in> set is" and "pack_spec lib (chIn (rsChans s ! i)) = (r, bs, Some (RemoteError code txt cur))"
    and "reads_pack_end lib env is s i"
  shows "\<exists>err. snd (receive_packs lib env is ks carry s) = Failed err \<and> as_remote err \<noteq> None"
proof -
  let ?d = "decode_channel lib (rsChans s) i" and ?merged = "merged_items lib env is (rsChans s)"
  obtain st' n werr where w: "st_write lib (rsStore s) (map receipt_object ?merged) = (st', n, werr)" by (metis prod_cases3)
  let ?stop = "\<lambda>d. max (reStops env (dIdx d)) (length (filter (\<lambda>t. fst t = dIdx d) (take n ?merged)))"
  have e: "RemoteError code txt cur \<noteq> IoEOF" by simp
  note d = decode_channel_term [OF assms(2) e]
  have "decoder_read_all (length ?merged \<le> n) (?stop ?d) ?d"
    using assms(3) w d(2) by (simp add: reads_pack_end_def Let_def)
  with d(1,3) have "fst (decoder_errs (length ?merged \<le> n) (?stop ?d) ?d) = Some (RemoteError code txt cur) \<or>
      snd (decoder_errs (length ?merged \<le> n) (?stop ?d) ?d) = Some (RemoteError code txt cur)"
    by (auto simp: decoder_errs_def decoder_read_all_def split: if_splits)
  moreover have "decoder_errs (length ?merged \<le> n) (?stop ?d) ?d \<in>
      set (map (\<lambda>d. decoder_errs (length ?merged \<le> n) (?stop d) d) (map (decode_channel lib (rsChans s)) is))"
    using assms(1) by auto
  ultimately have "\<exists>err. round_err lib (map (\<lambda>d. decoder_errs (length ?merged \<le> n) (?stop d) d)
      (map (decode_channel lib (rsChans s)) is)) werr received ks = Some err \<and> as_remote err \<noteq> None" for received
    by (intro round_err_remote [of "fst (decoder_errs (length ?merged \<le> n) (?stop ?d) ?d)"
          "snd (decoder_errs (length ?merged \<le> n) (?stop ?d) ?d)" _ "RemoteError code txt cur"]) simp_all
  from this [of "set (map (\<lambda>(i, ob, kids, f). oKey ob) (take n ?merged))"]
  show ?thesis unfolding receive_packs_def Let_def merged_items_def [symmetric] w prod.case by (elim exE conjE) simp
qed

text \<open>The store fails in the same round.\<close>

theorem remote_error_surfaces_witness:
  "\<exists>b err. good_frame pack_sample sample_err = Some b \<and>
    snd (receive_packs (pack_sample\<lparr>st_write := \<lambda>st obs. (st, 0, Some (LibErr ''disk full''))\<rparr>) (sample_env 0) [0] [Key [9]] []
      (receive_start [\<lparr>chIn = \<lparr>avail = b, fin = IoEOF\<rparr>, chOut = fresh_out, chRead = 0\<rparr>] [] (Key [9]) None)) = Failed err \<and>
    as_remote err \<noteq> None"
proof -
  let ?lib = "pack_sample\<lparr>st_write := \<lambda>st obs. (st, 0, Some (LibErr ''disk full''))\<rparr>"
  have "marshal pack_sample sample_err = Inr [2, 1]"
    by (simp add: sample_lib_def book_marshal_def sample_err_def end_msg_def zero_msg_def TErr_def TDataEnd_def)
  moreover have "codec_ok pack_sample sample_err" by (rule sample_codec_ok) simp_all
  ultimately obtain b where b: "good_frame pack_sample sample_err = Some b"
    by (auto simp: good_frame_def frame_bytes_def MaxFrame_def)
  have l: "marshal ?lib = marshal pack_sample" "unmarshal ?lib = unmarshal pack_sample" by simp_all
  have b': "good_frame ?lib sample_err = Some b" using b by (simp only: good_frame_def frame_bytes_def codec_ok_def l)
  let ?c = "\<lparr>chIn = \<lparr>avail = b, fin = IoEOF\<rparr>, chOut = fresh_out, chRead = 0\<rparr>"
  let ?s = "receive_start [?c] [] (Key [9]) None :: (ostream, sample_store) rstate"
  from wire.recv_frame [OF b', of "[]" IoEOF]
  have sp: "pack_spec ?lib (chIn (rsChans ?s ! 0)) =
      (\<lparr>avail = [], fin = IoEOF\<rparr>, [], Some (RemoteError ''internal'' ''gone'' []))"
    by (subst pack_spec.simps)
      (simp add: receive_start_def sample_err_def zero_msg_def TErr_def TData_def TDataEnd_def remote_from_msg_def CodeInternal_def)
  have am: "amber_read ?lib [] (Some (RemoteError ''internal'' ''gone'' [])) =
      ([], Some (LibErr ''malformed''), True)" by (simp add: sample_lib_def)
  obtain p cs x where rd: "pr_read_all ?lib 4095 (new_pack_reader (chIn (rsChans ?s ! 0))) = (p, cs, x)"
    by (metis prod_cases3)
  with read_pack [OF rd] sp am have d: "dItems (decode_channel ?lib (rsChans ?s) 0) = []" "dSaw (decode_channel ?lib (rsChans ?s) 0)"
    by (auto simp: decode_channel_def eof_nil_def)
  then have m: "merged_items ?lib (sample_env 0) [0] (rsChans ?s) = []"
    by (simp add: merged_items_def merge_one)
  have "reads_pack_end ?lib (sample_env 0) [0] ?s 0"
    by (simp add: reads_pack_end_def m) (simp add: decoder_read_all_def d)
  from remote_error_surfaces [OF _ sp this, of "[Key [9]]" "[]"] b show ?thesis by auto
qed

lemma send_finals_up:
  assumes "frame_bytes lib (zero_msg\<lparr>mType := TWants\<rparr>) = Some b"
  shows "\<forall>c\<in>set chans. os_up (chOut c) \<Longrightarrow> \<exists>chans'. send_finals lib os_write chans = (chans', None) \<and>
    map (\<lambda>c. os_sent (chOut c)) chans' = map (\<lambda>c. os_sent (chOut c) @ b) chans"
proof (induction chans)
  case (Cons c cs)
  from os.write_msg_healthy [OF assms, of "chOut c"] Cons.prems obtain w where
    "write_msg lib os_write (chOut c) (zero_msg\<lparr>mType := TWants\<rparr>) = (w, None)" "os_sent w = os_sent (chOut c) @ b"
    by auto
  with Cons show ?case by auto
qed simp

text \<open>
  Fact (nothing to do).  For a tree that is already complete, \<open>Receive\<close> requests nothing
  and stores nothing: it sends one empty \<open>TWants\<close> on every channel, reads nothing, and returns
  nil after one round.
\<close>

theorem complete_tree_short:
  assumes "check_law lib" and "tree_complete lib st goal" and "st_has lib st goal = Inr True"
    and "frame_bytes lib (zero_msg\<lparr>mType := TWants\<rparr>) = Some b" and "\<forall>(r, w)\<in>set links. os_up w"
  shows "\<exists>s'. receive lib os_write envs (Suc fuel) links st goal jobs prog = Some (s', None) \<and>
    rsStore s' = st \<and> stRequested (rsStats s') = 0 \<and> stRounds (rsStats s') = 1 \<and> rsProg s' = prog \<and>
    map chIn (rsChans s') = map fst links \<and>
    map (\<lambda>c. os_sent (chOut c)) (rsChans s') = map (\<lambda>(r, w). os_sent w @ b) links"
proof -
  let ?chans = "map (\<lambda>(r, w). \<lparr>chIn = r, chOut = w, chRead = 0\<rparr>) links"
  have "check_complete lib goal (st_get lib st) (st_has lib st) jobs = None"
    using assms(1,2) by (simp add: check_law_def)
  with assms(3) have w: "wants lib st [goal] jobs = Inr []" by (simp add: wants_def)
  have "\<forall>c\<in>set ?chans. os_up (chOut c)" using assms(5) by auto
  from send_finals_up [OF assms(4) this] obtain chans' where
    f: "send_finals lib os_write ?chans = (chans', None)"
    "map (\<lambda>c. os_sent (chOut c)) chans' = map (\<lambda>c. os_sent (chOut c) @ b) ?chans" by blast
  have "map chIn ?chans = map fst links" "map (\<lambda>c. os_sent (chOut c) @ b) ?chans = map (\<lambda>(r, w). os_sent w @ b) links"
    by auto
  with f send_finals_keeps [OF f(1)] w show ?thesis
    by (simp add: receive_def receive_start_def receive_round_def split_wants_def)
qed

theorem complete_tree_short_witness:
  "\<exists>s'. receive pack_sample os_write sample_env 1 [sample_link] sample_final (Key [9]) 0 None = Some (s', None) \<and>
    stRequested (rsStats s') = 0 \<and> map chIn (rsChans s') = [fst sample_link]"
proof -
  have "\<exists>s'. rsStore s' = sample_final \<and>
      receive pack_sample os_write sample_env 3 [sample_link] [] (Key [9]) 0 (Some no_progress) = Some (s', None)"
    using sample_run by blast
  then have c: "tree_complete pack_sample sample_final (Key [9])"
    using loop_complete [OF sample_check_law sample_write_law _ receive_start_covers]
    unfolding receive_def by metis
  have h: "st_has pack_sample sample_final (Key [9]) = Inr True"
    by (simp add: sample_lib_def sample_has_def sample_final_def)
  have "frame_bytes pack_sample (zero_msg\<lparr>mType := TWants\<rparr>) = Some (put_uint32 1 @ [1])"
    by (simp add: frame_bytes_def sample_lib_def book_marshal_def TWants_def zero_msg_def MaxFrame_def)
  from complete_tree_short [OF sample_check_law c h this, of "[sample_link]" sample_env 0 0 None]
  show ?thesis by (auto simp: sample_link_def fresh_out_def os_up_def)
qed

end
