(* ===== verification/Server_Props.thy ===== *)
theory Server_Props
  imports Server_Ops Receive_Props
begin

text \<open>
  What the server's operations guarantee: a push that succeeds has published a complete tree,
  a compare-and-swap push never replaces a reference it did not expect, the collector's guard
  is always committed or aborted, and every stream is closed.
\<close>

section \<open>What the helpers leave alone\<close>

text \<open>Nothing but streams and the transfer registry changed; streams were closed, not reopened.\<close>

definition io_only :: "('w, 's, 'r) server \<Rightarrow> ('w, 's, 'r) server \<Rightarrow> bool" where
  "io_only s s' \<longleftrightarrow> svObjects s' = svObjects s \<and> svRefs s' = svRefs s \<and> svHooks s' = svHooks s \<and>
     svGuard s' = svGuard s \<and> svOnAccess s' = svOnAccess s \<and> svOnPin s' = svOnPin s \<and>
     svRefLocks s' = svRefLocks s \<and> (\<exists>cl. svClosed s' = svClosed s @ cl)"

lemma io_only_refl [simp]: "io_only s s"
  by (simp add: io_only_def)

lemma io_only_trans: "io_only a b \<Longrightarrow> io_only b c \<Longrightarrow> io_only a c"
  by (auto simp: io_only_def)

lemma io_only_D:
  assumes "io_only s s'"
  shows "svObjects s' = svObjects s" "svRefs s' = svRefs s" "svHooks s' = svHooks s" "svGuard s' = svGuard s"
    "svOnAccess s' = svOnAccess s" "svOnPin s' = svOnPin s"
  using assms by (simp_all add: io_only_def)

lemma srv_write_io: "srv_write lib wr i m s = (s', e) \<Longrightarrow> io_only s s'"
  by (auto simp: srv_write_def io_only_def split: prod.splits)

lemma srv_fail_io: "srv_fail lib wr i code e s = (s', x) \<Longrightarrow> x = Some e \<and> io_only s s'"
  by (cases "srv_write lib wr i (err_msg code (err_text (key_string lib) e)) s")
    (auto simp: srv_fail_def dest: srv_write_io)

lemma fail_local_io: "fail_local lib wr i e s = (s', x) \<Longrightarrow> x = Some e \<and> io_only s s'"
  by (auto simp: fail_local_def dest: srv_fail_io split: if_splits)

lemma check_cas_io: "check_cas lib wr i m s = (s', x) \<Longrightarrow> io_only s s'"
proof (cases "ref_current lib (svRefs s) (mName m)")
  case (Inl e)
  then show "check_cas lib wr i m s = (s', x) \<Longrightarrow> io_only s s'" by (auto simp: check_cas_def dest: srv_fail_io)
next
  case (Inr cur)
  then show "check_cas lib wr i m s = (s', x) \<Longrightarrow> io_only s s'"
    by (cases "srv_write lib wr i (cas_msg (mName m) cur) s")
      (auto simp: check_cas_def dest: srv_write_io split: if_splits)
qed

lemma check_cas_ok:
  "check_cas lib wr i m s = (s', None) \<Longrightarrow> s' = s \<and> ref_current lib (svRefs s) (mName m) = Inr (mExpectedOld m)"
  by (auto simp: check_cas_def srv_fail_def split: sum.splits if_splits)

definition shut_links :: "stream list \<Rightarrow> (stream \<Rightarrow> 'w link) \<Rightarrow> (stream \<Rightarrow> 'w link option) \<Rightarrow> stream \<Rightarrow> 'w link option" where
  "shut_links is h sh j = (if sh j = None \<and> j \<in> set is then Some (h j) else sh j)"

lemma shut_links_Nil [simp]: "shut_links [] h sh = sh"
  by (rule ext) (simp add: shut_links_def)

lemma close_all_closed:
  "close_all is s = s\<lparr>svClosed := svClosed s @ is, svShut := shut_links is (svStreams s) (svShut s)\<rparr>"
proof (induction "is" arbitrary: s)
  case (Cons i "is")
  have "shut_links is (svStreams s) (case svShut s i of None \<Rightarrow> (svShut s)(i \<mapsto> svStreams s i) | Some _ \<Rightarrow> svShut s) =
      shut_links (i # is) (svStreams s) (svShut s)"
    by (rule ext) (auto simp: shut_links_def split: option.splits)
  with Cons.IH [of "close_stream i s"] show ?case by (simp add: close_all_def) (simp add: close_stream_def)
qed (simp add: close_all_def)

lemma srv_drop_fields:
  "srv_drop token s = s\<lparr>svTransfers := fst (tf_drop token (svTransfers s)),
     svClosed := svClosed s @ snd (tf_drop token (svTransfers s)),
     svShut := shut_links (snd (tf_drop token (svTransfers s))) (svStreams s) (svShut s)\<rparr>"
  by (cases "tf_drop token (svTransfers s)") (simp add: srv_drop_def close_all_closed)

lemma srv_drop_io: "io_only s (srv_drop token s)"
  by (simp add: srv_drop_fields io_only_def)

lemma srv_release_io: "io_only s (srv_release h s)"
  by (cases h) (auto simp: srv_release_def srv_drop_fields close_all_closed io_only_def)

lemma io_only_transfers: "io_only s (s'\<lparr>svTransfers := t\<rparr>) \<longleftrightarrow> io_only s s'" "io_only (s\<lparr>svTransfers := t\<rparr>) s' \<longleftrightarrow> io_only s s'"
  by (simp_all add: io_only_def)

lemma shard_channels_io: "shard_channels lib wr env i n s = (s', x) \<Longrightarrow> io_only s s'"
  unfolding shard_channels_def Let_def
  by (auto split: if_splits prod.splits sum.splits option.splits simp: io_only_transfers
      dest!: srv_write_io intro: io_only_trans [OF _ srv_drop_io])

lemma srv_receive_fields:
  "srv_receive lib wr env is goal s = Some (s', e) \<Longrightarrow>
     svRefs s' = svRefs s \<and> svHooks s' = svHooks s \<and> svGuard s' = svGuard s \<and> svOnAccess s' = svOnAccess s \<and>
     svClosed s' = svClosed s"
  by (auto simp: srv_receive_def split: option.splits prod.splits)

text \<open>Streams are only ever added to those that are closed.\<close>

definition closes_more :: "('w, 's, 'r) server \<Rightarrow> ('w, 's, 'r) server \<Rightarrow> bool" where
  "closes_more s s' \<longleftrightarrow> prefix (svClosed s) (svClosed s')"

lemma closes_more_io: "io_only s s' \<Longrightarrow> closes_more s s'"
  by (auto simp: io_only_def closes_more_def)

lemma closes_more_trans: "closes_more a b \<Longrightarrow> closes_more b c \<Longrightarrow> closes_more a c"
  by (auto simp: closes_more_def)

text \<open>The three ways the reference write of a push can go.\<close>

lemma put_ref_cases:
  assumes "put_ref lib wr i name goal raw s = (s', x)"
  shows "svObjects s' = svObjects s \<and> svOnAccess s' = svOnAccess s \<and> (\<exists>cl. svClosed s' = svClosed s @ cl) \<and>
    (if x = None
     then (svGuard s \<longrightarrow> gc_prepare lib (svHooks s) goal = None) \<and> rf_put lib (svRefs s) name raw = (svRefs s', None) \<and>
       svHooks s' = svHooks s @ (if svGuard s then [Prepared goal, Committed goal] else [])
     else svHooks s' = svHooks s \<and> (svRefs s' = svRefs s \<or> \<not> svGuard s \<and> (\<exists>e. rf_put lib (svRefs s) name raw = (svRefs s', Some e))) \<or>
       svGuard s \<and> gc_prepare lib (svHooks s) goal = None \<and> svHooks s' = svHooks s @ [Prepared goal, Aborted goal] \<and>
         (\<exists>e. rf_put lib (svRefs s) name raw = (svRefs s', Some e)))"
proof (cases "svGuard s")
  case True
  show ?thesis
  proof (cases "gc_prepare lib (svHooks s) goal")
    case (Some e)
    with True assms show ?thesis by (auto simp: put_ref_def io_only_def dest!: srv_fail_io)
  next
    case None
    obtain rf y where "rf_put lib (svRefs s) name raw = (rf, y)" by (cases "rf_put lib (svRefs s) name raw")
    with True None assms show ?thesis
      by (cases y) (auto simp: put_ref_def Let_def io_only_def dest!: srv_fail_io)
  qed
next
  case False
  obtain rf y where "rf_put lib (svRefs s) name raw = (rf, y)" by (cases "rf_put lib (svRefs s) name raw")
  with False assms show ?thesis
    by (cases y) (auto simp: put_ref_def io_only_def dest!: srv_fail_io)
qed

text \<open>
  The commit: it fails with the references as it found them, or it has put the new reference
  (or tried to), which it only does when the precondition held at that time.
\<close>

definition push_raw ::
  "('p, 's, 'r, 'z) server_lib_scheme \<Rightarrow> 'r op_env \<Rightarrow> msg \<Rightarrow> key \<Rightarrow> goerr + bytes" where
  "push_raw lib env m goal =
     ref_encode lib \<lparr>rfName = mName m, rfKey = key_bytes goal, rfCreatedAt = oeNow env, rfUser = []\<rparr>"

lemma push_commit_cases:
  assumes "push_commit lib wr env i m goal s = (s', x)"
  shows "svObjects s' = svObjects s \<and> (\<exists>cl. svClosed s' = svClosed s @ cl) \<and>
    ((x \<noteq> None \<and> svRefs s' = oeRefs env (svRefs s) \<and> svHooks s' = svHooks s) \<or>
     (\<exists>raw y. (mCAS m \<longrightarrow> ref_current lib (oeRefs env (svRefs s)) (mName m) = Inr (mExpectedOld m)) \<and>
        push_raw lib env m goal = Inr raw \<and>
        (if y = None
         then (svGuard s \<longrightarrow> gc_prepare lib (svHooks s) goal = None) \<and>
           rf_put lib (oeRefs env (svRefs s)) (mName m) raw = (svRefs s', None) \<and>
           svHooks s' = svHooks s @ (if svGuard s then [Prepared goal, Committed goal] else []) @
             (if svOnAccess s then [Accessed (mName m)] else [])
         else x \<noteq> None \<and>
           (svHooks s' = svHooks s \<and> (svRefs s' = oeRefs env (svRefs s) \<or>
              \<not> svGuard s \<and> (\<exists>e. rf_put lib (oeRefs env (svRefs s)) (mName m) raw = (svRefs s', Some e))) \<or>
            svGuard s \<and> gc_prepare lib (svHooks s) goal = None \<and> svHooks s' = svHooks s @ [Prepared goal, Aborted goal] \<and>
              (\<exists>e. rf_put lib (oeRefs env (svRefs s)) (mName m) raw = (svRefs s', Some e))))))"
proof -
  let ?s = "s\<lparr>svRefs := oeRefs env (svRefs s), svRefLocks := insert (mName m) (svRefLocks s)\<rparr>"
  obtain s1 x1 where c: "(if mCAS m then check_cas lib wr i m ?s else (?s, None)) = (s1, x1)"
    by (cases "if mCAS m then check_cas lib wr i m ?s else (?s, None)")
  have io1: "io_only ?s s1" using c by (auto split: if_splits dest: check_cas_io)
  show ?thesis
  proof (cases x1)
    case (Some e)
    with assms c have "s' = s1" "x = Some e" by (simp_all add: push_commit_def)
    with io1 show ?thesis by (auto simp: io_only_def)
  next
    case None
    then have s1: "s1 = ?s" and cas: "mCAS m \<longrightarrow> ref_current lib (oeRefs env (svRefs s)) (mName m) = Inr (mExpectedOld m)"
      using c by (auto split: if_splits dest: check_cas_ok)
    show ?thesis
    proof (cases "push_raw lib env m goal")
      case (Inl e)
      with assms c None s1 have "srv_fail lib wr i CodeInternal e ?s = (s', x)"
        by (simp add: push_commit_def push_raw_def)
      from srv_fail_io [OF this] show ?thesis by (auto simp: io_only_def)
    next
      case (Inr raw)
      obtain s2 x2 where pr: "put_ref lib wr i (mName m) goal raw ?s = (s2, x2)"
        by (cases "put_ref lib wr i (mName m) goal raw ?s")
      note pc = put_ref_cases [OF pr]
      show ?thesis
      proof (cases x2)
        case (Some e)
        with assms c None s1 Inr pr have "s' = s2" "x = Some e"
          by (simp_all add: push_commit_def push_raw_def)
        with pc Some cas Inr show ?thesis by auto
      next
        case x2: None
        with assms c None s1 Inr pr have "srv_write lib wr i (zero_msg\<lparr>mType := TOK, mKey := key_bytes goal\<rparr>)
            (if svOnAccess s2 then s2\<lparr>svHooks := svHooks s2 @ [Accessed (mName m)]\<rparr> else s2) = (s', x)"
          by (simp add: push_commit_def push_raw_def)
        from srv_write_io [OF this] have s': "svRefs s' = svRefs s2" "svObjects s' = svObjects s2"
          "svHooks s' = svHooks s2 @ (if svOnAccess s2 then [Accessed (mName m)] else [])"
          "\<exists>cl. svClosed s' = svClosed s2 @ cl"
          by (auto simp: io_only_def)
        from pc x2 s' have "svGuard s \<longrightarrow> gc_prepare lib (svHooks s) goal = None"
          "rf_put lib (oeRefs env (svRefs s)) (mName m) raw = (svRefs s', None)"
          "svHooks s' = svHooks s @ (if svGuard s then [Prepared goal, Committed goal] else []) @
             (if svOnAccess s then [Accessed (mName m)] else [])"
          "svObjects s' = svObjects s" "\<exists>cl. svClosed s' = svClosed s @ cl" by auto
        then show ?thesis
          by (intro conjI disjI2 exI [of _ raw] exI [of _ None]) (use cas Inr in simp_all)
      qed
    qed
  qed
qed

lemma handle_push_cases:
  assumes "handle_push lib wr env i m s = Some (s', x)"
  shows "(x \<noteq> None \<and> io_only s s') \<or>
    (\<exists>goal is s2 s3 e. key_parse lib (mRoot m) = Inr goal \<and> io_only s s2 \<and>
       (mCAS m \<longrightarrow> ref_current lib (svRefs s) (mName m) = Inr (mExpectedOld m)) \<and>
       srv_receive lib wr env is goal s2 = Some (s3, e) \<and>
       (if e = None then \<exists>s4. push_commit lib wr env i m goal s3 = (s4, x) \<and> io_only s4 s'
        else x \<noteq> None \<and> io_only s3 s'))"
proof (cases "ref_validate lib (mName m)")
  case (Some e)
  with assms have "srv_fail lib wr i CodeBadRequest e s = (s', x)" by (simp add: handle_push_def)
  from srv_fail_io [OF this] show ?thesis by auto
next
  case val: None
  show ?thesis
  proof (cases "key_parse lib (mRoot m)")
    case (Inl e)
    with assms val have "srv_fail lib wr i CodeBadRequest (Wrapf ''root key: '' e []) s = (s', x)"
      by (simp add: handle_push_def)
    from srv_fail_io [OF this] show ?thesis by auto
  next
    case goal: (Inr goal)
    obtain s1 x1 where c: "(if mCAS m then check_cas lib wr i m s else (s, None)) = (s1, x1)"
      by (cases "if mCAS m then check_cas lib wr i m s else (s, None)")
    have io1: "io_only s s1" using c by (auto split: if_splits dest: check_cas_io)
    show ?thesis
    proof (cases x1)
      case (Some e)
      with assms val goal c have "s' = s1" "x = Some e" by (simp_all add: handle_push_def)
      with io1 show ?thesis by simp
    next
      case None
      then have s1: "s1 = s" and cas: "mCAS m \<longrightarrow> ref_current lib (svRefs s) (mName m) = Inr (mExpectedOld m)"
        using c by (auto split: if_splits dest: check_cas_ok)
      obtain s2 y where sc: "shard_channels lib wr env i (mDataConns m) s = (s2, y)"
        by (cases "shard_channels lib wr env i (mDataConns m) s")
      note io2 = shard_channels_io [OF sc]
      show ?thesis
      proof (cases y)
        case (Inl e)
        with assms val goal c None s1 sc have "srv_fail lib wr i CodeInternal e s2 = (s', x)"
          by (simp add: handle_push_def)
        from srv_fail_io [OF this] io2 show ?thesis by (auto intro: io_only_trans)
      next
        case (Inr z)
        obtain "is" h where z: "z = (is, h)" by (cases z)
        from assms val goal c None s1 sc Inr z obtain s3 e where
          r: "srv_receive lib wr env is goal s2 = Some (s3, e)"
          by (auto simp: handle_push_def split: option.splits)
        show ?thesis
        proof (cases e)
          case (Some err)
          obtain s4 x4 where f: "fail_local lib wr i err s3 = (s4, x4)" by (cases "fail_local lib wr i err s3")
          with assms val goal c None s1 sc Inr z r Some have "s' = srv_release h s4" "x = x4"
            by (simp_all add: handle_push_def)
          with fail_local_io [OF f] have "x \<noteq> None" "io_only s3 s'"
            by (auto intro: io_only_trans srv_release_io)
          with goal io2 cas r Some show ?thesis by auto
        next
          case e: None
          obtain s4 x4 where f: "push_commit lib wr env i m goal s3 = (s4, x4)"
            by (cases "push_commit lib wr env i m goal s3")
          with assms val goal c None s1 sc Inr z r e have "s' = srv_release h s4" "x = x4"
            by (simp_all add: handle_push_def)
          with f have "\<exists>s4. push_commit lib wr env i m goal s3 = (s4, x) \<and> io_only s4 s'"
            using srv_release_io by blast
          then have "if e = None then \<exists>s4. push_commit lib wr env i m goal s3 = (s4, x) \<and> io_only s4 s'
              else x \<noteq> None \<and> io_only s3 s'" by (simp only: e if_True refl)
          from conjI [OF goal conjI [OF io2 conjI [OF cas conjI [OF r this]]]] show ?thesis by fast
        qed
      qed
    qed
  qed
qed

lemma handle_push_E:
  assumes "handle_push lib wr env i m s = Some (s', x)"
  obtains (failed) "x \<noteq> None" "svRefs s' = svRefs s" "svHooks s' = svHooks s" "closes_more s s'"
  | (committed) goal s3 s4 where "key_parse lib (mRoot m) = Inr goal" "push_commit lib wr env i m goal s3 = (s4, x)"
      "io_only s4 s'" "closes_more s s3" "svRefs s3 = svRefs s" "svHooks s3 = svHooks s" "svGuard s3 = svGuard s"
      "svOnAccess s3 = svOnAccess s"
  using handle_push_cases [OF assms]
proof (elim disjE exE conjE)
  assume "x \<noteq> None" "io_only s s'"
  then show ?thesis by (intro failed closes_more_io) (auto dest: io_only_D)
next
  fix goal "is" s2 s3 e
  assume goal: "key_parse lib (mRoot m) = Inr goal" and io: "io_only s s2" and r: "srv_receive lib wr env is goal s2 = Some (s3, e)"
    and fin: "if e = None then \<exists>s4. push_commit lib wr env i m goal s3 = (s4, x) \<and> io_only s4 s'
        else x \<noteq> None \<and> io_only s3 s'"
  have cl: "closes_more s s3" using closes_more_io [OF io] srv_receive_fields [OF r] by (simp add: closes_more_def)
  note s3 = srv_receive_fields [OF r] io_only_D [OF io]
  show ?thesis
  proof (cases e)
    case None
    with fin obtain s4 where "push_commit lib wr env i m goal s3 = (s4, x)" "io_only s4 s'" by auto
    with goal cl s3 show ?thesis by (intro committed [of goal s3 s4]) simp_all
  next
    case (Some err)
    with fin have io3: "x \<noteq> None" "io_only s3 s'" by simp_all
    with cl s3 io_only_D [OF io3(2)] show ?thesis by (intro failed) (auto intro: closes_more_trans closes_more_io)
  qed
qed

lemma srv_receive_complete:
  assumes "check_law lib" and "write_law lib" and "srv_receive lib wr env is goal s = Some (s', None)"
  shows "tree_complete lib (svObjects s') goal \<and> grows lib (svObjects s) (svObjects s')"
proof -
  let ?links = "map (\<lambda>i. (lkIn (svStreams s i), lkOut (svStreams s i))) is"
  from assms(3) obtain rs where
    r: "receive lib wr (oeRounds env) (oeFuel env) ?links (svObjects s) goal (svJobs s) None = Some (rs, None)"
    and s': "svObjects s' = rsStore rs"
    by (auto simp: srv_receive_def split: option.splits prod.splits)
  from loop_complete [OF assms(1,2) r [unfolded receive_def] receive_start_covers] s' show ?thesis
    by (simp add: receive_start_def)
qed

section \<open>A sample server\<close>

text \<open>
  The sample libraries with references that are stored as their key, and a server whose object
  store holds the tree \<open>9\<close> and which is pushed that tree under the name \<open>r\<close>.
\<close>

definition ok_msg :: msg where
  "ok_msg = zero_msg\<lparr>mType := TOK, mKey := [9]\<rparr>"

definition sample_server_lib :: "(unit, sample_store, (string \<times> bytes) list) server_lib" where
  "sample_server_lib = core_lib.extend (sample_lib [end_msg, sample_err, ok_msg])
     (server_lib.fields (\<lambda>name. if name = [] \<or> CHR ''@'' \<in> set name then Some (LibErr ''bad name'') else None)
       (\<lambda>raw. Inr \<lparr>rfName = [], rfKey = raw, rfCreatedAt = 0, rfUser = []\<rparr>) (\<lambda>r. Inr (rfKey r)) Inr
       (\<lambda>rf name. case map_of rf name of None \<Rightarrow> Inl RefNotFound | Some raw \<Rightarrow> Inr raw)
       (\<lambda>rf name raw. ((name, raw) # rf, None)) (\<lambda>hs k. None))"

lemmas sample_server_simps = sample_server_lib_def core_lib.defs server_lib.defs sample_lib_def

lemma tree_complete_cong:
  assumes "tree_complete lib st k" and "st_get lib st = st_get lib' st'" and "child_keys lib = child_keys lib'"
  shows "tree_complete lib' st' k"
  using assms(1)
proof induction
  case (completeI k d ks)
  with assms(2,3) have "st_get lib' st' k = Inr d" "child_keys lib' k d = Inr ks"
    "\<forall>c\<in>set ks. tree_complete lib' st' c" by auto
  then show ?case by (rule tree_complete.completeI)
qed

lemma sample_server_complete:
  "tree_complete sample_server_lib st k \<longleftrightarrow> tree_complete (sample_lib ms) st k"
  by (auto elim!: tree_complete_cong simp: sample_server_simps)

lemma sample_server_check_law: "check_law sample_server_lib"
proof -
  have "check_complete sample_server_lib k (st_get sample_server_lib st) (st_has sample_server_lib st) jobs =
      check_complete (sample_lib []) k (st_get (sample_lib []) st) (st_has (sample_lib []) st) jobs" for st jobs k
    by (simp add: sample_server_simps)
  with sample_check_law [of "[]"] show ?thesis
    unfolding check_law_def sample_server_complete [of _ _ "[]"] by simp
qed

lemma sample_server_write_law: "write_law sample_server_lib"
proof -
  have "st_write sample_server_lib = st_write (sample_lib [])" "st_get sample_server_lib = st_get (sample_lib [])"
    by (simp_all add: sample_server_simps)
  with sample_write_law [of "[]"] show ?thesis by (simp add: write_law_def)
qed

lemma sample_server_ref_law: "ref_law sample_server_lib"
  by (auto simp: ref_law_def sample_server_simps)

definition sample_server :: "(ostream, sample_store, (string \<times> bytes) list) server" where
  "sample_server = (new_server sample_final [] (\<lambda>i. \<lparr>lkIn = \<lparr>avail = [], fin = IoEOF\<rparr>, lkOut = fresh_out\<rparr>))
     \<lparr>svOnAccess := True, svGuard := True\<rparr>"

definition sample_op :: "(string \<times> bytes) list op_env" where
  "sample_op = \<lparr>oeToken = Inr [1], oeGather = [], oeRounds = sample_env, oeFuel = 1, oeNow = 7, oeRefs = \<lambda>rf. rf\<rparr>"

definition sample_push :: msg where
  "sample_push = zero_msg\<lparr>mType := TPush, mName := ''r'', mRoot := [9]\<rparr>"

lemma sample_server_wants: "wants sample_server_lib sample_final [Key [9]] 0 = Inr []"
proof -
  have "sample_check 257 (sample_get sample_final) (Key [9]) = None"
    by (simp add: sample_check_numeral sample_final_def sample_get_def sample_children_def)
  then show ?thesis
    by (simp add: wants_def sample_server_simps sample_has_def) (simp add: sample_final_def)
qed

lemma sample_up_write:
  assumes "os_up w" and "marshal lib m = Inr p" and "length p \<le> MaxFrame"
  shows "write_msg lib os_write w m = (w\<lparr>os_sent := os_sent w @ put_uint32 (of_nat (length p)) @ p\<rparr>, None)"
  using assms by (simp add: write_msg_def os_write_def os_up_def)

lemma sample_push_run:
  "\<exists>s'. handle_push sample_server_lib os_write sample_op 0 sample_push sample_server = Some (s', None)"
proof -
  have m1: "marshal sample_server_lib (zero_msg\<lparr>mType := TWants\<rparr>) = Inr [1]"
    by (simp add: sample_server_simps book_marshal_def TWants_def zero_msg_def)
  have m2: "marshal sample_server_lib ok_msg = Inr [2, 2]"
    by (simp add: sample_server_simps book_marshal_def ok_msg_def zero_msg_def TOK_def end_msg_def TDataEnd_def
        sample_err_def TErr_def)
  have f: "[1 :: byte] \<noteq> [] \<and> length [1 :: byte] \<le> MaxFrame" "length [2 :: byte, 2] \<le> MaxFrame"
    by (simp_all add: MaxFrame_def)
  note w1 = sample_up_write [OF _ m1 conjunct2 [OF f(1)]] and w2 = sample_up_write [OF _ m2 f(2)]
  have r: "\<exists>rs w. receive sample_server_lib os_write sample_env 1 [(\<lparr>avail = [], fin = IoEOF\<rparr>, fresh_out)] sample_final
      (Key [9]) 0 None = Some (rs, None) \<and> rsChans rs = [\<lparr>chIn = \<lparr>avail = [], fin = IoEOF\<rparr>, chOut = w, chRead = 0\<rparr>] \<and> os_up w"
    by (simp add: receive_def receive_start_def receive_round_def sample_server_wants split_wants_def
        w1 fresh_up) (simp add: os_up_def fresh_out_def)
  then obtain rs w where r: "receive sample_server_lib os_write sample_env 1 [(\<lparr>avail = [], fin = IoEOF\<rparr>, fresh_out)]
      sample_final (Key [9]) 0 None = Some (rs, None)"
    "rsChans rs = [\<lparr>chIn = \<lparr>avail = [], fin = IoEOF\<rparr>, chOut = w, chRead = 0\<rparr>]" "os_up w" by blast
  have ok: "zero_msg\<lparr>mType := TOK, mKey := [9]\<rparr> = ok_msg" by (simp add: ok_msg_def)
  have lib: "ref_validate sample_server_lib ''r'' = None" "key_parse sample_server_lib [9] = Inr (Key [9])"
    "\<And>rec. ref_encode sample_server_lib rec = Inr (rfKey rec)" "\<And>hs k. gc_prepare sample_server_lib hs k = None"
    "\<And>rf name raw. rf_put sample_server_lib rf name raw = ((name, raw) # rf, None)"
    by (simp_all add: sample_server_simps)
  have msg: "mName sample_push = ''r''" "mRoot sample_push = [9]" "\<not> mCAS sample_push" "mDataConns sample_push = 0"
    by (simp_all add: sample_push_def zero_msg_def)
  show ?thesis
    by (simp add: handle_push_def lib msg shard_channels_def srv_receive_def r(1) [unfolded One_nat_def] r(2,3) sample_op_def sample_server_def
        new_server_def push_commit_def put_ref_def Let_def srv_write_def ok w2)
qed

section \<open>Properties\<close>

text \<open>
  Claim C2 (a successful push is published and complete).  When \<open>handlePush\<close> ends without an
  error, the whole tree below the root it was given is in the object store, the reference has
  just been put and names that root, every other reference is what it was at the commit, and
  no object was lost.
\<close>

theorem push_publishes_complete:
  assumes "check_law lib" and "write_law lib" and "ref_law lib" and "handle_push lib wr env i m s = Some (s', None)"
  shows "\<exists>goal raw. key_parse lib (mRoot m) = Inr goal \<and> tree_complete lib (svObjects s') goal \<and>
    push_raw lib env m goal = Inr raw \<and> rf_get lib (svRefs s') (mName m) = Inr raw \<and>
    (\<forall>n. n \<noteq> mName m \<longrightarrow> rf_get lib (svRefs s') n = rf_get lib (oeRefs env (svRefs s)) n) \<and>
    grows lib (svObjects s) (svObjects s')"
proof -
  from handle_push_cases [OF assms(4)] obtain goal "is" s2 s3 s4 where
    goal: "key_parse lib (mRoot m) = Inr goal" and io: "io_only s s2"
    and r: "srv_receive lib wr env is goal s2 = Some (s3, None)"
    and c: "push_commit lib wr env i m goal s3 = (s4, None)" and io4: "io_only s4 s'"
    by (auto split: if_splits)
  from push_commit_cases [OF c] obtain raw where raw: "push_raw lib env m goal = Inr raw"
    and put: "rf_put lib (oeRefs env (svRefs s3)) (mName m) raw = (svRefs s4, None)"
    and obj: "svObjects s4 = svObjects s3" by (auto split: if_splits)
  have refs: "svRefs s3 = svRefs s" using srv_receive_fields [OF r] io_only_D [OF io] by simp
  from put assms(3) have "rf_get lib (svRefs s4) (mName m) = Inr raw \<and>
      (\<forall>n. n \<noteq> mName m \<longrightarrow> rf_get lib (svRefs s4) n = rf_get lib (oeRefs env (svRefs s)) n)"
    unfolding ref_law_def refs by blast
  with srv_receive_complete [OF assms(1,2) r] goal raw obj io_only_D [OF io] io_only_D [OF io4]
  show ?thesis by auto
qed

theorem push_publishes_complete_witness:
  "\<exists>s'. handle_push sample_server_lib os_write sample_op 0 sample_push sample_server = Some (s', None) \<and>
    tree_complete sample_server_lib (svObjects s') (Key [9]) \<and>
    rf_get sample_server_lib (svRefs s') ''r'' = Inr [9]"
proof -
  obtain s' where r: "handle_push sample_server_lib os_write sample_op 0 sample_push sample_server = Some (s', None)"
    using sample_push_run by blast
  have "key_parse sample_server_lib [9] = Inr (Key [9])"
    "push_raw sample_server_lib sample_op sample_push (Key [9]) = Inr [9]"
    "mRoot sample_push = [9]" "mName sample_push = ''r''"
    by (simp_all add: sample_server_simps push_raw_def sample_push_def zero_msg_def)
  with push_publishes_complete [OF sample_server_check_law sample_server_write_law sample_server_ref_law r] r
  show ?thesis by auto
qed

text \<open>
  Claim C9 (compare and swap).  A push with a precondition ends in an error when, at the time it
  holds the lock of the name, the reference is not the expected one; it then leaves the
  references exactly as it finds them, and calls neither the guard nor the access hook.
\<close>

theorem cas_never_overwrites:
  assumes "mCAS m" and "ref_current lib (oeRefs env (svRefs s)) (mName m) \<noteq> Inr (mExpectedOld m)"
    and "handle_push lib wr env i m s = Some (s', x)"
  shows "x \<noteq> None \<and> svHooks s' = svHooks s \<and> (svRefs s' = svRefs s \<or> svRefs s' = oeRefs env (svRefs s))"
  using assms(3)
proof (cases rule: handle_push_E)
  case (committed goal s3 s4)
  from push_commit_cases [OF committed(2)] assms(1,2) committed(5,6)
  have "x \<noteq> None \<and> svRefs s4 = oeRefs env (svRefs s) \<and> svHooks s4 = svHooks s" by auto
  with io_only_D [OF committed(3)] show ?thesis by simp
qed simp

theorem cas_never_overwrites_witness:
  "\<exists>s' x. handle_push sample_server_lib os_write sample_op 0 (sample_push\<lparr>mCAS := True, mExpectedOld := [4]\<rparr>)
      sample_server = Some (s', Some x) \<and> svRefs s' = [] \<and> svHooks s' = []"
proof -
  let ?m = "sample_push\<lparr>mCAS := True, mExpectedOld := [4]\<rparr>"
  have cur: "ref_current sample_server_lib (svRefs sample_server) ''r'' = Inr []"
    by (simp add: ref_current_def sample_server_simps sample_server_def new_server_def)
  have lib: "ref_validate sample_server_lib ''r'' = None" "key_parse sample_server_lib [9] = Inr (Key [9])"
    by (simp_all add: sample_server_simps)
  have "\<exists>s' x. handle_push sample_server_lib os_write sample_op 0 ?m sample_server = Some (s', x)"
    by (auto simp: handle_push_def check_cas_def sample_push_def zero_msg_def cur lib)
  then obtain s' x where r: "handle_push sample_server_lib os_write sample_op 0 ?m sample_server = Some (s', x)" by blast
  have "oeRefs sample_op (svRefs sample_server) = svRefs sample_server" "svRefs sample_server = []"
    "svHooks sample_server = []"
    by (simp_all add: sample_op_def sample_server_def new_server_def)
  with cas_never_overwrites [OF _ _ r] r cur show ?thesis by (auto simp: sample_push_def zero_msg_def)
qed

text \<open>
  Claim C19 (the write barrier).  Whatever happens, the reference changes only inside the guard: a
  push ends in one of three ways.  It failed without calling guard or hooks, and then, when there
  is a guard, it has not touched the references (without one, the put itself may have failed).
  Or \<open>PrepareRef\<close> passed for the pushed root, the put of its record was tried and failed, and the
  guard was told to abort.  Or \<open>PrepareRef\<close> passed, the put succeeded, the guard was told to commit
  and then the access hook was called; a push without an error always ended that way.
\<close>

theorem guard_discipline:
  assumes "handle_push lib wr env i m s = Some (s', x)"
  shows "x \<noteq> None \<and> svHooks s' = svHooks s \<and>
      (svRefs s' = svRefs s \<or> svRefs s' = oeRefs env (svRefs s) \<or>
       \<not> svGuard s \<and> (\<exists>goal raw e. key_parse lib (mRoot m) = Inr goal \<and> push_raw lib env m goal = Inr raw \<and>
         rf_put lib (oeRefs env (svRefs s)) (mName m) raw = (svRefs s', Some e))) \<or>
    (\<exists>goal raw. key_parse lib (mRoot m) = Inr goal \<and> push_raw lib env m goal = Inr raw \<and>
       (svGuard s \<longrightarrow> gc_prepare lib (svHooks s) goal = None) \<and>
       (x \<noteq> None \<and> svGuard s \<and> svHooks s' = svHooks s @ [Prepared goal, Aborted goal] \<and>
          (\<exists>e. rf_put lib (oeRefs env (svRefs s)) (mName m) raw = (svRefs s', Some e)) \<or>
        rf_put lib (oeRefs env (svRefs s)) (mName m) raw = (svRefs s', None) \<and>
          svHooks s' = svHooks s @ (if svGuard s then [Prepared goal, Committed goal] else []) @
            (if svOnAccess s then [Accessed (mName m)] else [])))"
  using assms
proof (cases rule: handle_push_E)
  case (committed goal s3 s4)
  note s' = io_only_D(2,3) [OF committed(3)] and s3 = committed(5-8)
  from push_commit_cases [OF committed(2)] consider
    (clean) "x \<noteq> None" "svHooks s4 = svHooks s3" "svRefs s4 = oeRefs env (svRefs s3)"
    | (unput) raw e where "x \<noteq> None" "svHooks s4 = svHooks s3" "\<not> svGuard s3" "push_raw lib env m goal = Inr raw"
        "rf_put lib (oeRefs env (svRefs s3)) (mName m) raw = (svRefs s4, Some e)"
    | (put) raw where "push_raw lib env m goal = Inr raw" "svGuard s3 \<longrightarrow> gc_prepare lib (svHooks s3) goal = None"
        "rf_put lib (oeRefs env (svRefs s3)) (mName m) raw = (svRefs s4, None)"
        "svHooks s4 = svHooks s3 @ (if svGuard s3 then [Prepared goal, Committed goal] else []) @
           (if svOnAccess s3 then [Accessed (mName m)] else [])"
    | (abort) raw e where "x \<noteq> None" "svGuard s3" "push_raw lib env m goal = Inr raw" "gc_prepare lib (svHooks s3) goal = None"
        "svHooks s4 = svHooks s3 @ [Prepared goal, Aborted goal]"
        "rf_put lib (oeRefs env (svRefs s3)) (mName m) raw = (svRefs s4, Some e)"
    by (elim conjE disjE exE) (auto split: if_splits)
  then show ?thesis
  proof cases
    case clean
    then show ?thesis unfolding s' s3 by blast
  next
    case unput
    then show ?thesis unfolding s' s3 using committed(1) by blast
  next
    case put
    then show ?thesis unfolding s' s3 using committed(1) by blast
  next
    case abort
    then show ?thesis unfolding s' s3 using committed(1) by blast
  qed
qed simp

theorem guard_discipline_witness:
  "\<exists>s'. handle_push sample_server_lib os_write sample_op 0 sample_push sample_server = Some (s', None) \<and>
    svHooks s' = [Prepared (Key [9]), Committed (Key [9]), Accessed ''r''] \<and> svRefs s' = [(''r'', [9])]"
proof -
  obtain s' where r: "handle_push sample_server_lib os_write sample_op 0 sample_push sample_server = Some (s', None)"
    using sample_push_run by blast
  have "key_parse sample_server_lib [9] = Inr (Key [9])" "mRoot sample_push = [9]" "mName sample_push = ''r''"
    "svHooks sample_server = []" "svGuard sample_server" "svOnAccess sample_server" "svRefs sample_server = []"
    "push_raw sample_server_lib sample_op sample_push (Key [9]) = Inr [9]" "oeRefs sample_op = (\<lambda>rf. rf)"
    "rf_put sample_server_lib [] ''r'' [9] = ([(''r'', [9])], None)"
    by (simp_all add: sample_server_simps sample_push_def zero_msg_def sample_server_def new_server_def push_raw_def sample_op_def)
  with guard_discipline [OF r] r show ?thesis by auto
qed

text \<open>
  Fact (early rejection).  When the precondition already fails before the transfer, the push
  moves nothing: the only thing it does is to send the \<open>cas-mismatch\<close> frame with the current key,
  and it reads no byte, creates no transfer and touches no store.
\<close>

theorem cas_rejects_early:
  assumes "ref_validate lib (mName m) = None" and "key_parse lib (mRoot m) = Inr goal" and "mCAS m"
    and "ref_current lib (svRefs s) (mName m) = Inr cur" and "cur \<noteq> mExpectedOld m"
    and "frame_bytes lib (cas_msg (mName m) cur) = Some b" and "os_up (lkOut (svStreams s i))"
  shows "\<exists>w. handle_push lib os_write env i m s =
      Some (s\<lparr>svStreams := (svStreams s)(i := (svStreams s i)\<lparr>lkOut := w\<rparr>)\<rparr>,
        Some (ErrorText (''cas mismatch on '' @ go_quote (mName m)))) \<and>
    os_sent w = os_sent (lkOut (svStreams s i)) @ b"
proof -
  from os.write_msg_healthy [OF assms(6,7)] obtain w where
    "write_msg lib os_write (lkOut (svStreams s i)) (cas_msg (mName m) cur) = (w, None)"
    "os_sent w = os_sent (lkOut (svStreams s i)) @ b" by blast
  with assms(1-5) show ?thesis
    by (intro exI [of _ w]) (simp add: handle_push_def check_cas_def srv_write_def)
qed

theorem cas_rejects_early_witness:
  "\<exists>w b. handle_push (sample_server_lib\<lparr>marshal := \<lambda>m. Inr [1]\<rparr>) os_write sample_op 0
      (sample_push\<lparr>mCAS := True, mExpectedOld := [4]\<rparr>) sample_server =
      Some (sample_server\<lparr>svStreams := (svStreams sample_server)(0 := (svStreams sample_server 0)\<lparr>lkOut := w\<rparr>)\<rparr>,
        Some (ErrorText (''cas mismatch on '' @ go_quote ''r''))) \<and> os_sent w = b"
proof -
  let ?m = "sample_push\<lparr>mCAS := True, mExpectedOld := [4]\<rparr>" and ?lib = "sample_server_lib\<lparr>marshal := \<lambda>m. Inr [1]\<rparr>"
  have n: "mName ?m = ''r''" "mRoot ?m = [9]" "mCAS ?m" "mExpectedOld ?m = [4]"
    by (simp_all add: sample_push_def zero_msg_def)
  have 1: "ref_validate ?lib (mName ?m) = None" and 2: "key_parse ?lib (mRoot ?m) = Inr (Key [9])"
    and 4: "ref_current ?lib (svRefs sample_server) (mName ?m) = Inr []"
    by (simp_all add: n sample_server_simps ref_current_def sample_server_def new_server_def)
  have 6: "frame_bytes ?lib (cas_msg (mName ?m) []) = Some (put_uint32 1 @ [1])"
    by (simp add: frame_bytes_def MaxFrame_def)
  have 7: "os_up (lkOut (svStreams sample_server 0))"
    by (simp add: sample_server_def new_server_def fresh_up)
  have 5: "[] \<noteq> mExpectedOld ?m" by (simp add: n)
  from cas_rejects_early [OF 1 2 n(3) 4 5 6 7] show ?thesis by (auto simp: n(1))
qed

lemma srv_sends_closed: "srv_sends lib wr is s = (s', es) \<Longrightarrow> svClosed s' = svClosed s"
  by (induction "is" arbitrary: s s' es) (auto split: prod.splits)

lemma pull_send_closed: "pull_send lib wr i is s = (s', x) \<Longrightarrow> \<exists>cl. svClosed s' = svClosed s @ cl"
  by (auto simp: pull_send_def split: prod.splits option.splits dest!: srv_sends_closed fail_local_io)
    (auto simp: io_only_def)

lemma handle_pull_closes:
  assumes "handle_pull lib wr env i m s = (s', x)"
  shows "closes_more s s'"
proof (cases "rf_get lib (svRefs s) (mName m)")
  case (Inl e)
  with assms show ?thesis
    by (auto simp: handle_pull_def intro!: closes_more_io split: if_splits dest!: srv_fail_io)
next
  case (Inr raw)
  let ?s = "if svOnAccess s then s\<lparr>svHooks := svHooks s @ [Accessed (mName m)]\<rparr> else s"
  have cl: "svClosed ?s = svClosed s" by simp
  show ?thesis
  proof (cases "mDataConns m \<le> 0")
    case True
    obtain s1 e where w: "srv_write lib wr i (ref_msg raw None ?s) ?s = (s1, e)" by (metis surj_pair)
    from srv_write_io [OF w] have "closes_more s s1" by (auto simp: io_only_def closes_more_def)
    with assms Inr True w show ?thesis
      by (cases e) (auto simp: handle_pull_def Let_def closes_more_def dest!: pull_send_closed)
  next
    case False
    obtain t y where c: "tf_create (oeToken env) (svTransfers ?s) = (t, y)" by (metis surj_pair)
    show ?thesis
    proof (cases y)
      case (Inl e)
      with assms Inr False c show ?thesis
        by (auto simp: handle_pull_def Let_def closes_more_def io_only_def dest!: srv_fail_io)
    next
      case tok: (Inr token)
      obtain s1 e where w: "srv_write lib wr i (ref_msg raw (Some token) ?s) (?s\<lparr>svTransfers := t\<rparr>) = (s1, e)"
        by (metis surj_pair)
      from srv_write_io [OF w] have s1: "closes_more s s1" by (auto simp: io_only_def closes_more_def)
      show ?thesis
      proof (cases e)
        case (Some err)
        with assms Inr False c tok w have "s' = srv_drop token s1" by (simp add: handle_pull_def Let_def)
        with s1 show ?thesis by (auto intro: closes_more_trans closes_more_io srv_drop_io)
      next
        case None
        obtain t1 extras where g: "tf_gather token (nat (min (mDataConns m) (int maxDataConns))) (oeGather env)
          (svTransfers s1) = (t1, extras)" by (metis surj_pair)
        obtain s2 x2 where p: "pull_send lib wr i (i # extras) (s1\<lparr>svTransfers := t1\<rparr>) = (s2, x2)" by (metis surj_pair)
        from assms Inr False c tok w None g p have "s' = srv_release (Some (token, extras)) s2"
          by (simp add: handle_pull_def Let_def)
        moreover have "closes_more s1 s2" using pull_send_closed [OF p] by (auto simp: closes_more_def)
        ultimately show ?thesis using s1 by (blast intro: closes_more_trans closes_more_io srv_release_io)
      qed
    qed
  qed
qed

lemma handle_push_closes:
  assumes "handle_push lib wr env i m s = Some (s', x)"
  shows "closes_more s s'"
  using assms
proof (cases rule: handle_push_E)
  case (committed goal s3 s4)
  from push_commit_cases [OF committed(2)] have "closes_more s3 s4" by (fastforce simp: closes_more_def)
  with committed(3,4) show ?thesis by (blast intro: closes_more_trans closes_more_io)
qed

lemma pin_loop_fields:
  "pin_loop lib names s = (s', x) \<Longrightarrow> svClosed s' = svClosed s \<and> svRefs s' = svRefs s \<and> svStreams s' = svStreams s"
proof (induction names arbitrary: s)
  case (Cons n names)
  then show ?case by (cases "svOnPin s") (auto split: sum.splits if_splits)
qed simp

lemma handle_ref_list_io: "handle_ref_list lib wr i s = (s', x) \<Longrightarrow> io_only s s'"
  by (auto simp: handle_ref_list_def split: sum.splits dest: srv_fail_io srv_write_io)

lemma handle_pin_closes:
  assumes "handle_pin lib wr i m s = (s', x)"
  shows "closes_more s s'"
proof -
  obtain s2 e where p: "pin_loop lib (mNames m) s = (s2, e)" by (metis surj_pair)
  with assms have "io_only s2 s'"
    by (auto simp: handle_pin_def split: option.splits dest: srv_fail_io srv_write_io)
  with pin_loop_fields [OF p] show ?thesis by (auto simp: closes_more_def io_only_def)
qed

text \<open>The ways a stream can be handled; \<open>s0\<close> is the server once the request has been read.\<close>

lemma handle_stream_E:
  assumes "handle_stream lib wr env i s = Some (s', x)"
    and "read_msg lib (lkIn (svStreams s i)) = (r, y)" and "s0 = s\<lparr>svStreams := (svStreams s)(i := (svStreams s i)\<lparr>lkIn := r\<rparr>)\<rparr>"
  obtains (unread) e where "y = Inl e" "s' = close_stream i s0"
  | (attached) m t where "y = Inr m" "mType m = TAttach" "tf_attach (mToken m) i (svTransfers s) = (t, True)"
      "s' = s0\<lparr>svTransfers := t\<rparr>"
  | (refused) m t s1 e where "y = Inr m" "mType m = TAttach" "s' = close_stream i s1"
      "srv_write lib wr i (err_msg CodeBadRequest ''unknown transfer token'') (s0\<lparr>svTransfers := t\<rparr>) = (s1, e)"
  | (listed) m s1 where "y = Inr m" "mType m = TRefList" "s' = close_stream i s1" "handle_ref_list lib wr i s0 = (s1, x)"
  | (pushed) m s1 where "y = Inr m" "mType m = TPush" "s' = close_stream i s1" "handle_push lib wr env i m s0 = Some (s1, x)"
  | (pulled) m s1 where "y = Inr m" "mType m = TPull" "s' = close_stream i s1" "handle_pull lib wr env i m s0 = (s1, x)"
  | (pinned) m s1 where "y = Inr m" "mType m = TPin" "s' = close_stream i s1" "handle_pin lib wr i m s0 = (s1, x)"
  | (unknown) m s1 e where "y = Inr m" "s' = close_stream i s1" "srv_fail lib wr i CodeBadRequest e s0 = (s1, x)"
proof (cases y)
  case (Inl e)
  with assms show ?thesis by (intro unread) (auto simp: handle_stream_def)
next
  case (Inr m)
  have tr: "svTransfers s0 = svTransfers s" using assms(3) by simp
  show ?thesis
  proof (cases "mType m = TAttach")
    case True
    obtain t b where at: "tf_attach (mToken m) i (svTransfers s) = (t, b)" by (metis surj_pair)
    obtain s1 e where "srv_write lib wr i (err_msg CodeBadRequest ''unknown transfer token'') (s0\<lparr>svTransfers := t\<rparr>) = (s1, e)"
      by (metis surj_pair)
    with assms(1,2) Inr True at show ?thesis using attached [of m t] refused [of m s1 t e]
      by (cases b) (simp_all add: handle_stream_def assms(3) Let_def)
  next
    case False
    with assms(1,2) Inr obtain s1 where s1: "s' = close_stream i s1"
      "(if mType m = TRefList then Some (handle_ref_list lib wr i s0)
        else if mType m = TPush then handle_push lib wr env i m s0
        else if mType m = TPull then Some (handle_pull lib wr env i m s0)
        else if mType m = TPin then Some (handle_pin lib wr i m s0)
        else Some (srv_fail lib wr i CodeBadRequest (ErrorText (''unknown operation '' @ dec_int (mType m))) s0)) = Some (s1, x)"
      by (auto simp: handle_stream_def assms(3) [symmetric] Let_def cong: if_cong)
    with Inr show ?thesis using listed pushed pulled pinned unknown by (auto split: if_splits)
  qed
qed

text \<open>
  Nothing is read from a stream or written to it after it has been closed.  A handler first works on
  its streams without closing any (\<open>svShut\<close> stays as it is), then it only closes.
\<close>

definition closes_only :: "('w, 's, 'r) server \<Rightarrow> ('w, 's, 'r) server \<Rightarrow> bool" where
  "closes_only s s' \<longleftrightarrow> svStreams s' = svStreams s \<and>
     (\<forall>j. svShut s' j = svShut s j \<or> svShut s j = None \<and> svShut s' j = Some (svStreams s j))"

definition shuts_last :: "('w, 's, 'r) server \<Rightarrow> ('w, 's, 'r) server \<Rightarrow> bool" where
  "shuts_last s s' \<longleftrightarrow> (\<forall>j. svShut s' j = svShut s j \<or> svShut s j = None \<and> svShut s' j = Some (svStreams s' j))"

lemma quiet_shuts_last: "svShut t = svShut s \<Longrightarrow> closes_only t s' \<Longrightarrow> shuts_last s s'"
  by (simp add: closes_only_def shuts_last_def)

lemma shuts_last_closes: "shuts_last s t \<Longrightarrow> closes_only t s' \<Longrightarrow> shuts_last s s'"
  unfolding closes_only_def shuts_last_def by metis

lemma closes_only_trans: "closes_only a b \<Longrightarrow> closes_only b c \<Longrightarrow> closes_only a c"
  unfolding closes_only_def by metis

lemma closes_only_refl [simp]: "closes_only s s"
  by (simp add: closes_only_def)

lemma quiet_last: "svShut s' = svShut s \<Longrightarrow> shuts_last s s'"
  by (simp add: shuts_last_def)

lemma close_all_only: "closes_only s (close_all is s)"
  by (auto simp: close_all_closed closes_only_def shut_links_def)

lemma close_stream_only: "closes_only s (close_stream i s)"
  by (auto simp: close_stream_def closes_only_def split: option.splits)

lemma close_stream_shut: "svShut (close_stream i s) i \<noteq> None"
  by (auto simp: close_stream_def split: option.splits)

lemma srv_drop_only: "closes_only s (srv_drop token s)"
  by (auto simp: srv_drop_fields closes_only_def shut_links_def)

lemma srv_release_only: "closes_only s (srv_release h s)"
  by (cases h) (auto simp: srv_release_def intro: closes_only_trans srv_drop_only close_all_only)

lemma srv_write_quiet: "srv_write lib wr i m s = (s', e) \<Longrightarrow> svShut s' = svShut s \<and> svTransfers s' = svTransfers s"
  by (auto simp: srv_write_def split: prod.splits)

lemma srv_fail_quiet: "srv_fail lib wr i code e s = (s', x) \<Longrightarrow> svShut s' = svShut s"
  by (auto simp: srv_fail_def srv_write_def split: prod.splits)

lemma fail_local_quiet: "fail_local lib wr i e s = (s', x) \<Longrightarrow> svShut s' = svShut s"
  by (auto simp: fail_local_def dest: srv_fail_quiet split: if_splits)

lemma check_cas_quiet: "check_cas lib wr i m s = (s', x) \<Longrightarrow> svShut s' = svShut s"
  by (auto simp: check_cas_def srv_write_def dest: srv_fail_quiet split: sum.splits if_splits prod.splits)

text \<open>A transfer that was just created has no stream to close yet.\<close>

lemma drop_created: "tf_create rnd t = (t', Inr token) \<Longrightarrow> snd (tf_drop token t') = []"
  by (auto simp: tf_create_def tf_drop_def split: sum.splits)

lemma shard_channels_quiet: "shard_channels lib wr env i n s = (s', x) \<Longrightarrow> svShut s' = svShut s"
  unfolding shard_channels_def Let_def
  by (auto split: if_splits prod.splits sum.splits option.splits simp: srv_drop_fields drop_created dest!: srv_write_quiet)

lemma srv_receive_quiet: "srv_receive lib wr env is goal s = Some (s', e) \<Longrightarrow> svShut s' = svShut s"
  by (auto simp: srv_receive_def split: option.splits prod.splits)

lemma put_ref_quiet: "put_ref lib wr i name goal raw s = (s', x) \<Longrightarrow> svShut s' = svShut s"
  by (auto simp: put_ref_def Let_def split: if_splits option.splits prod.splits dest!: srv_fail_quiet)

lemma push_commit_quiet: "push_commit lib wr env i m goal s = (s', x) \<Longrightarrow> svShut s' = svShut s"
  unfolding push_commit_def Let_def
  by (auto split: if_splits option.splits prod.splits sum.splits dest!: srv_fail_quiet check_cas_quiet put_ref_quiet srv_write_quiet)

lemma handle_push_shuts:
  assumes "handle_push lib wr env i m s = Some (s', x)"
  shows "shuts_last s s'"
proof (cases "ref_validate lib (mName m)")
  case (Some e)
  with assms show ?thesis by (auto simp: handle_push_def intro: quiet_last dest: srv_fail_quiet)
next
  case val: None
  show ?thesis
  proof (cases "key_parse lib (mRoot m)")
    case (Inl e)
    with assms val show ?thesis by (auto simp: handle_push_def intro: quiet_last dest: srv_fail_quiet)
  next
    case goal: (Inr goal)
    obtain s1 x1 where c: "(if mCAS m then check_cas lib wr i m s else (s, None)) = (s1, x1)" by (metis surj_pair)
    then have q1: "svShut s1 = svShut s" by (auto split: if_splits dest: check_cas_quiet)
    obtain s2 y where sc: "shard_channels lib wr env i (mDataConns m) s1 = (s2, y)" by (metis surj_pair)
    note q2 = shard_channels_quiet [OF sc]
    show ?thesis
    proof (cases x1)
      case (Some e)
      with assms val goal c q1 show ?thesis by (auto simp: handle_push_def intro: quiet_last)
    next
      case x1: None
      show ?thesis
      proof (cases y)
        case (Inl e)
        with assms val goal c x1 sc have "srv_fail lib wr i CodeInternal e s2 = (s', x)" by (simp add: handle_push_def)
        from srv_fail_quiet [OF this] q1 q2 show ?thesis by (intro quiet_last) simp
      next
        case (Inr z)
        with assms val goal c x1 sc obtain "is" h s3 e s4 where z: "srv_receive lib wr env is goal s2 = Some (s3, e)"
          "s' = srv_release h s4" "(case e of Some err \<Rightarrow> fail_local lib wr i err s3 | None \<Rightarrow> push_commit lib wr env i m goal s3) = (s4, x)"
          by (cases z) (auto simp: handle_push_def Let_def split: option.splits prod.splits)
        from z(3) have "svShut s4 = svShut s3" by (cases e) (auto dest: fail_local_quiet push_commit_quiet)
        with srv_receive_quiet [OF z(1)] q1 q2 have "svShut s4 = svShut s" by simp
        from quiet_shuts_last [OF this srv_release_only] z(2) show ?thesis by simp
      qed
    qed
  qed
qed

lemma srv_sends_quiet: "srv_sends lib wr is s = (s', es) \<Longrightarrow> svShut s' = svShut s"
  by (induction "is" arbitrary: s s' es) (auto split: prod.splits)

lemma pull_send_quiet: "pull_send lib wr i is s = (s', x) \<Longrightarrow> svShut s' = svShut s"
  by (auto simp: pull_send_def split: prod.splits option.splits dest!: srv_sends_quiet fail_local_quiet)

lemma handle_pull_shuts:
  assumes "handle_pull lib wr env i m s = (s', x)"
  shows "shuts_last s s'"
  using assms unfolding handle_pull_def Let_def
  by (auto split: sum.splits if_splits prod.splits option.splits dest!: srv_fail_quiet srv_write_quiet pull_send_quiet
      intro!: quiet_shuts_last [OF _ srv_release_only] quiet_shuts_last [OF _ srv_drop_only] intro: quiet_last)

lemma pin_loop_quiet: "pin_loop lib names s = (s', x) \<Longrightarrow> svShut s' = svShut s"
proof (induction names arbitrary: s)
  case (Cons n names)
  then show ?case by (cases "svOnPin s") (auto split: sum.splits if_splits)
qed simp

lemma handle_pin_quiet: "handle_pin lib wr i m s = (s', x) \<Longrightarrow> svShut s' = svShut s"
  by (auto simp: handle_pin_def split: option.splits prod.splits dest!: pin_loop_quiet srv_fail_quiet srv_write_quiet)

lemma handle_ref_list_quiet: "handle_ref_list lib wr i s = (s', x) \<Longrightarrow> svShut s' = svShut s"
  by (auto simp: handle_ref_list_def split: sum.splits dest!: srv_fail_quiet srv_write_quiet)

text \<open>How every stream but an attached one ends.\<close>

definition ends_closed :: "stream \<Rightarrow> ('w, 's, 'r) server \<Rightarrow> ('w, 's, 'r) server \<Rightarrow> bool" where
  "ends_closed i s s' \<longleftrightarrow> shuts_last s s' \<and> svShut s' i \<noteq> None \<and> (\<exists>cl. svClosed s' = svClosed s @ cl @ [i])"

lemma closing_ends: "closes_more s s1 \<Longrightarrow> shuts_last s s1 \<Longrightarrow> ends_closed i s (close_stream i s1)"
  using shuts_last_closes [OF _ close_stream_only] close_stream_shut [of i s1]
  by (auto simp: ends_closed_def closes_more_def prefix_def close_stream_def)

lemma quiet_io_ends:
  "io_only s s1 \<Longrightarrow> svShut s1 = svShut s \<Longrightarrow> ends_closed i s (close_stream i s1)"
  by (intro closing_ends closes_more_io quiet_last)

lemma unattached_ends:
  assumes "handle_stream lib wr env i s = Some (s', x)" and "read_msg lib (lkIn (svStreams s i)) = (r, y)"
    and "s0 = s\<lparr>svStreams := (svStreams s)(i := (svStreams s i)\<lparr>lkIn := r\<rparr>)\<rparr>"
  shows "ends_closed i s0 s' \<or>
    (\<exists>m t. y = Inr m \<and> mType m = TAttach \<and> tf_attach (mToken m) i (svTransfers s) = (t, True) \<and> s' = s0\<lparr>svTransfers := t\<rparr>)"
  using assms
proof (cases rule: handle_stream_E)
  case unread
  then show ?thesis by (simp add: quiet_io_ends)
next
  case (refused m t s1 e)
  from srv_write_io [OF refused(4)] srv_write_quiet [OF refused(4)] refused(3) quiet_io_ends [of s0 s1 i] show ?thesis
    by (simp add: io_only_def)
next
  case (listed m s1)
  then show ?thesis using quiet_io_ends handle_ref_list_io handle_ref_list_quiet by blast
next
  case (pushed m s1)
  from closing_ends [OF handle_push_closes [OF pushed(4)] handle_push_shuts [OF pushed(4)], of i] pushed(3) show ?thesis by simp
next
  case (pulled m s1)
  from closing_ends [OF handle_pull_closes [OF pulled(4)] handle_pull_shuts [OF pulled(4)], of i] pulled(3) show ?thesis by simp
next
  case (pinned m s1)
  then show ?thesis using closing_ends handle_pin_closes quiet_last [OF handle_pin_quiet] by blast
next
  case (unknown m s1 e)
  from srv_fail_io [OF unknown(3)] srv_fail_quiet [OF unknown(3)] unknown(2) quiet_io_ends [of s0 s1 i] show ?thesis by simp
qed blast

text \<open>
  Claim C31 (every stream is closed, and last).  \<open>HandleStream\<close> closes its stream whatever the
  operation, the errors and the transfer did, after everything else it closes; the only stream it
  leaves open is one whose attach was accepted, which then waits in its transfer's channel.  And
  whichever streams it closes, its own or those a transfer gathered, it closes after the last byte
  it reads from them or writes to them: all that was ever written, the final \<open>TErr\<close> or reply
  included, had been written when the stream was closed.
\<close>

theorem stream_closed_last:
  assumes "handle_stream lib wr env i s = Some (s', x)"
  shows "(\<forall>j. svShut s' j = svShut s j \<or> svShut s j = None \<and> svShut s' j = Some (svStreams s' j)) \<and>
    (svShut s' i \<noteq> None \<and> (\<exists>cl. svClosed s' = svClosed s @ cl @ [i]) \<or>
     (\<exists>r m c. read_msg lib (lkIn (svStreams s i)) = (r, Inr m) \<and> mType m = TAttach \<and> svClosed s' = svClosed s \<and>
       svShut s' = svShut s \<and> tfPending (svTransfers s) (mToken m) = Some c \<and> i \<in> set (tfChans (svTransfers s') c)))"
proof -
  obtain r y where rd: "read_msg lib (lkIn (svStreams s i)) = (r, y)" by (metis surj_pair)
  define s0 where "s0 = s\<lparr>svStreams := (svStreams s)(i := (svStreams s i)\<lparr>lkIn := r\<rparr>)\<rparr>"
  from unattached_ends [OF assms rd s0_def] show ?thesis
  proof (elim disjE exE conjE)
    assume "ends_closed i s0 s'"
    then show ?thesis by (auto simp: ends_closed_def shuts_last_def s0_def)
  next
    fix m t
    assume m: "y = Inr m" "mType m = TAttach" "tf_attach (mToken m) i (svTransfers s) = (t, True)" "s' = s0\<lparr>svTransfers := t\<rparr>"
    then obtain c where "tfPending (svTransfers s) (mToken m) = Some c" "i \<in> set (tfChans t c)"
      by (auto simp: tf_attach_def tf_send_def split: option.splits if_splits)
    with rd m show ?thesis by (auto simp: s0_def)
  qed
qed

theorem stream_closed_last_witness:
  "\<exists>b s' x cl. good_frame sample_server_lib end_msg = Some b \<and>
    handle_stream sample_server_lib os_write sample_op 3
      (sample_server\<lparr>svStreams := (\<lambda>i. \<lparr>lkIn = \<lparr>avail = b, fin = IoEOF\<rparr>, lkOut = fresh_out\<rparr>)\<rparr>) = Some (s', x) \<and>
    svClosed s' = cl @ [3] \<and> svShut s' 3 = Some (svStreams s' 3)"
proof -
  have "marshal sample_server_lib end_msg = Inr [2, 0]" "unmarshal sample_server_lib [2, 0] = Inr end_msg"
    by (simp_all add: sample_server_simps book_marshal_def book_unmarshal_def end_msg_def zero_msg_def TDataEnd_def)
  then obtain b where b: "good_frame sample_server_lib end_msg = Some b"
    by (simp add: good_frame_def codec_ok_def frame_bytes_def MaxFrame_def)
  let ?s = "sample_server\<lparr>svStreams := (\<lambda>i. \<lparr>lkIn = \<lparr>avail = b, fin = IoEOF\<rparr>, lkOut = fresh_out\<rparr>)\<rparr>"
  have rd: "read_msg sample_server_lib (lkIn (svStreams ?s 3)) = (\<lparr>avail = [], fin = IoEOF\<rparr>, Inr end_msg)"
    using wire.recv_frame [OF b, of "[]" IoEOF] by simp
  have t: "mType end_msg = 8" by (simp add: end_msg_def TDataEnd_def)
  obtain s' x where r: "handle_stream sample_server_lib os_write sample_op 3 ?s = Some (s', x)"
    unfolding handle_stream_def rd Let_def by (simp add: t TAttach_def TRefList_def TPush_def TPull_def TPin_def srv_fail_def)
  have "svClosed ?s = []" "svShut ?s 3 = None" by (simp_all add: sample_server_def new_server_def)
  with conjunct1 [OF stream_closed_last [OF r], rule_format, of 3] conjunct2 [OF stream_closed_last [OF r]] r b rd t
  show ?thesis by (auto simp: TAttach_def)
qed

lemma pin_loop_exact:
  assumes "\<forall>n\<in>set names. \<forall>e. rf_get lib rf n = Inl e \<longrightarrow> errors_is e RefNotFound"
  shows "svRefs s = rf \<Longrightarrow> svOnPin s \<Longrightarrow> pin_loop lib names s =
    (s\<lparr>svHooks := svHooks s @ map Pinned (filter (\<lambda>n. \<not> isl (rf_get lib rf n)) names)\<rparr>, None)"
  using assms
proof (induction names arbitrary: s)
  case (Cons n names)
  show ?case
  proof (cases "rf_get lib rf n")
    case (Inl e)
    with Cons show ?thesis by simp
  next
    case (Inr raw)
    with Cons.IH [of "s\<lparr>svHooks := svHooks s @ [Pinned n]\<rparr>"] Cons.prems show ?thesis by simp
  qed
qed simp

text \<open>
  Fact (pinning).  \<open>handlePin\<close> pins exactly the named references that exist, in the order
  named, and answers \<open>TOK\<close>: names without a reference are passed over.
\<close>

theorem pin_exact:
  assumes "\<forall>n\<in>set (mNames m). \<forall>e. rf_get lib (svRefs s) n = Inl e \<longrightarrow> errors_is e RefNotFound"
    and "svOnPin s" and "frame_bytes lib (zero_msg\<lparr>mType := TOK\<rparr>) = Some b" and "os_up (lkOut (svStreams s i))"
  shows "\<exists>s'. handle_pin lib os_write i m s = (s', None) \<and>
    svHooks s' = svHooks s @ map Pinned (filter (\<lambda>n. \<not> isl (rf_get lib (svRefs s) n)) (mNames m)) \<and>
    os_sent (lkOut (svStreams s' i)) = os_sent (lkOut (svStreams s i)) @ b"
proof -
  from os.write_msg_healthy [OF assms(3,4)] obtain w where
    "write_msg lib os_write (lkOut (svStreams s i)) (zero_msg\<lparr>mType := TOK\<rparr>) = (w, None)"
    "os_sent w = os_sent (lkOut (svStreams s i)) @ b" by blast
  with pin_loop_exact [OF assms(1) refl assms(2)] show ?thesis
    by (simp add: handle_pin_def srv_write_def)
qed

theorem pin_exact_witness:
  "\<exists>s'. handle_pin (sample_server_lib\<lparr>marshal := \<lambda>m. Inr [1]\<rparr>) os_write 0
      (zero_msg\<lparr>mType := TPin, mNames := [''a'', ''r'', ''r'']\<rparr>)
      (sample_server\<lparr>svRefs := [(''r'', [9])], svOnPin := True\<rparr>) = (s', None) \<and>
    svHooks s' = [Pinned ''r'', Pinned ''r'']"
proof -
  let ?lib = "sample_server_lib\<lparr>marshal := \<lambda>m. Inr [1]\<rparr>"
  let ?m = "zero_msg\<lparr>mType := TPin, mNames := [''a'', ''r'', ''r'']\<rparr>"
  let ?s = "sample_server\<lparr>svRefs := [(''r'', [9])], svOnPin := True\<rparr>"
  have 1: "\<forall>n\<in>set (mNames ?m). \<forall>e. rf_get ?lib (svRefs ?s) n = Inl e \<longrightarrow> errors_is e RefNotFound"
    by (simp add: sample_server_simps)
  have 2: "svOnPin ?s" by simp
  have 3: "frame_bytes ?lib (zero_msg\<lparr>mType := TOK\<rparr>) = Some (put_uint32 1 @ [1])"
    by (simp add: frame_bytes_def MaxFrame_def)
  have 4: "os_up (lkOut (svStreams ?s 0))" by (simp add: sample_server_def new_server_def fresh_up)
  have "svHooks ?s = []" "filter (\<lambda>n. \<not> isl (rf_get ?lib (svRefs ?s) n)) (mNames ?m) = [''r'', ''r'']"
    by (simp_all add: sample_server_def new_server_def sample_server_simps)
  with pin_exact [OF 1 2 3 4] show ?thesis by auto
qed

end
