(* ===== verification/Push_Commits.thy ===== *)
theory Push_Commits
  imports Server_Props
begin

text \<open>
  Concurrent pushes of server/server.go: the section of \<open>handlePush\<close> that \<open>lockRef\<close> serializes
  per reference name, as steps of goroutines that interleave freely.  Mutual exclusion per
  name makes the compare and swap of references atomic: the commits of a name form a chain.
\<close>

section \<open>Goroutines\<close>

text \<open>
  What a push commits: the name, the precondition, the root's key, what \<open>rec.Encode\<close> makes of the
  record, and what \<open>PrepareRef\<close> answers (\<open>None\<close> also without a guard).
\<close>

record push_job =
  pjName :: string
  pjCAS :: bool
  pjExpected :: bytes
  pjKey :: bytes
  pjRaw :: "goerr + bytes"
  pjGuard :: "goerr option"

text \<open>
  Where a push stands: before \<open>lockRef\<close>, with the mutex of its name in hand but not locked, and
  holding it: before \<open>checkCAS\<close>, after it, after the put, or after an error; and done.
\<close>

datatype phase =
    Outside
  | Waiting nat
  | Holding nat
  | Passed nat
  | Stored nat
  | Refused nat
  | Done

text \<open>
  \<open>csLocks\<close> is \<open>refLocks\<close>, whose mutexes are numbered; \<open>csOwner\<close> tells who holds a mutex;
  \<open>csHist\<close> lists the pushes that have put their reference, in order.
\<close>

record 'r csys =
  csRefs :: 'r
  csLocks :: "string \<Rightarrow> nat option"
  csNext :: nat
  csOwner :: "nat \<Rightarrow> nat option"
  csPhase :: "nat \<Rightarrow> phase"
  csHist :: "nat list"

definition csys_start :: "'r \<Rightarrow> 'r csys" where
  "csys_start refs = \<lparr>csRefs = refs, csLocks = Map.empty, csNext = 0, csOwner = Map.empty,
     csPhase = \<lambda>t. Outside, csHist = []\<rparr>"

text \<open>The map operation of \<open>lockRef\<close>, under the server's own mutex.\<close>

definition lock_entry :: "string \<Rightarrow> 'r csys \<Rightarrow> 'r csys \<times> nat" where
  "lock_entry name s =
     (case csLocks s name of
        Some l \<Rightarrow> (s, l)
      | None \<Rightarrow> (s\<lparr>csLocks := (csLocks s)(name \<mapsto> csNext s), csNext := Suc (csNext s)\<rparr>, csNext s))"

definition set_phase :: "nat \<Rightarrow> phase \<Rightarrow> 'r csys \<Rightarrow> 'r csys" where
  "set_phase t p s = s\<lparr>csPhase := (csPhase s)(t := p)\<rparr>"

text \<open>What \<open>checkCAS\<close> finds for a job, when the push has a precondition.\<close>

definition job_passes :: "('p, 's, 'r, 'z) server_lib_scheme \<Rightarrow> push_job \<Rightarrow> 'r \<Rightarrow> bool" where
  "job_passes lib j refs \<longleftrightarrow> (pjCAS j \<longrightarrow> ref_current lib refs (pjName j) = Inr (pjExpected j))"

inductive cstep ::
  "('p, 's, 'r, 'z) server_lib_scheme \<Rightarrow> (nat \<Rightarrow> push_job) \<Rightarrow> 'r csys \<Rightarrow> 'r csys \<Rightarrow> bool"
  for lib :: "('p, 's, 'r, 'z) server_lib_scheme" and J :: "nat \<Rightarrow> push_job" where
  cs_entry: "csPhase s t = Outside \<Longrightarrow> lock_entry (pjName (J t)) s = (s1, l) \<Longrightarrow>
    cstep lib J s (set_phase t (Waiting l) s1)"
| cs_lock: "csPhase s t = Waiting l \<Longrightarrow> csOwner s l = None \<Longrightarrow>
    cstep lib J s (set_phase t (Holding l) (s\<lparr>csOwner := (csOwner s)(l \<mapsto> t)\<rparr>))"
| cs_pass: "csPhase s t = Holding l \<Longrightarrow> job_passes lib (J t) (csRefs s) \<Longrightarrow>
    cstep lib J s (set_phase t (Passed l) s)"
| cs_refuse: "csPhase s t = Holding l \<Longrightarrow> \<not> job_passes lib (J t) (csRefs s) \<Longrightarrow>
    cstep lib J s (set_phase t (Refused l) s)"
| cs_encode_fails: "csPhase s t = Passed l \<Longrightarrow> pjRaw (J t) = Inl e \<Longrightarrow> cstep lib J s (set_phase t (Refused l) s)"
| cs_guard_fails: "csPhase s t = Passed l \<Longrightarrow> pjRaw (J t) = Inr raw \<Longrightarrow> pjGuard (J t) = Some e \<Longrightarrow>
    cstep lib J s (set_phase t (Refused l) s)"
| cs_put: "csPhase s t = Passed l \<Longrightarrow> pjRaw (J t) = Inr raw \<Longrightarrow> pjGuard (J t) = None \<Longrightarrow>
    rf_put lib (csRefs s) (pjName (J t)) raw = (rf, None) \<Longrightarrow>
    cstep lib J s (set_phase t (Stored l) (s\<lparr>csRefs := rf, csHist := csHist s @ [t]\<rparr>))"
| cs_put_fails: "csPhase s t = Passed l \<Longrightarrow> pjRaw (J t) = Inr raw \<Longrightarrow> pjGuard (J t) = None \<Longrightarrow>
    rf_put lib (csRefs s) (pjName (J t)) raw = (rf, Some e) \<Longrightarrow>
    cstep lib J s (set_phase t (Refused l) (s\<lparr>csRefs := rf\<rparr>))"
| cs_unlock: "csPhase s t = Stored l \<or> csPhase s t = Refused l \<Longrightarrow>
    cstep lib J s (set_phase t Done (s\<lparr>csOwner := (csOwner s)(l := None)\<rparr>))"

inductive_cases cstep_cases: "cstep lib J s s'"

abbreviation csteps ::
  "('p, 's, 'r, 'z) server_lib_scheme \<Rightarrow> (nat \<Rightarrow> push_job) \<Rightarrow> 'r csys \<Rightarrow> 'r csys \<Rightarrow> bool" where
  "csteps lib J \<equiv> (cstep lib J)\<^sup>*\<^sup>*"

section \<open>Lemmas: mutual exclusion\<close>

text \<open>The mutex a push has in hand, and the one it holds.\<close>

fun mutex_of :: "phase \<Rightarrow> nat option" where
  "mutex_of (Waiting l) = Some l"
| "mutex_of (Holding l) = Some l"
| "mutex_of (Passed l) = Some l"
| "mutex_of (Stored l) = Some l"
| "mutex_of (Refused l) = Some l"
| "mutex_of p = None"

definition holds :: "phase \<Rightarrow> nat \<Rightarrow> bool" where
  "holds p l \<longleftrightarrow> p = Holding l \<or> p = Passed l \<or> p = Stored l \<or> p = Refused l"

lemma holds_simps [simp]:
  "\<not> holds Outside l" "\<not> holds (Waiting m) l" "holds (Holding m) l \<longleftrightarrow> m = l" "holds (Passed m) l \<longleftrightarrow> m = l"
  "holds (Stored m) l \<longleftrightarrow> m = l" "holds (Refused m) l \<longleftrightarrow> m = l" "\<not> holds Done l"
  by (auto simp: holds_def)

lemma holds_mutex: "holds p l \<Longrightarrow> mutex_of p = Some l"
  by (auto simp: holds_def)

definition lock_inv :: "(nat \<Rightarrow> push_job) \<Rightarrow> 'r csys \<Rightarrow> bool" where
  "lock_inv J s \<longleftrightarrow>
     (\<forall>n l. csLocks s n = Some l \<longrightarrow> l < csNext s) \<and>
     (\<forall>n n' l. csLocks s n = Some l \<longrightarrow> csLocks s n' = Some l \<longrightarrow> n = n') \<and>
     (\<forall>t l. mutex_of (csPhase s t) = Some l \<longrightarrow> csLocks s (pjName (J t)) = Some l) \<and>
     (\<forall>t l. holds (csPhase s t) l \<longleftrightarrow> csOwner s l = Some t)"

lemma lock_inv_start: "lock_inv J (csys_start refs)"
  by (simp add: lock_inv_def csys_start_def)

lemma lock_inv_moves:
  assumes "lock_inv J s" and "mutex_of (csPhase s t) = Some l" and "mutex_of p = Some l"
    and "\<And>l'. holds p l' \<longleftrightarrow> holds (csPhase s t) l'"
    and "csLocks s' = csLocks s" "csNext s' = csNext s" "csOwner s' = csOwner s" "csPhase s' = (csPhase s)(t := p)"
  shows "lock_inv J s'"
  using assms by (auto simp: lock_inv_def)

lemma cstep_lock_inv:
  assumes "cstep lib J s s'" and "lock_inv J s"
  shows "lock_inv J s'"
  using assms(1)
proof cases
  case (cs_entry t s1 l)
  have own: "csOwner s k \<noteq> Some t" for k
    using assms(2) cs_entry(2) unfolding lock_inv_def by (metis holds_simps(1))
  show ?thesis
  proof (cases "csLocks s (pjName (J t))")
    case (Some m)
    with cs_entry have "s1 = s" "l = m" by (simp_all add: lock_entry_def)
    with own cs_entry Some assms(2) show ?thesis by (auto simp: lock_inv_def set_phase_def)
  next
    case None
    with cs_entry have s1: "s1 = s\<lparr>csLocks := (csLocks s)(pjName (J t) \<mapsto> csNext s), csNext := Suc (csNext s)\<rparr>" "l = csNext s"
      by (auto simp: lock_entry_def)
    have fresh: "csLocks s n \<noteq> Some (csNext s)" for n using assms(2) by (auto simp: lock_inv_def)
    have other: "mutex_of (csPhase s u) = Some k \<Longrightarrow> pjName (J u) \<noteq> pjName (J t)" for u k
      using assms(2) None by (metis lock_inv_def option.distinct(1))
    from assms(2) fresh other own show ?thesis
      unfolding cs_entry s1 lock_inv_def set_phase_def by (auto simp: less_SucI)
  qed
next
  case (cs_lock t l)
  have "csOwner s k \<noteq> Some t" for k
    using assms(2) cs_lock(2) unfolding lock_inv_def by (metis holds_simps(2))
  with cs_lock assms(2) show ?thesis by (auto simp: lock_inv_def set_phase_def)
next
  case (cs_pass t l)
  then show ?thesis by (intro lock_inv_moves [OF assms(2), of t l "Passed l"]) (auto simp: set_phase_def)
next
  case (cs_refuse t l)
  then show ?thesis by (intro lock_inv_moves [OF assms(2), of t l "Refused l"]) (auto simp: set_phase_def)
next
  case (cs_encode_fails t l e)
  then show ?thesis by (intro lock_inv_moves [OF assms(2), of t l "Refused l"]) (auto simp: set_phase_def)
next
  case (cs_guard_fails t l raw e)
  then show ?thesis by (intro lock_inv_moves [OF assms(2), of t l "Refused l"]) (auto simp: set_phase_def)
next
  case (cs_put t l raw rf)
  then show ?thesis by (intro lock_inv_moves [OF assms(2), of t l "Stored l"]) (auto simp: set_phase_def)
next
  case (cs_put_fails t l raw rf e)
  then show ?thesis by (intro lock_inv_moves [OF assms(2), of t l "Refused l"]) (auto simp: set_phase_def)
next
  case (cs_unlock t l)
  then have "holds (csPhase s t) l" by auto
  with assms(2) have own: "csOwner s l = Some t" unfolding lock_inv_def by blast
  have only: "csOwner s k \<noteq> Some t" if "k \<noteq> l" for k
  proof
    assume "csOwner s k = Some t"
    with assms(2) have "holds (csPhase s t) k" unfolding lock_inv_def by blast
    with cs_unlock(2) that show False by auto
  qed
  have "holds (csPhase s u) l \<Longrightarrow> u = t" for u using own assms(2) by (auto simp: lock_inv_def)
  with cs_unlock own only assms(2) show ?thesis by (auto simp: lock_inv_def set_phase_def)
qed

text \<open>Two pushes of one name never hold its mutex at the same time.\<close>

lemma same_name_exclusive:
  assumes "lock_inv J s" and "holds (csPhase s t) l" and "holds (csPhase s u) m" and "pjName (J t) = pjName (J u)"
  shows "t = u"
proof -
  from assms(1) holds_mutex [OF assms(2)] holds_mutex [OF assms(3)]
  have "csLocks s (pjName (J t)) = Some l" "csLocks s (pjName (J u)) = Some m"
    by (simp_all add: lock_inv_def)
  with assms have "l = m" by simp
  with assms show ?thesis by (auto simp: lock_inv_def)
qed

section \<open>Lemmas: what was checked still holds at the put\<close>

text \<open>\<open>Put\<close> replaces the one reference; when it fails, it has changed nothing.\<close>

definition put_law :: "('p, 's, 'r, 'z) server_lib_scheme \<Rightarrow> bool" where
  "put_law lib \<longleftrightarrow> ref_law lib \<and> (\<forall>rf name raw rf' e n. rf_put lib rf name raw = (rf', Some e) \<longrightarrow>
     rf_get lib rf' n = rf_get lib rf n)"

text \<open>The record a push puts, if it could be encoded, names its root.\<close>

definition job_ok :: "('p, 's, 'r, 'z) server_lib_scheme \<Rightarrow> push_job \<Rightarrow> bool" where
  "job_ok lib j \<longleftrightarrow> (\<forall>raw. pjRaw j = Inr raw \<longrightarrow> (\<exists>rec. ref_decode lib raw = Inr rec \<and> rfKey rec = pjKey j))"

lemma ref_current_cong: "rf_get lib rf n = rf_get lib rf' n \<Longrightarrow> ref_current lib rf n = ref_current lib rf' n"
  by (simp add: ref_current_def)

lemma put_current:
  assumes "put_law lib" and "job_ok lib j" and "pjRaw j = Inr raw" and "rf_put lib rf (pjName j) raw = (rf', None)"
  shows "ref_current lib rf' (pjName j) = Inr (pjKey j) \<and>
    (\<forall>n. n \<noteq> pjName j \<longrightarrow> ref_current lib rf' n = ref_current lib rf n)"
proof -
  from assms(1,4) have g: "rf_get lib rf' (pjName j) = Inr raw"
    "\<forall>n. n \<noteq> pjName j \<longrightarrow> rf_get lib rf' n = rf_get lib rf n"
    unfolding put_law_def ref_law_def by blast+
  with assms(2,3) show ?thesis by (auto simp: ref_current_def job_ok_def)
qed

lemma put_fails_current:
  assumes "put_law lib" and "rf_put lib rf name raw = (rf', Some e)"
  shows "ref_current lib rf' n = ref_current lib rf n"
  using assms unfolding put_law_def by (blast intro: ref_current_cong)

definition passed_inv :: "('p, 's, 'r, 'z) server_lib_scheme \<Rightarrow> (nat \<Rightarrow> push_job) \<Rightarrow> 'r csys \<Rightarrow> bool" where
  "passed_inv lib J s \<longleftrightarrow> (\<forall>t l. csPhase s t = Passed l \<longrightarrow> job_passes lib (J t) (csRefs s))"

lemma job_passes_cong:
  "ref_current lib rf (pjName j) = ref_current lib rf' (pjName j) \<Longrightarrow> job_passes lib j rf \<longleftrightarrow> job_passes lib j rf'"
  by (simp add: job_passes_def)

lemma cstep_passed_inv:
  assumes "put_law lib" and "\<forall>t. job_ok lib (J t)" and "lock_inv J s" and "cstep lib J s s'" and "passed_inv lib J s"
  shows "passed_inv lib J s'"
  using assms(4)
proof cases
  case (cs_entry t s1 l)
  then have "csPhase s1 = csPhase s" "csRefs s1 = csRefs s"
    by (auto simp: lock_entry_def split: option.splits)
  with cs_entry assms(5) show ?thesis by (auto simp: passed_inv_def set_phase_def)
next
  case (cs_put t l raw rf)
  have "job_passes lib (J u) rf" if u: "csPhase s u = Passed m" "u \<noteq> t" for u m
  proof -
    have "pjName (J u) \<noteq> pjName (J t)"
      using same_name_exclusive [OF assms(3), of u m t l] u cs_put(2) by auto
    with put_current [OF assms(1) spec [OF assms(2)] cs_put(3,5)]
    have "ref_current lib rf (pjName (J u)) = ref_current lib (csRefs s) (pjName (J u))" by simp
    with assms(5) u(1) show ?thesis by (auto simp: passed_inv_def job_passes_def)
  qed
  with cs_put show ?thesis by (auto simp: passed_inv_def set_phase_def)
next
  case (cs_put_fails t l raw rf e)
  from put_fails_current [OF assms(1) cs_put_fails(5)] assms(5) cs_put_fails show ?thesis
    by (auto simp: passed_inv_def set_phase_def job_passes_def)
qed (use assms(5) in \<open>auto simp: passed_inv_def set_phase_def\<close>)

text \<open>
  Replaying the commits of one name in order, checking each precondition against the key that
  the one before left behind.
\<close>

fun cas_replay :: "push_job list \<Rightarrow> bytes \<Rightarrow> bytes option" where
  "cas_replay [] c = Some c"
| "cas_replay (j # js) c = (if pjCAS j \<and> pjExpected j \<noteq> c then None else cas_replay js (pjKey j))"

lemma cas_replay_snoc:
  "cas_replay (js @ [j]) c = (case cas_replay js c of None \<Rightarrow> None
     | Some d \<Rightarrow> if pjCAS j \<and> pjExpected j \<noteq> d then None else Some (pjKey j))"
  by (induction js c rule: cas_replay.induct) simp_all

definition commits_of :: "(nat \<Rightarrow> push_job) \<Rightarrow> string \<Rightarrow> 'r csys \<Rightarrow> push_job list" where
  "commits_of J n s = map J (filter (\<lambda>t. pjName (J t) = n) (csHist s))"

definition chain_inv ::
  "('p, 's, 'r, 'z) server_lib_scheme \<Rightarrow> (nat \<Rightarrow> push_job) \<Rightarrow> string \<Rightarrow> bytes \<Rightarrow> 'r csys \<Rightarrow> bool" where
  "chain_inv lib J n c0 s \<longleftrightarrow> (\<exists>c. cas_replay (commits_of J n s) c0 = Some c \<and> ref_current lib (csRefs s) n = Inr c)"

lemma cstep_chain_inv:
  assumes "put_law lib" and "\<forall>t. job_ok lib (J t)" and "passed_inv lib J s" and "cstep lib J s s'"
    and "chain_inv lib J n c0 s"
  shows "chain_inv lib J n c0 s'"
  using assms(4)
proof cases
  case (cs_entry t s1 l)
  then have "csHist s1 = csHist s" "csRefs s1 = csRefs s"
    by (auto simp: lock_entry_def split: option.splits)
  with cs_entry assms(5) show ?thesis by (simp add: chain_inv_def commits_of_def set_phase_def)
next
  case (cs_put t l raw rf)
  note pc = put_current [OF assms(1) spec [OF assms(2)] cs_put(3,5)]
  from assms(5) obtain c where c: "cas_replay (commits_of J n s) c0 = Some c" "ref_current lib (csRefs s) n = Inr c"
    by (auto simp: chain_inv_def)
  show ?thesis
  proof (cases "pjName (J t) = n")
    case True
    have "job_passes lib (J t) (csRefs s)" using assms(3) cs_put(2) by (auto simp: passed_inv_def)
    with c True have "\<not> (pjCAS (J t) \<and> pjExpected (J t) \<noteq> c)" by (auto simp: job_passes_def)
    with c(1) True have "cas_replay (commits_of J n s') c0 = Some (pjKey (J t))"
      by (simp add: cs_put commits_of_def set_phase_def cas_replay_snoc)
    with pc True show ?thesis by (simp add: chain_inv_def cs_put(1) set_phase_def)
  next
    case False
    with pc c show ?thesis by (simp add: chain_inv_def cs_put(1) set_phase_def commits_of_def)
  qed
next
  case (cs_put_fails t l raw rf e)
  with put_fails_current [OF assms(1) cs_put_fails(5)] assms(5) show ?thesis
    by (simp add: chain_inv_def set_phase_def commits_of_def)
qed (use assms(5) in \<open>simp_all add: chain_inv_def set_phase_def commits_of_def\<close>)

lemma csteps_invs:
  assumes "put_law lib" and "\<forall>t. job_ok lib (J t)" and "ref_current lib refs n = Inr c0"
  shows "csteps lib J (csys_start refs) s \<Longrightarrow> lock_inv J s \<and> passed_inv lib J s \<and> chain_inv lib J n c0 s"
proof (induction rule: rtranclp_induct)
  case base
  with assms(3) lock_inv_start show ?case
    by (simp add: passed_inv_def chain_inv_def commits_of_def csys_start_def)
next
  case (step s1 s2)
  then show ?case
    using cstep_lock_inv cstep_passed_inv [OF assms(1,2)] cstep_chain_inv [OF assms(1,2)] by blast
qed

lemma csteps_lock_inv: "csteps lib J (csys_start refs) s \<Longrightarrow> lock_inv J s"
  by (induction rule: rtranclp_induct) (auto intro: lock_inv_start cstep_lock_inv)

section \<open>Lemmas: progress\<close>

text \<open>How far a push is from being done; every step of a push brings it nearer.\<close>

fun rank :: "phase \<Rightarrow> nat" where
  "rank Outside = 5"
| "rank (Waiting l) = 4"
| "rank (Holding l) = 3"
| "rank (Passed l) = 2"
| "rank (Stored l) = 1"
| "rank (Refused l) = 1"
| "rank Done = 0"

lemma set_phase_same [simp]: "csPhase (set_phase t p s) t = p"
  by (simp add: set_phase_def)

text \<open>A push that is not waiting for a mutex can take a step.\<close>

lemma running_steps:
  assumes "csPhase s t \<noteq> Done" and "\<And>l. csPhase s t = Waiting l \<Longrightarrow> csOwner s l = None"
  shows "\<exists>s'. cstep lib J s s' \<and> rank (csPhase s' t) < rank (csPhase s t)"
proof (cases "csPhase s t")
  case Outside
  obtain s1 l where "lock_entry (pjName (J t)) s = (s1, l)" by (metis surj_pair)
  then have "cstep lib J s (set_phase t (Waiting l) s1)" by (blast intro: cs_entry Outside)
  then show ?thesis using Outside by (intro exI) auto
next
  case (Waiting l)
  with assms(2) have "cstep lib J s (set_phase t (Holding l) (s\<lparr>csOwner := (csOwner s)(l \<mapsto> t)\<rparr>))"
    by (blast intro: cs_lock)
  then show ?thesis using Waiting by (intro exI) auto
next
  case (Holding l)
  then have "cstep lib J s (set_phase t (Passed l) s) \<or> cstep lib J s (set_phase t (Refused l) s)"
    by (blast intro: cs_pass cs_refuse)
  then show ?thesis using Holding by (elim disjE) (intro exI, auto)+
next
  case (Passed l)
  have "\<exists>s' p. cstep lib J s s' \<and> csPhase s' t = p \<and> rank p = 1"
  proof (cases "pjRaw (J t)")
    case (Inl e)
    with Passed have "cstep lib J s (set_phase t (Refused l) s)" by (rule cs_encode_fails)
    then show ?thesis by (intro exI conjI) auto
  next
    case raw: (Inr raw)
    show ?thesis
    proof (cases "pjGuard (J t)")
      case (Some e)
      from Passed raw Some have "cstep lib J s (set_phase t (Refused l) s)" by (rule cs_guard_fails)
      then show ?thesis by (intro exI conjI) auto
    next
      case None
      obtain rf x where p: "rf_put lib (csRefs s) (pjName (J t)) raw = (rf, x)" by (metis surj_pair)
      show ?thesis
      proof (cases x)
        case x: None
        from Passed raw None p [unfolded x] have "cstep lib J s (set_phase t (Stored l) (s\<lparr>csRefs := rf, csHist := csHist s @ [t]\<rparr>))"
          by (rule cs_put)
        then show ?thesis by (intro exI conjI) auto
      next
        case (Some e)
        from Passed raw None p [unfolded Some] have "cstep lib J s (set_phase t (Refused l) (s\<lparr>csRefs := rf\<rparr>))"
          by (rule cs_put_fails)
        then show ?thesis by (intro exI conjI) auto
      qed
    qed
  qed
  then show ?thesis using Passed by auto
next
  case (Stored l)
  then have "cstep lib J s (set_phase t Done (s\<lparr>csOwner := (csOwner s)(l := None)\<rparr>))" by (blast intro: cs_unlock)
  then show ?thesis using Stored by (intro exI) auto
next
  case (Refused l)
  then have "cstep lib J s (set_phase t Done (s\<lparr>csOwner := (csOwner s)(l := None)\<rparr>))" by (blast intro: cs_unlock)
  then show ?thesis using Refused by (intro exI) auto
qed (use assms(1) in simp)

text \<open>Whatever step is taken, one push takes it, comes nearer its end, and no other push moves.\<close>

definition moves :: "nat \<Rightarrow> 'r csys \<Rightarrow> 'r csys \<Rightarrow> bool" where
  "moves t s s' \<longleftrightarrow> rank (csPhase s' t) < rank (csPhase s t) \<and> (\<forall>u. u \<noteq> t \<longrightarrow> csPhase s' u = csPhase s u)"

lemma lock_entry_phase: "lock_entry n s = (s1, l) \<Longrightarrow> csPhase s1 = csPhase s"
  by (auto simp: lock_entry_def split: option.splits)

lemma cstep_moves: "cstep lib J s s' \<Longrightarrow> \<exists>t. moves t s s'"
proof (induction rule: cstep.induct)
  case (cs_unlock s t l)
  then show ?case by (intro exI [of _ t]) (auto simp: moves_def set_phase_def)
qed (rule exI, auto simp: moves_def set_phase_def dest: lock_entry_phase)

text \<open>So runs are bounded: no push can be made to start over.\<close>

definition togo :: "nat set \<Rightarrow> 'r csys \<Rightarrow> nat" where
  "togo T s = (\<Sum>t\<in>T. rank (csPhase s t))"

lemma moves_rank: "moves t s s' \<Longrightarrow> rank (csPhase s' u) \<le> rank (csPhase s u)"
  by (cases "u = t") (simp_all add: moves_def)

lemma moves_togo:
  assumes "moves t s s'" and "finite T" and "t \<in> T"
  shows "togo T s' < togo T s"
  unfolding togo_def using assms moves_rank [OF assms(1)]
  by (intro sum_strict_mono_ex1) (auto simp: moves_def intro: bexI [of _ t])

lemma run_rank: "(cstep lib J ^^ n) s s' \<Longrightarrow> rank (csPhase s' u) \<le> rank (csPhase s u)"
proof (induction n arbitrary: s')
  case (Suc n)
  then obtain t where "(cstep lib J ^^ n) s t" "cstep lib J t s'" by auto
  with Suc.IH [of t] cstep_moves [of lib J t s'] moves_rank [of _ t s' u] show ?case by (meson order_trans)
qed simp

lemma run_changes_finite: "(cstep lib J ^^ n) s s' \<Longrightarrow> finite {u. csPhase s' u \<noteq> csPhase s u}"
proof (induction n arbitrary: s')
  case (Suc n)
  then obtain t v where t: "(cstep lib J ^^ n) s t" "moves v t s'" using cstep_moves by fastforce
  have "{u. csPhase s' u \<noteq> csPhase s u} \<subseteq> insert v {u. csPhase t u \<noteq> csPhase s u}"
    using t(2) by (auto simp: moves_def)
  with Suc.IH [OF t(1)] show ?case by (meson finite_insert finite_subset)
qed simp

lemma run_togo:
  assumes "finite T"
  shows "(cstep lib J ^^ n) s s' \<Longrightarrow> \<forall>u. u \<notin> T \<longrightarrow> csPhase s' u = csPhase s u \<Longrightarrow> n + togo T s' \<le> togo T s"
proof (induction n arbitrary: s)
  case (Suc n)
  obtain t v where t: "cstep lib J s t" "(cstep lib J ^^ n) t s'" "moves v s t"
    using Suc.prems(1) cstep_moves by (metis relpowp_Suc_E2)
  from run_rank [OF t(2), of v] t(3) have v: "rank (csPhase s' v) < rank (csPhase s v)" by (simp add: moves_def)
  with Suc.prems(2) have "v \<in> T" by force
  with moves_togo [OF t(3) assms] have "togo T t < togo T s" by blast
  moreover have "\<forall>u. u \<notin> T \<longrightarrow> csPhase s' u = csPhase t u"
    using Suc.prems(2) t(3) \<open>v \<in> T\<close> by (metis moves_def)
  ultimately show ?case using Suc.IH [OF t(2)] by simp
qed simp

lemma run_bound:
  assumes "(cstep lib J ^^ n) s s'"
  shows "n \<le> 5 * card {u. csPhase s' u \<noteq> csPhase s u}"
proof -
  let ?T = "{u. csPhase s' u \<noteq> csPhase s u}"
  have "rank p \<le> 5" for p by (cases p) auto
  then have "togo ?T s \<le> 5 * card ?T" using sum_bounded_above [of ?T "\<lambda>t. rank (csPhase s t)" 5] by (simp add: togo_def)
  with run_togo [OF run_changes_finite [OF assms] assms] show ?thesis by simp
qed

text \<open>A push that finds its mutex free and its precondition met runs to its end.\<close>

lemma solo_commit:
  assumes "csPhase s t = Outside" and "lock_entry (pjName (J t)) s = (s1, l)" and "csOwner s l = None"
    and "job_passes lib (J t) (csRefs s)" and "pjRaw (J t) = Inr raw" and "pjGuard (J t) = None"
    and "rf_put lib (csRefs s) (pjName (J t)) raw = (rf, None)"
  shows "csteps lib J s (s1\<lparr>csRefs := rf, csHist := csHist s @ [t], csPhase := (csPhase s)(t := Done)\<rparr>)"
proof -
  have s1: "csPhase s1 = csPhase s" "csRefs s1 = csRefs s" "csOwner s1 = csOwner s" "csHist s1 = csHist s"
    using assms(2) by (auto simp: lock_entry_def split: option.splits)
  let ?w = "set_phase t (Waiting l) s1"
  let ?h = "set_phase t (Holding l) (?w\<lparr>csOwner := (csOwner ?w)(l \<mapsto> t)\<rparr>)"
  let ?p = "set_phase t (Passed l) ?h"
  let ?d = "set_phase t (Stored l) (?p\<lparr>csRefs := rf, csHist := csHist ?p @ [t]\<rparr>)"
  have "cstep lib J s ?w" using assms(1,2) by (rule cs_entry)
  moreover have "cstep lib J ?w ?h" by (rule cs_lock) (simp_all add: set_phase_def s1 assms(3))
  moreover have "cstep lib J ?h ?p" by (rule cs_pass) (simp_all add: set_phase_def s1 assms(4))
  moreover have "cstep lib J ?p ?d" by (rule cs_put [where raw = raw]) (use assms(5,6) in \<open>simp_all add: set_phase_def s1 assms(7)\<close>)
  moreover have "cstep lib J ?d (set_phase t Done (?d\<lparr>csOwner := (csOwner ?d)(l := None)\<rparr>))"
    by (rule cs_unlock) (simp add: set_phase_def)
  moreover have "set_phase t Done (?d\<lparr>csOwner := (csOwner ?d)(l := None)\<rparr>) =
      s1\<lparr>csRefs := rf, csHist := csHist s @ [t], csPhase := (csPhase s)(t := Done)\<rparr>"
    using s1 assms(3) by (simp add: set_phase_def fun_upd_idem)
  ultimately show ?thesis by (metis (no_types, lifting) converse_rtranclp_into_rtranclp rtranclp.rtrancl_refl)
qed

text \<open>A concrete run: of two pushes that expect a fresh reference, the first one commits.\<close>

definition sample_jobs :: "nat \<Rightarrow> push_job" where
  "sample_jobs t = \<lparr>pjName = ''r'', pjCAS = True, pjExpected = [], pjKey = [of_nat t + 1],
     pjRaw = Inr [of_nat t + 1], pjGuard = None\<rparr>"

definition sample_csys :: "(string \<times> bytes) list csys" where
  "sample_csys = \<lparr>csRefs = [(''r'', [1])], csLocks = [''r'' \<mapsto> 0], csNext = 1, csOwner = Map.empty,
     csPhase = (\<lambda>t. Outside)(0 := Done), csHist = [0]\<rparr>"

lemma sample_commit: "csteps sample_server_lib sample_jobs (csys_start []) sample_csys"
proof -
  have "job_passes sample_server_lib (sample_jobs 0) []"
    by (simp add: job_passes_def sample_jobs_def ref_current_def sample_server_simps)
  then show ?thesis
    using solo_commit [of "csys_start []" 0 sample_jobs "(csys_start [])\<lparr>csLocks := [''r'' \<mapsto> 0], csNext := 1\<rparr>" 0
        sample_server_lib "[1]" "[(''r'', [1])]"]
    by (simp add: csys_start_def lock_entry_def sample_jobs_def sample_csys_def sample_server_simps)
qed

lemma sample_put_law: "put_law sample_server_lib"
  using sample_server_ref_law by (simp add: put_law_def) (simp add: sample_server_simps)

lemma sample_job_ok: "job_ok sample_server_lib (sample_jobs t)"
  by (simp add: job_ok_def sample_jobs_def sample_server_simps)

section \<open>Properties\<close>

text \<open>
  Claim C8 (compare and swap is atomic).  However concurrent pushes interleave, the pushes of a
  name that have put their reference form a chain: replayed in order from the reference's
  initial key, each one with a precondition finds exactly the key it expected, which the one
  before it left, and the reference now names what the last one put.  No update is lost.
\<close>

theorem concurrent_cas_chain:
  assumes "put_law lib" and "\<forall>t. job_ok lib (J t)" and "ref_current lib refs n = Inr c0"
    and "csteps lib J (csys_start refs) s"
  shows "\<exists>c. cas_replay (commits_of J n s) c0 = Some c \<and> ref_current lib (csRefs s) n = Inr c"
  using csteps_invs [OF assms] by (simp add: chain_inv_def)

theorem concurrent_cas_chain_witness:
  "\<exists>c. cas_replay (commits_of sample_jobs ''r'' sample_csys) [] = Some c \<and>
     ref_current sample_server_lib (csRefs sample_csys) ''r'' = Inr c"
proof (rule concurrent_cas_chain [OF sample_put_law])
  show "\<forall>t. job_ok sample_server_lib (sample_jobs t)" using sample_job_ok by blast
  show "ref_current sample_server_lib [] ''r'' = Inr []" by (simp add: ref_current_def sample_server_simps)
  show "csteps sample_server_lib sample_jobs (csys_start []) sample_csys" by (rule sample_commit)
qed

text \<open>
  Claim C21 (one push per name).  At no time are two pushes of the same name between \<open>lockRef\<close>
  and its unlock; in particular no reference changes between a push's check and its put.
\<close>

theorem push_mutual_exclusion:
  assumes "csteps lib J (csys_start refs) s"
    and "holds (csPhase s t) l" and "holds (csPhase s u) m" and "pjName (J t) = pjName (J u)"
  shows "t = u \<and> l = m"
proof -
  from same_name_exclusive [OF csteps_lock_inv [OF assms(1)] assms(2-4)] have "t = u" .
  with assms(2,3) show ?thesis by (auto dest!: holds_mutex)
qed

theorem push_mutual_exclusion_witness:
  "let s = set_phase 1 (Holding 0) (sample_csys\<lparr>csOwner := [0 \<mapsto> 1], csPhase := (csPhase sample_csys)(1 := Waiting 0)\<rparr>) in
     csteps sample_server_lib sample_jobs (csys_start []) s \<and> csHist s = [0] \<and> (1 :: nat) = 1 \<and> (0 :: nat) = 0"
proof -
  let ?w = "set_phase 1 (Waiting 0) sample_csys"
  let ?s = "set_phase 1 (Holding 0) (?w\<lparr>csOwner := (csOwner ?w)(0 \<mapsto> 1)\<rparr>)"
  have "cstep sample_server_lib sample_jobs sample_csys ?w"
    by (rule cs_entry) (simp_all add: sample_csys_def lock_entry_def sample_jobs_def)
  moreover have "cstep sample_server_lib sample_jobs ?w ?s"
    by (rule cs_lock) (simp_all add: sample_csys_def set_phase_def)
  ultimately have r: "csteps sample_server_lib sample_jobs (csys_start []) ?s"
    using sample_commit by (meson rtranclp.rtrancl_into_rtrancl)
  have h: "holds (csPhase ?s 1) 0" by simp
  from push_mutual_exclusion [OF r h h refl] have "(1 :: nat) = 1 \<and> (0 :: nat) = 0" .
  moreover have "?s = set_phase 1 (Holding 0) (sample_csys\<lparr>csOwner := [0 \<mapsto> 1], csPhase := (csPhase sample_csys)(1 := Waiting 0)\<rparr>)"
    by (simp add: set_phase_def sample_csys_def)
  ultimately show ?thesis using r by (simp add: Let_def sample_csys_def set_phase_def)
qed

text \<open>
  Claim C22 (pushes make progress).  Locking per name never deadlocks and never livelocks: at any
  time, a push that is not done can take a step, or it waits for the mutex of its name and the
  one push that holds it can take a step; and every step there is, of whatever push, brings the
  push that takes it nearer its end and moves no other push.  So every run, however its pushes
  interleave, has at most five steps for each push that moved in it.
\<close>

theorem push_progress:
  assumes "csteps lib J (csys_start refs) s"
  shows "(\<forall>t. csPhase s t \<noteq> Done \<longrightarrow> (\<exists>u s'. cstep lib J s s' \<and> moves u s s' \<and>
      (u = t \<or> (\<exists>l. csPhase s t = Waiting l \<and> csOwner s l = Some u)))) \<and>
    (\<forall>s'. cstep lib J s s' \<longrightarrow> (\<exists>!u. moves u s s')) \<and>
    (\<forall>n s'. (cstep lib J ^^ n) s s' \<longrightarrow> n \<le> 5 * card {u. csPhase s' u \<noteq> csPhase s u})"
proof (intro conjI allI impI)
  fix t assume d: "csPhase s t \<noteq> Done"
  obtain u where u: "csPhase s u \<noteq> Done" "\<And>k. csPhase s u = Waiting k \<Longrightarrow> csOwner s k = None"
    and w: "u = t \<or> (\<exists>l. csPhase s t = Waiting l \<and> csOwner s l = Some u)"
  proof (cases "\<exists>l u. csPhase s t = Waiting l \<and> csOwner s l = Some u")
    case True
    then obtain l u where w: "csPhase s t = Waiting l" "csOwner s l = Some u" by blast
    with csteps_lock_inv [OF assms] have "holds (csPhase s u) l" by (auto simp: lock_inv_def)
    then have "csPhase s u \<noteq> Done" "\<And>k. csPhase s u \<noteq> Waiting k" by auto
    with w that show thesis by blast
  next
    case False
    with d that [of t] show thesis by (metis option.exhaust)
  qed
  from running_steps [OF u] obtain s' where s': "cstep lib J s s'" "rank (csPhase s' u) < rank (csPhase s u)" by blast
  from cstep_moves [OF s'(1)] s'(2) have "moves u s s'" by (metis less_irrefl moves_def)
  with s'(1) w show "\<exists>u s'. cstep lib J s s' \<and> moves u s s' \<and> (u = t \<or> (\<exists>l. csPhase s t = Waiting l \<and> csOwner s l = Some u))"
    by blast
next
  fix s' assume "cstep lib J s s'"
  from cstep_moves [OF this] show "\<exists>!u. moves u s s'" by (metis less_irrefl moves_def)
next
  fix n s' assume "(cstep lib J ^^ n) s s'"
  then show "n \<le> 5 * card {u. csPhase s' u \<noteq> csPhase s u}" by (rule run_bound)
qed

theorem push_progress_witness:
  "csPhase sample_csys 1 \<noteq> Done \<and>
   (\<exists>u s'. cstep sample_server_lib sample_jobs sample_csys s' \<and> moves u sample_csys s' \<and>
     (u = 1 \<or> (\<exists>l. csPhase sample_csys 1 = Waiting l \<and> csOwner sample_csys l = Some u)))"
proof -
  have "csPhase sample_csys 1 \<noteq> Done" by (simp add: sample_csys_def)
  with push_progress [OF sample_commit] show ?thesis by blast
qed

end
