(* ===== verification/Text_Format.thy ===== *)
theory Text_Format
  imports Go_Runtime Go_Float
begin

text \<open>
  What the command line client uses of Go's \<open>fmt\<close>, \<open>strconv\<close>, \<open>strings\<close> and of
  signed \<open>float64\<close> arithmetic to render its output, with the functions that read the rendered
  numbers back.
\<close>

section \<open>Decimal numbers\<close>

definition digit_val :: "char \<Rightarrow> nat" where
  "digit_val c = of_char c - 48"

definition dec_val :: "string \<Rightarrow> nat" where
  "dec_val s = foldl (\<lambda>v c. 10 * v + digit_val c) 0 s"

definition is_digit :: "char \<Rightarrow> bool" where
  "is_digit c \<longleftrightarrow> 48 \<le> (of_char c :: nat) \<and> (of_char c :: nat) \<le> 57"

lemma digit_val_char [simp]: "n < 10 \<Longrightarrow> digit_val (char_of (48 + n :: nat)) = n"
  by (simp add: digit_val_def)

lemma is_digit_char [simp]: "n < 10 \<Longrightarrow> is_digit (char_of (48 + n :: nat))"
  by (simp add: is_digit_def)

lemma dec_val_snoc: "dec_val (s @ [c]) = 10 * dec_val s + digit_val c"
  by (simp add: dec_val_def)

lemma dec_val_dec_nat [simp]: "dec_val (dec_nat n) = n"
proof (induction n rule: dec_nat.induct)
  case (1 n)
  show ?case
  proof (cases "n < 10")
    case True
    then show ?thesis by (subst dec_nat.simps) (simp add: dec_val_def)
  next
    case False
    with 1 show ?thesis by (subst dec_nat.simps) (simp add: dec_val_snoc)
  qed
qed

lemma dec_nat_digits: "\<forall>c\<in>set (dec_nat n). is_digit c"
proof (induction n rule: dec_nat.induct)
  case (1 n)
  then show ?case by (subst dec_nat.simps) auto
qed

lemma dec_nat_not_Nil [simp]: "dec_nat n \<noteq> []"
  by (subst dec_nat.simps) simp

lemma dec_nat_inj [simp]: "dec_nat m = dec_nat n \<longleftrightarrow> m = n"
  by (metis dec_val_dec_nat)

text \<open>Padding: \<open>%5s\<close> and its like, and \<open>%02d\<close>.\<close>

definition pad_left :: "nat \<Rightarrow> string \<Rightarrow> string" where
  "pad_left w s = replicate (w - length s) (CHR '' '') @ s"

lemma length_pad_left [simp]: "length (pad_left w s) = max w (length s)"
  by (simp add: pad_left_def)

definition two_digits :: "nat \<Rightarrow> string" where
  "two_digits n = (if n < 10 then CHR ''0'' # dec_nat n else dec_nat n)"

lemma dec_val_two_digits [simp]: "dec_val (two_digits n) = n"
proof -
  have "dec_val (CHR ''0'' # s) = dec_val s" for s by (simp add: dec_val_def digit_val_def)
  then show ?thesis by (simp add: two_digits_def)
qed

lemma two_digits_digits: "\<forall>c\<in>set (two_digits n). is_digit c"
  using dec_nat_digits by (auto simp: two_digits_def is_digit_def)

section \<open>Signed floats\<close>

definition rnd64s :: "rat \<Rightarrow> rat" where
  "rnd64s q = (if q < 0 then - rnd64 (- q) else rnd64 q)"

text \<open>Conversions to integers truncate; out of range the result depends on the machine.\<close>

definition f64_trunc :: "rat \<Rightarrow> int" where
  "f64_trunc q = (if q < 0 then - \<lfloor>- q\<rfloor> else \<lfloor>q\<rfloor>)"

definition f64_u64 :: "(rat \<Rightarrow> 64 word) \<Rightarrow> rat \<Rightarrow> 64 word" where
  "f64_u64 over q = (if - 1 < q \<and> q < 2 ^ 64 then of_int (f64_trunc q) else over q)"

definition f64_s64 :: "(rat \<Rightarrow> 64 word) \<Rightarrow> rat \<Rightarrow> 64 word" where
  "f64_s64 over q = (if - (2 ^ 63) - 1 < q \<and> q < 2 ^ 63 then of_int (f64_trunc q) else over q)"

text \<open>\<open>%.1f\<close>: the exact value to the nearest tenth, ties to even.\<close>

definition tenths :: "rat \<Rightarrow> nat" where
  "tenths q = nat (round_even (10 * \<bar>q\<bar>))"

definition fixed1 :: "rat \<Rightarrow> string" where
  "fixed1 q = (if q < 0 then ''-'' else '''') @ dec_nat (tenths q div 10) @ ''.'' @ dec_nat (tenths q mod 10)"

lemma rnd64s_nonneg: "0 \<le> q \<Longrightarrow> rnd64s q = rnd64 q"
  by (simp add: rnd64s_def)

text \<open>Integers of up to 53 bits are exact.\<close>

lemma rnd64_pos_int:
  assumes "0 < i" and "i < 2 ^ 53"
  shows "rnd64 (of_int i) = of_int i"
proof -
  let ?q = "of_int i :: rat"
  have q: "0 < ?q" using assms by simp
  have "ilog2 ?q \<le> 52"
  proof (rule ccontr)
    assume "\<not> ?thesis"
    then have "pow2 53 \<le> pow2 (ilog2 ?q)" by (intro pow2_mono) simp
    with ilog2_bounds [OF q] have "(2 ^ 53 :: rat) \<le> ?q" by (simp add: pow2_def)
    then have "(of_int (2 ^ 53) :: rat) \<le> of_int i" by simp
    with assms(2) show False by linarith
  qed
  then obtain k where k: "ilog2 ?q - 52 = - int k" by (metis diff_le_0_iff_le nonpos_int_cases)
  have p: "pow2 (- int k) = 1 / 2 ^ k" by (cases "k = 0") (simp_all add: pow2_def)
  have "round_even (?q / pow2 (- int k)) = i * 2 ^ k"
    using round_even_int [of "i * 2 ^ k"] by (simp add: p)
  with q k show ?thesis by (simp add: rnd64_def Let_def p)
qed

lemma rnd64_1 [simp]: "rnd64 1 = 1"
  using rnd64_pos_int [of 1] by simp

lemma rnd64_nat: "n < 2 ^ 53 \<Longrightarrow> rnd64 (of_nat n) = of_nat n"
  using rnd64_pos_int [of "int n"] by (cases "n = 0") simp_all

lemma pow2_neq0 [simp]: "pow2 e \<noteq> 0"
  using pow2_pos [of e] by linarith

lemma pow2_neg: "pow2 (- int k) = 1 / 2 ^ k"
  by (cases "k = 0") (simp_all add: pow2_def)

lemma divide_pow2: "a / pow2 e = a * pow2 (- e)"
proof -
  have "a = a * pow2 (- e) * pow2 e" using pow2_split [of e] by (simp add: ac_simps)
  then show ?thesis by (simp add: divide_eq_eq)
qed

text \<open>Rounding is accurate to one part in \<open>2 ^ 53\<close>.\<close>

lemma rnd64_near:
  assumes "0 \<le> q"
  shows "\<bar>rnd64 q - q\<bar> \<le> q / 2 ^ 53"
proof (cases "q = 0")
  case False
  with assms have q: "0 < q" by simp
  let ?p = "pow2 (ilog2 q - 52)"
  have "rnd64 q - q = (of_int (round_even (q / ?p)) - q / ?p) * ?p"
    using q by (simp add: rnd64_def Let_def left_diff_distrib)
  then have "\<bar>rnd64 q - q\<bar> = \<bar>of_int (round_even (q / ?p)) - q / ?p\<bar> * ?p"
    by (simp add: abs_mult)
  also have "\<dots> \<le> 1 / 2 * ?p" by (intro mult_right_mono round_even_near) simp
  also have "?p * 2 ^ 52 = pow2 (ilog2 q)" using pow2_up [of "ilog2 q - 52" 52] by simp
  then have "1 / 2 * ?p = pow2 (ilog2 q) / 2 ^ 53" by simp
  also have "\<dots> \<le> q / 2 ^ 53" using ilog2_bounds [OF q] by (intro divide_right_mono) simp_all
  finally show ?thesis .
qed simp

text \<open>Scaling by a power of two is exact, and rounding twice is rounding once.\<close>

lemma ilog2_unique:
  assumes "pow2 e \<le> q" and "q < pow2 (e + 1)"
  shows "ilog2 q = e"
proof -
  have q: "0 < q" using assms(1) pow2_pos [of e] by linarith
  have "\<not> ilog2 q + 1 \<le> e" using pow2_mono [of "ilog2 q + 1" e] ilog2_bounds [OF q] assms by auto
  moreover have "\<not> e + 1 \<le> ilog2 q" using pow2_mono [of "e + 1" "ilog2 q"] ilog2_bounds [OF q] assms by auto
  ultimately show ?thesis by simp
qed

lemma ilog2_scale:
  assumes "0 < q"
  shows "ilog2 (q * pow2 k) = ilog2 q + k"
proof (rule ilog2_unique)
  show "pow2 (ilog2 q + k) \<le> q * pow2 k"
    using ilog2_bounds [OF assms] by (simp add: pow2_add)
  have "pow2 (ilog2 q + k + 1) = pow2 (ilog2 q + 1) * pow2 k"
    using pow2_add [of "ilog2 q + 1" k] by (simp add: ac_simps)
  then show "q * pow2 k < pow2 (ilog2 q + k + 1)"
    using ilog2_bounds [OF assms] by simp
qed

lemma rnd64_scale: "rnd64 (q * pow2 k) = rnd64 q * pow2 k"
proof (cases "0 < q")
  case True
  have n: "\<not> q \<le> 0" "\<not> q * pow2 k \<le> 0" using True by (simp_all add: not_le)
  have "pow2 (ilog2 q + k - 52) = pow2 (ilog2 q - 52) * pow2 k"
    using pow2_add [of "ilog2 q - 52" k] by (simp add: algebra_simps)
  then show ?thesis unfolding rnd64_def Let_def ilog2_scale [OF True] if_not_P [OF n(1)] if_not_P [OF n(2)] by simp
next
  case False
  then have "q * pow2 k \<le> 0" by (simp add: mult_le_0_iff)
  with False show ?thesis by (simp add: rnd64_def)
qed

lemma rnd64_pow2 [simp]: "rnd64 (pow2 k) = pow2 k"
  using rnd64_scale [of 1 k] by simp

lemma rnd64_mantissa:
  assumes "0 < q"
  obtains m where "rnd64 q = of_int m * pow2 (ilog2 q - 52)" and "2 ^ 52 \<le> m" and "m \<le> 2 ^ 53"
proof -
  let ?m = "q / pow2 (ilog2 q - 52)"
  have "round_even (of_int (2 ^ 52)) \<le> round_even ?m" "round_even ?m \<le> round_even (of_int (2 ^ 53))"
    using scaled_ilog2 [OF assms] by (auto intro!: round_even_mono)
  then have "2 ^ 52 \<le> round_even ?m" "round_even ?m \<le> 2 ^ 53" unfolding round_even_int by auto
  moreover have "rnd64 q = of_int (round_even ?m) * pow2 (ilog2 q - 52)" using assms by (simp add: rnd64_def Let_def)
  ultimately show ?thesis by (blast intro: that)
qed

lemma rnd64_idem [simp]: "rnd64 (rnd64 q) = rnd64 q"
proof (cases "0 < q")
  case True
  then obtain m where m: "rnd64 q = of_int m * pow2 (ilog2 q - 52)" "2 ^ 52 \<le> m" "m \<le> 2 ^ 53"
    by (rule rnd64_mantissa)
  have "rnd64 (of_int m) = of_int m"
  proof (cases "m = 2 ^ 53")
    case True
    then have "of_int m = pow2 53" by (simp add: pow2_def)
    then show ?thesis by simp
  next
    case False
    with m show ?thesis by (intro rnd64_pos_int) auto
  qed
  then show ?thesis unfolding m(1) rnd64_scale by simp
qed (simp add: rnd64_def)

section \<open>Strings\<close>

text \<open>\<open>strings.Cut\<close> at a single character and \<open>strings.CutPrefix\<close>.\<close>

fun cut_at :: "char \<Rightarrow> string \<Rightarrow> string \<times> string \<times> bool" where
  "cut_at c [] = ([], [], False)"
| "cut_at c (x # xs) =
     (if x = c then ([], xs, True)
      else (case cut_at c xs of (a, b, f) \<Rightarrow> if f then (x # a, b, True) else (x # xs, [], False)))"

lemma cut_at_absent: "c \<notin> set xs \<Longrightarrow> cut_at c xs = (xs, [], False)"
  by (induction xs) auto

lemma cut_at_found [simp]: "c \<notin> set xs \<Longrightarrow> cut_at c (xs @ c # ys) = (xs, ys, True)"
  by (induction xs) auto

lemma cut_at_cases:
  "cut_at c s = (a, b, f) \<Longrightarrow> c \<notin> set a \<and> (if f then s = a @ c # b else s = a \<and> b = [])"
  by (induction s arbitrary: a b f) (auto split: if_splits prod.splits)

definition cut_prefix :: "string \<Rightarrow> string \<Rightarrow> string option" where
  "cut_prefix p s = (if prefix p s then Some (drop (length p) s) else None)"

text \<open>\<open>strings.Split\<close> at a single character.\<close>

fun split_at :: "char \<Rightarrow> string \<Rightarrow> string list" where
  "split_at c [] = [[]]"
| "split_at c (x # xs) =
     (if x = c then [] # split_at c xs
      else (case split_at c xs of [] \<Rightarrow> [[x]] | s # ss \<Rightarrow> (x # s) # ss))"

lemma split_at_not_Nil [simp]: "split_at c s \<noteq> []"
  by (cases s) (auto split: list.splits)

lemma split_at_absent: "c \<notin> set s \<Longrightarrow> split_at c s = [s]"
  by (induction s) auto

lemma split_at_append: "split_at c (a @ c # b) = split_at c a @ split_at c b"
  by (induction a) (auto split: list.splits)

end
