(* ===== verification/Progress_Bar.thy ===== *)
theory Progress_Bar
  imports Text_Format Receive_Loop
begin

text \<open>
  cmd/amber/progress.go and cmd/amber/xfer.go: what the progress bars of import, push and pull
  show.  Durations are \<open>time.Duration\<close>s in nanoseconds; \<open>over\<close> is what the machine makes
  of a float that does not fit the \<open>uint64\<close> it is converted to.
\<close>

section \<open>Durations, sizes and the bar\<close>

definition second :: int where "second = 1000000000"

definition max_duration :: int where "max_duration = 2 ^ 63 - 1"

text \<open>\<open>Duration.Round(time.Second)\<close> of a non-negative duration.\<close>

definition round_seconds :: "int \<Rightarrow> int" where
  "round_seconds d =
     (let r = d mod second in
      if r + r < second then d - r
      else if d + (second - r) \<le> max_duration then d + (second - r) else max_duration)"

definition fmt_duration :: "int \<Rightarrow> string" where
  "fmt_duration d0 =
     (let d = round_seconds (if d0 < 0 then 0 else d0);
          h = d div (3600 * second);
          d1 = d - h * (3600 * second);
          m = d1 div (60 * second);
          d2 = d1 - m * (60 * second);
          s = d2 div second in
      if 0 < h then dec_nat (nat h) @ '':'' @ two_digits (nat m) @ '':'' @ two_digits (nat s)
      else dec_nat (nat m) @ '':'' @ two_digits (nat s))"

text \<open>\<open>Duration.Seconds\<close>.\<close>

definition f64_seconds :: "int \<Rightarrow> rat" where
  "f64_seconds d =
     (let a = rnd64 (rnd64 (of_int (\<bar>d\<bar> div second)) + rnd64 (rnd64 (of_int (\<bar>d\<bar> mod second)) / 1000000000)) in
      if d < 0 then - a else a)"

definition f64_rate :: "rat \<Rightarrow> int \<Rightarrow> rat" where
  "f64_rate done elapsed =
     (let secs = f64_seconds elapsed in if 0 < secs then rnd64s (done / secs) else 0)"

text \<open>
  \<open>bar\<close>: \<open>strings.Repeat\<close> panics for a negative count.  The cells are the UTF-8 bytes of the
  full block and the light shade.
\<close>

definition full_cell :: string where "full_cell = [CHR 0xE2, CHR 0x96, CHR 0x88]"

definition light_cell :: string where "light_cell = [CHR 0xE2, CHR 0x96, CHR 0x91]"

definition repeat_str :: "string \<Rightarrow> int \<Rightarrow> goerr + string" where
  "repeat_str s n = (if n < 0 then Inl (GoPanic ''strings: negative Repeat count'')
     else Inr (concat (replicate (nat n) s)))"

definition bar :: "rat \<Rightarrow> int \<Rightarrow> goerr + string" where
  "bar pct0 width =
     (let pct1 = (if pct0 < 0 then 0 else pct0);
          pct = (if 100 < pct1 then 100 else pct1);
          filled = f64_trunc (rnd64s (rnd64s (pct / 100) * rnd64s (of_int width))) in
      case repeat_str full_cell filled of
        Inl e \<Rightarrow> Inl e
      | Inr a \<Rightarrow>
          (case repeat_str light_cell (width - filled) of
             Inl e \<Rightarrow> Inl e
           | Inr b \<Rightarrow> Inr (''['' @ a @ b @ '']'')))"

text \<open>\<open>humanBytes\<close>: the loop finds the unit, which may have to be promoted once more.\<close>

function unit_loop :: "64 word \<Rightarrow> 64 word \<Rightarrow> nat \<Rightarrow> 64 word \<times> nat" where
  "unit_loop m d i = (if 1024 \<le> m then unit_loop (m div 1024) (d * 1024) (Suc i) else (d, i))"
  by pat_completeness auto
termination
  by (relation "measure (\<lambda>(m, d, i). unat m)") (auto simp: unat_div word_le_nat_alt)

declare unit_loop.simps [simp del]

definition promote_at :: rat where "promote_at = rnd64 (102395 / 100)"

definition unit_letters :: string where "unit_letters = ''KMGTPE''"

definition human_bytes :: "64 word \<Rightarrow> string" where
  "human_bytes n =
     (if n < 1024 then dec_nat (unat n) @ '' B''
      else
        (case unit_loop (n div 1024) 1024 0 of
           (d, i) \<Rightarrow>
             let val = f64_div (f64_of_int (uint n)) (f64_of_int (uint d)) in
             (case (if promote_at \<le> val \<and> i < length unit_letters - 1
                    then (f64_div (f64_of_int (uint n)) (f64_of_int (uint (d * 1024))), Suc i)
                    else (val, i)) of
                (v, j) \<Rightarrow> fixed1 v @ '' '' @ [unit_letters ! j] @ ''iB'')))"

section \<open>The progress of an import\<close>

record ingest_progress =
  ipTotalFiles :: "64 word"
  ipTotalBytes :: "64 word"
  ipBytesDone :: "64 word"
  ipFilesDone :: "64 word"

definition new_progress :: "64 word \<Rightarrow> 64 word \<Rightarrow> ingest_progress" where
  "new_progress files bytes =
     \<lparr>ipTotalFiles = files, ipTotalBytes = bytes, ipBytesDone = 0, ipFilesDone = 0\<rparr>"

text \<open>A nil \<open>*Progress\<close> is \<open>None\<close>; every method accepts it.\<close>

definition add_bytes :: "int \<Rightarrow> ingest_progress option \<Rightarrow> ingest_progress option" where
  "add_bytes n = map_option (\<lambda>p. p\<lparr>ipBytesDone := ipBytesDone p + of_int n\<rparr>)"

definition file_done :: "ingest_progress option \<Rightarrow> ingest_progress option" where
  "file_done = map_option (\<lambda>p. p\<lparr>ipFilesDone := ipFilesDone p + 1\<rparr>)"

definition percent :: "rat \<Rightarrow> rat \<Rightarrow> rat" where
  "percent a b = (let pct = rnd64s (rnd64s (a / b) * 100) in if 100 < pct then 100 else pct)"

definition ingest_eta :: "(rat \<Rightarrow> 64 word) \<Rightarrow> rat \<Rightarrow> ingest_progress \<Rightarrow> string" where
  "ingest_eta over rate p =
     (if 0 < ipTotalBytes p \<and> 0 < ipBytesDone p \<and> ipBytesDone p < ipTotalBytes p \<and> 0 < rate
      then fmt_duration (sint (f64_s64 over
             (rnd64s (f64_of_int (uint (ipTotalBytes p - ipBytesDone p)) / rate)) * 1000000000))
      else ''--:--'')"

definition finalizing :: string where
  "finalizing = ''  finalizing'' @ [CHR 0xE2, CHR 0x80, CHR 0xA6]"

definition ingest_render :: "(rat \<Rightarrow> 64 word) \<Rightarrow> int \<Rightarrow> ingest_progress \<Rightarrow> goerr + string" where
  "ingest_render over elapsed p =
     (let done = f64_of_int (uint (ipBytesDone p));
          rate = f64_rate done elapsed;
          pct = (if 0 < ipTotalBytes p then percent done (f64_of_int (uint (ipTotalBytes p))) else 100) in
      case bar pct 16 of
        Inl e \<Rightarrow> Inl e
      | Inr b \<Rightarrow>
          Inr (''ingest '' @ pad_left 5 (fixed1 pct) @ ''% '' @ b @ ''  '' @
            human_bytes (ipBytesDone p) @ ''/'' @ human_bytes (ipTotalBytes p) @ ''  '' @
            human_bytes (f64_u64 over rate) @ ''/s  elapsed '' @ fmt_duration elapsed @
            ''  eta '' @ ingest_eta over rate p @ ''  files '' @ dec_nat (unat (ipFilesDone p)) @ ''/'' @
            dec_int (sint (ipTotalFiles p)) @
            (if 0 < ipTotalBytes p \<and> ipTotalBytes p \<le> ipBytesDone p then finalizing else [])))"

section \<open>The progress of a transfer\<close>

record xfer_progress =
  xpVerb :: string
  xpTotalBytes :: "64 word"
  xpReqObjs :: "64 word"
  xpDoneObjs :: "64 word"
  xpDoneBytes :: "64 word"
  xpWireBytes :: "64 word"
  xpFinished :: bool

definition new_xfer :: "string \<Rightarrow> 64 word \<Rightarrow> xfer_progress" where
  "new_xfer verb footprint = \<lparr>xpVerb = verb, xpTotalBytes = footprint, xpReqObjs = 0, xpDoneObjs = 0,
     xpDoneBytes = 0, xpWireBytes = 0, xpFinished = False\<rparr>"

definition xfer_requested :: "int \<Rightarrow> 64 word \<Rightarrow> xfer_progress option \<Rightarrow> xfer_progress option" where
  "xfer_requested objects bytes = map_option (\<lambda>x. x\<lparr>xpReqObjs := xpReqObjs x + of_int objects\<rparr>)"

definition xfer_transferred :: "int \<Rightarrow> int \<Rightarrow> xfer_progress option \<Rightarrow> xfer_progress option" where
  "xfer_transferred objects bytes =
     map_option (\<lambda>x. x\<lparr>xpDoneObjs := xpDoneObjs x + of_int objects, xpDoneBytes := xpDoneBytes x + of_int bytes\<rparr>)"

definition xfer_wire :: "int \<Rightarrow> xfer_progress option \<Rightarrow> xfer_progress option" where
  "xfer_wire bytes = map_option (\<lambda>x. x\<lparr>xpWireBytes := xpWireBytes x + of_int bytes\<rparr>)"

definition xfer_finish :: "xfer_progress option \<Rightarrow> xfer_progress option" where
  "xfer_finish = map_option (\<lambda>x. x\<lparr>xpFinished := True\<rparr>)"

text \<open>\<open>float64\<close> of an \<open>int64\<close> counter.\<close>

definition f64_i64 :: "64 word \<Rightarrow> rat" where
  "f64_i64 w = rnd64s (of_int (sint w))"

definition xfer_percent :: "xfer_progress \<Rightarrow> rat" where
  "xfer_percent x =
     (if xpFinished x then 100
      else if 0 < sint (xpTotalBytes x) then percent (f64_i64 (xpDoneBytes x)) (f64_i64 (xpTotalBytes x))
      else 0)"

definition xfer_render :: "(rat \<Rightarrow> 64 word) \<Rightarrow> int \<Rightarrow> xfer_progress \<Rightarrow> goerr + string" where
  "xfer_render over elapsed x =
     (let pct = xfer_percent x in
      case bar pct 16 of
        Inl e \<Rightarrow> Inl e
      | Inr b \<Rightarrow>
          Inr (xpVerb x @ '' '' @ pad_left 5 (fixed1 pct) @ ''% '' @ b @ ''  '' @
            human_bytes (xpDoneBytes x) @ ''/'' @ human_bytes (xpTotalBytes x) @ ''  '' @
            human_bytes (f64_u64 over (f64_rate (f64_i64 (xpDoneBytes x)) elapsed)) @ ''/s (wire '' @
            human_bytes (f64_u64 over (f64_rate (f64_i64 (xpWireBytes x)) elapsed)) @ ''/s)  elapsed '' @
            fmt_duration elapsed @ ''  objects '' @ dec_int (sint (xpDoneObjs x)) @ ''/'' @
            dec_int (sint (xpReqObjs x))))"

definition xfer_summary :: "(rat \<Rightarrow> 64 word) \<Rightarrow> int \<Rightarrow> xfer_progress \<Rightarrow> string" where
  "xfer_summary over elapsed x =
     (if xpDoneObjs x = 0 then xpVerb x @ '': everything up to date''
      else xpVerb x @ ''ed '' @ dec_int (sint (xpDoneObjs x)) @ '' objects, '' @ human_bytes (xpDoneBytes x) @
        '' in '' @ fmt_duration elapsed @ '' ('' @
        human_bytes (f64_u64 over (f64_rate (f64_i64 (xpDoneBytes x)) elapsed)) @ ''/s; wire '' @
        human_bytes (xpWireBytes x) @ '', '' @
        human_bytes (f64_u64 over (f64_rate (f64_i64 (xpWireBytes x)) elapsed)) @ ''/s)'')"

text \<open>
  The interface \<open>wantsync.Progress\<close>: an implementation tracks what the observer of the want loop
  has been told if each of its three methods does.
\<close>

datatype progress_call = Requested int "64 word" | Transferred int int | Wire int

locale progress_observer =
  fixes req :: "int \<Rightarrow> 64 word \<Rightarrow> 'x \<Rightarrow> 'x"
    and tra :: "int \<Rightarrow> int \<Rightarrow> 'x \<Rightarrow> 'x"
    and wir :: "int \<Rightarrow> 'x \<Rightarrow> 'x"
    and tracks :: "'x \<Rightarrow> progress option \<Rightarrow> bool"
  assumes tracks_req: "tracks x p \<Longrightarrow> tracks (req n b x) (prog_requested n b p)"
    and tracks_tra: "tracks x p \<Longrightarrow> tracks (tra n i x) (prog_transferred n i p)"
    and tracks_wir: "tracks x p \<Longrightarrow> tracks (wir n x) (prog_wire n p)"
begin

definition run_call :: "progress_call \<Rightarrow> 'x \<Rightarrow> 'x" where
  "run_call c = (case c of Requested n b \<Rightarrow> req n b | Transferred n i \<Rightarrow> tra n i | Wire n \<Rightarrow> wir n)"

lemma tracks_calls:
  "tracks x p \<Longrightarrow> tracks (fold run_call cs x)
     (fold (\<lambda>c. case c of Requested n b \<Rightarrow> prog_requested n b | Transferred n i \<Rightarrow> prog_transferred n i | Wire n \<Rightarrow> prog_wire n) cs p)"
  by (induction cs arbitrary: x p) (simp_all add: run_call_def tracks_req tracks_tra tracks_wir split: progress_call.split)

end

definition xfer_tracks :: "xfer_progress option \<Rightarrow> progress option \<Rightarrow> bool" where
  "xfer_tracks x p =
     (case (x, p) of
        (None, None) \<Rightarrow> True
      | (Some x, Some p) \<Rightarrow>
          xpReqObjs x = of_int (pgReqObjs p) \<and> xpDoneObjs x = of_int (pgXferObjs p) \<and>
          xpDoneBytes x = of_int (pgXferBytes p) \<and> xpWireBytes x = of_int (pgWire p)
      | _ \<Rightarrow> False)"

interpretation xfer: progress_observer xfer_requested xfer_transferred xfer_wire xfer_tracks
  by unfold_locales
    (auto simp: xfer_tracks_def xfer_requested_def xfer_transferred_def xfer_wire_def prog_requested_def
      prog_transferred_def prog_wire_def split: option.splits)

definition prog_call :: "progress_call \<Rightarrow> progress option \<Rightarrow> progress option" where
  "prog_call c = (case c of Requested n b \<Rightarrow> prog_requested n b | Transferred n i \<Rightarrow> prog_transferred n i | Wire n \<Rightarrow> prog_wire n)"

definition xfer_call :: "progress_call \<Rightarrow> xfer_progress option \<Rightarrow> xfer_progress option" where
  "xfer_call c = (case c of Requested n b \<Rightarrow> xfer_requested n b | Transferred n i \<Rightarrow> xfer_transferred n i | Wire n \<Rightarrow> xfer_wire n)"

section \<open>The render loop\<close>

text \<open>
  What \<open>runProgressLoop\<close> waits for: the ticker or the end of the context, at a given elapsed
  time.  \<open>None\<close>: the context has not ended yet.  A panic of \<open>render\<close> ends the loop.
\<close>

datatype loop_event = Tick int | Cancelled int

definition erase_line :: string where "erase_line = [CHR 0x0D, CHR 0x1B] @ ''[K''"

definition draw_line :: "bool \<Rightarrow> string \<Rightarrow> string" where
  "draw_line tty line = (if tty then erase_line @ line else line @ [CHR 0x0A])"

fun progress_loop ::
  "bool \<Rightarrow> (int \<Rightarrow> goerr + string) \<Rightarrow> loop_event list \<Rightarrow> string \<Rightarrow> (goerr + string) option" where
  "progress_loop tty render [] out = None"
| "progress_loop tty render (Tick t # evs) out =
     (case render t of
        Inl e \<Rightarrow> Some (Inl e)
      | Inr line \<Rightarrow> progress_loop tty render evs (out @ draw_line tty line))"
| "progress_loop tty render (Cancelled t # evs) out =
     (if tty then Some (Inr (out @ erase_line))
      else (case render t of
              Inl e \<Rightarrow> Some (Inl e)
            | Inr line \<Rightarrow> Some (Inr (out @ draw_line tty line))))"

definition run_progress_loop ::
  "bool \<Rightarrow> (int \<Rightarrow> goerr + string) \<Rightarrow> int \<Rightarrow> loop_event list \<Rightarrow> (goerr + string) option" where
  "run_progress_loop tty render t0 evs =
     (case render t0 of
        Inl e \<Rightarrow> Some (Inl e)
      | Inr line \<Rightarrow> progress_loop tty render evs (draw_line tty line))"

section \<open>Lemmas: durations\<close>

text \<open>Reading a clock back: fields separated by colons, each worth sixty of the next.\<close>

definition clock_secs :: "string \<Rightarrow> int" where
  "clock_secs t = foldl (\<lambda>a f. 60 * a + int (dec_val f)) 0 (split_at (CHR '':'') t)"

lemma colon_not_digit: "\<forall>c\<in>set s. is_digit c \<Longrightarrow> CHR '':'' \<notin> set s"
  by (auto simp: is_digit_def)

lemmas no_colon [simp] = colon_not_digit [OF dec_nat_digits] colon_not_digit [OF two_digits_digits]

lemma clock_ms: "clock_secs (dec_nat m @ '':'' @ two_digits s) = 60 * int m + int s"
  by (simp add: clock_secs_def split_at_append split_at_absent)

lemma clock_hms:
  "clock_secs (dec_nat h @ '':'' @ two_digits m @ '':'' @ two_digits s) = 3600 * int h + 60 * int m + int s"
  by (simp add: clock_secs_def split_at_append split_at_absent)

lemma round_seconds_eq:
  assumes "0 \<le> d" and "d + second \<le> max_duration"
  shows "round_seconds d = (d + second div 2) div second * second"
proof -
  define r q where "r = d mod second" and "q = d div second"
  have d: "d = q * second + r" and r: "0 \<le> r" "r < second" by (simp_all add: r_def q_def second_def)
  have e: "round_seconds d = (if r + r < second then d - r
      else if d + (second - r) \<le> max_duration then d + (second - r) else max_duration)"
    by (simp add: round_seconds_def Let_def r_def)
  show ?thesis
  proof (cases "r + r < second")
    case True
    then have "(d + second div 2) div second = q" using d r by (auto simp: second_def)
    with True d show ?thesis unfolding e by simp
  next
    case False
    then have "(d + second div 2) div second = q + 1" using d r by (auto simp: second_def)
    moreover have "d + (second - r) \<le> max_duration" using r assms(2) by simp
    ultimately show ?thesis using False d unfolding e by (simp add: algebra_simps)
  qed
qed

lemma fmt_duration_secs:
  assumes "0 \<le> t" and "round_seconds (if d < 0 then 0 else d) = t * second"
  shows "fmt_duration d =
    (if 3600 \<le> t
     then dec_nat (nat (t div 3600)) @ '':'' @ two_digits (nat (t mod 3600 div 60)) @ '':'' @ two_digits (nat (t mod 60))
     else dec_nat (nat (t div 60)) @ '':'' @ two_digits (nat (t mod 60)))"
proof -
  let ?d = "t * second"
  have h: "?d div (3600 * second) = t div 3600" by (simp add: second_def)
  have m: "(?d - t div 3600 * (3600 * second)) div (60 * second) = t mod 3600 div 60"
  proof -
    have "?d - t div 3600 * (3600 * second) = t mod 3600 * second"
      using div_mult_mod_eq [of t 3600] unfolding second_def by linarith
    then show ?thesis by (simp add: second_def)
  qed
  have s: "(?d - t div 3600 * (3600 * second) - t mod 3600 div 60 * (60 * second)) div second = t mod 60"
  proof -
    have "t mod 3600 mod 60 = t mod 60" by (simp add: mod_mod_cancel)
    then have "?d - t div 3600 * (3600 * second) - t mod 3600 div 60 * (60 * second) = t mod 60 * second"
      using div_mult_mod_eq [of t 3600] div_mult_mod_eq [of "t mod 3600" 60] unfolding second_def by linarith
    then show ?thesis by (simp add: second_def)
  qed
  have "0 < t div 3600 \<longleftrightarrow> 3600 \<le> t" using assms(1) by linarith
  moreover have "\<not> 3600 \<le> t \<Longrightarrow> t mod 3600 = t" using assms(1) by simp
  ultimately show ?thesis unfolding fmt_duration_def assms(2) Let_def h m s by auto
qed

section \<open>Lemmas: the bar\<close>

definition bar_cells :: "rat \<Rightarrow> int \<Rightarrow> int" where
  "bar_cells pct width = \<lfloor>rnd64 (rnd64 (max 0 (min 100 pct) / 100) * of_int width)\<rfloor>"

lemma bar_cells_mono: "0 \<le> width \<Longrightarrow> p \<le> q \<Longrightarrow> bar_cells p width \<le> bar_cells q width"
  unfolding bar_cells_def
  by (intro floor_mono rnd64_mono mult_right_mono) (auto intro!: rnd64_mono divide_right_mono)

lemma rnd64_upto_nat: "q \<le> of_int n \<Longrightarrow> 0 \<le> n \<Longrightarrow> n < 2 ^ 53 \<Longrightarrow> rnd64 q \<le> of_int n"
  using rnd64_mono [of q "of_int n"] rnd64_nat [of "nat n"] by simp

lemma bar_cells_bounds:
  assumes "0 \<le> width" and "width < 2 ^ 53"
  shows "0 \<le> bar_cells p width" and "bar_cells p width \<le> width"
proof -
  show "0 \<le> bar_cells p width" by (simp add: bar_cells_def rnd64_nonneg)
  have "rnd64 (max 0 (min 100 p) / 100) \<le> 1" using rnd64_upto_nat [of "max 0 (min 100 p) / 100" 1] by simp
  then have "rnd64 (max 0 (min 100 p) / 100) * of_int width \<le> of_int width"
    using assms(1) mult_right_mono [of _ 1 "of_int width :: rat"] by force
  from rnd64_upto_nat [OF this assms] show "bar_cells p width \<le> width"
    unfolding bar_cells_def by linarith
qed

lemma bar_eq:
  assumes "0 \<le> width" and "width < 2 ^ 53"
  shows "bar p width = Inr (''['' @ concat (replicate (nat (bar_cells p width)) full_cell) @
    concat (replicate (nat (width - bar_cells p width)) light_cell) @ '']'')"
proof -
  have w: "rnd64s (of_int width) = of_int width"
    using assms rnd64_nat [of "nat width"] by (simp add: rnd64s_def)
  let ?c = "max 0 (min 100 p)"
  have c: "(let q = (if p < 0 then 0 else p) in if 100 < q then 100 else q) = ?c" by (simp add: Let_def)
  have d: "rnd64s (?c / 100) = rnd64 (?c / 100)" by (rule rnd64s_nonneg) simp
  have "0 \<le> rnd64 (?c / 100) * of_int width" using assms(1) by (simp add: rnd64_nonneg)
  then have "rnd64s (rnd64 (?c / 100) * of_int width) = rnd64 (rnd64 (?c / 100) * of_int width)"
    by (rule rnd64s_nonneg)
  moreover have "f64_trunc (rnd64 q) = \<lfloor>rnd64 q\<rfloor>" for q using rnd64_nonneg [of q] by (simp add: f64_trunc_def)
  ultimately have f: "f64_trunc (rnd64s (rnd64s (?c / 100) * rnd64s (of_int width))) = bar_cells p width"
    unfolding d w by (simp add: bar_cells_def)
  with bar_cells_bounds [OF assms, of p] show ?thesis
    unfolding bar_def Let_def c [unfolded Let_def] f by (simp add: repeat_str_def)
qed

section \<open>Lemmas: sizes\<close>

lemma units_small: "1024 ^ Suc i \<le> N \<Longrightarrow> N < 2 ^ 64 \<Longrightarrow> i \<le> (5 :: nat)" for N :: nat
proof (rule ccontr)
  assume "1024 ^ Suc i \<le> N" "N < 2 ^ 64" "\<not> i \<le> 5"
  then have "(1024 :: nat) ^ 7 \<le> 1024 ^ Suc i" by (intro power_increasing) auto
  with \<open>1024 ^ Suc i \<le> N\<close> \<open>N < 2 ^ 64\<close> show False by simp
qed

lemma unit_loop_spec:
  assumes "unit_loop m d i = (d', j)" and "unat m = N div 1024 ^ Suc i" and "unat d = 1024 ^ Suc i"
    and "1024 ^ Suc i \<le> N" and "N < 2 ^ 64"
  shows "unat d' = 1024 ^ Suc j \<and> 1024 ^ Suc j \<le> N \<and> N < 1024 ^ Suc (Suc j)"
  using assms(1-4)
proof (induction m d i rule: unit_loop.induct)
  case (1 m d i)
  show ?case
  proof (cases "1024 \<le> m")
    case True
    then have "1024 \<le> N div 1024 ^ Suc i" using "1.prems"(2) by (simp add: word_le_nat_alt)
    then have N: "1024 ^ Suc (Suc i) \<le> N"
      by (simp add: less_eq_div_iff_mult_less_eq mult.commute)
    have "unat (d * 1024) = 1024 ^ Suc (Suc i)"
      using N assms(5) "1.prems"(3) by (simp add: unat_word_ariths)
    moreover have "unat (m div 1024) = N div 1024 ^ Suc (Suc i)"
      using "1.prems"(2) by (simp add: unat_div mult.commute flip: div_mult2_eq)
    moreover have "unit_loop (m div 1024) (d * 1024) (Suc i) = (d', j)"
      using "1.prems"(1) True by (simp add: unit_loop.simps [of m d i])
    ultimately show ?thesis using "1.IH" [OF True] N by blast
  next
    case False
    then have "unat m < 1024" by (simp add: word_le_nat_alt not_le word_less_nat_alt)
    with "1.prems"(2) have "N < 1024 ^ Suc (Suc i)"
      by (simp add: div_less_iff_less_mult mult.commute)
    with False "1.prems" show ?thesis by (simp add: unit_loop.simps [of m d i])
  qed
qed

text \<open>The number shown and the unit, for the unit found by the loop.\<close>

lemma unit_value:
  assumes "unat d = 1024 ^ Suc j"
  shows "f64_div (f64_of_int (uint n)) (f64_of_int (uint d)) = rnd64 (of_nat (unat n)) / 1024 ^ Suc j"
proof -
  have p: "pow2 (int (10 * Suc j)) = 1024 ^ Suc j" "pow2 (- int (10 * Suc j)) = 1 / 1024 ^ Suc j"
  proof -
    have "(2 :: rat) ^ (10 * Suc j) = (2 ^ 10) ^ Suc j" by (rule power_mult)
    then show "pow2 (int (10 * Suc j)) = 1024 ^ Suc j" "pow2 (- int (10 * Suc j)) = 1 / 1024 ^ Suc j"
      unfolding pow2_nat pow2_neg by simp_all
  qed
  have "uint d = int (1024 ^ Suc j)" using assms by (metis uint_nat)
  then have "f64_of_int (uint d) = rnd64 (1024 ^ Suc j)" by (simp add: f64_of_int_def)
  then have "f64_of_int (uint d) = pow2 (int (10 * Suc j))" unfolding p(1) [symmetric] rnd64_pow2 .
  moreover have "f64_of_int (uint n) = rnd64 (of_nat (unat n))" by (simp add: f64_of_int_def)
  moreover have "rnd64 (rnd64 q / pow2 (int (10 * Suc j))) = rnd64 q / 1024 ^ Suc j" for q
  proof -
    have "rnd64 q / pow2 (int (10 * Suc j)) = rnd64 q * pow2 (- int (10 * Suc j))" unfolding p by simp
    then have "rnd64 (rnd64 q / pow2 (int (10 * Suc j))) = rnd64 q * pow2 (- int (10 * Suc j))"
      by (simp only: rnd64_scale rnd64_idem)
    then show ?thesis unfolding p by simp
  qed
  ultimately show ?thesis unfolding f64_div_def by simp
qed

text \<open>A float below the float nearest to 1023.95 is below 1023.95 itself.\<close>

lemma promote_at_eq: "promote_at = of_int 9006759450089882 * pow2 (- 43)"
proof -
  have "ilog2 (102395 / 100) = 9" by (rule ilog2_unique) (simp_all add: pow2_def)
  moreover have "\<lfloor>45033797250449408 / 5 :: rat\<rfloor> = 9006759450089881" by (simp add: floor_eq_iff)
  ultimately show ?thesis by (simp add: promote_at_def rnd64_def pow2_def round_even_def Let_def)
qed

lemma below_promote:
  assumes "rnd64 v = v" and "v < promote_at"
  shows "v < 102395 / 100"
proof (cases "0 < v")
  case True
  show ?thesis
  proof (cases "ilog2 v = 9")
    case eq: True
    from True obtain m where "rnd64 v = of_int m * pow2 (ilog2 v - 52)" by (rule rnd64_mantissa)
    with assms(1) eq have v: "v = of_int m * pow2 (- 43)" by simp
    with assms(2) have "of_int m < (of_int 9006759450089882 :: rat)" unfolding promote_at_eq by simp
    then have "m \<le> 9006759450089881" by simp
    then have "(of_int m :: rat) \<le> of_int 9006759450089881" by (simp only: of_int_le_iff)
    then have "v \<le> of_int 9006759450089881 * pow2 (- 43)" unfolding v by (intro mult_right_mono) simp_all
    also have "\<dots> < 102395 / 100" by (simp add: pow2_def)
    finally show ?thesis .
  next
    case False
    have "v < pow2 10" using assms(2) unfolding promote_at_eq by (simp add: pow2_def)
    with ilog2_bounds [OF True] have "\<not> 10 \<le> ilog2 v" using pow2_mono [of 10 "ilog2 v"] by force
    with False have "ilog2 v + 1 \<le> 9" by simp
    with ilog2_bounds [OF True] pow2_mono [of "ilog2 v + 1" 9] have "v < pow2 9" by linarith
    then show ?thesis by (simp add: pow2_def)
  qed
qed simp

lemma tenths_bounds:
  assumes "of_nat a < 10 * q + 1 / 2" and "10 * q < of_nat b + 1 / 2" and "0 \<le> q"
  shows "a \<le> tenths q" and "tenths q \<le> b" and "\<bar>of_nat (tenths q) / 10 - q\<bar> \<le> 1 / 20"
proof -
  have q: "\<bar>q\<bar> = q" using assms(3) by simp
  let ?r = "round_even (10 * q)"
  have r: "of_int ?r \<le> 10 * q + 1 / 2" "10 * q \<le> of_int ?r + 1 / 2"
    using abs_le_D1 [OF round_even_near [of "10 * q"]] abs_le_D2 [OF round_even_near [of "10 * q"]] by linarith+
  with assms have "of_int (int a - 1) < (of_int ?r :: rat)" "of_int ?r < (of_int (int b + 1) :: rat)" by simp_all
  then have ab: "int a \<le> ?r" "?r \<le> int b" unfolding of_int_less_iff by simp_all
  then show "a \<le> tenths q" "tenths q \<le> b" by (simp_all add: tenths_def q)
  have t: "of_nat (tenths q) = (of_int ?r :: rat)" using ab(1) by (simp add: tenths_def q)
  show "\<bar>of_nat (tenths q) / 10 - q\<bar> \<le> 1 / 20" unfolding t using r by (intro abs_leI) linarith+
qed

lemma shown_value:
  assumes "19 / 20 < v" and "10 * v < 10239 + 1 / 2" and "\<bar>v - x\<bar> \<le> 1 / 1000"
  shows "\<exists>t. fixed1 v = dec_nat (t div 10) @ ''.'' @ dec_nat (t mod 10) \<and> 10 \<le> t \<and> t < 10240 \<and>
    \<bar>of_nat t / 10 - x\<bar> \<le> 51 / 1000"
proof (intro exI conjI)
  show "fixed1 v = dec_nat (tenths v div 10) @ ''.'' @ dec_nat (tenths v mod 10)"
    using assms(1) by (simp add: fixed1_def)
  note b = tenths_bounds [of 10 v 10239]
  show "10 \<le> tenths v" using b(1) assms by simp
  have "tenths v \<le> 10239" using b(2) assms by simp
  then show "tenths v < 10240" by simp
  have "\<bar>of_nat (tenths v) / 10 - v\<bar> \<le> 1 / 20" using b(3) assms by simp
  with assms(3) show "\<bar>of_nat (tenths v) / 10 - x\<bar> \<le> 51 / 1000" by linarith
qed

lemma unit_float:
  fixes N j :: nat
  assumes "1024 ^ Suc j \<le> N" and "N < 1024 ^ Suc (Suc j)"
  defines "D \<equiv> (1024 :: rat) ^ Suc j"
  defines "v \<equiv> rnd64 (of_nat N) / D" and "x \<equiv> of_nat N / D"
  shows "x < 1024" and "\<bar>v - x\<bar> \<le> 1 / 1000" and "1 \<le> v" and "v \<le> 1024" and "rnd64 v = v"
proof -
  have D: "0 < D" by (simp add: D_def)
  have Dp: "D = pow2 (int (10 * Suc j))"
  proof -
    have "(2 :: rat) ^ (10 * Suc j) = (2 ^ 10) ^ Suc j" by (rule power_mult)
    then show ?thesis unfolding pow2_nat D_def by simp
  qed
  have D1: "1024 * D = pow2 (10 + int (10 * Suc j))" unfolding Dp pow2_add by (simp add: pow2_def)
  have "of_nat (1024 ^ Suc j) \<le> (of_nat N :: rat)" "of_nat N < (of_nat (1024 ^ Suc (Suc j)) :: rat)"
    using assms(1,2) by (simp_all only: of_nat_le_iff of_nat_less_iff)
  then have n: "D \<le> of_nat N" "of_nat N < 1024 * D" by (simp_all add: D_def)
  then show x: "x < 1024" using D by (simp add: x_def divide_less_eq)
  have "\<bar>v - x\<bar> = \<bar>rnd64 (of_nat N) - of_nat N\<bar> / D" using D by (simp add: v_def x_def flip: diff_divide_distrib)
  also have "\<dots> \<le> (of_nat N / 2 ^ 53) / D" using rnd64_near [of "of_nat N"] D by (intro divide_right_mono) simp_all
  also have "\<dots> \<le> 1024 / 2 ^ 53" using x by (simp add: x_def less_imp_le)
  also have "\<dots> \<le> 1 / 1000" by simp
  finally show "\<bar>v - x\<bar> \<le> 1 / 1000" .
  have "rnd64 D \<le> rnd64 (of_nat N)" "rnd64 (of_nat N) \<le> rnd64 (1024 * D)" using n by (auto intro: rnd64_mono)
  then have "D \<le> rnd64 (of_nat N)" "rnd64 (of_nat N) \<le> 1024 * D" unfolding D1 unfolding Dp rnd64_pow2 by simp_all
  with D show "1 \<le> v" "v \<le> 1024" by (simp_all add: v_def le_divide_eq divide_le_eq)
  have "v = rnd64 (of_nat N) * pow2 (- int (10 * Suc j))" unfolding v_def Dp by (rule divide_pow2)
  then show "rnd64 v = v" by (simp only: rnd64_scale rnd64_idem)
qed

section \<open>Properties\<close>

text \<open>
  Fact (sizes).  From 1 KiB on, \<open>humanBytes\<close> shows a number from 1.0 to 1023.9 and one of
  its six units, for every \<open>uint64\<close>; the number is at most 0.051 of the unit away from the
  size (so the promotion at 1023.95 and the rounding of the \<open>float64\<close>s lose nothing).
\<close>

theorem human_bytes_shows:
  assumes "1024 \<le> n"
  shows "\<exists>t u. human_bytes n = dec_nat (t div 10) @ ''.'' @ dec_nat (t mod 10) @ '' '' @ [unit_letters ! u] @ ''iB'' \<and>
    10 \<le> t \<and> t < 10240 \<and> u < length unit_letters \<and>
    \<bar>of_nat t / 10 - of_nat (unat n) / (1024 :: rat) ^ Suc u\<bar> \<le> 51 / 1000"
proof -
  define N where "N = unat n"
  have N: "N < 2 ^ 64" "1024 \<le> N" using assms unsigned_less [of n] by (simp_all add: N_def word_le_nat_alt)
  obtain d j where dj: "unit_loop (n div 1024) 1024 0 = (d, j)" by fastforce
  have "unat d = 1024 ^ Suc j \<and> 1024 ^ Suc j \<le> N \<and> N < 1024 ^ Suc (Suc j)"
    using unit_loop_spec [OF dj, of N] N by (simp add: unat_div N_def)
  then have d: "unat d = 1024 ^ Suc j" and lo: "1024 ^ Suc j \<le> N" and hi: "N < 1024 ^ Suc (Suc j)" by auto
  from units_small [OF lo N(1)] have j: "j \<le> 5" .
  define v x where "v = rnd64 (of_nat N) / 1024 ^ Suc j" and "x = (of_nat N :: rat) / 1024 ^ Suc j"
  note vx = unit_float [OF lo hi, folded v_def x_def]
  have near: "v - x \<le> 1 / 1000" "x - v \<le> 1 / 1000" using abs_le_D1 [OF vx(2)] abs_le_D2 [OF vx(2)] by simp_all
  have val: "f64_div (f64_of_int (uint n)) (f64_of_int (uint d)) = v"
    using unit_value [OF d, of n] by (simp add: v_def N_def)
  have hb: "human_bytes n = (case (if promote_at \<le> v \<and> j < 5
      then (f64_div (f64_of_int (uint n)) (f64_of_int (uint (d * 1024))), Suc j) else (v, j)) of
        (w, u) \<Rightarrow> fixed1 w @ '' '' @ [unit_letters ! u] @ ''iB'')"
    using assms by (simp add: human_bytes_def dj Let_def val unit_letters_def not_less)
  show ?thesis
  proof (cases "promote_at \<le> v \<and> j < 5")
    case True
    have "(1024 :: nat) ^ Suc (Suc j) \<le> 1024 ^ 6" using True by (intro power_increasing) auto
    then have d': "unat (d * 1024) = 1024 ^ Suc (Suc j)" using d by (simp add: unat_word_ariths)
    have w: "f64_div (f64_of_int (uint n)) (f64_of_int (uint (d * 1024))) = v / 1024"
      using unit_value [OF d', of n] by (simp add: v_def N_def)
    have "(102394 / 100 :: rat) \<le> promote_at" unfolding promote_at_eq by (simp add: pow2_def)
    with True vx(4) have "19 / 20 < v / 1024" "10 * (v / 1024) < 10239 + 1 / 2" by linarith+
    moreover have "\<bar>v / 1024 - x / 1024\<bar> \<le> 1 / 1000" using near by (intro abs_leI) linarith+
    ultimately obtain t where "fixed1 (v / 1024) = dec_nat (t div 10) @ ''.'' @ dec_nat (t mod 10)"
        "10 \<le> t" "t < 10240" "\<bar>of_nat t / 10 - x / 1024\<bar> \<le> 51 / 1000"
      using shown_value [of "v / 1024" "x / 1024"] by force
    with True show ?thesis unfolding hb w
      by (intro exI [of _ t] exI [of _ "Suc j"]) (simp add: x_def N_def unit_letters_def)
  next
    case False
    have "10 * v < 10239 + 1 / 2"
    proof (cases "promote_at \<le> v")
      case True
      with False j have "j = 5" by simp
      have "of_nat N < (2 ^ 64 :: rat)" using N(1) by (metis of_nat_less_iff of_nat_numeral of_nat_power)
      with \<open>j = 5\<close> have "x < 16" by (simp add: x_def divide_less_eq)
      with near show ?thesis by linarith
    next
      case False
      with below_promote [OF vx(5)] show ?thesis by linarith
    qed
    then obtain t where
      "fixed1 v = dec_nat (t div 10) @ ''.'' @ dec_nat (t mod 10)" "10 \<le> t" "t < 10240"
      "\<bar>of_nat t / 10 - x\<bar> \<le> 51 / 1000"
      using shown_value [of v x] vx(2,3) by force
    moreover have "j < length unit_letters" using j by (simp add: unit_letters_def)
    ultimately show ?thesis unfolding hb if_not_P [OF False]
      by (intro exI [of _ t] exI [of _ j]) (simp add: x_def N_def)
  qed
qed

theorem human_bytes_shows_witness:
  "(1024 :: 64 word) \<le> 1048575 \<and>
   (\<exists>t u. human_bytes 1048575 = dec_nat (t div 10) @ ''.'' @ dec_nat (t mod 10) @ '' '' @ [unit_letters ! u] @ ''iB'' \<and>
     10 \<le> t \<and> t < 10240 \<and> u < length unit_letters \<and>
     \<bar>of_nat t / 10 - of_nat (unat (1048575 :: 64 word)) / (1024 :: rat) ^ Suc u\<bar> \<le> 51 / 1000)"
proof -
  have "(1024 :: 64 word) \<le> 1048575" by (simp add: word_le_nat_alt)
  with human_bytes_shows [OF this] show ?thesis by blast
qed

text \<open>
  Fact (durations read back).  \<open>fmtDuration\<close> shows a duration to the nearest second: read as
  hours, minutes and seconds it is that number of seconds, the last two fields have two digits
  and are below sixty; a negative duration shows as zero.
\<close>

theorem fmt_duration_reads_back:
  assumes "d + second \<le> max_duration"
  defines "t \<equiv> (max 0 d + second div 2) div second"
  shows "clock_secs (fmt_duration d) = t \<and>
    (\<exists>h m s. m < 60 \<and> s < 60 \<and> t = int (3600 * h + 60 * m + s) \<and>
       fmt_duration d = (if 0 < h then dec_nat h @ '':'' @ two_digits m @ '':'' @ two_digits s
         else dec_nat m @ '':'' @ two_digits s))"
proof -
  have r: "round_seconds (if d < 0 then 0 else d) = t * second"
  proof (cases "d < 0")
    case True
    then show ?thesis by (simp add: t_def round_seconds_def second_def)
  next
    case False
    with round_seconds_eq [of d] assms(1) show ?thesis by (simp add: t_def)
  qed
  have t: "0 \<le> t" unfolding t_def by (simp add: second_def)
  define h m s where "h = nat (t div 3600)" and "m = nat (t mod 3600 div 60)" and "s = nat (t mod 60)"
  have "t mod 3600 mod 60 = t mod 60" by (simp add: mod_mod_cancel)
  then have split: "t = 3600 * (t div 3600) + 60 * (t mod 3600 div 60) + t mod 60"
    using div_mult_mod_eq [of t 3600] div_mult_mod_eq [of "t mod 3600" 60] by linarith
  have nn: "0 \<le> t div 3600" "0 \<le> t mod 3600 div 60" "0 \<le> t mod 60"
    using t by (simp_all add: pos_imp_zdiv_nonneg_iff)
  have "int h = t div 3600" "int m = t mod 3600 div 60" "int s = t mod 60"
    unfolding h_def m_def s_def by (simp_all only: nat_0_le nn)
  with split have hms: "t = int (3600 * h + 60 * m + s)" by linarith
  have ms: "m < 60" "s < 60" by (auto simp: m_def s_def)
  have h: "0 < h \<longleftrightarrow> 3600 \<le> t" using t hms ms by linarith
  have "\<not> 3600 \<le> t \<Longrightarrow> t div 60 = t mod 3600 div 60" using t by simp
  then have f: "fmt_duration d = (if 0 < h then dec_nat h @ '':'' @ two_digits m @ '':'' @ two_digits s
      else dec_nat m @ '':'' @ two_digits s)"
    unfolding fmt_duration_secs [OF t r] h by (auto simp: h_def m_def s_def)
  then have "clock_secs (fmt_duration d) = t" using hms by (simp add: clock_ms clock_hms del: append.simps)
  with f ms hms show ?thesis by blast
qed

theorem fmt_duration_reads_back_witness:
  "(3599600000000 :: int) + second \<le> max_duration \<and> clock_secs (fmt_duration 3599600000000) = 3600"
proof -
  have d: "(3599600000000 :: int) + second \<le> max_duration" by (simp add: second_def max_duration_def)
  from fmt_duration_reads_back [OF d] have "clock_secs (fmt_duration 3599600000000) = 3600"
    by (simp add: second_def)
  with d show ?thesis by simp
qed

text \<open>
  Fact (the bar).  Whatever the percentage, \<open>bar\<close> does not panic and draws exactly \<open>width\<close>
  cells: none full at 0 or below, all full at 100 or above, and never fewer for a higher percentage.
\<close>

theorem bar_exact:
  assumes "0 \<le> width" and "width < 2 ^ 53"
  shows "\<exists>full. (\<forall>p. full p \<le> nat width \<and>
      bar p width = Inr (''['' @ concat (replicate (full p) full_cell) @
        concat (replicate (nat width - full p) light_cell) @ '']'')) \<and>
    (\<forall>p q. p \<le> q \<longrightarrow> full p \<le> full q) \<and> (\<forall>p. p \<le> 0 \<longrightarrow> full p = 0) \<and> (\<forall>p. 100 \<le> p \<longrightarrow> full p = nat width)"
proof (intro exI [of _ "\<lambda>p. nat (bar_cells p width)"] conjI allI impI)
  fix p q :: rat
  note b = bar_cells_bounds [OF assms, of p]
  then show "nat (bar_cells p width) \<le> nat width" by simp
  have "nat (width - bar_cells p width) = nat width - nat (bar_cells p width)" using b by (simp add: nat_diff_distrib)
  then show "bar p width = Inr (''['' @ concat (replicate (nat (bar_cells p width)) full_cell) @
        concat (replicate (nat width - nat (bar_cells p width)) light_cell) @ '']'')"
    unfolding bar_eq [OF assms] by simp
  show "nat (bar_cells p width) \<le> nat (bar_cells q width)" if "p \<le> q"
    using bar_cells_mono [OF assms(1) that] by simp
  show "nat (bar_cells p width) = 0" if "p \<le> 0" using that by (simp add: bar_cells_def max_def min_def)
  have "rnd64 (of_int width) = of_int width" using assms rnd64_nat [of "nat width"] by simp
  then show "nat (bar_cells p width) = nat width" if "100 \<le> p" using that by (simp add: bar_cells_def min_def)
qed

theorem bar_exact_witness: "\<exists>s. bar 42 16 = Inr s \<and> (0 :: int) \<le> 16"
  using bar_exact [of 16] by auto

text \<open>
  Fact (the transfer bar counts what the want loop reports).  After any sequence of reports
  the counters of an \<open>XferProgress\<close> are the sums the observer interface stands for, modulo
  \<open>2 ^ 64\<close>; a nil one stays nil; and \<open>summary\<close> says that everything is up to date exactly
  when no object has been reported.
\<close>

theorem xfer_refines_observer:
  "xfer_tracks (fold xfer_call cs (Some (new_xfer verb b))) (fold prog_call cs (Some no_progress)) \<and>
   fold xfer_call cs None = None \<and>
   (xfer_summary over t x = xpVerb x @ '': everything up to date'' \<longleftrightarrow> xpDoneObjs x = 0)"
proof (intro conjI)
  have "xfer_call = xfer.run_call" by (simp add: fun_eq_iff xfer_call_def xfer.run_call_def)
  moreover have "xfer_tracks (Some (new_xfer verb b)) (Some no_progress)"
    by (simp add: xfer_tracks_def new_xfer_def no_progress_def)
  ultimately show "xfer_tracks (fold xfer_call cs (Some (new_xfer verb b))) (fold prog_call cs (Some no_progress))"
    using xfer.tracks_calls [of "Some (new_xfer verb b)" "Some no_progress" cs] by (simp add: prog_call_def [abs_def])
  show "fold xfer_call cs None = None"
    by (induction cs) (simp_all add: xfer_call_def xfer_requested_def xfer_transferred_def xfer_wire_def split: progress_call.split)
  show "xfer_summary over t x = xpVerb x @ '': everything up to date'' \<longleftrightarrow> xpDoneObjs x = 0"
    by (simp add: xfer_summary_def)
qed

definition lines_drawn :: "(int \<Rightarrow> goerr + string) \<Rightarrow> int list \<Rightarrow> string list" where
  "lines_drawn render ts = map (\<lambda>t. case render t of Inr l \<Rightarrow> l | Inl e \<Rightarrow> []) ts"

lemma progress_loop_draws:
  assumes "\<And>t. \<exists>l. render t = Inr l"
  shows "progress_loop tty render (map Tick ts @ Cancelled t # evs) out =
    Some (Inr (out @ concat (map (draw_line tty) (lines_drawn render ts)) @
      (if tty then erase_line else draw_line tty (hd (lines_drawn render [t])))))"
proof (induction ts arbitrary: out)
  case Nil
  from assms [of t] show ?case by (auto simp: lines_drawn_def)
next
  case (Cons u us)
  from assms [of u] Cons show ?case by (auto simp: lines_drawn_def)
qed

text \<open>
  Fact (the bars always draw).  Neither bar's \<open>render\<close> ever panics, so the loop that draws
  it runs until its context ends: on a terminal it draws one line per tick and erases the last,
  elsewhere it prints one line per tick, one at the start and one at the end.
\<close>

theorem bars_always_draw:
  assumes "render = (\<lambda>t. ingest_render over t p) \<or> render = (\<lambda>t. xfer_render over t x)"
  shows "run_progress_loop tty render t0 (map Tick ts @ Cancelled t # evs) =
    Some (Inr (concat (map (draw_line tty) (lines_drawn render (t0 # ts))) @
      (if tty then erase_line else draw_line tty (hd (lines_drawn render [t])))))"
proof -
  have "\<exists>l. bar q 16 = Inr l" for q using bar_eq [of 16 q] by auto
  then have r: "\<exists>l. render t = Inr l" for t
    using assms by (auto simp: ingest_render_def xfer_render_def Let_def split: sum.split) (metis sum.distinct(1))+
  from r [of t0] show ?thesis
    by (auto simp: run_progress_loop_def progress_loop_draws [OF r] lines_drawn_def)
qed

theorem bars_always_draw_witness:
  "\<exists>s. run_progress_loop True (\<lambda>t. xfer_render (\<lambda>q. 0) t (new_xfer ''push'' 10)) 0 [Tick 1, Cancelled 2] = Some (Inr s)"
  using bars_always_draw [of "\<lambda>t. xfer_render (\<lambda>q. 0) t (new_xfer ''push'' 10)" "\<lambda>q. 0" _ "new_xfer ''push'' 10" True 0 "[1]" 2 "[]"]
  by simp

end
