(* ===== verification/Push_Log.thy ===== *)
theory Push_Log
  imports Progress_Bar Server_Ops
begin

text \<open>
  server/server.go: \<open>logPush\<close>, the report of a committed push.  \<open>reachable\<close> is
  \<open>fstree.ReachableKeys\<close> over the object store; a duration is in nanoseconds.
\<close>

section \<open>The report\<close>

record push_report =
  lpRef :: string
  lpClient :: string
  lpOffered :: int
  lpTransferred :: nat
  lpBytes :: int
  lpDuration :: int
  lpThroughput :: string

datatype push_log =
    WalkFailed string goerr
  | PushReport push_report

definition milli :: int where "milli = 1000000"

text \<open>\<open>Duration.Round\<close> to milliseconds: halves go away from zero, and an overflow to the end of the range.\<close>

definition round_millis :: "int \<Rightarrow> int" where
  "round_millis d =
     (if d < 0 then
        let r = (- d) mod milli in
        if r + r < milli then d + r
        else if - (2 ^ 63) \<le> d - milli + r then d - milli + r else - (2 ^ 63)
      else
        let r = d mod milli in
        if r + r < milli then d - r
        else if d + milli - r \<le> max_duration then d + milli - r else max_duration)"

definition throughput :: "int \<Rightarrow> int \<Rightarrow> rat" where
  "throughput n d = (if 0 < d then f64_div (f64_div (f64_of_int n) 1000000) (f64_seconds d) else 0)"

definition log_push ::
  "('p, 's, 'r, 'z) server_lib_scheme \<Rightarrow> (key \<Rightarrow> (key \<Rightarrow> goerr + bytes) \<Rightarrow> goerr + key list) \<Rightarrow> 's \<Rightarrow>
     string \<Rightarrow> string \<Rightarrow> key \<Rightarrow> stats \<Rightarrow> int \<Rightarrow> push_log list" where
  "log_push lib reachable st remote name goal sts d =
     (let walk = reachable goal (st_get lib st) in
      (case walk of Inl e \<Rightarrow> [WalkFailed name e] | Inr ks \<Rightarrow> []) @
      [PushReport
         \<lparr>lpRef = name, lpClient = remote, lpOffered = (case walk of Inl e \<Rightarrow> -1 | Inr ks \<Rightarrow> int (length ks)),
          lpTransferred = stReceived sts, lpBytes = stBytes sts, lpDuration = round_millis d,
          lpThroughput = fixed1 (throughput (stBytes sts) d) @ '' MB/s''\<rparr>])"

section \<open>What it shows\<close>

text \<open>The duration shown is a whole number of milliseconds and at most half of one off, inside the range of durations.\<close>

lemma round_millis_near:
  assumes "\<bar>d\<bar> \<le> 2 ^ 63 - 1 - milli"
  shows "milli dvd round_millis d \<and> 2 * \<bar>round_millis d - d\<bar> \<le> milli"
proof (cases "d < 0")
  case False
  define r where "r = d mod milli"
  have "0 \<le> r" "r < milli" by (simp_all add: r_def milli_def)
  moreover have "milli dvd d - r" by (simp add: r_def)
  moreover from this have "milli dvd (d - r) + milli" by simp
  ultimately show ?thesis using assms False
    by (auto simp: round_millis_def r_def [symmetric] Let_def max_duration_def algebra_simps)
next
  case True
  define r where "r = (- d) mod milli"
  have "0 \<le> r" "r < milli" by (simp_all add: r_def milli_def)
  moreover have "milli dvd - d - r" by (simp add: r_def)
  then have "milli dvd d + r" by (metis minus_add_distrib minus_diff_eq diff_minus_eq_add dvd_minus_iff add.commute uminus_add_conv_diff)
  moreover from this have "milli dvd (d + r) - milli" by simp
  ultimately show ?thesis using assms True
    by (auto simp: round_millis_def r_def [symmetric] Let_def algebra_simps)
qed

end
