(* ===== verification/Specs.thy ===== *)
theory Specs
  imports Server_Props Text_Format
begin

text \<open>
  cmd/amber/spec.go: content specs of the command line (\<open>KEY[/PATH]\<close> and \<open>ref:NAME[@PATH]\<close>) and
  the walk from a root key down a path.
\<close>

section \<open>The libraries the client adds\<close>

text \<open>\<open>fstree.Entry\<close>, and \<open>LookupEntry\<close> and \<open>ListEntries\<close>, which read objects with \<open>Get\<close>.\<close>

record entry =
  enName :: bytes
  enMode :: "64 word"
  enUID :: "64 word"
  enGID :: "64 word"
  enMtime :: "64 word"
  enRdev :: "64 word list"
  enLinkTarget :: bytes
  enContentKey :: bytes

record ('p, 's, 'r) cli_lib = "('p, 's, 'r) server_lib" +
  lookup_entry :: "key \<Rightarrow> bytes \<Rightarrow> (key \<Rightarrow> goerr + bytes) \<Rightarrow> goerr + entry"
  list_entries :: "key \<Rightarrow> bytes \<Rightarrow> nat \<Rightarrow> (key \<Rightarrow> goerr + bytes) \<Rightarrow> goerr + entry list \<times> bool"
  rf_delete :: "'r \<Rightarrow> string \<Rightarrow> 'r \<times> goerr option"

text \<open>\<open>[]byte(s)\<close> and \<open>string(b)\<close>.\<close>

definition bytes_of :: "string \<Rightarrow> bytes" where
  "bytes_of s = map of_char s"

definition string_of :: "bytes \<Rightarrow> string" where
  "string_of b = map (\<lambda>x. char_of (unat x)) b"

lemma string_of_bytes_of [simp]: "string_of (bytes_of s) = s"
proof -
  have "unat (of_char c :: byte) = of_char c" for c
  proof -
    have "(of_char c :: byte) = of_nat (of_char c)" by (simp add: of_char_def)
    moreover have "of_char c < (256 :: nat)" by simp
    ultimately show ?thesis by (simp add: unat_of_nat)
  qed
  then show ?thesis by (simp add: string_of_def bytes_of_def comp_def)
qed

section \<open>Hexadecimal (\<open>encoding/hex\<close>)\<close>

definition hex_val :: "char \<Rightarrow> nat option" where
  "hex_val c = (let n = of_char c :: nat in
     if 48 \<le> n \<and> n \<le> 57 then Some (n - 48)
     else if 97 \<le> n \<and> n \<le> 102 then Some (n - 87)
     else if 65 \<le> n \<and> n \<le> 70 then Some (n - 55)
     else None)"

text \<open>\<open>InvalidByteError\<close> shows the byte as \<open>%#U\<close>.\<close>

definition upper_hex :: "nat \<Rightarrow> char" where
  "upper_hex n = (if n < 10 then char_of (48 + n) else char_of (55 + n))"

definition hex_byte_err :: "char \<Rightarrow> goerr" where
  "hex_byte_err c = (let n = of_char c :: nat in
     LibErr (''encoding/hex: invalid byte: U+00'' @ [upper_hex (n div 16), upper_hex (n mod 16)] @
       (if 32 \<le> n \<and> n < 127 then '' '' @ [CHR 0x27, c, CHR 0x27]
        else if 160 < n \<and> n \<noteq> 173
        then '' '' @ [CHR 0x27, char_of (192 + n div 64), char_of (128 + n mod 64), CHR 0x27]
        else [])))"

fun hex_decode :: "string \<Rightarrow> goerr + bytes" where
  "hex_decode [] = Inr []"
| "hex_decode [c] =
     (if hex_val c = None then Inl (hex_byte_err c) else Inl (LibErr ''encoding/hex: odd length hex string''))"
| "hex_decode (c # d # s) =
     (case hex_val c of
        None \<Rightarrow> Inl (hex_byte_err c)
      | Some x \<Rightarrow>
          (case hex_val d of
             None \<Rightarrow> Inl (hex_byte_err d)
           | Some y \<Rightarrow> (case hex_decode s of Inl e \<Rightarrow> Inl e | Inr b \<Rightarrow> Inr (of_nat (16 * x + y) # b))))"

definition hex_encode :: "bytes \<Rightarrow> string" where
  "hex_encode b = concat (map (\<lambda>x. [hex_digit (unat x div 16), hex_digit (unat x mod 16)]) b)"

section \<open>Resolving a spec\<close>

definition parse_hex_key :: "('p, 's, 'z) core_lib_scheme \<Rightarrow> string \<Rightarrow> goerr + key" where
  "parse_hex_key lib s =
     (case hex_decode s of
        Inl e \<Rightarrow> Inl (Wrapf (''invalid key '' @ go_quote s @ '': '') e [])
      | Inr raw \<Rightarrow>
          (case key_parse lib raw of
             Inl e \<Rightarrow> Inl (Wrapf (''invalid key '' @ go_quote s @ '': '') e [])
           | Inr k \<Rightarrow> Inr k))"

definition parse_key_path :: "('p, 's, 'z) core_lib_scheme \<Rightarrow> string \<Rightarrow> goerr + key \<times> string" where
  "parse_key_path lib s =
     (case cut_at (CHR ''/'') s of (key_part, path, _) \<Rightarrow>
        (case parse_hex_key lib key_part of Inl e \<Rightarrow> Inl e | Inr k \<Rightarrow> Inr (k, path)))"

definition resolve_spec ::
  "('p, 's, 'r, 'z) server_lib_scheme \<Rightarrow> 'r \<Rightarrow> string \<Rightarrow> goerr + key \<times> string" where
  "resolve_spec lib refs s =
     (case cut_prefix ''ref:'' s of
        None \<Rightarrow> parse_key_path lib s
      | Some rest \<Rightarrow>
          (case cut_at (CHR ''@'') rest of (name, path, _) \<Rightarrow>
             (case ref_validate lib name of
                Some e \<Rightarrow> Inl (Wrapf (''invalid reference spec '' @ go_quote s @ '': '') e [])
              | None \<Rightarrow>
                  (case rf_get lib refs name of
                     Inl e \<Rightarrow> Inl e
                   | Inr raw \<Rightarrow>
                       (case ref_decode lib raw of
                          Inl e \<Rightarrow> Inl (Wrapf (''reference '' @ go_quote name @ '': '') e [])
                        | Inr rec \<Rightarrow>
                            (case key_parse lib (rfKey rec) of
                               Inl e \<Rightarrow> Inl (Wrapf (''reference '' @ go_quote name @ '': stored key: '') e [])
                             | Inr k \<Rightarrow> Inr (k, path)))))))"

text \<open>\<open>whole\<close> is the path as given, which the errors quote.\<close>

fun descend_segs ::
  "('p, 's, 'r, 'z) cli_lib_scheme \<Rightarrow> 's \<Rightarrow> string \<Rightarrow> string list \<Rightarrow> key \<Rightarrow> goerr + key" where
  "descend_segs lib st whole [] k = Inr k"
| "descend_segs lib st whole (seg # segs) k =
     (if seg = [] then descend_segs lib st whole segs k
      else
        (case lookup_entry lib k (bytes_of seg) (st_get lib st) of
           Inl e \<Rightarrow> Inl (Wrapf (''resolving '' @ go_quote whole @ '': '') e [])
         | Inr en \<Rightarrow>
             (case key_parse lib (enContentKey en) of
                Inl e \<Rightarrow> Inl (ErrorText (''resolving '' @ go_quote whole @ '': '' @ go_quote seg @
                  '' is not a file or directory''))
              | Inr ck \<Rightarrow> descend_segs lib st whole segs ck)))"

definition descend ::
  "('p, 's, 'r, 'z) cli_lib_scheme \<Rightarrow> 's \<Rightarrow> key \<Rightarrow> string \<Rightarrow> goerr + key" where
  "descend lib st k path = descend_segs lib st path (split_at (CHR ''/'') path) k"

section \<open>Lemmas\<close>

lemma hex_val_digit [simp]: "n < 16 \<Longrightarrow> hex_val (hex_digit n) = Some n"
  by (auto simp: hex_val_def hex_digit_def Let_def)

lemma nibbles [simp]: "unat (x :: byte) div 16 < 16" "unat (x :: byte) mod 16 < 16"
proof -
  have "unat x < 256" using unsigned_less [of x] by simp
  then show "unat x div 16 < 16" "unat x mod 16 < 16" by simp_all
qed

lemma hex_decode_encode [simp]: "hex_decode (hex_encode b) = Inr b"
proof (induction b)
  case (Cons x b)
  have "(of_nat (16 * (unat x div 16) + unat x mod 16) :: byte) = x" by simp
  with Cons show ?case by (simp add: hex_encode_def del: of_nat_add of_nat_mult)
qed (simp add: hex_encode_def)

lemma hex_encode_no_slash: "CHR ''/'' \<notin> set (hex_encode b)"
proof -
  have "hex_val (CHR ''/'') = None" by (simp add: hex_val_def)
  moreover have "hex_val c \<noteq> None" if "c \<in> set (hex_encode b)" for c
    using that by (auto simp: hex_encode_def)
  ultimately show ?thesis by metis
qed

lemma hex_encode_no_ref:
  assumes "b \<noteq> []"
  shows "cut_prefix ''ref:'' (hex_encode b @ s) = None"
proof -
  from assms obtain x xs where Cons: "b = x # xs" by (cases b) auto
  have "hex_val (CHR ''r'') = None" by (simp add: hex_val_def)
  then have "hex_digit (unat x div 16) \<noteq> CHR ''r''" by (metis hex_val_digit nibbles(1) option.distinct(1))
  with Cons show ?thesis by (auto simp: cut_prefix_def hex_encode_def)
qed

lemma descend_segs_append:
  "descend_segs lib st w (as @ bs) k =
     (case descend_segs lib st w as k of Inl e \<Rightarrow> Inl e | Inr m \<Rightarrow> descend_segs lib st w bs m)"
  by (induction as arbitrary: k) (auto split: sum.splits)

lemma descend_segs_whole:
  "descend_segs lib st w segs k = Inr m \<longleftrightarrow> descend_segs lib st w' segs k = Inr m"
  by (induction segs arbitrary: k) (auto split: sum.splits)

section \<open>Properties\<close>

text \<open>\<open>ValidateName\<close> accepts no name with an at sign.\<close>

definition name_law :: "('p, 's, 'r, 'z) server_lib_scheme \<Rightarrow> bool" where
  "name_law lib \<longleftrightarrow> (\<forall>name. ref_validate lib name = None \<longrightarrow> CHR ''@'' \<notin> set name)"

text \<open>
  Claim C33 (specs mean what they say).  A key in hexadecimal, alone or followed by a slash and
  any path, resolves to that key and path; a valid reference name after \<open>ref:\<close>, alone or followed
  by an at sign and any path (which may hold further at signs and slashes), resolves to the key
  of that reference and the path.
\<close>

theorem specs_resolve:
  assumes "name_law lib"
    and "key_parse lib (key_bytes k) = Inr k" and "key_bytes k \<noteq> []"
    and "ref_validate lib name = None" and "rf_get lib refs name = Inr raw" and "ref_decode lib raw = Inr rec"
    and "rfKey rec = key_bytes k"
  shows "resolve_spec lib refs (hex_encode (key_bytes k)) = Inr (k, []) \<and>
    resolve_spec lib refs (hex_encode (key_bytes k) @ ''/'' @ path) = Inr (k, path) \<and>
    resolve_spec lib refs (''ref:'' @ name) = Inr (k, []) \<and>
    resolve_spec lib refs (''ref:'' @ name @ ''@'' @ path) = Inr (k, path)"
proof (intro conjI)
  note h = hex_encode_no_ref [OF assms(3)]
  have p: "parse_hex_key lib (hex_encode (key_bytes k)) = Inr k" by (simp add: parse_hex_key_def assms(2))
  show "resolve_spec lib refs (hex_encode (key_bytes k)) = Inr (k, [])"
    using h [of "[]"] by (simp add: resolve_spec_def parse_key_path_def cut_at_absent hex_encode_no_slash p)
  show "resolve_spec lib refs (hex_encode (key_bytes k) @ ''/'' @ path) = Inr (k, path)"
    using h [of "''/'' @ path"] by (simp add: resolve_spec_def parse_key_path_def hex_encode_no_slash p)
  have n: "CHR ''@'' \<notin> set name" using assms(1,4) by (simp add: name_law_def)
  have c: "cut_prefix ''ref:'' (''ref:'' @ x) = Some x" for x by (simp add: cut_prefix_def)
  show "resolve_spec lib refs (''ref:'' @ name) = Inr (k, [])"
    unfolding resolve_spec_def c by (simp add: cut_at_absent n assms)
  show "resolve_spec lib refs (''ref:'' @ name @ ''@'' @ path) = Inr (k, path)"
    unfolding resolve_spec_def c by (simp add: n assms)
qed

theorem specs_resolve_witness:
  "resolve_spec sample_server_lib [(''r'', [9])] ''09/a/b'' = Inr (Key [9], ''a/b'') \<and>
   resolve_spec sample_server_lib [(''r'', [9])] ''ref:r@a@b'' = Inr (Key [9], ''a@b'')"
proof -
  have n: "name_law sample_server_lib" by (simp add: name_law_def sample_server_simps)
  have h: "hex_encode [9] = ''09''" by code_simp
  have l: "key_parse sample_server_lib (key_bytes (Key [9])) = Inr (Key [9])" "key_bytes (Key [9]) \<noteq> []"
    "ref_validate sample_server_lib ''r'' = None" "rf_get sample_server_lib [(''r'', [9])] ''r'' = Inr [9]"
    "ref_decode sample_server_lib [9] = Inr \<lparr>rfName = [], rfKey = [9], rfCreatedAt = 0, rfUser = []\<rparr>"
    "rfKey \<lparr>rfName = [], rfKey = [9], rfCreatedAt = 0, rfUser = []\<rparr> = key_bytes (Key [9])"
    by (simp_all add: sample_server_simps)
  show ?thesis
    using specs_resolve [OF n l, of "''a/b''"] specs_resolve [OF n l, of "''a@b''"] by (simp add: h)
qed

text \<open>
  \<open>parseHexKey\<close> is documented to take lowercase digits; \<open>hex.DecodeString\<close> takes both cases.
\<close>

lemma upper_case_accepted: "parse_hex_key sample_server_lib ''0A'' = parse_hex_key sample_server_lib ''0a''"
  by (simp add: parse_hex_key_def hex_val_def sample_server_simps)

text \<open>
  Fact (paths compose).  Walking down \<open>p/q\<close> is walking down \<open>p\<close> and then \<open>q\<close>; the empty path
  stays where it is, and empty segments (doubled, leading and trailing slashes) change nothing.
\<close>

theorem descend_composes:
  "(descend lib st k (p @ ''/'' @ q) = Inr m \<longleftrightarrow> (\<exists>j. descend lib st k p = Inr j \<and> descend lib st j q = Inr m)) \<and>
   descend lib st k [] = Inr k \<and>
   (descend lib st k (''/'' @ p) = Inr m \<longleftrightarrow> descend lib st k p = Inr m) \<and>
   (descend lib st k (p @ ''/'') = Inr m \<longleftrightarrow> descend lib st k p = Inr m)"
proof -
  have c: "descend lib st k (a @ ''/'' @ b) = Inr m \<longleftrightarrow> (\<exists>j. descend lib st k a = Inr j \<and> descend lib st j b = Inr m)" for a b
  proof -
    let ?w = "a @ ''/'' @ b"
    have "split_at (CHR ''/'') ?w = split_at (CHR ''/'') a @ split_at (CHR ''/'') b"
      by (simp add: split_at_append)
    then have "descend lib st k ?w = Inr m \<longleftrightarrow>
      (\<exists>j. descend_segs lib st ?w (split_at (CHR ''/'') a) k = Inr j \<and> descend_segs lib st ?w (split_at (CHR ''/'') b) j = Inr m)"
      by (simp add: descend_def descend_segs_append split: sum.split)
    moreover have "descend_segs lib st ?w (split_at (CHR ''/'') a) k = Inr j \<longleftrightarrow> descend lib st k a = Inr j"
      "descend_segs lib st ?w (split_at (CHR ''/'') b) j = Inr m \<longleftrightarrow> descend lib st j b = Inr m" for j
      unfolding descend_def by (rule descend_segs_whole)+
    ultimately show ?thesis by simp
  qed
  have e: "descend lib st x [] = Inr x" for x by (simp add: descend_def)
  show ?thesis using c [of p q] c [of "[]" p] c [of p "[]"] e by auto
qed

end
