(* ===== verification/Listing.thy ===== *)
theory Listing
  imports Specs
begin

text \<open>
  cmd/amber/ls.go: the listing of a directory object, page by page, and its rendering in the
  style of \<open>ls -l\<close>.
\<close>

section \<open>The mode column\<close>

text \<open>The \<open>S_IFMT\<close> values and the special bits of \<open>golang.org/x/sys/unix\<close> on Linux.\<close>

definition type_char :: "64 word \<Rightarrow> char" where
  "type_char mode = (let t = mode AND 0xF000 in
     if t = 0x4000 then CHR ''d'' else if t = 0xA000 then CHR ''l'' else if t = 0x2000 then CHR ''c''
     else if t = 0x6000 then CHR ''b'' else if t = 0x1000 then CHR ''p'' else if t = 0xC000 then CHR ''s''
     else if t = 0x8000 then CHR ''-'' else CHR ''?'')"

definition perm_chars :: "64 word \<Rightarrow> string" where
  "perm_chars mode =
     map (\<lambda>(i, c). if mode AND push_bit (8 - i) 1 \<noteq> 0 then c else CHR ''-'') (zip [0..<9] ''rwxrwxrwx'')"

definition set_mode_bit :: "64 word \<Rightarrow> nat \<Rightarrow> 64 word \<Rightarrow> char \<Rightarrow> char \<Rightarrow> string \<Rightarrow> string" where
  "set_mode_bit mode pos special with_x without_x b =
     (if mode AND special = 0 then b
      else b[pos := (if b ! pos = CHR ''x'' then with_x else without_x)])"

definition mode_string :: "64 word \<Rightarrow> string" where
  "mode_string mode =
     set_mode_bit mode 9 0x200 (CHR ''t'') (CHR ''T'')
      (set_mode_bit mode 6 0x400 (CHR ''s'') (CHR ''S'')
        (set_mode_bit mode 3 0x800 (CHR ''s'') (CHR ''S'') (type_char mode # perm_chars mode)))"

section \<open>The size and time columns\<close>

definition size_string :: "('p, 's, 'z) core_lib_scheme \<Rightarrow> entry \<Rightarrow> string" where
  "size_string lib e =
     (if length (enRdev e) = 2 then dec_nat (unat (enRdev e ! 0)) @ '','' @ dec_nat (unat (enRdev e ! 1))
      else if enContentKey e \<noteq> [] \<and> \<not> isl (key_parse lib (enContentKey e))
      then dec_nat (unat (key_length lib (projr (key_parse lib (enContentKey e)))))
      else dec_nat (length (enLinkTarget e)))"

text \<open>
  The calendar and the time zone belong to the machine: \<open>ckFormat\<close> is \<open>Time.Format\<close> of an
  instant in nanoseconds, \<open>ckSixMonthsBefore\<close> is \<open>AddDate(0, -6, 0)\<close>.
\<close>

record calendar =
  ckFormat :: "string \<Rightarrow> int \<Rightarrow> string"
  ckSixMonthsBefore :: "int \<Rightarrow> int"

definition format_mtime :: "calendar \<Rightarrow> int \<Rightarrow> int \<Rightarrow> string" where
  "format_mtime ck t now =
     (if now < t \<or> t < ckSixMonthsBefore ck now then ckFormat ck ''Jan _2  2006'' t
      else ckFormat ck ''Jan _2 15:04'' t)"

section \<open>The lines\<close>

definition max_width :: "(entry \<Rightarrow> string) \<Rightarrow> entry list \<Rightarrow> nat" where
  "max_width f es = foldl (\<lambda>w e. max w (length (f e))) 0 es"

definition ls_name :: "('p, 's, 'z) core_lib_scheme \<Rightarrow> bool \<Rightarrow> entry \<Rightarrow> string" where
  "ls_name lib show_keys e =
     string_of (enName e) @
     (if enLinkTarget e \<noteq> [] then '' -> '' @ string_of (enLinkTarget e) else []) @
     (if show_keys \<and> enContentKey e \<noteq> [] \<and> \<not> isl (key_parse lib (enContentKey e))
      then '' '' @ key_string lib (projr (key_parse lib (enContentKey e))) else [])"

definition ls_line ::
  "('p, 's, 'z) core_lib_scheme \<Rightarrow> calendar \<Rightarrow> int \<Rightarrow> bool \<Rightarrow> nat \<Rightarrow> nat \<Rightarrow> nat \<Rightarrow> entry \<Rightarrow> string" where
  "ls_line lib ck now show_keys uw gw sw e =
     mode_string (enMode e) @ '' '' @ pad_left uw (dec_nat (unat (enUID e))) @ '' '' @
     pad_left gw (dec_nat (unat (enGID e))) @ '' '' @ pad_left sw (size_string lib e) @ '' '' @
     format_mtime ck (sint (enMtime e)) now @ '' '' @ ls_name lib show_keys e @ [CHR 0x0A]"

definition ls_lines ::
  "('p, 's, 'z) core_lib_scheme \<Rightarrow> calendar \<Rightarrow> entry list \<Rightarrow> int \<Rightarrow> bool \<Rightarrow> string list" where
  "ls_lines lib ck es now show_keys =
     (let uw = max_width (\<lambda>e. dec_nat (unat (enUID e))) es;
          gw = max_width (\<lambda>e. dec_nat (unat (enGID e))) es;
          sw = max_width (size_string lib) es in
      map (ls_line lib ck now show_keys uw gw sw) es)"

text \<open>One \<open>Fprintf\<close> per entry; the first failing write ends it.\<close>

definition render_ls ::
  "('p, 's, 'z) core_lib_scheme \<Rightarrow> calendar \<Rightarrow> 'w writer \<Rightarrow> 'w \<Rightarrow> entry list \<Rightarrow> int \<Rightarrow> bool \<Rightarrow> 'w \<times> goerr option" where
  "render_ls lib ck wr w es now show_keys = run_writes wr w (map bytes_of (ls_lines lib ck es now show_keys))"

section \<open>The command\<close>

definition lsPageSize :: nat where "lsPageSize = 4096"

text \<open>
  The loop over the pages, with a bound on their number.  A page that is empty although there
  is more would be an index out of range.
\<close>

fun ls_loop ::
  "('p, 's, 'r, 'z) cli_lib_scheme \<Rightarrow> 's \<Rightarrow> key \<Rightarrow> nat \<Rightarrow> bytes \<Rightarrow> entry list \<Rightarrow> (goerr + entry list) option" where
  "ls_loop lib st dir 0 after acc = None"
| "ls_loop lib st dir (Suc fuel) after acc =
     (case list_entries lib dir after lsPageSize (st_get lib st) of
        Inl e \<Rightarrow> Some (Inl e)
      | Inr (page, again) \<Rightarrow>
          if \<not> again then Some (Inr (acc @ page))
          else if page = [] then Some (Inl (GoPanic ''index out of range [-1]''))
          else ls_loop lib st dir fuel (enName (last page)) (acc @ page))"

definition run_ls ::
  "('p, 's, 'r, 'z) cli_lib_scheme \<Rightarrow> calendar \<Rightarrow> 'w writer \<Rightarrow> nat \<Rightarrow> (goerr + 's \<times> 'r) \<Rightarrow> string list \<Rightarrow>
     int \<Rightarrow> bool \<Rightarrow> 'w \<Rightarrow> ('w \<times> goerr option) option" where
  "run_ls lib ck wr fuel opened args now show_keys w =
     (if length args \<noteq> 1
      then Some (w, Some (ErrorText (''ls requires exactly one KEY[/PATH] argument, got '' @ dec_nat (length args))))
      else case opened of
        Inl e \<Rightarrow> Some (w, Some e)
      | Inr (st, refs) \<Rightarrow>
          (case resolve_spec lib refs (hd args) of
             Inl e \<Rightarrow> Some (w, Some e)
           | Inr (k, path) \<Rightarrow>
               (case descend lib st k path of
                  Inl e \<Rightarrow> Some (w, Some e)
                | Inr dir \<Rightarrow>
                    (case ls_loop lib st dir fuel [] [] of
                       None \<Rightarrow> None
                     | Some (Inl e) \<Rightarrow> Some (w, Some e)
                     | Some (Inr es) \<Rightarrow> Some (render_ls lib ck wr w es now show_keys)))))"

section \<open>Lemmas\<close>

lemma and_bit: "mode AND push_bit n 1 \<noteq> 0 \<longleftrightarrow> bit mode n" if "n < 64" for mode :: "64 word"
proof -
  have "mode AND push_bit n 1 = (if bit mode n then push_bit n 1 else 0)"
    by (rule bit_word_eqI) (auto simp: bit_simps)
  with that show ?thesis by (simp add: push_bit_of_1)
qed

lemma special_bits:
  fixes mode :: "64 word"
  shows "mode AND 0x800 = 0 \<longleftrightarrow> \<not> bit mode 11" "mode AND 0x400 = 0 \<longleftrightarrow> \<not> bit mode 10" "mode AND 0x200 = 0 \<longleftrightarrow> \<not> bit mode 9"
proof -
  have "mode AND push_bit n 1 = 0 \<longleftrightarrow> \<not> bit mode n" if "n < 64" for n using and_bit [OF that, of mode] by blast
  from this [of 11] this [of 10] this [of 9]
  show "mode AND 0x800 = 0 \<longleftrightarrow> \<not> bit mode 11" "mode AND 0x400 = 0 \<longleftrightarrow> \<not> bit mode 10"
    "mode AND 0x200 = 0 \<longleftrightarrow> \<not> bit mode 9"
    by (simp_all add: push_bit_of_1)
qed

definition bit_char :: "bool \<Rightarrow> char \<Rightarrow> char" where
  "bit_char b c = (if b then c else CHR ''-'')"

definition exec_char :: "bool \<Rightarrow> bool \<Rightarrow> char \<Rightarrow> char \<Rightarrow> char" where
  "exec_char x s with_x without_x = (if s then (if x then with_x else without_x) else bit_char x (CHR ''x''))"

lemma mode_string_eq:
  "mode_string m =
     [type_char m, bit_char (bit m 8) (CHR ''r''), bit_char (bit m 7) (CHR ''w''),
      exec_char (bit m 6) (bit m 11) (CHR ''s'') (CHR ''S''),
      bit_char (bit m 5) (CHR ''r''), bit_char (bit m 4) (CHR ''w''),
      exec_char (bit m 3) (bit m 10) (CHR ''s'') (CHR ''S''),
      bit_char (bit m 2) (CHR ''r''), bit_char (bit m 1) (CHR ''w''),
      exec_char (bit m 0) (bit m 9) (CHR ''t'') (CHR ''T'')]"
proof -
  have p: "perm_chars m = [bit_char (bit m 8) (CHR ''r''), bit_char (bit m 7) (CHR ''w''), bit_char (bit m 6) (CHR ''x''),
      bit_char (bit m 5) (CHR ''r''), bit_char (bit m 4) (CHR ''w''), bit_char (bit m 3) (CHR ''x''),
      bit_char (bit m 2) (CHR ''r''), bit_char (bit m 1) (CHR ''w''), bit_char (bit m 0) (CHR ''x'')]"
    by (simp add: perm_chars_def upt_rec bit_char_def and_bit del: push_bit_of_1 push_bit_numeral)
  show ?thesis
    by (simp add: mode_string_def p set_mode_bit_def special_bits exec_char_def bit_char_def)
qed

lemma type_char_eq:
  assumes "type_char m \<noteq> CHR ''?''" and "type_char m = type_char m'"
  shows "m AND 0xF000 = m' AND 0xF000"
  using assms unfolding type_char_def Let_def by (auto split: if_splits)

lemma chars_determine [simp]:
  "c \<noteq> CHR ''-'' \<Longrightarrow> bit_char a c = bit_char b c \<longleftrightarrow> a = b"
  "exec_char a s (CHR ''s'') (CHR ''S'') = exec_char b t (CHR ''s'') (CHR ''S'') \<longleftrightarrow> a = b \<and> s = t"
  "exec_char a s (CHR ''t'') (CHR ''T'') = exec_char b t (CHR ''t'') (CHR ''T'') \<longleftrightarrow> a = b \<and> s = t"
  by (auto simp: bit_char_def exec_char_def)

lemma low_bits_eq:
  fixes m m' :: "64 word"
  assumes "m AND 0xF000 = m' AND 0xF000" and "\<And>n. n < 12 \<Longrightarrow> bit m n = bit m' n"
  shows "m AND 0xFFFF = m' AND 0xFFFF"
proof (rule bit_word_eqI)
  fix n
  have F: "(0xFFFF :: 64 word) = mask 16" "(0xF000 :: 64 word) = push_bit 12 (mask 4)" by (simp_all add: mask_eq_exp_minus_1 push_bit_eq_mult)
  have "bit (m AND 0xF000) n = bit (m' AND 0xF000) n" using assms(1) by simp
  moreover have "n < 12 \<Longrightarrow> bit m n = bit m' n" using assms(2) by auto
  ultimately show "bit (m AND 0xFFFF) n = bit (m' AND 0xFFFF) n"
    unfolding F by (auto simp: bit_simps)
qed

lemma foldl_max_ge: "w \<le> foldl (\<lambda>w e. max w (g e)) w es" for w :: nat
  by (induction es arbitrary: w) (auto intro: order_trans [OF max.cobounded1])

lemma max_width_ge: "e \<in> set es \<Longrightarrow> length (f e) \<le> max_width f es"
proof -
  have "e \<in> set es \<Longrightarrow> length (f e) \<le> foldl (\<lambda>w e. max w (length (f e))) w es" for w
    by (induction es arbitrary: w) (auto intro: order_trans [OF max.cobounded2 foldl_max_ge])
  then show "e \<in> set es \<Longrightarrow> length (f e) \<le> max_width f es" by (simp add: max_width_def)
qed

text \<open>
  What \<open>ListEntries\<close> promises of a directory with the entries \<open>es\<close>: they are in order of their
  names, and a page holds the next ones after a name and tells whether there are more.
\<close>

definition list_law :: "('p, 's, 'r, 'z) cli_lib_scheme \<Rightarrow> 's \<Rightarrow> key \<Rightarrow> entry list \<Rightarrow> bool" where
  "list_law lib st dir es \<longleftrightarrow>
     sorted_wrt (\<lambda>a b. enName a < enName b) es \<and> (\<forall>e\<in>set es. enName e \<noteq> []) \<and>
     (\<forall>after n. 0 < n \<longrightarrow>
        (let left = filter (\<lambda>e. after < enName e) es in
         list_entries lib dir after n (st_get lib st) = Inr (take n left, n < length left)))"

lemma after_kth:
  assumes "sorted_wrt (\<lambda>a b. enName a < enName b) es" and "0 < k" and "k \<le> length es"
  shows "filter (\<lambda>e. enName (es ! (k - 1)) < enName e) es = drop k es"
proof -
  have "filter (\<lambda>e. enName (es ! (k - 1)) < enName e) (take k es @ drop k es) = drop k es"
  proof -
    have "\<not> enName (es ! (k - 1)) < enName e" if "e \<in> set (take k es)" for e
    proof -
      from that obtain i where i: "i < k" "e = es ! i" using assms(3) by (auto simp: in_set_conv_nth)
      then have "i = k - 1 \<or> i < k - 1" by linarith
      with i assms show ?thesis by (auto dest: sorted_wrt_nth_less [of _ es i "k - 1"])
    qed
    moreover have "enName (es ! (k - 1)) < enName e" if "e \<in> set (drop k es)" for e
    proof -
      from that obtain i where "i < length es - k" "e = es ! (k + i)" by (auto simp: in_set_conv_nth)
      with assms show ?thesis
        using sorted_wrt_nth_less [OF assms(1), of "k - 1" "k + i"] by simp
    qed
    ultimately show ?thesis unfolding filter_append by (simp add: filter_empty_conv filter_True)
  qed
  then show ?thesis by simp
qed

lemma ls_loop_drains:
  assumes "list_law lib st dir es" and "k \<le> length es" and "length es - k \<le> fuel * lsPageSize" and "0 < fuel"
    and "after = (if k = 0 then [] else enName (es ! (k - 1)))"
  shows "ls_loop lib st dir fuel after (take k es) = Some (Inr es)"
  using assms(2-)
proof (induction fuel arbitrary: k after)
  case (Suc fuel)
  have left: "filter (\<lambda>e. after < enName e) es = drop k es"
  proof (cases "k = 0")
    case True
    have "\<forall>e\<in>set es. [] < enName e" using assms(1) by (auto simp: list_law_def neq_Nil_conv)
    with True Suc.prems(4) show ?thesis by simp
  next
    case False
    moreover have "sorted_wrt (\<lambda>a b. enName a < enName b) es" using assms(1) by (simp add: list_law_def)
    ultimately show ?thesis using Suc.prems after_kth [of es k] by simp
  qed
  have page: "list_entries lib dir after lsPageSize (st_get lib st) =
      Inr (take lsPageSize (drop k es), lsPageSize < length es - k)"
    using assms(1) left by (simp add: list_law_def Let_def lsPageSize_def)
  show ?case
  proof (cases "lsPageSize < length es - k")
    case False
    with page show ?thesis by simp
  next
    case True
    then have "0 < fuel" using Suc.prems(2) by (cases fuel) auto
    have last: "last (take lsPageSize (drop k es)) = es ! (k + lsPageSize - 1)"
      using True by (subst last_conv_nth) (auto simp: lsPageSize_def ac_simps)
    have "ls_loop lib st dir fuel (enName (es ! (k + lsPageSize - 1))) (take (k + lsPageSize) es) = Some (Inr es)"
      using Suc.prems(2) True \<open>0 < fuel\<close> by (intro Suc.IH) (auto simp: lsPageSize_def)
    with page True last show ?thesis by (auto simp: take_add lsPageSize_def add.commute)
  qed
qed simp

text \<open>A directory of two entries, in the sample libraries.\<close>

definition sample_entry :: "bytes \<Rightarrow> entry" where
  "sample_entry n = \<lparr>enName = n, enMode = 0x81A4, enUID = 0, enGID = 100, enMtime = 5, enRdev = [], enLinkTarget = [],
     enContentKey = [9]\<rparr>"

definition sample_cli_lib :: "(unit, sample_store, (string \<times> bytes) list) cli_lib" where
  "sample_cli_lib = server_lib.extend sample_server_lib
     (cli_lib.fields (\<lambda>k n get. if n = [97] then Inr (sample_entry n) else Inl (LibErr ''no such entry''))
       (\<lambda>k after n get. let left = filter (\<lambda>e. after < enName e) [sample_entry [97], sample_entry [98]] in
          Inr (take n left, n < length left))
       (\<lambda>rf name. (filter (\<lambda>r. fst r \<noteq> name) rf, None)))"

lemmas sample_cli_simps = sample_cli_lib_def server_lib.defs cli_lib.defs sample_server_simps

lemma sample_list_law: "list_law sample_cli_lib st k [sample_entry [97], sample_entry [98]]"
  by (auto simp: list_law_def sample_cli_simps sample_entry_def)

section \<open>Properties\<close>

text \<open>
  Claim C34 (the mode column determines the mode).  \<open>modeString\<close> is ten characters long, and two
  modes of a known file type have the same one only if they agree on the type and on all twelve
  permission bits: folding the special bits into the execute slots loses nothing.
\<close>

theorem mode_string_faithful:
  "length (mode_string m) = 10 \<and>
   (type_char m \<noteq> CHR ''?'' \<longrightarrow> mode_string m = mode_string m' \<longrightarrow> m AND 0xFFFF = m' AND 0xFFFF)"
proof (intro conjI impI)
  show "length (mode_string m) = 10" by (simp add: mode_string_eq)
  assume t: "type_char m \<noteq> CHR ''?''" and eq: "mode_string m = mode_string m'"
  from eq have c: "type_char m = type_char m'"
    and b: "bit m 8 = bit m' 8" "bit m 7 = bit m' 7" "bit m 6 = bit m' 6" "bit m 11 = bit m' 11"
      "bit m 5 = bit m' 5" "bit m 4 = bit m' 4" "bit m 3 = bit m' 3" "bit m 10 = bit m' 10"
      "bit m 2 = bit m' 2" "bit m 1 = bit m' 1" "bit m 0 = bit m' 0" "bit m 9 = bit m' 9"
    by (simp_all add: mode_string_eq)
  show "m AND 0xFFFF = m' AND 0xFFFF"
  proof (rule low_bits_eq [OF type_char_eq [OF t c]])
    fix n :: nat
    assume "n < 12"
    with b show "bit m n = bit m' n" by (auto simp: numeral_eq_Suc less_Suc_eq)
  qed
qed

theorem mode_string_faithful_witness:
  "mode_string 0x89ED = ''-rwsr-xr-x'' \<and> length (mode_string 0x89ED) = 10 \<and>
   (0x89ED :: 64 word) AND 0xFFFF = 0x189ED AND 0xFFFF"
proof -
  have "mode_string 0x89ED = mode_string 0x189ED" "type_char 0x89ED \<noteq> CHR ''?''"
    "mode_string 0x89ED = ''-rwsr-xr-x''"
    by (simp_all add: mode_string_eq type_char_def bit_char_def exec_char_def)
  with mode_string_faithful [of "0x89ED" "0x189ED"] show ?thesis by simp
qed

text \<open>
  Fact (\<open>ls\<close> shows every entry).  For a directory that the library lists page by page, the
  loop of \<open>runLs\<close> ends and renders exactly the directory's entries, each once and in order,
  however many pages they take.
\<close>

theorem ls_shows_all:
  assumes "resolve_spec lib refs spec = Inr (k, path)" and "descend lib st k path = Inr dir"
    and "list_law lib st dir es" and "length es div lsPageSize < fuel"
  shows "run_ls lib ck wr fuel (Inr (st, refs)) [spec] now show_keys w = Some (render_ls lib ck wr w es now show_keys)"
proof -
  have "length es < fuel * lsPageSize" using assms(4) by (simp add: lsPageSize_def div_less_iff_less_mult)
  then have "ls_loop lib st dir fuel [] [] = Some (Inr es)"
    using ls_loop_drains [OF assms(3), of 0 fuel "[]"] assms(4) by simp
  with assms(1,2) show ?thesis by (simp add: run_ls_def)
qed

theorem ls_shows_all_witness:
  "run_ls sample_cli_lib \<lparr>ckFormat = \<lambda>f t. [], ckSixMonthsBefore = \<lambda>t. 0\<rparr> os_write 1 (Inr (sample_final, [(''r'', [9])]))
     [''ref:r''] 7 False fresh_out =
   Some (render_ls sample_cli_lib \<lparr>ckFormat = \<lambda>f t. [], ckSixMonthsBefore = \<lambda>t. 0\<rparr> os_write fresh_out
     [sample_entry [97], sample_entry [98]] 7 False)"
proof (rule ls_shows_all)
  show "resolve_spec sample_cli_lib [(''r'', [9])] ''ref:r'' = Inr (Key [9], [])"
    by (simp add: resolve_spec_def cut_prefix_def sample_cli_simps)
  show "descend sample_cli_lib sample_final (Key [9]) [] = Inr (Key [9])" by (simp add: descend_def)
  show "list_law sample_cli_lib sample_final (Key [9]) [sample_entry [97], sample_entry [98]]" by (rule sample_list_law)
qed (simp add: lsPageSize_def)

text \<open>
  Fact (the columns line up).  On a terminal that takes every write, \<open>renderLs\<close> prints one
  line per entry; the user, group and size columns have the same widths on every line and no
  number is cut, so the time column starts at the same place everywhere.
\<close>

theorem ls_columns_align:
  assumes "os_up w"
  shows "\<exists>w' uw gw sw. render_ls lib ck os_write w es now show_keys = (w', None) \<and>
    os_sent w' = os_sent w @ concat (map (\<lambda>e. bytes_of (ls_line lib ck now show_keys uw gw sw e)) es) \<and>
    (\<forall>e\<in>set es. length (pad_left uw (dec_nat (unat (enUID e)))) = uw \<and>
       length (pad_left gw (dec_nat (unat (enGID e)))) = gw \<and> length (pad_left sw (size_string lib e)) = sw)"
proof -
  obtain w' where r: "run_writes os_write w (map bytes_of (ls_lines lib ck es now show_keys)) = (w', None)"
    using os.run_writes_healthy [OF assms] by blast
  let ?uw = "max_width (\<lambda>e. dec_nat (unat (enUID e))) es" and ?gw = "max_width (\<lambda>e. dec_nat (unat (enGID e))) es"
    and ?sw = "max_width (size_string lib) es"
  have l: "map bytes_of (ls_lines lib ck es now show_keys) =
      map (\<lambda>e. bytes_of (ls_line lib ck now show_keys ?uw ?gw ?sw e)) es"
    by (simp add: ls_lines_def Let_def comp_def)
  have "render_ls lib ck os_write w es now show_keys = (w', None)" using r by (simp add: render_ls_def)
  moreover have "os_sent w' = os_sent w @ concat (map (\<lambda>e. bytes_of (ls_line lib ck now show_keys ?uw ?gw ?sw e)) es)"
    using os.run_writes_ok [OF r] by (simp only: l)
  moreover have "\<forall>e\<in>set es. length (pad_left ?uw (dec_nat (unat (enUID e)))) = ?uw \<and>
      length (pad_left ?gw (dec_nat (unat (enGID e)))) = ?gw \<and> length (pad_left ?sw (size_string lib e)) = ?sw"
    using max_width_ge [of _ es "\<lambda>e. dec_nat (unat (enUID e))"] max_width_ge [of _ es "\<lambda>e. dec_nat (unat (enGID e))"]
      max_width_ge [of _ es "size_string lib"]
    by (auto simp: max_def le_antisym)
  ultimately show ?thesis by blast
qed

theorem ls_columns_align_witness:
  "os_up fresh_out \<and> (\<exists>w'. render_ls sample_cli_lib \<lparr>ckFormat = \<lambda>f t. [], ckSixMonthsBefore = \<lambda>t. 0\<rparr> os_write fresh_out
     [sample_entry [97]] 7 True = (w', None))"
  using ls_columns_align [OF fresh_up] fresh_up by blast

end
