(* ===== verification/Time_Format.thy ===== *)
theory Time_Format
  imports Text_Format
begin

text \<open>
  \<open>time.Unix(0, ns).UTC().Format(time.RFC3339)\<close>, as the reference listings of cmd/amber print
  creation times: the proleptic Gregorian date, counted from 1 January 1600, and the time of day.
\<close>

definition leap_year :: "nat \<Rightarrow> bool" where
  "leap_year y \<longleftrightarrow> y mod 4 = 0 \<and> (y mod 100 \<noteq> 0 \<or> y mod 400 = 0)"

definition year_days :: "nat \<Rightarrow> nat" where
  "year_days y = (if leap_year y then 366 else 365)"

definition month_lengths :: "nat \<Rightarrow> nat list" where
  "month_lengths y = [31, if leap_year y then 29 else 28, 31, 30, 31, 30, 31, 31, 30, 31, 30, 31]"

text \<open>The year a day falls into, counting from the first day of \<open>y\<close>, and the month.\<close>

function year_of_day :: "nat \<Rightarrow> nat \<Rightarrow> nat \<times> nat" where
  "year_of_day y d = (if d < year_days y then (y, d) else year_of_day (Suc y) (d - year_days y))"
  by pat_completeness auto
termination
  by (relation "measure snd") (auto simp: year_days_def split: if_splits)

declare year_of_day.simps [simp del]

fun month_of_day :: "nat list \<Rightarrow> nat \<Rightarrow> nat \<Rightarrow> nat \<times> nat" where
  "month_of_day [] m d = (m, d)"
| "month_of_day (n # ns) m d = (if d < n then (m, d) else month_of_day ns (Suc m) (d - n))"

text \<open>Days from 1 January 1600 to 1 January 1970.\<close>

definition unix_day :: int where "unix_day = 135140"

definition civil_date :: "int \<Rightarrow> nat \<times> nat \<times> nat" where
  "civil_date day =
     (case year_of_day 1600 (nat (day + unix_day)) of
        (y, d) \<Rightarrow> (case month_of_day (month_lengths y) 1 d of (m, r) \<Rightarrow> (y, m, Suc r)))"

definition four_digits :: "nat \<Rightarrow> string" where
  "four_digits n = two_digits (n div 100) @ two_digits (n mod 100)"

definition clock :: "nat \<Rightarrow> string" where
  "clock s = two_digits (s div 3600) @ '':'' @ two_digits (s div 60 mod 60) @ '':'' @ two_digits (s mod 60)"

definition rfc3339 :: "64 word \<Rightarrow> string" where
  "rfc3339 ns =
     (let secs = sint ns div 10 ^ 9 in
      case civil_date (secs div 86400) of
        (y, m, d) \<Rightarrow> four_digits y @ ''-'' @ two_digits m @ ''-'' @ two_digits d @ ''T'' @
          clock (nat (secs mod 86400)) @ ''Z'')"

section \<open>Reading a date back\<close>

text \<open>The day number of a date: the days of the years and of the months before it.\<close>

definition day_number :: "nat \<Rightarrow> nat \<Rightarrow> nat \<Rightarrow> int" where
  "day_number y m d =
     int (sum_list (map year_days [1600..<y]) + sum_list (take (m - 1) (month_lengths y)) + (d - 1)) - unix_day"

definition date_ok :: "nat \<Rightarrow> nat \<Rightarrow> nat \<Rightarrow> bool" where
  "date_ok y m d \<longleftrightarrow> 1 \<le> m \<and> m \<le> 12 \<and> 1 \<le> d \<and> d \<le> month_lengths y ! (m - 1)"

lemma year_of_day_spec:
  "year_of_day y d = (y', d') \<Longrightarrow> y \<le> y' \<and> d' < year_days y' \<and> d = sum_list (map year_days [y..<y']) + d'"
proof (induction y d arbitrary: y' d' rule: year_of_day.induct)
  case (1 y d)
  show ?case
  proof (cases "d < year_days y")
    case True
    with "1.prems" show ?thesis by (simp add: year_of_day.simps [of y d])
  next
    case False
    with "1.prems" have "year_of_day (Suc y) (d - year_days y) = (y', d')" by (simp add: year_of_day.simps [of y d])
    from "1.IH" [OF False this] have "Suc y \<le> y'" "d' < year_days y'"
      "d - year_days y = sum_list (map year_days [Suc y..<y']) + d'" by simp_all
    moreover from this False have "d = year_days y + sum_list (map year_days [Suc y..<y']) + d'" by linarith
    ultimately show ?thesis by (simp add: upt_conv_Cons)
  qed
qed

lemma month_of_day_spec:
  "month_of_day ns m d = (m', r) \<Longrightarrow> d < sum_list ns \<Longrightarrow>
     m \<le> m' \<and> m' - m < length ns \<and> r < ns ! (m' - m) \<and> d = sum_list (take (m' - m) ns) + r"
proof (induction ns m d rule: month_of_day.induct)
  case (2 n ns m d)
  show ?case
  proof (cases "d < n")
    case True
    with 2 show ?thesis by simp
  next
    case False
    with 2 have ih: "Suc m \<le> m'" "m' - Suc m < length ns" "r < ns ! (m' - Suc m)"
      "d - n = sum_list (take (m' - Suc m) ns) + r" by simp_all
    from ih(1) have "m' - m = Suc (m' - Suc m)" by linarith
    with ih False show ?thesis by simp
  qed
qed simp

lemma month_lengths_sum: "sum_list (month_lengths y) = year_days y"
  by (simp add: month_lengths_def year_days_def)

lemma length_month_lengths [simp]: "length (month_lengths y) = 12"
  by (simp add: month_lengths_def)

lemma month_lengths_le: "i < 12 \<Longrightarrow> month_lengths y ! i \<le> 31"
proof -
  have "\<forall>n\<in>set (month_lengths y). n \<le> 31" by (simp add: month_lengths_def)
  then show "i < 12 \<Longrightarrow> month_lengths y ! i \<le> 31" by simp
qed

lemma civil_date_spec:
  assumes "civil_date day = (y, m, d)" and "- unix_day \<le> day"
  shows "date_ok y m d \<and> day_number y m d = day \<and> 1600 \<le> y"
proof -
  let ?n = "nat (day + unix_day)"
  obtain d0 where y: "year_of_day 1600 ?n = (y, d0)" and m: "month_of_day (month_lengths y) 1 d0 = (m, d - 1)"
    and d: "1 \<le> d"
    using assms(1) by (auto simp: civil_date_def split: prod.splits)
  note ys = year_of_day_spec [OF y]
  from month_of_day_spec [OF m] ys
  have ms: "1 \<le> m" "m - 1 < 12" "d - 1 < month_lengths y ! (m - 1)" "d0 = sum_list (take (m - 1) (month_lengths y)) + (d - 1)"
    by (simp_all add: month_lengths_sum)
  have "int ?n = day + unix_day" using assms(2) by simp
  moreover have "day_number y m d = int ?n - unix_day" using ys ms(4) by (simp add: day_number_def)
  moreover have "m \<le> 12" "d \<le> month_lengths y ! (m - 1)" using ms d by linarith+
  ultimately show ?thesis using ms(1) ys d by (simp add: date_ok_def)
qed

lemma year_bound:
  assumes "civil_date day = (y, m, d)" and "- unix_day \<le> day" and "day \<le> 365 * 8000"
  shows "y < 10000"
proof -
  have "n * 365 \<le> sum_list (map year_days [k..<k + n])" for n k
    by (induction n) (auto simp: year_days_def)
  from this [of "y - 1600" 1600] have y: "(y - 1600) * 365 \<le> sum_list (map year_days [1600..<y])"
    using civil_date_spec [OF assms(1,2)] by simp
  have "day_number y m d = day" using civil_date_spec [OF assms(1,2)] by simp
  then have "int (sum_list (map year_days [1600..<y])) \<le> day + unix_day" by (simp add: day_number_def)
  with y assms(3) show ?thesis by (simp add: unix_day_def)
qed

lemma length_two_digits [simp]: "n < 100 \<Longrightarrow> length (two_digits n) = 2"
proof -
  assume "n < 100"
  then have "n < 10 \<or> 10 \<le> n \<and> n div 10 < 10" by auto
  then show ?thesis by (auto simp: two_digits_def dec_nat.simps [of n] dec_nat.simps [of "n div 10"])
qed


lemma length_rfc3339:
  "y < 10000 \<Longrightarrow> m < 100 \<Longrightarrow> d < 100 \<Longrightarrow> t < 86400 \<Longrightarrow>
     length (four_digits y @ ''-'' @ two_digits m @ ''-'' @ two_digits d @ ''T'' @ clock t @ ''Z'') = 20"
proof -
  assume "y < 10000" "m < 100" "d < 100" "t < 86400"
  moreover from this have "y div 100 < 100" "y mod 100 < 100" "t div 3600 < 100" "t div 60 mod 60 < 100" "t mod 60 < 100"
    by simp_all
  ultimately show ?thesis by (simp add: four_digits_def clock_def)
qed

section \<open>Property\<close>

text \<open>
  Fact (creation times read back).  The time a listing prints is twenty characters of the form
  \<open>YYYY-MM-DDThh:mm:ssZ\<close>, an existing date and a time of day below 24 hours, and it is the
  time stamp rounded down to the second, for every \<open>int64\<close> number of nanoseconds.
\<close>

theorem rfc3339_reads_back:
  "\<exists>y m d t. rfc3339 ns = four_digits y @ ''-'' @ two_digits m @ ''-'' @ two_digits d @ ''T'' @ clock t @ ''Z'' \<and>
     length (rfc3339 ns) = 20 \<and> y < 10000 \<and> date_ok y m d \<and> t < 86400 \<and>
     day_number y m d * 86400 + int t = sint ns div 10 ^ 9"
proof -
  let ?secs = "sint ns div 10 ^ 9"
  let ?day = "?secs div 86400"
  obtain y m d where c: "civil_date ?day = (y, m, d)" by (metis prod_cases3)
  have s: "- (2 ^ 63) \<le> sint ns" "sint ns < 2 ^ 63"
    using sint_range_size [of ns] by (simp_all add: word_size)
  then have "- 9223372037 \<le> ?secs" "?secs < 9223372037" by simp_all
  then have b: "- 106752 \<le> ?day" "?day \<le> 106752" by linarith+
  then have lo: "- unix_day \<le> ?day" and hi: "?day \<le> 365 * 8000" by (simp_all add: unix_day_def)
  note cs = civil_date_spec [OF c lo] year_bound [OF c lo hi]
  let ?t = "nat (?secs mod 86400)"
  have t: "?t < 86400" "int ?t = ?secs mod 86400" by simp_all
  have r: "rfc3339 ns = four_digits y @ ''-'' @ two_digits m @ ''-'' @ two_digits d @ ''T'' @ clock ?t @ ''Z''"
    unfolding rfc3339_def Let_def c by simp
  have dm: "m < 100" "d < 100"
  proof -
    have m: "1 \<le> m" "m \<le> 12" "d \<le> month_lengths y ! (m - 1)" using cs(1) by (simp_all add: date_ok_def)
    then have "m - 1 < 12" by linarith
    with month_lengths_le [of "m - 1" y] m show "m < 100" "d < 100" by linarith+
  qed
  have l: "length (rfc3339 ns) = 20" unfolding r by (rule length_rfc3339 [OF cs(2) dm t(1)])
  have e: "day_number y m d * 86400 + int ?t = ?secs" using cs(1) t(2) by simp
  show ?thesis
    by (rule exI [of _ y], rule exI [of _ m], rule exI [of _ d], rule exI [of _ ?t], intro conjI)
      (use r l cs t(1) e in blast)+
qed

end
