(* ===== verification/Local_Store.thy ===== *)
theory Local_Store
  imports Specs Time_Format Progress_Bar
begin

text \<open>
  cmd/amber/store.go, ref.go, chunk.go, import.go, export.go and restore.go: the commands that
  work on the local store only.  A command is a function of the store, the standard output and
  the arguments; what the file system, the ingester and the tar packages give is an environment.
\<close>

section \<open>The store of a command (store.go)\<close>

text \<open>\<open>lcOpen\<close>: the halves of the store that are open, each with the handles on it.\<close>

datatype half = Objects | Refs

record ('s, 'r) local =
  lcObjects :: 's
  lcRefs :: 'r
  lcOut :: ostream
  lcOpen :: "half list"

text \<open>The \<open>--store\<close> flag, and the errors of opening and closing the two halves.\<close>

record store_env =
  seDir :: string
  seOpenObjects :: "goerr option"
  seOpenRefs :: "goerr option"
  seCloseRefs :: "goerr option"
  seCloseObjects :: "goerr option"

definition open_store :: "'e store_env_scheme \<Rightarrow> ('s, 'r, 'z) local_scheme \<Rightarrow> ('s, 'r, 'z) local_scheme \<times> goerr option" where
  "open_store env s =
     (if seDir env = [] then (s, Some (ErrorText ''no store directory: set --store or $AMBER_STORE''))
      else case seOpenObjects env of
        Some e \<Rightarrow> (s, Some e)
      | None \<Rightarrow>
          let s1 = s\<lparr>lcOpen := Objects # lcOpen s\<rparr> in
          (case seOpenRefs env of
             Some e \<Rightarrow> (s1\<lparr>lcOpen := remove1 Objects (lcOpen s1)\<rparr>, Some e)
           | None \<Rightarrow> (s1\<lparr>lcOpen := Refs # lcOpen s1\<rparr>, None)))"

definition close_store :: "'e store_env_scheme \<Rightarrow> ('s, 'r, 'z) local_scheme \<Rightarrow> ('s, 'r, 'z) local_scheme \<times> goerr option" where
  "close_store env s =
     (s\<lparr>lcOpen := remove1 Objects (remove1 Refs (lcOpen s))\<rparr>, errors_join [seCloseRefs env, seCloseObjects env])"

text \<open>Open the store, run \<open>body\<close>, and close it on every path, with its error dropped (a \<open>defer\<close>).\<close>

definition with_store ::
  "'e store_env_scheme \<Rightarrow> (('s, 'r, 'z) local_scheme \<Rightarrow> ('s, 'r, 'z) local_scheme \<times> 'x) \<Rightarrow> (goerr \<Rightarrow> 'x) \<Rightarrow>
     ('s, 'r, 'z) local_scheme \<Rightarrow> ('s, 'r, 'z) local_scheme \<times> 'x" where
  "with_store env body fail s =
     (case open_store env s of
        (s1, Some e) \<Rightarrow> (s1, fail e)
      | (s1, None) \<Rightarrow> (case body s1 of (s2, x) \<Rightarrow> (fst (close_store env s2), x)))"

text \<open>\<open>Fprintln\<close> to the standard output.\<close>

definition print_line :: "string \<Rightarrow> ('s, 'r, 'z) local_scheme \<Rightarrow> ('s, 'r, 'z) local_scheme \<times> goerr option" where
  "print_line t s = (case os_write (lcOut s) (bytes_of (t @ [CHR 0x0A])) of (w, n, e) \<Rightarrow> (s\<lparr>lcOut := w\<rparr>, e))"

definition nargs_err :: "string \<Rightarrow> string list \<Rightarrow> goerr" where
  "nargs_err what args = ErrorText (what @ '', got '' @ dec_nat (length args))"

section \<open>References (ref.go)\<close>

definition trackingPrefix :: string where "trackingPrefix = ''remotes/''"

definition reserved_err :: "string \<Rightarrow> goerr" where
  "reserved_err name = ErrorText (''ref '' @ go_quote name @ '': the '' @ go_quote trackingPrefix @
     '' namespace is reserved for remote-tracking refs'')"

definition ref_line :: "('p, 's, 'z) core_lib_scheme \<Rightarrow> string \<Rightarrow> key \<Rightarrow> 64 word \<Rightarrow> string \<Rightarrow> string" where
  "ref_line lib name k created user =
     name @ '' '' @ key_string lib k @ '' '' @ rfc3339 created @ (if user = [] then [] else '' '' @ user)"

fun ref_list_loop ::
  "('p, 's, 'r, 'z) server_lib_scheme \<Rightarrow> (string \<times> bytes) list \<Rightarrow> ('s, 'r, 'y) local_scheme \<Rightarrow>
     ('s, 'r, 'y) local_scheme \<times> goerr option" where
  "ref_list_loop lib [] s = (s, None)"
| "ref_list_loop lib ((name, data) # recs) s =
     (if prefix trackingPrefix name then ref_list_loop lib recs s
      else case ref_decode lib data of
        Inl e \<Rightarrow> (s, Some (Wrapf (''reference '' @ go_quote name @ '': '') e []))
      | Inr rec \<Rightarrow>
          (case key_parse lib (rfKey rec) of
             Inl e \<Rightarrow> (s, Some (Wrapf (''reference '' @ go_quote name @ '': stored key: '') e []))
           | Inr k \<Rightarrow>
               (case print_line (ref_line lib (rfName rec) k (rfCreatedAt rec) (rfUser rec)) s of
                  (s1, Some e) \<Rightarrow> (s1, Some e)
                | (s1, None) \<Rightarrow> ref_list_loop lib recs s1)))"

definition run_ref_list ::
  "('p, 's, 'r, 'z) server_lib_scheme \<Rightarrow> 'e store_env_scheme \<Rightarrow> string list \<Rightarrow> ('s, 'r, 'y) local_scheme \<Rightarrow>
     ('s, 'r, 'y) local_scheme \<times> goerr option" where
  "run_ref_list lib env args s =
     (if args \<noteq> [] then (s, Some (nargs_err ''ref list takes no arguments'' args))
      else with_store env (\<lambda>s1. case rf_all lib (lcRefs s1) of
             Inl e \<Rightarrow> (s1, Some e)
           | Inr recs \<Rightarrow> ref_list_loop lib recs s1) Some s)"

definition run_ref_get ::
  "('p, 's, 'r, 'z) server_lib_scheme \<Rightarrow> 'e store_env_scheme \<Rightarrow> string list \<Rightarrow> ('s, 'r, 'y) local_scheme \<Rightarrow>
     ('s, 'r, 'y) local_scheme \<times> goerr option" where
  "run_ref_get lib env args s =
     (if length args \<noteq> 1 then (s, Some (nargs_err ''ref get requires exactly one NAME argument'' args))
      else with_store env (\<lambda>s1. case resolve_spec lib (lcRefs s1) (''ref:'' @ hd args) of
             Inl e \<Rightarrow> (s1, Some e)
           | Inr (k, _) \<Rightarrow> print_line (key_string lib k) s1) Some s)"

text \<open>The write of a reference and the end of a command that reports the error of closing.\<close>

definition put_and_close ::
  "'e store_env_scheme \<Rightarrow> ('r \<Rightarrow> 'r \<times> goerr option) \<Rightarrow> ('s, 'r, 'y) local_scheme \<Rightarrow>
     ('s, 'r, 'y) local_scheme \<times> goerr option" where
  "put_and_close env put s =
     (case open_store env s of
        (s1, Some e) \<Rightarrow> (s1, Some e)
      | (s1, None) \<Rightarrow>
          (case put (lcRefs s1) of
             (rf, Some e) \<Rightarrow> (fst (close_store env (s1\<lparr>lcRefs := rf\<rparr>)), Some e)
           | (rf, None) \<Rightarrow> close_store env (s1\<lparr>lcRefs := rf\<rparr>)))"

definition run_ref_set ::
  "('p, 's, 'r, 'z) server_lib_scheme \<Rightarrow> 'e store_env_scheme \<Rightarrow> 64 word \<Rightarrow> string list \<Rightarrow> ('s, 'r, 'y) local_scheme \<Rightarrow>
     ('s, 'r, 'y) local_scheme \<times> goerr option" where
  "run_ref_set lib env now args s =
     (if length args \<noteq> 2 then (s, Some (nargs_err ''ref set requires NAME KEY arguments'' args))
      else if prefix trackingPrefix (hd args) then (s, Some (reserved_err (hd args)))
      else case parse_hex_key lib (args ! 1) of
        Inl e \<Rightarrow> (s, Some e)
      | Inr k \<Rightarrow>
          (case ref_encode lib \<lparr>rfName = hd args, rfKey = key_bytes k, rfCreatedAt = now, rfUser = []\<rparr> of
             Inl e \<Rightarrow> (s, Some e)
           | Inr raw \<Rightarrow> put_and_close env (\<lambda>rf. rf_put lib rf (hd args) raw) s))"

definition run_ref_rm ::
  "('p, 's, 'r, 'z) cli_lib_scheme \<Rightarrow> 'e store_env_scheme \<Rightarrow> string list \<Rightarrow> ('s, 'r, 'y) local_scheme \<Rightarrow>
     ('s, 'r, 'y) local_scheme \<times> goerr option" where
  "run_ref_rm lib env args s =
     (if length args \<noteq> 1 then (s, Some (nargs_err ''ref rm requires exactly one NAME argument'' args))
      else put_and_close env (\<lambda>rf. rf_delete lib rf (hd args)) s)"

section \<open>Importing (chunk.go, import.go)\<close>

record chunk_config =
  ccMin :: int
  ccAvg :: int
  ccMax :: int
  ccItemBits :: int
  ccXattrInlineMax :: int

text \<open>The library's options: \<open>coByte\<close> is \<open>nil\<close> or the three sizes.\<close>

record chunk_options =
  coByte :: "(int \<times> int \<times> int) option"
  coItemBits :: int
  coXattrInlineMax :: int

definition chunk_opts :: "chunk_config \<Rightarrow> goerr + chunk_options" where
  "chunk_opts cc =
     (let opts = \<lparr>coByte = None, coItemBits = ccItemBits cc, coXattrInlineMax = ccXattrInlineMax cc\<rparr> in
      if ccMin cc = 0 \<and> ccAvg cc = 0 \<and> ccMax cc = 0 then Inr opts
      else if ccMin cc \<le> 0 \<or> ccAvg cc \<le> 0 \<or> ccMax cc \<le> 0
      then Inl (ErrorText ''--min, --avg and --max must all be set together'')
      else Inr (opts\<lparr>coByte := Some (ccMin cc, ccAvg cc, ccMax cc)\<rparr>))"

record ingest_config =
  icChunk :: chunk_config
  icRef :: string
  icJobs :: int
  icNoIgnore :: bool
  icNoProgress :: bool

record ingest_options =
  ioJobs :: int
  ioChunk :: chunk_options
  ioNoIgnore :: bool
  ioProgress :: "ingest_progress option"

text \<open>
  \<open>os.Stat\<close> (is it a directory, its size), \<open>ingest.Scan\<close>, \<open>ingest.Dir\<close> (which may have
  stored objects when it fails) and the clock.
\<close>

record 's import_env = store_env +
  ieStat :: "string \<Rightarrow> goerr + bool \<times> 64 word"
  ieScan :: "string \<Rightarrow> bool \<Rightarrow> int \<Rightarrow> goerr + 64 word \<times> 64 word"
  ieIngest :: "'s \<Rightarrow> string \<Rightarrow> ingest_options \<Rightarrow> 's \<times> (goerr + key)"
  ieNow :: "64 word"

definition check_ref_flag :: "('p, 's, 'r, 'z) server_lib_scheme \<Rightarrow> string \<Rightarrow> goerr option" where
  "check_ref_flag lib name =
     (if name = [] then None
      else case ref_validate lib name of
        Some e \<Rightarrow> Some e
      | None \<Rightarrow> if prefix trackingPrefix name then Some (reserved_err name) else None)"

text \<open>The pre-scan that sizes the progress bar, unless it is disabled.\<close>

definition import_progress :: "'s import_env \<Rightarrow> ingest_config \<Rightarrow> string \<Rightarrow> goerr + ingest_progress option" where
  "import_progress env cfg path =
     (case ieStat env path of
        Inl e \<Rightarrow> Inl (Wrapf ''PATH argument: '' e [])
      | Inr (dir, len) \<Rightarrow>
          if icNoProgress cfg then Inr None
          else if dir then
            (case ieScan env path (icNoIgnore cfg) (icJobs cfg) of
               Inl e \<Rightarrow> Inl e
             | Inr (nfiles, nbytes) \<Rightarrow> Inr (Some (new_progress nfiles nbytes)))
          else Inr (Some (new_progress 1 len)))"

definition ref_failed :: "('p, 's, 'z) core_lib_scheme \<Rightarrow> key \<Rightarrow> string \<Rightarrow> goerr \<Rightarrow> goerr" where
  "ref_failed lib k name e =
     Wrapf (''tree stored (root '' @ key_string lib k @ '') but creating reference '' @ go_quote name @ '' failed: '') e
       (CHR 0x0A # ''retry with: amber ref set '' @ go_quote name @ '' '' @ key_string lib k)"

text \<open>Recording the root under the reference of \<open>--ref\<close>.\<close>

definition import_ref ::
  "('p, 's, 'r, 'z) server_lib_scheme \<Rightarrow> 64 word \<Rightarrow> string \<Rightarrow> key \<Rightarrow> ('s, 'r, 'y) local_scheme \<Rightarrow>
     ('s, 'r, 'y) local_scheme \<times> goerr option" where
  "import_ref lib now name k s =
     (if name = [] then (s, None)
      else case ref_encode lib \<lparr>rfName = name, rfKey = key_bytes k, rfCreatedAt = now, rfUser = []\<rparr> of
        Inl e \<Rightarrow> (s, Some (ref_failed lib k name e))
      | Inr raw \<Rightarrow>
          (case rf_put lib (lcRefs s) name raw of
             (rf, e) \<Rightarrow> (s\<lparr>lcRefs := rf\<rparr>, map_option (ref_failed lib k name) e)))"

definition run_import ::
  "('p, 's, 'r, 'z) server_lib_scheme \<Rightarrow> 's import_env \<Rightarrow> ingest_config \<Rightarrow> string list \<Rightarrow> ('s, 'r, 'y) local_scheme \<Rightarrow>
     ('s, 'r, 'y) local_scheme \<times> goerr option" where
  "run_import lib env cfg args s =
     (if length args \<noteq> 1 then (s, Some (nargs_err ''ingest requires exactly one PATH argument'' args))
      else case check_ref_flag lib (icRef cfg) of
        Some e \<Rightarrow> (s, Some e)
      | None \<Rightarrow>
          (case chunk_opts (icChunk cfg) of
             Inl e \<Rightarrow> (s, Some e)
           | Inr copts \<Rightarrow>
               (case import_progress env cfg (hd args) of
                  Inl e \<Rightarrow> (s, Some e)
                | Inr prog \<Rightarrow>
                    (case open_store env s of
                       (s1, Some e) \<Rightarrow> (s1, Some e)
                     | (s1, None) \<Rightarrow>
                         (case ieIngest env (lcObjects s1) (hd args)
                             \<lparr>ioJobs = icJobs cfg, ioChunk = copts, ioNoIgnore = icNoIgnore cfg, ioProgress = prog\<rparr> of
                            (st, Inl e) \<Rightarrow> (fst (close_store env (s1\<lparr>lcObjects := st\<rparr>)), Some e)
                          | (st, Inr k) \<Rightarrow>
                              (case import_ref lib (ieNow env) (icRef cfg) k (s1\<lparr>lcObjects := st\<rparr>) of
                                 (s2, Some e) \<Rightarrow> (fst (close_store env s2), Some e)
                               | (s2, None) \<Rightarrow>
                                   (case close_store env s2 of
                                      (s3, Some e) \<Rightarrow> (s3, Some e)
                                    | (s3, None) \<Rightarrow> (fst (print_line (key_string lib k) s3), None))))))))"

section \<open>Exporting and restoring (export.go, restore.go)\<close>

text \<open>
  \<open>tarexport.Write\<close> is the writes it makes and the error it ends with when all of them succeed;
  \<open>tarextract.Extract\<close> is a function of the bytes its reader delivers, the error that follows
  them (\<open>None\<close> for \<open>io.EOF\<close>) and the file tree.  \<open>flHandles\<close> are the open files.
\<close>

record ('s, 'r, 'f) files = "('s, 'r) local" +
  flFiles :: "(string \<times> ostream) list"
  flHandles :: "string list"
  flTree :: 'f

record 'f tar_env = store_env +
  teWrite :: "key \<Rightarrow> (key \<Rightarrow> goerr + bytes) \<Rightarrow> bytes list \<times> goerr option"
  teExtract :: "string \<Rightarrow> bytes \<Rightarrow> goerr option \<Rightarrow> 'f \<Rightarrow> 'f \<times> goerr option"
  teCreate :: "string \<Rightarrow> goerr + ostream"
  teCloseFile :: "goerr option"

definition tar_write :: "'f tar_env \<Rightarrow> ostream \<Rightarrow> key \<Rightarrow> (key \<Rightarrow> goerr + bytes) \<Rightarrow> ostream \<times> goerr option" where
  "tar_write env w k get =
     (case teWrite env k get of
        (ps, e) \<Rightarrow> (case run_writes os_write w ps of (w', Some e') \<Rightarrow> (w', Some e') | (w', None) \<Rightarrow> (w', e)))"

text \<open>The directory that the first argument of a command names.\<close>

definition spec_dir ::
  "('p, 's, 'r, 'z) cli_lib_scheme \<Rightarrow> string \<Rightarrow> ('s, 'r, 'y) local_scheme \<Rightarrow> goerr + key" where
  "spec_dir lib arg s =
     (case resolve_spec lib (lcRefs s) arg of
        Inl e \<Rightarrow> Inl e
      | Inr (k, path) \<Rightarrow> descend lib (lcObjects s) k path)"

definition export_dir ::
  "('p, 's, 'r, 'z) cli_lib_scheme \<Rightarrow> 'f tar_env \<Rightarrow> string \<Rightarrow> key \<Rightarrow> ('s, 'r, 'f) files \<Rightarrow>
     ('s, 'r, 'f) files \<times> goerr option" where
  "export_dir lib env output dir s =
     (if output = [] then
        (case tar_write env (lcOut s) dir (st_get lib (lcObjects s)) of (w, e) \<Rightarrow> (s\<lparr>lcOut := w\<rparr>, e))
      else
        (case teCreate env output of
           Inl e \<Rightarrow> (s, Some e)
         | Inr f \<Rightarrow>
             let s1 = s\<lparr>flHandles := output # flHandles s\<rparr> in
             (case tar_write env f dir (st_get lib (lcObjects s)) of
                (w, e) \<Rightarrow>
                  (s1\<lparr>flFiles := (output, w) # flFiles s1, flHandles := remove1 output (flHandles s1)\<rparr>,
                   case e of Some err \<Rightarrow> Some err | None \<Rightarrow> teCloseFile env))))"

definition run_export ::
  "('p, 's, 'r, 'z) cli_lib_scheme \<Rightarrow> 'f tar_env \<Rightarrow> string \<Rightarrow> string list \<Rightarrow> ('s, 'r, 'f) files \<Rightarrow>
     ('s, 'r, 'f) files \<times> goerr option" where
  "run_export lib env output args s =
     (if length args \<noteq> 1 then (s, Some (nargs_err ''export requires exactly one KEY[/PATH] argument'' args))
      else with_store env (\<lambda>s1. case spec_dir lib (hd args) s1 of
             Inl e \<Rightarrow> (s1, Some e)
           | Inr dir \<Rightarrow> export_dir lib env output dir s1) Some s)"

text \<open>
  The pipe delivers what the export writes, and then its error or \<open>io.EOF\<close>.  The state is that of the
  command: after an \<open>Extract\<close> that fails, the goroutine that exports stays blocked in the pipe.
\<close>

definition run_restore ::
  "('p, 's, 'r, 'z) cli_lib_scheme \<Rightarrow> 'f tar_env \<Rightarrow> string list \<Rightarrow> ('s, 'r, 'f) files \<Rightarrow>
     ('s, 'r, 'f) files \<times> goerr option" where
  "run_restore lib env args s =
     (if length args \<noteq> 2 then (s, Some (nargs_err ''restore requires exactly two arguments KEY[/PATH] and DIR'' args))
      else with_store env (\<lambda>s1. case spec_dir lib (hd args) s1 of
             Inl e \<Rightarrow> (s1, Some e)
           | Inr dir \<Rightarrow>
               (case teWrite env dir (st_get lib (lcObjects s1)) of
                  (ps, we) \<Rightarrow>
                    (case teExtract env (args ! 1) (concat ps) we (flTree s1) of
                       (t, e) \<Rightarrow> (s1\<lparr>flTree := t\<rparr>, e)))) Some s)"

section \<open>Lemmas\<close>

lemma open_store_Some: "open_store env s = (s1, Some e) \<Longrightarrow> s1 = s"
  by (auto simp: open_store_def Let_def split: if_splits option.splits)

lemma open_store_None: "open_store env s = (s1, None) \<Longrightarrow> s1 = s\<lparr>lcOpen := Refs # Objects # lcOpen s\<rparr>"
  by (auto simp: open_store_def Let_def split: if_splits option.splits)

lemma close_store_eq:
  "lcOpen s = Refs # Objects # h \<Longrightarrow> close_store env s = (s\<lparr>lcOpen := h\<rparr>, errors_join [seCloseRefs env, seCloseObjects env])"
  by (simp add: close_store_def)

lemma with_store_open:
  assumes "\<And>s1. lcOpen (fst (body s1)) = lcOpen s1"
  shows "lcOpen (fst (with_store env body fail s)) = lcOpen s"
proof (cases "open_store env s")
  case (Pair s1 x)
  with assms [of s1] show ?thesis
    by (cases x; cases "body s1")
      (auto simp: with_store_def close_store_eq dest!: open_store_Some open_store_None)
qed

lemma print_line_eq: "lcOpen (fst (print_line t s)) = lcOpen s \<and> lcRefs (fst (print_line t s)) = lcRefs s"
  by (simp add: print_line_def split: prod.split)

lemma ref_list_loop_open: "lcOpen (fst (ref_list_loop lib recs s)) = lcOpen s"
proof (induction lib recs s rule: ref_list_loop.induct)
  case (2 lib name data recs s)
  have p: "lcOpen s1 = lcOpen s" if "print_line t s = (s1, e)" for t s1 e
    using print_line_eq [of t s] that by simp
  from 2 show ?case by (auto split: sum.split prod.split option.split dest: p)
qed simp

lemma put_and_close_open: "lcOpen (fst (put_and_close env put s)) = lcOpen s"
proof (cases "open_store env s")
  case (Pair s1 x)
  then show ?thesis
    by (cases x; cases "put (lcRefs s1)"; cases "snd (put (lcRefs s1))")
      (auto simp: put_and_close_def close_store_eq dest!: open_store_Some open_store_None)
qed

lemma import_ref_open: "lcOpen (fst (import_ref lib now name k s)) = lcOpen s"
  by (simp add: import_ref_def split: sum.split prod.split)

lemma export_dir_open: "lcOpen (fst (export_dir lib env output dir s)) = lcOpen s"
  by (simp add: export_dir_def Let_def split: sum.split prod.split)

lemma run_import_open: "lcOpen (fst (run_import lib env cfg args s)) = lcOpen s"
proof -
  obtain s1 x where o: "open_store env s = (s1, x)" by fastforce
  show ?thesis
  proof (cases x)
    case (Some e)
    with o show ?thesis
      by (auto simp: run_import_def split: option.split sum.split dest!: open_store_Some)
  next
    case None
    with o have s1: "lcOpen s1 = Refs # Objects # lcOpen s" by (auto dest: open_store_None)
    have i: "lcOpen s2 = lcOpen s1" if "import_ref lib now name k (s1\<lparr>lcObjects := st\<rparr>) = (s2, e)" for now name k st s2 e
      using import_ref_open [of lib now name k "s1\<lparr>lcObjects := st\<rparr>"] that by simp
    from o None show ?thesis
      by (auto simp: run_import_def print_line_eq close_store_def s1 split: option.split sum.split prod.split dest!: i)
  qed
qed

lemma run_ref_list_open: "lcOpen (fst (run_ref_list lib env args s)) = lcOpen s"
  by (simp add: run_ref_list_def with_store_open ref_list_loop_open split: sum.split)

lemma run_ref_get_open: "lcOpen (fst (run_ref_get lib env args s)) = lcOpen s"
  by (simp add: run_ref_get_def with_store_open print_line_eq split: sum.split)

lemma run_ref_set_open: "lcOpen (fst (run_ref_set lib env now args s)) = lcOpen s"
  by (simp add: run_ref_set_def put_and_close_open split: sum.split)

lemma run_ref_rm_open: "lcOpen (fst (run_ref_rm lib env args s)) = lcOpen s"
  by (simp add: run_ref_rm_def put_and_close_open)

lemma run_restore_open: "lcOpen (fst (run_restore lib env args s)) = lcOpen s"
  by (simp add: run_restore_def with_store_open split: sum.split prod.split)

lemma run_export_open: "lcOpen (fst (run_export lib env output args s)) = lcOpen s"
  by (simp add: run_export_def with_store_open export_dir_open split: sum.split)

lemmas local_open = run_ref_list_open run_ref_get_open run_ref_set_open run_ref_rm_open run_import_open run_export_open
  run_restore_open

section \<open>Properties\<close>

text \<open>
  Fact (no command leaves the store open).  Whatever fails, a command that has opened the store
  has closed both halves again when it returns, and one that could not open it holds neither.
\<close>

theorem local_commands_close:
  "lcOpen (fst (run_ref_list lib env args s)) = lcOpen s \<and>
   lcOpen (fst (run_ref_get lib env args s)) = lcOpen s \<and>
   lcOpen (fst (run_ref_set lib env now args s)) = lcOpen s \<and>
   lcOpen (fst (run_ref_rm clib env args s)) = lcOpen s \<and>
   lcOpen (fst (run_import lib ienv cfg args s)) = lcOpen s \<and>
   lcOpen (fst (run_export clib tenv output args f)) = lcOpen f \<and>
   lcOpen (fst (run_restore clib tenv args f)) = lcOpen f"
  by (intro conjI local_open)

text \<open>The key of a reference record reads back as it was encoded.\<close>

definition record_law :: "('p, 's, 'r, 'z) server_lib_scheme \<Rightarrow> bool" where
  "record_law lib \<longleftrightarrow> (\<forall>rec raw. ref_encode lib rec = Inr raw \<longrightarrow>
     (\<exists>rec'. ref_decode lib raw = Inr rec' \<and> rfKey rec' = rfKey rec))"

lemma print_line_up:
  "os_up (lcOut s) \<Longrightarrow> \<exists>w. print_line t s = (s\<lparr>lcOut := w\<rparr>, None) \<and> os_up w \<and>
     os_sent w = os_sent (lcOut s) @ bytes_of (t @ [CHR 0x0A])"
proof -
  let ?b = "bytes_of (t @ [CHR 0x0A])"
  assume "os_up (lcOut s)"
  then obtain w where w: "os_write (lcOut s) ?b = (w, length ?b, None)" "os_up w" using os.write_healthy by blast
  then show ?thesis using os.write_ok [OF w(1)] by (intro exI [of _ w]) (simp add: print_line_def)
qed

lemma print_line_sent:
  "print_line t s = (s', None) \<Longrightarrow> os_sent (lcOut s') = os_sent (lcOut s) @ bytes_of (t @ [CHR 0x0A])"
  by (auto simp: print_line_def dest: os.write_ok split: prod.splits)

text \<open>A successful import, step by step.\<close>

lemma run_import_None:
  assumes "run_import lib env cfg args s = (s', None)"
  obtains path prog copts st k s1 s2 where "args = [path]" and "check_ref_flag lib (icRef cfg) = None"
    and "chunk_opts (icChunk cfg) = Inr copts" and "import_progress env cfg path = Inr prog"
    and "open_store env s = (s\<lparr>lcOpen := Refs # Objects # lcOpen s\<rparr>, None)"
    and "ieIngest env (lcObjects s) path \<lparr>ioJobs = icJobs cfg, ioChunk = copts, ioNoIgnore = icNoIgnore cfg,
      ioProgress = prog\<rparr> = (st, Inr k)"
    and "import_ref lib (ieNow env) (icRef cfg) k (s\<lparr>lcOpen := Refs # Objects # lcOpen s, lcObjects := st\<rparr>) = (s2, None)"
    and "close_store env s2 = (s2\<lparr>lcOpen := lcOpen s\<rparr>, None)"
    and "s' = fst (print_line (key_string lib k) (s2\<lparr>lcOpen := lcOpen s\<rparr>))"
proof -
  from assms have n: "length args = 1" by (auto simp: run_import_def split: if_splits)
  then obtain path where path: "args = [path]" by (auto simp: length_Suc_conv)
  with assms obtain copts prog where p: "check_ref_flag lib (icRef cfg) = None"
      "chunk_opts (icChunk cfg) = Inr copts" "import_progress env cfg path = Inr prog"
    by (auto simp: run_import_def split: option.splits sum.splits)
  obtain s1 x where o: "open_store env s = (s1, x)" by fastforce
  with assms path p have x: "x = None" by (auto simp: run_import_def split: option.splits)
  with o have s1: "s1 = s\<lparr>lcOpen := Refs # Objects # lcOpen s\<rparr>" by (simp add: open_store_None)
  obtain st k where i: "ieIngest env (lcObjects s) path \<lparr>ioJobs = icJobs cfg, ioChunk = copts,
      ioNoIgnore = icNoIgnore cfg, ioProgress = prog\<rparr> = (st, Inr k)"
    using assms path p o x s1 by (auto simp: run_import_def split: prod.splits sum.splits)
  obtain s2 y where r: "import_ref lib (ieNow env) (icRef cfg) k (s1\<lparr>lcObjects := st\<rparr>) = (s2, y)" by fastforce
  with assms path p o x s1 i have y: "y = None" by (auto simp: run_import_def split: option.splits)
  have "lcOpen s2 = Refs # Objects # lcOpen s"
    using import_ref_open [of lib "ieNow env" "icRef cfg" k "s1\<lparr>lcObjects := st\<rparr>"] r s1 by simp
  note cl = close_store_eq [OF this, of env]
  with assms path p o x s1 i r y have "close_store env s2 = (s2\<lparr>lcOpen := lcOpen s\<rparr>, None)"
    "s' = fst (print_line (key_string lib k) (s2\<lparr>lcOpen := lcOpen s\<rparr>))"
    by (auto simp: run_import_def split: option.splits)
  with that [OF path p] o x s1 i r y show ?thesis by simp
qed

text \<open>
  Claim C37 (an imported reference is found).  When \<open>import --ref NAME\<close> succeeds, the ingester has
  stored the tree and \<open>NAME\<close>, which is not in the reserved name space, is the only reference
  that has changed: on a terminal that takes every write the import prints the root key, and
  \<open>ref get NAME\<close> then prints the same line.
\<close>

theorem import_then_get:
  assumes "run_import lib env cfg [path] s = (s1, None)" and "icRef cfg \<noteq> []" and "os_up (lcOut s)"
    and "ref_law lib" and "record_law lib" and "name_law lib"
    and "\<forall>st opts st' k. ieIngest env st path opts = (st', Inr k) \<longrightarrow> key_parse lib (key_bytes k) = Inr k"
  shows "\<exists>k opts s2. ieIngest env (lcObjects s) path opts = (lcObjects s1, Inr k) \<and>
    os_sent (lcOut s1) = os_sent (lcOut s) @ bytes_of (key_string lib k @ [CHR 0x0A]) \<and>
    \<not> prefix trackingPrefix (icRef cfg) \<and>
    (\<forall>n. n \<noteq> icRef cfg \<longrightarrow> rf_get lib (lcRefs s1) n = rf_get lib (lcRefs s) n) \<and>
    run_ref_get lib env [icRef cfg] s1 = (s2, None) \<and>
    os_sent (lcOut s2) = os_sent (lcOut s1) @ bytes_of (key_string lib k @ [CHR 0x0A])"
proof -
  let ?h = "Refs # Objects # lcOpen s" and ?name = "icRef cfg"
  obtain path' prog copts st k s0 s2 where i: "[path] = [path']" and ref: "check_ref_flag lib ?name = None"
    and ing: "ieIngest env (lcObjects s) path' \<lparr>ioJobs = icJobs cfg, ioChunk = copts, ioNoIgnore = icNoIgnore cfg,
      ioProgress = prog\<rparr> = (st, Inr k)"
    and op: "open_store env s = (s\<lparr>lcOpen := ?h\<rparr>, None)"
    and rec: "import_ref lib (ieNow env) ?name k (s\<lparr>lcOpen := ?h, lcObjects := st\<rparr>) = (s2, None)"
    and s1: "s1 = fst (print_line (key_string lib k) (s2\<lparr>lcOpen := lcOpen s\<rparr>))"
    by (rule run_import_None [OF assms(1)])
  have valid: "ref_validate lib ?name = None" "\<not> prefix trackingPrefix ?name"
    using ref assms(2) by (auto simp: check_ref_flag_def split: option.splits if_splits)
  obtain raw rf where raw: "ref_encode lib \<lparr>rfName = ?name, rfKey = key_bytes k, rfCreatedAt = ieNow env, rfUser = []\<rparr> = Inr raw"
    and put: "rf_put lib (lcRefs s) ?name raw = (rf, None)" and s2: "s2 = s\<lparr>lcOpen := ?h, lcObjects := st, lcRefs := rf\<rparr>"
    using rec assms(2) by (auto simp: import_ref_def split: sum.splits prod.splits)
  obtain rec' where dec: "ref_decode lib raw = Inr rec'" "rfKey rec' = key_bytes k"
    using assms(5) raw by (fastforce simp: record_law_def)
  have kp: "key_parse lib (key_bytes k) = Inr k"
    using assms(7) ing i by blast
  have get: "rf_get lib rf ?name = Inr raw" "\<forall>n. n \<noteq> ?name \<longrightarrow> rf_get lib rf n = rf_get lib (lcRefs s) n"
    using assms(4) put by (auto simp: ref_law_def)
  have res: "resolve_spec lib rf (''ref:'' @ ?name) = Inr (k, [])"
    using valid(1) get(1) dec kp assms(6) by (simp add: resolve_spec_def cut_prefix_def name_law_def cut_at_absent)
  obtain w where p1: "print_line (key_string lib k) (s2\<lparr>lcOpen := lcOpen s\<rparr>) = (s2\<lparr>lcOpen := lcOpen s, lcOut := w\<rparr>, None)"
    and w: "os_up w" "os_sent w = os_sent (lcOut s) @ bytes_of (key_string lib k @ [CHR 0x0A])"
    using print_line_up [of "s2\<lparr>lcOpen := lcOpen s\<rparr>" "key_string lib k"] assms(3) s2 by auto
  have s1': "s1 = s2\<lparr>lcOpen := lcOpen s, lcOut := w\<rparr>" using s1 p1 by simp
  then have "open_store env s1 = (s1\<lparr>lcOpen := ?h\<rparr>, None)"
    using op s2 by (simp add: open_store_def Let_def split: if_splits option.splits)
  moreover obtain w2 where "print_line (key_string lib k) (s1\<lparr>lcOpen := ?h\<rparr>) = (s1\<lparr>lcOpen := ?h, lcOut := w2\<rparr>, None)"
    "os_sent w2 = os_sent w @ bytes_of (key_string lib k @ [CHR 0x0A])"
    using print_line_up [of "s1\<lparr>lcOpen := ?h\<rparr>" "key_string lib k"] w(1) s1' by auto
  ultimately have "run_ref_get lib env [?name] s1 = (s1\<lparr>lcOut := w2, lcOpen := lcOpen s\<rparr>, None)"
    using res s1' s2 by (simp add: run_ref_get_def with_store_def close_store_eq)
  moreover have "lcObjects s1 = st" "lcOut s1 = w" "lcRefs s1 = rf" using s1' s2 by simp_all
  ultimately show ?thesis
    using ing i valid(2) get(2) w(2) \<open>os_sent w2 = _\<close>
    by (intro exI [of _ k] exI [of _ "s1\<lparr>lcOut := w2, lcOpen := lcOpen s\<rparr>"] exI) auto
qed

definition sample_store_env :: store_env where
  "sample_store_env = \<lparr>seDir = ''d'', seOpenObjects = None, seOpenRefs = None, seCloseRefs = None, seCloseObjects = None\<rparr>"

definition sample_import_env :: "sample_store import_env" where
  "sample_import_env = store_env.extend sample_store_env
     (import_env.fields (\<lambda>p. Inr (False, 3)) (\<lambda>p i j. Inl IoEOF) (\<lambda>st p opts. ((Key [9], [9]) # st, Inr (Key [9]))) 7)"

definition sample_config :: ingest_config where
  "sample_config = \<lparr>icChunk = \<lparr>ccMin = 0, ccAvg = 0, ccMax = 0, ccItemBits = 5, ccXattrInlineMax = 64\<rparr>, icRef = ''main'',
     icJobs = 1, icNoIgnore = False, icNoProgress = False\<rparr>"

definition sample_local :: "(sample_store, (string \<times> bytes) list) local" where
  "sample_local = \<lparr>lcObjects = [], lcRefs = [(''old'', [4])], lcOut = fresh_out, lcOpen = []\<rparr>"

lemmas sample_local_simps = sample_import_env_def sample_store_env_def sample_config_def sample_local_def
  store_env.defs import_env.defs

lemma sample_name_law: "name_law sample_server_lib"
  by (simp add: name_law_def sample_server_simps)

lemma sample_record_law: "record_law sample_server_lib"
  by (simp add: record_law_def sample_server_simps)

theorem import_then_get_witness:
  "\<exists>s1 s2. run_import sample_server_lib sample_import_env sample_config [''p''] sample_local = (s1, None) \<and>
     run_ref_get sample_server_lib sample_import_env [''main''] s1 = (s2, None) \<and>
     os_sent (lcOut s2) = bytes_of [char_of (9 :: nat), CHR 0x0A, char_of (9 :: nat), CHR 0x0A]"
proof -
  have j: "errors_join [None, None] = None" by simp
  obtain s1 where r: "run_import sample_server_lib sample_import_env sample_config [''p''] sample_local = (s1, None)"
    by (simp add: run_import_def check_ref_flag_def chunk_opts_def import_progress_def open_store_def import_ref_def
        close_store_def j sample_local_simps sample_server_simps trackingPrefix_def)
  have "\<exists>k opts s2. ieIngest sample_import_env (lcObjects sample_local) ''p'' opts = (lcObjects s1, Inr k) \<and>
    os_sent (lcOut s1) = os_sent (lcOut sample_local) @ bytes_of (key_string sample_server_lib k @ [CHR 0x0A]) \<and>
    \<not> prefix trackingPrefix (icRef sample_config) \<and>
    (\<forall>n. n \<noteq> icRef sample_config \<longrightarrow> rf_get sample_server_lib (lcRefs s1) n = rf_get sample_server_lib (lcRefs sample_local) n) \<and>
    run_ref_get sample_server_lib sample_import_env [icRef sample_config] s1 = (s2, None) \<and>
    os_sent (lcOut s2) = os_sent (lcOut s1) @ bytes_of (key_string sample_server_lib k @ [CHR 0x0A])"
  proof (rule import_then_get [OF r _ _ sample_server_ref_law sample_record_law sample_name_law])
    show "os_up (lcOut sample_local)" by (simp add: sample_local_def fresh_up)
    show "\<forall>st opts st' k. ieIngest sample_import_env st ''p'' opts = (st', Inr k) \<longrightarrow>
        key_parse sample_server_lib (key_bytes k) = Inr k"
      by (simp add: sample_local_simps sample_server_simps)
  qed (simp add: sample_config_def)
  with r show ?thesis
    by (auto simp: sample_local_simps sample_server_simps fresh_out_def bytes_of_def)
qed

lemma ref_list_loop_shows:
  assumes "\<forall>(name, data)\<in>set recs. \<not> prefix trackingPrefix name \<longrightarrow>
      ref_decode lib data = Inr (rec data) \<and> key_parse lib (rfKey (rec data)) = Inr (k data)"
    and "os_up (lcOut s)"
  shows "\<exists>w. ref_list_loop lib recs s = (s\<lparr>lcOut := w\<rparr>, None) \<and>
    os_sent w = os_sent (lcOut s) @ concat (map (\<lambda>(name, data). bytes_of (ref_line lib (rfName (rec data)) (k data)
       (rfCreatedAt (rec data)) (rfUser (rec data)) @ [CHR 0x0A])) (filter (\<lambda>(name, data). \<not> prefix trackingPrefix name) recs))"
  using assms
proof (induction recs arbitrary: s)
  case Nil
  show ?case by (rule exI [of _ "lcOut s"]) simp
next
  case (Cons r rs)
  let ?show = "\<lambda>(name, data). bytes_of (ref_line lib (rfName (rec data)) (k data) (rfCreatedAt (rec data)) (rfUser (rec data)) @ [CHR 0x0A])"
  obtain name data where r: "r = (name, data)" by (cases r)
  show ?case
  proof (cases "prefix trackingPrefix name")
    case True
    with Cons r show ?thesis by simp
  next
    case False
    with Cons.prems(1) r have d: "ref_decode lib data = Inr (rec data)"
      "key_parse lib (rfKey (rec data)) = Inr (k data)" by auto
    obtain w where p: "print_line (ref_line lib (rfName (rec data)) (k data) (rfCreatedAt (rec data)) (rfUser (rec data))) s =
        (s\<lparr>lcOut := w\<rparr>, None)" "os_up w" "os_sent w = os_sent (lcOut s) @ ?show (name, data)"
      using print_line_up [OF Cons.prems(2)] by fastforce
    from Cons.IH [of "s\<lparr>lcOut := w\<rparr>"] Cons.prems(1) p(2) obtain w2
      where "ref_list_loop lib rs (s\<lparr>lcOut := w\<rparr>) = (s\<lparr>lcOut := w2\<rparr>, None)"
        "os_sent w2 = os_sent w @ concat (map ?show (filter (\<lambda>(name, data). \<not> prefix trackingPrefix name) rs))" by auto
    with r False d p show ?thesis by auto
  qed
qed

text \<open>
  Fact (\<open>ref list\<close> shows what there is).  \<open>ref list\<close> prints one line per reference outside the
  reserved name space, in the order of the store, with the name, key, time and user of its record,
  and nothing of the remote-tracking references.
\<close>

theorem ref_list_exact:
  assumes "open_store env s = (s1, None)" and "rf_all lib (lcRefs s) = Inr recs" and "os_up (lcOut s)"
    and "\<forall>(name, data)\<in>set recs. \<not> prefix trackingPrefix name \<longrightarrow>
      ref_decode lib data = Inr (rec data) \<and> key_parse lib (rfKey (rec data)) = Inr (k data)"
  shows "\<exists>s'. run_ref_list lib env [] s = (s', None) \<and>
    os_sent (lcOut s') = os_sent (lcOut s) @ concat (map (\<lambda>(name, data). bytes_of
      (rfName (rec data) @ '' '' @ key_string lib (k data) @ '' '' @ rfc3339 (rfCreatedAt (rec data)) @
       (if rfUser (rec data) = [] then [] else '' '' @ rfUser (rec data)) @ [CHR 0x0A]))
      (filter (\<lambda>(name, data). \<not> prefix trackingPrefix name) recs))"
proof -
  have s1: "s1 = s\<lparr>lcOpen := Refs # Objects # lcOpen s\<rparr>" using assms(1) by (rule open_store_None)
  with ref_list_loop_shows [OF assms(4), of s1] assms(3) obtain w
    where w: "ref_list_loop lib recs s1 = (s1\<lparr>lcOut := w\<rparr>, None)"
    "os_sent w = os_sent (lcOut s) @ concat (map (\<lambda>(name, data). bytes_of (ref_line lib (rfName (rec data)) (k data)
       (rfCreatedAt (rec data)) (rfUser (rec data)) @ [CHR 0x0A])) (filter (\<lambda>(name, data). \<not> prefix trackingPrefix name) recs))"
    by auto
  with assms(1,2) s1 show ?thesis
    by (simp add: run_ref_list_def with_store_def close_store_eq ref_line_def)
qed

theorem ref_list_exact_witness:
  "\<exists>s'. run_ref_list sample_server_lib sample_store_env []
      (sample_local\<lparr>lcRefs := [(''main'', [9]), (''remotes/x/main'', [4])]\<rparr>) = (s', None) \<and>
    os_sent (lcOut s') = bytes_of ('' '' @ [char_of (9 :: nat)] @ '' '' @ rfc3339 0 @ [CHR 0x0A])"
proof -
  let ?rec = "\<lambda>b. \<lparr>rfName = [], rfKey = b, rfCreatedAt = 0, rfUser = []\<rparr>"
  let ?s = "sample_local\<lparr>lcRefs := [(''main'', [9]), (''remotes/x/main'', [4])]\<rparr>"
  have "open_store sample_store_env ?s = (?s\<lparr>lcOpen := [Refs, Objects]\<rparr>, None)"
    by (simp add: open_store_def sample_local_simps)
  from ref_list_exact [OF this, of sample_server_lib "[(''main'', [9]), (''remotes/x/main'', [4])]" ?rec Key]
  show ?thesis
    using fresh_up by (simp add: sample_local_def fresh_out_def sample_server_simps trackingPrefix_def)
qed

text \<open>\<open>ref get\<close> accepts a name with a path behind an at sign, and ignores the path.\<close>

lemma ref_get_ignores_path:
  assumes "name_law lib" and "ref_validate lib name = None"
  shows "run_ref_get lib env [name @ ''@'' @ path] s = run_ref_get lib env [name] s"
proof -
  have n: "CHR ''@'' \<notin> set name" using assms by (simp add: name_law_def)
  show ?thesis
    unfolding run_ref_get_def
    by (simp add: resolve_spec_def cut_prefix_def cut_at_absent n assms(2))
      (auto intro!: arg_cong [of _ _ "\<lambda>b. with_store env b Some s"] ext split: sum.split)
qed

end
