(* ===== verification/Net_Addr.thy ===== *)
theory Net_Addr
  imports Text_Format
begin

text \<open>
  IP addresses as \<open>net/netip\<close> has them, and cmd/amber-serve/addrs.go: which direct addresses the
  server advertises and publishes.
\<close>

section \<open>Addresses\<close>

text \<open>
  \<open>netip.Addr\<close>: an IPv4 address, an IPv6 address with its zone, or the zero value, which is not
  valid; \<open>netip.AddrPort\<close> adds a port.
\<close>

datatype ip = NoIP | IP4 "32 word" | IP6 "128 word" string

type_synonym addr_port = "ip \<times> 16 word"

text \<open>\<open>AddrFromSlice\<close> takes slices of four and of sixteen bytes.\<close>

definition addr_from_slice :: "bytes \<Rightarrow> ip option" where
  "addr_from_slice b =
     (if length b = 4 then Some (IP4 (word_rcat b))
      else if length b = 16 then Some (IP6 (word_rcat b) [])
      else None)"

text \<open>\<open>Unmap\<close> turns an IPv4-mapped IPv6 address into the IPv4 address it stands for.\<close>

definition unmap_ip :: "ip \<Rightarrow> ip" where
  "unmap_ip a = (case a of
     IP6 w z \<Rightarrow> if drop_bit 32 w = 0xFFFF then IP4 (ucast w) else a
   | _ \<Rightarrow> a)"

definition is_valid :: "ip \<Rightarrow> bool" where
  "is_valid a \<longleftrightarrow> a \<noteq> NoIP"

definition is_loopback :: "ip \<Rightarrow> bool" where
  "is_loopback a = (case unmap_ip a of
     NoIP \<Rightarrow> False | IP4 w \<Rightarrow> drop_bit 24 w = 127 | IP6 w z \<Rightarrow> w = 1)"

definition is_link_local_unicast :: "ip \<Rightarrow> bool" where
  "is_link_local_unicast a = (case unmap_ip a of
     NoIP \<Rightarrow> False | IP4 w \<Rightarrow> drop_bit 16 w = 0xA9FE | IP6 w z \<Rightarrow> drop_bit 118 w = 0x3FA)"

definition is_link_local_multicast :: "ip \<Rightarrow> bool" where
  "is_link_local_multicast a = (case unmap_ip a of
     NoIP \<Rightarrow> False | IP4 w \<Rightarrow> drop_bit 8 w = 0xE00000
   | IP6 w z \<Rightarrow> drop_bit 112 w AND 0xFF0F = 0xFF02)"

definition is_unspecified :: "ip \<Rightarrow> bool" where
  "is_unspecified a \<longleftrightarrow> a = IP4 0 \<or> a = IP6 0 []"

section \<open>Interfaces\<close>

text \<open>A \<open>net.Addr\<close> of an interface: an \<open>IPNet\<close> with its address bytes, or another kind.\<close>

datatype net_addr = IPNet bytes | OtherAddr string

record iface_addrs =
  ifName :: string
  ifUp :: bool
  ifAddrs :: "net_addr list"

definition bridge_prefixes :: "string list" where
  "bridge_prefixes = [''docker'', ''br-'', ''cni'', ''flannel'', ''veth'', ''virbr'', ''lxc'']"

definition is_bridge_name :: "string \<Rightarrow> bool" where
  "is_bridge_name name \<longleftrightarrow> list_ex (\<lambda>p. prefix p name) bridge_prefixes"

text \<open>The inner loop over the addresses of one interface, and the outer loop.\<close>

fun advertise_addrs ::
  "16 word \<Rightarrow> net_addr list \<Rightarrow> ip set \<Rightarrow> addr_port list \<Rightarrow> ip set \<times> addr_port list" where
  "advertise_addrs port [] seen out = (seen, out)"
| "advertise_addrs port (a # as) seen out =
     (case a of
        OtherAddr s \<Rightarrow> advertise_addrs port as seen out
      | IPNet b \<Rightarrow>
          (case addr_from_slice b of
             None \<Rightarrow> advertise_addrs port as seen out
           | Some ip0 \<Rightarrow>
               let ip = unmap_ip ip0 in
               if ip \<in> seen \<or> is_loopback ip \<or> is_link_local_unicast ip \<or> is_link_local_multicast ip \<or>
                  \<not> is_valid ip \<or> is_unspecified ip
               then advertise_addrs port as seen out
               else advertise_addrs port as (insert ip seen) (out @ [(ip, port)])))"

fun advertise_ifaces ::
  "16 word \<Rightarrow> iface_addrs list \<Rightarrow> ip set \<Rightarrow> addr_port list \<Rightarrow> addr_port list" where
  "advertise_ifaces port [] seen out = out"
| "advertise_ifaces port (ifc # ifcs) seen out =
     (if \<not> ifUp ifc \<or> is_bridge_name (ifName ifc) then advertise_ifaces port ifcs seen out
      else (case advertise_addrs port (ifAddrs ifc) seen out of
              (seen', out') \<Rightarrow> advertise_ifaces port ifcs seen' out'))"

definition advertised_addr_ports :: "iface_addrs list \<Rightarrow> 16 word \<Rightarrow> addr_port list" where
  "advertised_addr_ports ifcs port = advertise_ifaces port ifcs {} []"

text \<open>
  \<open>localIfaceAddrs\<close>: the interfaces of the machine with what \<open>Addrs\<close> says of each; an
  interface whose addresses cannot be read is left out.
\<close>

fun collect_ifaces :: "(string \<times> bool \<times> (goerr + net_addr list)) list \<Rightarrow> iface_addrs list" where
  "collect_ifaces [] = []"
| "collect_ifaces ((name, up, as) # ifcs) =
     (case as of
        Inl e \<Rightarrow> collect_ifaces ifcs
      | Inr addrs \<Rightarrow> \<lparr>ifName = name, ifUp = up, ifAddrs = addrs\<rparr> # collect_ifaces ifcs)"

definition local_iface_addrs ::
  "goerr + (string \<times> bool \<times> (goerr + net_addr list)) list \<Rightarrow> goerr + iface_addrs list" where
  "local_iface_addrs machine = (case machine of Inl e \<Rightarrow> Inl e | Inr ifcs \<Rightarrow> Inr (collect_ifaces ifcs))"

section \<open>Addresses given by the operator\<close>

text \<open>\<open>netip.ParseAddrPort\<close> and \<open>netip.ParseAddr\<close>, which only read the text.\<close>

record addr_parser =
  parse_addr_port :: "string \<Rightarrow> goerr + addr_port"
  parse_addr :: "string \<Rightarrow> goerr + ip"

fun parse_advertise_addrs :: "'a addr_parser_scheme \<Rightarrow> string list \<Rightarrow> 16 word \<Rightarrow> goerr + addr_port list" where
  "parse_advertise_addrs ps [] port = Inr []"
| "parse_advertise_addrs ps (v # vs) port =
     (case (case parse_addr_port ps v of
              Inr ap \<Rightarrow> Inr ap
            | Inl _ \<Rightarrow>
                (case parse_addr ps v of
                   Inl e \<Rightarrow> Inl (Wrapf (''parse --advertise-addr '' @ go_quote v @ '': want ip or ip:port: '') e [])
                 | Inr ip \<Rightarrow> Inr (unmap_ip ip, port))) of
        Inl e \<Rightarrow> Inl e
      | Inr ap \<Rightarrow>
          (case parse_advertise_addrs ps vs port of Inl e \<Rightarrow> Inl e | Inr aps \<Rightarrow> Inr (ap # aps)))"

section \<open>Publishing\<close>

text \<open>\<open>netaddr.TransportAddr\<close>: an IP candidate or another one (a relay).\<close>

datatype transport_addr = IPAddr addr_port | RelayAddr string

definition publishable_addrs :: "transport_addr list \<Rightarrow> transport_addr list" where
  "publishable_addrs = filter (\<lambda>a. case a of
     IPAddr (ip, p) \<Rightarrow> is_valid ip \<and> \<not> is_unspecified ip | RelayAddr s \<Rightarrow> True)"

section \<open>Lemmas\<close>

text \<open>An address a peer on another machine can dial.\<close>

definition dialable :: "ip \<Rightarrow> bool" where
  "dialable ip \<longleftrightarrow> is_valid ip \<and> \<not> is_loopback ip \<and> \<not> is_link_local_unicast ip \<and>
     \<not> is_link_local_multicast ip \<and> \<not> is_unspecified ip"

text \<open>The addresses of an interface as \<open>IPNet\<close>s, unmapped.\<close>

definition unicast_ips :: "net_addr list \<Rightarrow> ip list" where
  "unicast_ips as = filter dialable (map unmap_ip (List.map_filter
     (\<lambda>a. case a of IPNet b \<Rightarrow> addr_from_slice b | OtherAddr s \<Rightarrow> None) as))"

lemma unicast_ips_Nil [simp]: "unicast_ips [] = []"
  by (simp add: unicast_ips_def List.map_filter_def)

lemma unicast_ips_Cons:
  "unicast_ips (a # as) =
     (case a of OtherAddr s \<Rightarrow> [] | IPNet b \<Rightarrow>
        (case addr_from_slice b of None \<Rightarrow> [] | Some ip \<Rightarrow> if dialable (unmap_ip ip) then [unmap_ip ip] else [])) @
     unicast_ips as"
  by (simp add: unicast_ips_def List.map_filter_def split: net_addr.split option.split)

lemma dedup_seen_append:
  "dedup_seen seen (xs @ ys) = dedup_seen seen xs @ dedup_seen (seen \<union> set xs) ys"
proof (induction seen xs rule: dedup_seen.induct)
  case (2 seen x xs)
  then show ?case by (cases "x \<in> seen") (simp_all add: insert_absorb Un_insert_right)
qed simp

lemma advertise_addrs_eq:
  "advertise_addrs port as seen out =
     (seen \<union> set (unicast_ips as), out @ map (\<lambda>ip. (ip, port)) (dedup_seen seen (unicast_ips as)))"
  by (induction port as seen out rule: advertise_addrs.induct)
    (auto simp: unicast_ips_Cons Let_def dialable_def insert_absorb split: net_addr.split option.split)

lemma advertise_ifaces_eq:
  "advertise_ifaces port ifcs seen out =
     out @ map (\<lambda>ip. (ip, port)) (dedup_seen seen (concat (map (\<lambda>ifc. unicast_ips (ifAddrs ifc))
       (filter (\<lambda>ifc. ifUp ifc \<and> \<not> is_bridge_name (ifName ifc)) ifcs))))"
  by (induction port ifcs seen out rule: advertise_ifaces.induct)
    (auto simp: advertise_addrs_eq dedup_seen_append)

lemma unmap_idem [simp]: "unmap_ip (unmap_ip a) = unmap_ip a"
  by (auto simp: unmap_ip_def split: ip.split)

section \<open>Properties\<close>

text \<open>
  Fact (what is advertised).  The advertised addresses are exactly the dialable addresses of
  the interfaces that are up and no bridge, in order, each once and with the given port: never a
  loopback, link-local, unspecified or IPv4-mapped one.
\<close>

theorem advertised_exact:
  "advertised_addr_ports ifcs port = map (\<lambda>ip. (ip, port)) (dedup_seen {} (concat (map (\<lambda>ifc. unicast_ips (ifAddrs ifc))
     (filter (\<lambda>ifc. ifUp ifc \<and> \<not> is_bridge_name (ifName ifc)) ifcs)))) \<and>
   distinct (map fst (advertised_addr_ports ifcs port)) \<and>
   (\<forall>(ip, p) \<in> set (advertised_addr_ports ifcs port). p = port \<and> dialable ip \<and> unmap_ip ip = ip)"
proof -
  let ?ips = "concat (map (\<lambda>ifc. unicast_ips (ifAddrs ifc)) (filter (\<lambda>ifc. ifUp ifc \<and> \<not> is_bridge_name (ifName ifc)) ifcs))"
  have e: "advertised_addr_ports ifcs port = map (\<lambda>ip. (ip, port)) (dedup_seen {} ?ips)"
    by (simp add: advertised_addr_ports_def advertise_ifaces_eq)
  have "\<forall>ip\<in>set ?ips. dialable ip \<and> unmap_ip ip = ip" by (auto simp: unicast_ips_def)
  with e show ?thesis by (auto simp: comp_def distinct_dedup_seen set_dedup_seen)
qed

theorem advertised_exact_witness:
  "advertised_addr_ports
     [\<lparr>ifName = ''lo'', ifUp = True, ifAddrs = [IPNet [127, 0, 0, 1]]\<rparr>,
      \<lparr>ifName = ''docker0'', ifUp = True, ifAddrs = [IPNet [172, 17, 0, 1]]\<rparr>,
      \<lparr>ifName = ''eth0'', ifUp = True, ifAddrs = [IPNet [10, 0, 0, 7], OtherAddr ''x'', IPNet [10, 0, 0, 7]]\<rparr>] 99 =
   [(IP4 0x0A000007, 99)]"
  unfolding advertised_exact [THEN conjunct1]
  by (simp add: is_bridge_name_def bridge_prefixes_def unicast_ips_Cons addr_from_slice_def unmap_ip_def dialable_def
      is_valid_def is_loopback_def is_link_local_unicast_def is_link_local_multicast_def is_unspecified_def word_rcat_def)

end
