(* ===== verification/Dial.thy ===== *)
theory Dial
  imports Local_Store Net_Addr
begin

text \<open>
  cmd/amber/dial.go and relaymode/relaymode.go: how the client connects to the server, races the
  candidate addresses, and opens the extra connections of a sharded transfer.  The network
  library is its results: what \<open>Bind\<close>, the connection attempts (in the order in which they
  finish) and the stream opens return.  Connections and endpoints are numbers.
\<close>

section \<open>Small helpers\<close>

definition tracking_ref :: "string \<Rightarrow> string \<Rightarrow> string" where
  "tracking_ref server_id name = trackingPrefix @ server_id @ ''/'' @ name"

definition conns_flag :: "int \<Rightarrow> int" where
  "conns_flag n = (if n < 1 then 1 else if 16 < n then 16 else n)"

section \<open>Direct addresses\<close>

text \<open>\<open>strconv.ParseUint(s, 10, 16)\<close>.\<close>

definition num_err :: "string \<Rightarrow> string \<Rightarrow> goerr" where
  "num_err s what = LibErr (''strconv.ParseUint: parsing '' @ go_quote s @ '': '' @ what)"

fun parse_port_loop :: "string \<Rightarrow> nat \<Rightarrow> string \<Rightarrow> goerr + nat" where
  "parse_port_loop s n [] = Inr n"
| "parse_port_loop s n (c # cs) =
     (if \<not> is_digit c then Inl (num_err s ''invalid syntax'')
      else if 65535 < 10 * n + digit_val c then Inl (num_err s ''value out of range'')
      else parse_port_loop s (10 * n + digit_val c) cs)"

definition parse_port :: "string \<Rightarrow> goerr + 16 word" where
  "parse_port s =
     (if s = [] then Inl (num_err s ''invalid syntax'')
      else case parse_port_loop s 0 s of Inl e \<Rightarrow> Inl e | Inr n \<Rightarrow> Inr (of_nat n))"

text \<open>\<open>net.SplitHostPort\<close> and the resolver.\<close>

record host_resolver = addr_parser +
  split_host_port :: "string \<Rightarrow> goerr + string \<times> string"
  lookup_ips :: "string \<Rightarrow> goerr + ip list"

definition parse_direct_addr :: "'a host_resolver_scheme \<Rightarrow> string \<Rightarrow> goerr + addr_port list" where
  "parse_direct_addr rv s =
     (case parse_addr_port rv s of
        Inr ap \<Rightarrow> Inr [ap]
      | Inl _ \<Rightarrow>
          (case split_host_port rv s of
             Inl e \<Rightarrow> Inl (Wrapf (''parse --addr '' @ go_quote s @ '': '') e [])
           | Inr (host, port_str) \<Rightarrow>
               (case parse_port port_str of
                  Inl e \<Rightarrow> Inl (Wrapf (''parse --addr '' @ go_quote s @ '': bad port: '') e [])
                | Inr port \<Rightarrow>
                    (case lookup_ips rv host of
                       Inl e \<Rightarrow> Inl (Wrapf (''resolve --addr host '' @ go_quote host @ '': '') e [])
                     | Inr ips \<Rightarrow> Inr (map (\<lambda>ip. (unmap_ip ip, port)) ips)))))"

fun parse_direct_addrs :: "'a host_resolver_scheme \<Rightarrow> string list \<Rightarrow> goerr + addr_port list" where
  "parse_direct_addrs rv [] = Inr []"
| "parse_direct_addrs rv (s # ss) =
     (case parse_direct_addr rv s of
        Inl e \<Rightarrow> Inl e
      | Inr aps \<Rightarrow> (case parse_direct_addrs rv ss of Inl e \<Rightarrow> Inl e | Inr rest \<Rightarrow> Inr (aps @ rest)))"

section \<open>Racing the candidates\<close>

type_synonym conn = nat
type_synonym endpoint = nat

text \<open>
  The results in the order in which they arrive; the second component is the connections the
  clean-up goroutine closes.
\<close>

definition late_conns :: "(goerr + conn) list \<Rightarrow> conn list" where
  "late_conns = List.map_filter (\<lambda>r. case r of Inr c \<Rightarrow> Some c | Inl e \<Rightarrow> None)"

fun race_loop :: "nat \<Rightarrow> (goerr + conn) list \<Rightarrow> goerr list \<Rightarrow> (goerr + conn) \<times> conn list" where
  "race_loop n [] errs = (Inl (JoinErr errs), [])"
| "race_loop n (Inl e # rs) errs = race_loop n rs (errs @ [e])"
| "race_loop n (Inr c # rs) errs = (Inr c, late_conns (take (n - length errs - 1) rs))"

definition race_connect :: "string \<Rightarrow> transport_addr list \<Rightarrow> (goerr + conn) list \<Rightarrow> (goerr + conn) \<times> conn list" where
  "race_connect ident cands arrivals =
     (if cands = [] then (Inl (ErrorText (''no candidate addresses for endpoint '' @ ident)), [])
      else race_loop (length cands) (take (length cands) arrivals) [])"

section \<open>Connections to one server\<close>

text \<open>\<open>scRemote\<close>: the address bytes of the control connection's \<open>RemoteAddr\<close>, if it is a UDP address.\<close>

record server_conn =
  scConn :: conn
  scEP :: endpoint
  scID :: string
  scCands :: "transport_addr list"
  scRemote :: "bytes option"
  scExtraEPs :: "endpoint list"

text \<open>The endpoints bound and shut down, and the connections established and closed.\<close>

record net =
  ntBound :: "endpoint list"
  ntShut :: "endpoint list"
  ntOpened :: "conn list"
  ntClosed :: "conn list"

definition no_net :: net where
  "no_net = \<lparr>ntBound = [], ntShut = [], ntOpened = [], ntClosed = []\<rparr>"

definition close_conns :: "conn list \<Rightarrow> net \<Rightarrow> net" where
  "close_conns cs n = n\<lparr>ntClosed := ntClosed n @ cs\<rparr>"

definition bind_ep :: "endpoint \<Rightarrow> net \<Rightarrow> net" where
  "bind_ep ep n = n\<lparr>ntBound := ntBound n @ [ep]\<rparr>"

definition shutdown_eps :: "endpoint list \<Rightarrow> net \<Rightarrow> net" where
  "shutdown_eps eps n = n\<lparr>ntShut := ntShut n @ eps\<rparr>"

text \<open>
  \<open>raceConnect\<close> closes the connections that lose in a goroutine of its own, which nobody waits for;
  the endpoint they belong to is shut down on every path.  \<open>ntClosed\<close> says that they are closed, not
  when: the model closes them with the race, and no theorem orders the entries.
\<close>

definition race_net ::
  "string \<Rightarrow> transport_addr list \<Rightarrow> (goerr + conn) list \<Rightarrow> net \<Rightarrow> net \<times> (goerr + conn)" where
  "race_net ident cands arrivals n =
     (case race_connect ident cands arrivals of
        (r, late) \<Rightarrow>
          (close_conns late (n\<lparr>ntOpened := ntOpened n @ late_conns (take (length cands) arrivals)\<rparr>), r))"

text \<open>
  One attempt at an extra connection: what \<open>Bind\<close>, the first race, the race over the control
  candidates and \<open>OpenStreamConn\<close> give.
\<close>

record 'w attempt =
  atBind :: "goerr + endpoint"
  atRace :: "(goerr + conn) list"
  atRetry :: "(goerr + conn) list"
  atOpen :: "goerr + 'w link"

definition remote_ip :: "server_conn \<Rightarrow> ip option" where
  "remote_ip sc = (case scRemote sc of
     None \<Rightarrow> None | Some b \<Rightarrow> map_option unmap_ip (addr_from_slice b))"

definition extra_cands :: "server_conn \<Rightarrow> nat \<Rightarrow> 16 word list \<Rightarrow> transport_addr list" where
  "extra_cands sc i ports =
     (if ports = [] then scCands sc
      else case remote_ip sc of
        None \<Rightarrow> scCands sc
      | Some ip \<Rightarrow> [IPAddr (ip, ports ! (i mod length ports))])"

definition extra_conn ::
  "nat \<Rightarrow> 16 word list \<Rightarrow> 'w attempt \<Rightarrow> server_conn \<Rightarrow> net \<Rightarrow> server_conn \<times> net \<times> (goerr + conn)" where
  "extra_conn i ports a sc n =
     (case atBind a of
        Inl e \<Rightarrow> (sc, n, Inl e)
      | Inr ep \<Rightarrow>
          let kept = sc\<lparr>scExtraEPs := scExtraEPs sc @ [ep]\<rparr> in
          (case race_net (scID sc) (extra_cands sc i ports) (atRace a) (bind_ep ep n) of
             (n1, Inr c) \<Rightarrow> (kept, n1, Inr c)
           | (n1, Inl e) \<Rightarrow>
               if ports = [] then (sc, shutdown_eps [ep] n1, Inl e)
               else (case race_net (scID sc) (scCands sc) (atRetry a) n1 of
                       (n2, Inr c) \<Rightarrow> (kept, n2, Inr c)
                     | (n2, Inl e') \<Rightarrow> (sc, shutdown_eps [ep] n2, Inl e'))))"

definition sc_close :: "server_conn \<Rightarrow> net \<Rightarrow> server_conn \<times> net" where
  "sc_close sc n =
     (sc\<lparr>scExtraEPs := []\<rparr>, shutdown_eps (scEP sc # scExtraEPs sc) (close_conns [scConn sc] n))"

text \<open>
  \<open>attachExtras\<close>: the attempts \<open>i\<close> to \<open>i + k - 1\<close>; the streams come with their connections,
  which the closer closes.
\<close>

definition attach_msg :: "bytes \<Rightarrow> msg" where
  "attach_msg token = zero_msg\<lparr>mType := TAttach, mToken := token\<rparr>"

fun attach_loop ::
  "'a wire_lib_scheme \<Rightarrow> 'w writer \<Rightarrow> bytes \<Rightarrow> 16 word list \<Rightarrow> (nat \<Rightarrow> 'w attempt) \<Rightarrow> nat \<Rightarrow> nat \<Rightarrow>
     server_conn \<Rightarrow> net \<Rightarrow> server_conn \<times> net \<times> (conn \<times> 'w link) list" where
  "attach_loop lib wr token ports ats i 0 sc n = (sc, n, [])"
| "attach_loop lib wr token ports ats i (Suc k) sc n =
     (case extra_conn i ports (ats i) sc n of
        (sc1, n1, Inl e) \<Rightarrow> (sc1, n1, [])
      | (sc1, n1, Inr c) \<Rightarrow>
          (case atOpen (ats i) of
             Inl e \<Rightarrow> (sc1, close_conns [c] n1, [])
           | Inr l \<Rightarrow>
               (case write_msg lib wr (lkOut l) (attach_msg token) of
                  (w, Some e) \<Rightarrow> (sc1, close_conns [c] n1, [])
                | (w, None) \<Rightarrow>
                    (case attach_loop lib wr token ports ats (Suc i) k sc1 n1 of
                       (sc2, n2, streams) \<Rightarrow> (sc2, n2, (c, l\<lparr>lkOut := w\<rparr>) # streams)))))"

definition attach_extras ::
  "'a wire_lib_scheme \<Rightarrow> 'w writer \<Rightarrow> bytes \<Rightarrow> 16 word list \<Rightarrow> (nat \<Rightarrow> 'w attempt) \<Rightarrow> nat \<Rightarrow>
     server_conn \<Rightarrow> net \<Rightarrow> server_conn \<times> net \<times> (conn \<times> 'w link) list" where
  "attach_extras lib wr token ports ats k sc n = attach_loop lib wr token ports ats 0 k sc n"

definition close_extras :: "(conn \<times> 'w link) list \<Rightarrow> net \<Rightarrow> net" where
  "close_extras streams n = close_conns (map fst streams) n"

section \<open>Dialling\<close>

text \<open>
  \<open>relaymode.FromFlag\<close>: the default relay map, or a custom map of the given URLs; a URL is what
  \<open>netaddr.ParseRelayURL\<close> makes of its text.
\<close>

datatype 'u relay_mode = ModeDefault | ModeCustom "'u list"

definition from_flag :: "(string \<Rightarrow> goerr + 'u) \<Rightarrow> string \<Rightarrow> goerr + 'u relay_mode" where
  "from_flag parse_url url =
     (if url = [] then Inr ModeDefault
      else case parse_url url of
        Inl e \<Rightarrow> Inl (Wrapf (''parse --relay '' @ go_quote url @ '': '') e [])
      | Inr u \<Rightarrow> Inr (ModeCustom [u]))"

text \<open>
  What the libraries give during \<open>dialServer\<close>: \<open>deBind\<close> is one function for both ways of binding,
  \<open>deResolved\<close> the answers of the resolvers in turn, \<open>deWithAddrs\<close> the union of candidates
  that \<open>EndpointAddr.WithAddrs\<close> makes.
\<close>

record 'u dial_env =
  deResolver :: host_resolver
  deParseID :: "string \<Rightarrow> goerr + string"
  deGenKey :: "goerr option"
  dePkarr :: "goerr option"
  deParseURL :: "string \<Rightarrow> goerr + 'u"
  deBind :: "goerr + endpoint"
  deResolved :: "(goerr + transport_addr list) list"
  deWithAddrs :: "transport_addr list \<Rightarrow> transport_addr list \<Rightarrow> transport_addr list"
  deArrivals :: "(goerr + conn) list"
  deRemote :: "bytes option"

text \<open>The union of what the resolvers found; \<open>None\<close> if none of them found anything, with the last error.\<close>

fun resolve_loop ::
  "(transport_addr list \<Rightarrow> transport_addr list \<Rightarrow> transport_addr list) \<Rightarrow> (goerr + transport_addr list) list \<Rightarrow>
     transport_addr list \<Rightarrow> bool \<Rightarrow> goerr option \<Rightarrow> transport_addr list \<times> bool \<times> goerr option" where
  "resolve_loop un [] addrs resolved err = (addrs, resolved, err)"
| "resolve_loop un (Inl e # rs) addrs resolved err = resolve_loop un rs addrs resolved (Some e)"
| "resolve_loop un (Inr as # rs) addrs resolved err = resolve_loop un rs (un addrs as) True err"

text \<open>The common end: race the candidates and shut the endpoint down when they all fail.\<close>

definition dial_cands ::
  "'u dial_env \<Rightarrow> endpoint \<Rightarrow> string \<Rightarrow> transport_addr list \<Rightarrow> net \<Rightarrow> net \<times> (goerr + server_conn)" where
  "dial_cands env ep ident cands n =
     (case race_net ident cands (deArrivals env) n of
        (n1, Inl e) \<Rightarrow> (shutdown_eps [ep] n1, Inl (Wrapf ''connect: '' e []))
      | (n1, Inr c) \<Rightarrow>
          (n1, Inr \<lparr>scConn = c, scEP = ep, scID = ident, scCands = cands, scRemote = deRemote env, scExtraEPs = []\<rparr>))"

definition no_address :: "(key \<Rightarrow> string) \<Rightarrow> string \<Rightarrow> goerr option \<Rightarrow> goerr" where
  "no_address ks ident err =
     ErrorText (''no address found for endpoint '' @ ident @
       (case err of None \<Rightarrow> [] | Some e \<Rightarrow> '' (last resolver error: '' @ err_text ks e @ '')''))"

definition dial_server ::
  "(key \<Rightarrow> string) \<Rightarrow> 'u dial_env \<Rightarrow> string \<Rightarrow> string list \<Rightarrow> string \<Rightarrow> net \<Rightarrow> net \<times> (goerr + server_conn)" where
  "dial_server ks env server_id direct relay_url n =
     (case deParseID env server_id of
        Inl e \<Rightarrow> (n, Inl (Wrapf ''parse endpoint id: '' e []))
      | Inr ident \<Rightarrow>
          if direct \<noteq> [] then
            (case parse_direct_addrs (deResolver env) direct of
               Inl e \<Rightarrow> (n, Inl e)
             | Inr aps \<Rightarrow>
                 (case deBind env of
                    Inl e \<Rightarrow> (n, Inl (Wrapf ''bind: '' e []))
                  | Inr ep \<Rightarrow> dial_cands env ep ident (map IPAddr aps) (bind_ep ep n)))
          else
            (case deGenKey env of
               Some e \<Rightarrow> (n, Inl (Wrapf ''generate key: '' e []))
             | None \<Rightarrow>
                 (case dePkarr env of
                    Some e \<Rightarrow> (n, Inl (Wrapf ''pkarr resolver: '' e []))
                  | None \<Rightarrow>
                      (case from_flag (deParseURL env) relay_url of
                         Inl e \<Rightarrow> (n, Inl e)
                       | Inr mode \<Rightarrow>
                           (case deBind env of
                              Inl e \<Rightarrow> (n, Inl (Wrapf ''bind: '' e []))
                            | Inr ep \<Rightarrow>
                                (case resolve_loop (deWithAddrs env) (deResolved env) [] False None of
                                   (cands, resolved, err) \<Rightarrow>
                                     if \<not> resolved then (shutdown_eps [ep] (bind_ep ep n), Inl (no_address ks ident err))
                                     else dial_cands env ep ident cands (bind_ep ep n)))))))"

section \<open>Lemmas\<close>

lemma late_conns_simps [simp]:
  "late_conns [] = []" "late_conns (Inl e # rs) = late_conns rs" "late_conns (Inr c # rs) = c # late_conns rs"
  by (simp_all add: late_conns_def List.map_filter_def)

lemma late_conns_append [simp]: "late_conns (xs @ ys) = late_conns xs @ late_conns ys"
  by (simp add: late_conns_def List.map_filter_def)

lemma race_loop_spec:
  "length errs + length rs \<le> n \<Longrightarrow> race_loop n rs errs =
     (case late_conns rs of
        [] \<Rightarrow> (Inl (JoinErr (errs @ map projl rs)), [])
      | c # cs \<Rightarrow> (Inr c, cs))"
proof (induction rs arbitrary: errs)
  case (Cons r rs)
  then show ?case by (cases r) (auto split: list.split)
qed simp

lemma race_connect_spec:
  assumes "cands \<noteq> []"
  defines "rs arrivals \<equiv> take (length cands) arrivals"
  shows "race_connect ident cands arrivals =
    (case late_conns (rs arrivals) of
       [] \<Rightarrow> (Inl (JoinErr (map projl (rs arrivals))), [])
     | c # cs \<Rightarrow> (Inr c, cs))"
  using assms race_loop_spec [of "[]" "take (length cands) arrivals" "length cands"]
  by (simp add: race_connect_def split: list.split)

text \<open>
  Nothing is lost: every endpoint bound is shut down or held, and every connection established
  is closed or held.
\<close>

definition holds_net :: "endpoint list \<Rightarrow> conn list \<Rightarrow> net \<Rightarrow> bool" where
  "holds_net eps cs n \<longleftrightarrow> mset (ntBound n) = mset (ntShut n) + mset eps \<and> mset (ntOpened n) = mset (ntClosed n) + mset cs"

lemma race_net_holds:
  assumes "race_net ident cands arrivals n = (n', r)" and "holds_net eps cs n"
  shows "holds_net eps (case r of Inr c \<Rightarrow> c # cs | Inl e \<Rightarrow> cs) n'"
proof (cases "cands = []")
  case True
  with assms show ?thesis by (auto simp: race_net_def race_connect_def holds_net_def close_conns_def)
next
  case False
  from assms show ?thesis
    by (auto simp: race_net_def race_connect_spec [OF False] holds_net_def close_conns_def split: list.splits)
qed

lemma holds_bind: "holds_net eps cs n \<Longrightarrow> holds_net (ep # eps) cs (bind_ep ep n)"
  by (simp add: holds_net_def bind_ep_def)

lemma holds_shutdown: "holds_net (es @ eps) cs n \<Longrightarrow> holds_net eps cs (shutdown_eps es n)"
  by (simp add: holds_net_def shutdown_eps_def)

lemma holds_close: "holds_net eps (ds @ cs) n \<Longrightarrow> holds_net eps cs (close_conns ds n)"
  by (simp add: holds_net_def close_conns_def)

lemma holds_perm: "holds_net eps cs n \<Longrightarrow> mset eps = mset eps' \<Longrightarrow> mset cs = mset cs' \<Longrightarrow> holds_net eps' cs' n"
  by (simp add: holds_net_def)

lemma extra_conn_holds:
  assumes "extra_conn i ports a sc n = (sc', n', r)" and "holds_net (scEP sc # scExtraEPs sc) cs n"
  shows "holds_net (scEP sc' # scExtraEPs sc') (case r of Inr c \<Rightarrow> c # cs | Inl e \<Rightarrow> cs) n' \<and>
    scEP sc' = scEP sc \<and> scConn sc' = scConn sc"
proof (cases "atBind a")
  case (Inl e)
  with assms(1) have "r = Inl e" "sc' = sc" "n' = n" by (simp_all add: extra_conn_def)
  with assms(2) show ?thesis by simp
next
  case (Inr ep)
  let ?eps = "ep # scEP sc # scExtraEPs sc"
  have h0: "holds_net ?eps cs (bind_ep ep n)" using holds_bind [OF assms(2)] .
  obtain n1 r1 where r1: "race_net (scID sc) (extra_cands sc i ports) (atRace a) (bind_ep ep n) = (n1, r1)" by fastforce
  note h1 = race_net_holds [OF r1 h0]
  have keep: "holds_net (scEP sc # scExtraEPs sc @ [ep]) ds m" if "holds_net ?eps ds m" for ds m
    using holds_perm [OF that, of "scEP sc # scExtraEPs sc @ [ep]" ds] by simp
  have drop: "holds_net (scEP sc # scExtraEPs sc) ds (shutdown_eps [ep] m)" if "holds_net ?eps ds m" for ds m
    using holds_shutdown [of "[ep]" "scEP sc # scExtraEPs sc" ds m] that by simp
  show ?thesis
  proof (cases r1)
    case (Inr c)
    with assms(1) \<open>atBind a = Inr ep\<close> r1 h1 keep [of "c # cs" n1] show ?thesis by (auto simp: extra_conn_def)
  next
    case (Inl e)
    obtain n2 r2 where r2: "race_net (scID sc) (scCands sc) (atRetry a) n1 = (n2, r2)" by fastforce
    have h1': "holds_net ?eps cs n1" using h1 Inl by simp
    note h2 = race_net_holds [OF r2 h1']
    show ?thesis
      using assms(1) Inr r1 Inl r2 h2 drop [OF h1'] drop [of cs n2] keep [of _ n2]
      by (cases r2) (auto simp: extra_conn_def split: if_splits)
  qed
qed

lemma attach_loop_holds:
  assumes "attach_loop lib wr token ports ats i k sc n = (sc', n', streams)"
    and "holds_net (scEP sc # scExtraEPs sc) cs n"
  shows "holds_net (scEP sc' # scExtraEPs sc') (map fst streams @ cs) n' \<and> scEP sc' = scEP sc \<and> scConn sc' = scConn sc"
  using assms
proof (induction k arbitrary: i sc n streams cs)
  case (Suc k)
  obtain sc1 n1 r where x: "extra_conn i ports (ats i) sc n = (sc1, n1, r)" by (metis prod_cases3)
  note h1 = extra_conn_holds [OF x Suc.prems(2)]
  show ?case
  proof (cases r)
    case (Inl e)
    with Suc.prems x h1 show ?thesis by auto
  next
    case (Inr c)
    from h1 [THEN conjunct1] have h1': "holds_net (scEP sc1 # scExtraEPs sc1) (c # cs) n1"
      unfolding Inr sum.case .
    have closed: "holds_net (scEP sc1 # scExtraEPs sc1) cs (close_conns [c] n1)"
      using holds_close [of _ "[c]" cs n1] h1' by simp
    show ?thesis
    proof (cases "atOpen (ats i)")
      case (Inl e)
      with Suc.prems x Inr h1 closed show ?thesis by auto
    next
      case (Inr l)
      obtain w e where w: "write_msg lib wr (lkOut l) (attach_msg token) = (w, e)" by fastforce
      show ?thesis
      proof (cases e)
        case (Some err)
        with Suc.prems x Inr \<open>r = Inr c\<close> w h1 closed show ?thesis by auto
      next
        case None
        with Suc.prems(1) x Inr \<open>r = Inr c\<close> w obtain rest where
          rest: "attach_loop lib wr token ports ats (Suc i) k sc1 n1 = (sc', n', rest)" and
          streams: "streams = (c, l\<lparr>lkOut := w\<rparr>) # rest"
          by (auto split: prod.splits)
        from Suc.IH [OF rest h1'] h1 holds_perm show ?thesis
          by (auto simp: streams elim!: holds_perm)
      qed
    qed
  qed
qed auto

lemma dial_cands_holds:
  assumes "dial_cands env ep ident cands n = (n', r)" and "holds_net [ep] [] n"
  shows "case r of Inl e \<Rightarrow> holds_net [] [] n' | Inr sc \<Rightarrow> holds_net (scEP sc # scExtraEPs sc) [scConn sc] n'"
proof -
  obtain n1 r1 where r1: "race_net ident cands (deArrivals env) n = (n1, r1)" by fastforce
  from race_net_holds [OF r1 assms(2)] assms(1) r1 show ?thesis
    by (cases r1) (auto simp: dial_cands_def holds_shutdown)
qed

lemma dial_server_holds:
  assumes "dial_server ks env server_id direct relay_url no_net = (n, r)"
  shows "case r of Inl e \<Rightarrow> holds_net [] [] n | Inr sc \<Rightarrow> holds_net (scEP sc # scExtraEPs sc) [scConn sc] n"
proof -
  have z: "holds_net [] [] no_net" by (simp add: holds_net_def no_net_def)
  have b: "holds_net [ep] [] (bind_ep ep no_net)" for ep by (rule holds_bind [OF z])
  have s: "holds_net [] [] (shutdown_eps [ep] (bind_ep ep no_net))" for ep using holds_shutdown [of "[ep]" "[]"] b by simp
  have d: "case r of Inl e \<Rightarrow> holds_net [] [] n | Inr sc \<Rightarrow> holds_net (scEP sc # scExtraEPs sc) [scConn sc] n"
    if "dial_cands env ep ident cands (bind_ep ep no_net) = (n, r)" for ep ident cands
    by (rule dial_cands_holds [OF that b])
  from assms z s d show ?thesis
    unfolding dial_server_def by (auto split: sum.splits option.splits if_splits prod.splits)
qed

section \<open>Properties\<close>

text \<open>
  Claim C35 (the race).  \<open>raceConnect\<close> returns the first connection to complete and closes
  every other one that completes, each once; when none completes, it returns all the errors in
  the order in which they came.
\<close>

theorem race_first_wins:
  assumes "cands \<noteq> []" and "length arrivals = length cands"
  shows "race_connect ident cands arrivals =
    (case late_conns arrivals of
       [] \<Rightarrow> (Inl (JoinErr (map projl arrivals)), [])
     | winner # losers \<Rightarrow> (Inr winner, losers))"
proof -
  have "take (length cands) arrivals = arrivals" using assms(2) by simp
  with race_connect_spec [OF assms(1), of ident arrivals] show ?thesis by (simp only:)
qed

theorem race_first_wins_witness:
  "race_connect ''id'' [IPAddr (IP4 1, 2), RelayAddr ''r'', RelayAddr ''q''] [Inl IoEOF, Inr 7, Inr 8] = (Inr 7, [8])"
  using race_first_wins [of "[IPAddr (IP4 1, 2), RelayAddr ''r'', RelayAddr ''q'']" "[Inl IoEOF, Inr 7, Inr 8]" "''id''"] by simp

text \<open>
  Fact (nothing leaks).  However the races, the binds, the stream opens and the writes end:
  a failed \<open>dialServer\<close> leaves no endpoint bound and no connection open, and after a successful
  one, \<open>attachExtras\<close>, its closer and \<open>Close\<close>, every endpoint that was bound has been shut
  down and every connection that was established has been closed, each exactly once.
\<close>

theorem session_leaks_nothing:
  assumes "dial_server ks env server_id direct relay_url no_net = (n1, r)"
  shows "case r of
      Inl e \<Rightarrow> mset (ntBound n1) = mset (ntShut n1) \<and> mset (ntOpened n1) = mset (ntClosed n1)
    | Inr sc \<Rightarrow> (case attach_extras lib wr token ports ats k sc n1 of (sc2, n2, streams) \<Rightarrow>
        (case sc_close sc2 (close_extras streams n2) of (sc3, n3) \<Rightarrow>
           mset (ntBound n3) = mset (ntShut n3) \<and> mset (ntOpened n3) = mset (ntClosed n3)))"
proof (cases r)
  case (Inl e)
  with dial_server_holds [OF assms] show ?thesis by (simp add: holds_net_def)
next
  case (Inr sc)
  with dial_server_holds [OF assms] have h: "holds_net (scEP sc # scExtraEPs sc) [scConn sc] n1" by simp
  obtain sc2 n2 streams where a: "attach_loop lib wr token ports ats 0 k sc n1 = (sc2, n2, streams)" by (metis prod_cases3)
  from attach_loop_holds [OF a h]
  have h2: "holds_net (scEP sc2 # scExtraEPs sc2) (map fst streams @ [scConn sc2]) n2" by metis
  have "holds_net [] [] (shutdown_eps (scEP sc2 # scExtraEPs sc2) (close_conns [scConn sc2] (close_conns (map fst streams) n2)))"
    using holds_close [OF h2] holds_close [of _ "[scConn sc2]" "[]"] holds_shutdown [of _ "[]" "[]"] by simp
  with Inr a show ?thesis by (simp add: attach_extras_def close_extras_def sc_close_def holds_net_def)
qed

definition sample_dial :: "string dial_env" where
  "sample_dial = \<lparr>deResolver = \<lparr>parse_addr_port = \<lambda>s. Inr (IP4 1, 2), parse_addr = \<lambda>s. Inl IoEOF,
       split_host_port = \<lambda>s. Inl IoEOF, lookup_ips = \<lambda>s. Inl IoEOF\<rparr>,
     deParseID = Inr, deGenKey = None, dePkarr = None, deParseURL = Inr, deBind = Inr 0, deResolved = [],
     deWithAddrs = (\<lambda>a b. a @ b), deArrivals = [Inl IoEOF, Inr 5], deRemote = Some [10, 0, 0, 7]\<rparr>"

definition sample_attempt :: "nat \<Rightarrow> ostream attempt" where
  "sample_attempt i = \<lparr>atBind = Inr (Suc i), atRace = [if i = 0 then Inr 6 else Inl IoEOF], atRetry = [Inl IoEOF, Inl IoEOF],
     atOpen = Inr \<lparr>lkIn = \<lparr>avail = [], fin = IoEOF\<rparr>, lkOut = fresh_out\<rparr>\<rparr>"

theorem session_leaks_nothing_witness:
  "\<exists>n1 sc sc2 n2 streams sc3 n3.
     dial_server (\<lambda>k. []) sample_dial ''id'' [''a'', ''b''] [] no_net = (n1, Inr sc) \<and>
     attach_extras (sample_lib []) os_write [1] [7] sample_attempt 2 sc n1 = (sc2, n2, streams) \<and>
     sc_close sc2 (close_extras streams n2) = (sc3, n3) \<and>
     mset (ntBound n3) = mset (ntShut n3) \<and> mset (ntOpened n3) = mset (ntClosed n3)"
proof -
  have "\<exists>n1 sc. dial_server (\<lambda>k. []) sample_dial ''id'' [''a'', ''b''] [] no_net = (n1, Inr sc)"
    by (simp add: dial_server_def sample_dial_def dial_cands_def race_net_def race_connect_def parse_direct_addr_def)
  then obtain n1 sc where d: "dial_server (\<lambda>k. []) sample_dial ''id'' [''a'', ''b''] [] no_net = (n1, Inr sc)" by blast
  obtain sc2 n2 streams where a: "attach_extras (sample_lib []) os_write [1] [7] sample_attempt 2 sc n1 = (sc2, n2, streams)"
    by (metis prod_cases3)
  obtain sc3 n3 where c: "sc_close sc2 (close_extras streams n2) = (sc3, n3)" by fastforce
  from session_leaks_nothing [OF d, of "sample_lib []" os_write "[1]" "[7]" sample_attempt 2] a c d show ?thesis
    by auto
qed

end
