(* ===== verification/Client_Xfer.thy ===== *)
theory Client_Xfer
  imports Dial
begin

text \<open>
  cmd/amber/push.go, pull.go and refs.go: the network commands of the client.  A command is a
  function of the client's store, its standard output and the network, and of an environment
  that holds what dialling, the extra connections, the clock and the scheduler give.
\<close>

section \<open>State and environment\<close>

text \<open>
  \<open>clCtrl\<close> and \<open>clExtras\<close> are the streams, \<open>clDone\<close> whether \<open>closeStream\<close> has retired the
  control stream, \<open>clErr\<close> the result line on standard error (the bar drawn there is
  \<open>run_progress_loop\<close>), \<open>clProg\<close> what the observer has been told; it is \<open>None\<close> without a bar.
\<close>

record ('w, 's, 'r) client = "('s, 'r) local" +
  clErr :: ostream
  clNet :: net
  clCtrl :: "'w link"
  clDone :: bool
  clExtras :: "(conn \<times> 'w link) list"
  clProg :: "progress option"

text \<open>\<open>neStream\<close> is what \<open>OpenStreamConn\<close> gives, \<open>neElapsed\<close> the time the transfer took.\<close>

record ('w, 'u) net_env =
  neStore :: store_env
  neDial :: "'u dial_env"
  neStream :: "goerr + 'w link"
  neAttempts :: "nat \<Rightarrow> 'w attempt"
  neRounds :: "nat \<Rightarrow> round_env"
  neFuel :: nat
  neNow :: "64 word"
  neElapsed :: int
  neOver :: "rat \<Rightarrow> 64 word"

text \<open>The flags every network command takes.\<close>

record server_flags =
  sfServer :: string
  sfAddrs :: "string list"
  sfRelay :: string

text \<open>The result lines: their write errors are ignored.\<close>

definition say :: "string \<Rightarrow> ('w, 's, 'r) client \<Rightarrow> ('w, 's, 'r) client" where
  "say t s = fst (print_line t s)"

definition xfer_of :: "string \<Rightarrow> 64 word \<Rightarrow> progress \<Rightarrow> xfer_progress" where
  "xfer_of verb footprint p = (new_xfer verb footprint)\<lparr>xpReqObjs := of_int (pgReqObjs p), xpDoneObjs := of_int (pgXferObjs p),
     xpDoneBytes := of_int (pgXferBytes p), xpWireBytes := of_int (pgWire p), xpFinished := True\<rparr>"

lemma xfer_of_tracks: "xfer_tracks (Some (xfer_of verb n p)) (Some p)"
  by (simp add: xfer_tracks_def xfer_of_def)

definition say_summary ::
  "('w, 'u) net_env \<Rightarrow> string \<Rightarrow> 64 word \<Rightarrow> ('w, 's, 'r) client \<Rightarrow> ('w, 's, 'r) client" where
  "say_summary env verb footprint s =
     (case clProg s of
        None \<Rightarrow> s
      | Some p \<Rightarrow> s\<lparr>clErr := fst (os_write (clErr s)
          (bytes_of (xfer_summary (neOver env) (neElapsed env) (xfer_of verb footprint p) @ [CHR 0x0A])))\<rparr>)"

text \<open>\<open>closeStream\<close> of dial.go.\<close>

definition close_ctrl :: "('w, 's, 'r) client \<Rightarrow> ('w, 's, 'r) client" where
  "close_ctrl s = s\<lparr>clDone := True\<rparr>"

text \<open>Open the store, run \<open>body\<close>, close it again.\<close>

definition store_session ::
  "store_env \<Rightarrow> (('w, 's, 'r) client \<Rightarrow> (('w, 's, 'r) client \<times> goerr option) option) \<Rightarrow> ('w, 's, 'r) client \<Rightarrow>
     (('w, 's, 'r) client \<times> goerr option) option" where
  "store_session env body s =
     (case open_store env s of
        (s1, Some e) \<Rightarrow> Some (s1, Some e)
      | (s1, None) \<Rightarrow> map_option (\<lambda>(s2, e). (fst (close_store env s2), e)) (body s1))"

text \<open>
  Dial, open the control stream, run \<open>body\<close>, and \<open>Close\<close> the connection on every path.
\<close>

definition with_stream ::
  "('p, 's, 'z) core_lib_scheme \<Rightarrow> ('w, 'u) net_env \<Rightarrow> server_flags \<Rightarrow>
     (server_conn \<Rightarrow> ('w, 's, 'r) client \<Rightarrow> (server_conn \<times> ('w, 's, 'r) client \<times> goerr option) option) \<Rightarrow>
     ('w, 's, 'r) client \<Rightarrow> (('w, 's, 'r) client \<times> goerr option) option" where
  "with_stream lib env sf body s =
     (case dial_server (key_string lib) (neDial env) (sfServer sf) (sfAddrs sf) (sfRelay sf) (clNet s) of
        (n, Inl e) \<Rightarrow> Some (s\<lparr>clNet := n\<rparr>, Some e)
      | (n, Inr sc) \<Rightarrow>
          (case neStream env of
             Inl e \<Rightarrow> Some (s\<lparr>clNet := snd (sc_close sc n)\<rparr>, Some (Wrapf ''open stream: '' e []))
           | Inr l \<Rightarrow>
               map_option (\<lambda>(sc', s', e). (s'\<lparr>clNet := snd (sc_close sc' (clNet s'))\<rparr>, e))
                 (body sc (s\<lparr>clNet := n, clCtrl := l, clDone := False\<rparr>))))"

definition ctrl_write ::
  "'a wire_lib_scheme \<Rightarrow> 'w writer \<Rightarrow> msg \<Rightarrow> ('w, 's, 'r) client \<Rightarrow> ('w, 's, 'r) client \<times> goerr option" where
  "ctrl_write lib wr m s =
     (case write_msg lib wr (lkOut (clCtrl s)) m of
        (w, e) \<Rightarrow> (s\<lparr>clCtrl := (clCtrl s)\<lparr>lkOut := w\<rparr>\<rparr>, e))"

definition ctrl_read ::
  "'a wire_lib_scheme \<Rightarrow> ('w, 's, 'r) client \<Rightarrow> ('w, 's, 'r) client \<times> (goerr + msg)" where
  "ctrl_read lib s =
     (case read_msg lib (lkIn (clCtrl s)) of
        (r, x) \<Rightarrow> (s\<lparr>clCtrl := (clCtrl s)\<lparr>lkIn := r\<rparr>\<rparr>, x))"

definition want_type_err :: "msg \<Rightarrow> string \<Rightarrow> goerr" where
  "want_type_err m what = Wrapf [] ProtocolErr ('': type '' @ dec_int (mType m) @ '', want '' @ what)"

text \<open>A reply of the expected type, a remote error, or a protocol error.\<close>

definition expect_type :: "int \<Rightarrow> string \<Rightarrow> goerr + msg \<Rightarrow> goerr + msg" where
  "expect_type t what x =
     (case x of
        Inl e \<Rightarrow> Inl e
      | Inr m \<Rightarrow>
          if mType m = t then Inr m
          else if mType m = TErr then Inl (remote_from_msg m)
          else Inl (want_type_err m what))"

section \<open>Pushing\<close>

text \<open>
  The \<open>Send\<close> loops of a transfer, one per link; they share the store, which they only read, and
  the observer, whose counters are atomic, so that their order does not matter.
\<close>

fun client_sends ::
  "('p, 's, 'z) core_lib_scheme \<Rightarrow> 'w writer \<Rightarrow> 's \<Rightarrow> 'w link list \<Rightarrow> progress option \<Rightarrow>
     'w link list \<times> goerr option list \<times> progress option" where
  "client_sends lib wr st [] p = ([], [], p)"
| "client_sends lib wr st (l # ls) p =
     (case send_loop lib wr st \<lparr>ssIn = lkIn l, ssOut = lkOut l, ssProg = p\<rparr> of
        (ss, e) \<Rightarrow>
          (case client_sends lib wr st ls (ssProg ss) of
             (ls', es, p') \<Rightarrow> (\<lparr>lkIn = ssIn ss, lkOut = ssOut ss\<rparr> # ls', e # es, p')))"

definition send_ctrl ::
  "('p, 's, 'z) core_lib_scheme \<Rightarrow> 'w writer \<Rightarrow> ('w, 's, 'r) client \<Rightarrow> ('w, 's, 'r) client \<times> goerr option" where
  "send_ctrl lib wr s =
     (case send_loop lib wr (lcObjects s)
         \<lparr>ssIn = lkIn (clCtrl s), ssOut = lkOut (clCtrl s), ssProg = clProg s\<rparr> of
        (ss, e) \<Rightarrow> (s\<lparr>clCtrl := \<lparr>lkIn = ssIn ss, lkOut = ssOut ss\<rparr>, clProg := ssProg ss\<rparr>, e))"

text \<open>A \<open>bytes.Buffer\<close> takes every write; \<open>io.MultiReader\<close> reads it before the stream.\<close>

definition empty_buffer :: ostream where
  "empty_buffer = \<lparr>os_sent = [], os_room = None, os_fail = IoEOF\<rparr>"

definition replay_in :: "bytes \<Rightarrow> ('w, 's, 'r) client \<Rightarrow> ('w, 's, 'r) client" where
  "replay_in b s =
     (let r = lkIn (clCtrl s) in s\<lparr>clCtrl := (clCtrl s)\<lparr>lkIn := r\<lparr>avail := b @ avail r\<rparr>\<rparr>\<rparr>)"

definition run_senders ::
  "('p, 's, 'z) core_lib_scheme \<Rightarrow> 'w writer \<Rightarrow> (nat \<Rightarrow> 'w attempt) \<Rightarrow> int \<Rightarrow> server_conn \<Rightarrow> ('w, 's, 'r) client \<Rightarrow>
     server_conn \<times> ('w, 's, 'r) client \<times> goerr option" where
  "run_senders lib wr ats conns sc s0 =
     (if conns \<le> 1 then (sc, send_ctrl lib wr s0)
      else
        (case ctrl_read lib s0 of
           (s, Inl e) \<Rightarrow> (sc, s, Some e)
         | (s, Inr first) \<Rightarrow>
             if mType first = TErr then (sc, s, Some (remote_from_msg first))
             else if mType first = TWants then
               (case write_msg lib os_write empty_buffer first of
                  (buf, Some e) \<Rightarrow> (sc, s, Some e)
                | (buf, None) \<Rightarrow> (sc, send_ctrl lib wr (replay_in (os_sent buf) s)))
             else if mType first \<noteq> TAccept then (sc, s, Some (want_type_err first ''TAccept or TWants''))
             else
               (case attach_extras lib wr (mToken first) (mDataPorts first) ats (nat (conns - 1)) sc (clNet s) of
                  (sc', n, streams) \<Rightarrow>
                    (case client_sends lib wr (lcObjects s) (clCtrl s # map snd streams) (clProg s) of
                       (ls, es, p) \<Rightarrow>
                         (sc', s\<lparr>clCtrl := hd ls, clExtras := zip (map fst streams) (tl ls), clProg := p,
                            clNet := close_extras streams n\<rparr>, errors_join es)))))"

definition push_error :: "('p, 's, 'z) core_lib_scheme \<Rightarrow> string \<Rightarrow> goerr \<Rightarrow> goerr" where
  "push_error lib name err =
     (case as_remote err of
        None \<Rightarrow> err
      | Some (code, txt, current) \<Rightarrow>
          if code \<noteq> CodeCASMismatch then err
          else
            let cur = (if current = [] then ''absent''
              else case key_parse lib current of
                Inr k \<Rightarrow> key_string lib k
              | Inl e \<Rightarrow> hex_encode current) in
            ErrorText (''remote ref '' @ go_quote name @ '' changed (now '' @ cur @
              ''): pull first, or push --force''))"

text \<open>What this store last saw of the reference on the server; empty if it never saw it.\<close>

definition tracked_key :: "('p, 's, 'r, 'z) server_lib_scheme \<Rightarrow> 'r \<Rightarrow> string \<Rightarrow> goerr + bytes" where
  "tracked_key lib refs tname =
     (case rf_get lib refs tname of
        Inr raw \<Rightarrow>
          (case ref_decode lib raw of
             Inl e \<Rightarrow> Inl (Wrapf (''tracking ref '' @ go_quote tname @ '': '') e [])
           | Inr rec \<Rightarrow> Inr (rfKey rec))
      | Inl e \<Rightarrow> if errors_is e RefNotFound then Inr [] else Inl e)"

definition push_msg :: "string \<Rightarrow> key \<Rightarrow> bool \<Rightarrow> bytes \<Rightarrow> int \<Rightarrow> msg" where
  "push_msg name goal force expected conns =
     zero_msg\<lparr>mType := TPush, mName := name, mRoot := key_bytes goal, mCAS := \<not> force,
       mExpectedOld := expected, mDataConns := conns - 1\<rparr>"

text \<open>The exchange on the control stream, up to the server's verdict.\<close>

definition push_exchange ::
  "('p, 's, 'z) core_lib_scheme \<Rightarrow> 'w writer \<Rightarrow> (nat \<Rightarrow> 'w attempt) \<Rightarrow> string \<Rightarrow> int \<Rightarrow> msg \<Rightarrow>
     server_conn \<Rightarrow> ('w, 's, 'r) client \<Rightarrow> server_conn \<times> ('w, 's, 'r) client \<times> goerr option" where
  "push_exchange lib wr ats name conns req sc s =
     (case ctrl_write lib wr req s of
        (s1, Some e) \<Rightarrow> (sc, s1, Some e)
      | (s1, None) \<Rightarrow>
          (case run_senders lib wr ats conns sc s1 of
             (sc2, s2, Some e) \<Rightarrow> (sc2, s2, Some (push_error lib name e))
           | (sc2, s2, None) \<Rightarrow>
               (case ctrl_read lib s2 of
                  (s3, x) \<Rightarrow>
                    (case expect_type TOK ''TOK'' x of
                       Inr m \<Rightarrow> (sc2, s3, None)
                     | Inl e \<Rightarrow>
                         (sc2, s3, Some (case x of
                            Inr m \<Rightarrow> if mType m = TErr then push_error lib name e else e
                          | Inl _ \<Rightarrow> e))))))"

text \<open>Recording the server's new value, and the result lines.\<close>

definition push_finish ::
  "('p, 's, 'r, 'z) server_lib_scheme \<Rightarrow> ('w, 'u) net_env \<Rightarrow> string \<Rightarrow> string \<Rightarrow> key \<Rightarrow> ('w, 's, 'r) client \<Rightarrow>
     ('w, 's, 'r) client \<times> goerr option" where
  "push_finish lib env tname name goal s =
     (case ref_encode lib \<lparr>rfName = tname, rfKey = key_bytes goal, rfCreatedAt = neNow env, rfUser = []\<rparr> of
        Inl e \<Rightarrow> (s, Some e)
      | Inr raw \<Rightarrow>
          (case rf_put lib (lcRefs s) tname raw of
             (rf, Some e) \<Rightarrow>
               (s\<lparr>lcRefs := rf\<rparr>, Some (Wrapf ''push succeeded but recording tracking ref failed: '' e []))
           | (rf, None) \<Rightarrow>
               (say (name @ '' -> '' @ key_string lib goal)
                  (say_summary env ''push'' (key_length lib goal) (s\<lparr>lcRefs := rf\<rparr>)), None)))"

definition run_push ::
  "('p, 's, 'r, 'z) server_lib_scheme \<Rightarrow> 'w writer \<Rightarrow> ('w, 'u) net_env \<Rightarrow> server_flags \<Rightarrow> bool \<Rightarrow> bool \<Rightarrow> int \<Rightarrow>
     string \<Rightarrow> ('w, 's, 'r) client \<Rightarrow> (('w, 's, 'r) client \<times> goerr option) option" where
  "run_push lib wr env sf force no_prog conns name s0 =
     (if prefix trackingPrefix name then Some (s0, Some (reserved_err name))
      else store_session (neStore env) (\<lambda>s.
        case resolve_spec lib (lcRefs s) (''ref:'' @ name) of
          Inl e \<Rightarrow> Some (s, Some e)
        | Inr (goal, _) \<Rightarrow>
            let tname = tracking_ref (sfServer sf) name in
            (case tracked_key lib (lcRefs s) tname of
               Inl e \<Rightarrow> Some (s, Some e)
             | Inr expected \<Rightarrow>
                 with_stream lib env sf (\<lambda>sc s1. Some
                   (case push_exchange lib wr (neAttempts env) name conns (push_msg name goal force expected conns) sc
                       (s1\<lparr>clProg := (if no_prog then None else Some no_progress)\<rparr>) of
                      (sc2, s2, Some e) \<Rightarrow> (sc2, s2, Some e)
                    | (sc2, s2, None) \<Rightarrow> (sc2, push_finish lib env tname name goal (close_ctrl s2)))) s)) s0)"

section \<open>Pulling\<close>

definition pull_msg :: "string \<Rightarrow> int \<Rightarrow> msg" where
  "pull_msg name conns = zero_msg\<lparr>mType := TPull, mName := name, mDataConns := conns - 1\<rparr>"

definition pull_channels ::
  "'a wire_lib_scheme \<Rightarrow> 'w writer \<Rightarrow> (nat \<Rightarrow> 'w attempt) \<Rightarrow> int \<Rightarrow> msg \<Rightarrow> server_conn \<Rightarrow> net \<Rightarrow>
     server_conn \<times> net \<times> (conn \<times> 'w link) list" where
  "pull_channels lib wr ats conns m sc n =
     (if mToken m \<noteq> [] \<and> 1 < conns
      then attach_extras lib wr (mToken m) (mDataPorts m) ats (nat (conns - 1)) sc n
      else (sc, n, []))"

text \<open>\<open>Receive\<close> over the control stream and the extra ones, which it reads and writes in place.\<close>

definition pull_receive ::
  "('p, 's, 'z) core_lib_scheme \<Rightarrow> 'w writer \<Rightarrow> ('w, 'u) net_env \<Rightarrow> (conn \<times> 'w link) list \<Rightarrow> key \<Rightarrow>
     ('w, 's, 'r) client \<Rightarrow> (('w, 's, 'r) client \<times> goerr option) option" where
  "pull_receive lib wr env streams goal s =
     (case receive lib wr (neRounds env) (neFuel env)
         (map (\<lambda>l. (lkIn l, lkOut l)) (clCtrl s # map snd streams)) (lcObjects s) goal 0 (clProg s) of
        None \<Rightarrow> None
      | Some (rs, e) \<Rightarrow>
          let ls = map (\<lambda>c. \<lparr>lkIn = chIn c, lkOut = chOut c\<rparr>) (rsChans rs) in
          Some (s\<lparr>lcObjects := rsStore rs, clProg := rsProg rs, clCtrl := hd ls,
            clExtras := zip (map fst streams) (tl ls)\<rparr>, e))"

text \<open>The server's record goes in verbatim, under the local and the tracking name.\<close>

definition pull_finish ::
  "('p, 's, 'r, 'z) server_lib_scheme \<Rightarrow> ('w, 'u) net_env \<Rightarrow> string \<Rightarrow> string \<Rightarrow> bytes \<Rightarrow> key \<Rightarrow>
     ('w, 's, 'r) client \<Rightarrow> ('w, 's, 'r) client \<times> goerr option" where
  "pull_finish lib env tname name record goal s =
     (case rf_put lib (lcRefs s) name record of
        (rf, Some e) \<Rightarrow> (s\<lparr>lcRefs := rf\<rparr>, Some e)
      | (rf, None) \<Rightarrow>
          (case rf_put lib rf tname record of
             (rf', Some e) \<Rightarrow>
               (s\<lparr>lcRefs := rf'\<rparr>, Some (Wrapf ''pull succeeded but recording tracking ref failed: '' e []))
           | (rf', None) \<Rightarrow>
               (say (name @ '' <- '' @ key_string lib goal)
                  (say_summary env ''pull'' (key_length lib goal) (s\<lparr>lcRefs := rf'\<rparr>)), None)))"

text \<open>The reference the server answers with: its record and the root key in it.\<close>

definition pulled_ref :: "('p, 's, 'r, 'z) server_lib_scheme \<Rightarrow> goerr + msg \<Rightarrow> goerr + msg \<times> key" where
  "pulled_ref lib x =
     (case expect_type TRef ''TRef'' x of
        Inl e \<Rightarrow> Inl e
      | Inr m \<Rightarrow>
          (case ref_decode lib (mRecord m) of
             Inl e \<Rightarrow> Inl (Wrapf ''server ref record: '' e [])
           | Inr rec \<Rightarrow>
               (case key_parse lib (rfKey rec) of
                  Inl e \<Rightarrow> Inl (Wrapf ''server ref record key: '' e [])
                | Inr goal \<Rightarrow> Inr (m, goal))))"

text \<open>The extra streams are closed on every path after they were opened.\<close>

definition pull_transfer ::
  "('p, 's, 'r, 'z) server_lib_scheme \<Rightarrow> 'w writer \<Rightarrow> ('w, 'u) net_env \<Rightarrow> string \<Rightarrow> string \<Rightarrow> int \<Rightarrow> msg \<Rightarrow> key \<Rightarrow>
     server_conn \<Rightarrow> ('w, 's, 'r) client \<Rightarrow> (server_conn \<times> ('w, 's, 'r) client \<times> goerr option) option" where
  "pull_transfer lib wr env tname name conns m goal sc s =
     (case pull_channels lib wr (neAttempts env) conns m sc (clNet s) of
        (sc1, n1, streams) \<Rightarrow>
          (case pull_receive lib wr env streams goal (s\<lparr>clNet := n1\<rparr>) of
             None \<Rightarrow> None
           | Some (s1, e) \<Rightarrow>
               let (s2, e') = (case e of
                 Some err \<Rightarrow> (s1, Some err)
               | None \<Rightarrow> pull_finish lib env tname name (mRecord m) goal (close_ctrl s1)) in
               Some (sc1, s2\<lparr>clNet := close_extras streams (clNet s2)\<rparr>, e')))"

definition pull_body ::
  "('p, 's, 'r, 'z) server_lib_scheme \<Rightarrow> 'w writer \<Rightarrow> ('w, 'u) net_env \<Rightarrow> string \<Rightarrow> bool \<Rightarrow> int \<Rightarrow> string \<Rightarrow>
     server_conn \<Rightarrow> ('w, 's, 'r) client \<Rightarrow> (server_conn \<times> ('w, 's, 'r) client \<times> goerr option) option" where
  "pull_body lib wr env tname no_prog conns name sc s =
     (case ctrl_write lib wr (pull_msg name conns) s of
        (s1, Some e) \<Rightarrow> Some (sc, s1, Some e)
      | (s1, None) \<Rightarrow>
          (case ctrl_read lib s1 of
             (s2, x) \<Rightarrow>
               (case pulled_ref lib x of
                  Inl e \<Rightarrow> Some (sc, s2, Some e)
                | Inr (m, goal) \<Rightarrow>
                    pull_transfer lib wr env tname name conns m goal sc
                      (s2\<lparr>clProg := (if no_prog then None else Some no_progress)\<rparr>))))"

definition run_pull ::
  "('p, 's, 'r, 'z) server_lib_scheme \<Rightarrow> 'w writer \<Rightarrow> ('w, 'u) net_env \<Rightarrow> server_flags \<Rightarrow> bool \<Rightarrow> int \<Rightarrow>
     string \<Rightarrow> ('w, 's, 'r) client \<Rightarrow> (('w, 's, 'r) client \<times> goerr option) option" where
  "run_pull lib wr env sf no_prog conns name s =
     (case ref_validate lib name of
        Some e \<Rightarrow> Some (s, Some e)
      | None \<Rightarrow>
          if prefix trackingPrefix name then Some (s, Some (reserved_err name))
          else store_session (neStore env)
            (with_stream lib env sf (pull_body lib wr env (tracking_ref (sfServer sf) name) no_prog conns name)) s)"

section \<open>Listing the server's references\<close>

fun refs_loop ::
  "('p, 's, 'z) core_lib_scheme \<Rightarrow> ref_info list \<Rightarrow> ('w, 's, 'r) client \<Rightarrow> ('w, 's, 'r) client \<times> goerr option" where
  "refs_loop lib [] s = (s, None)"
| "refs_loop lib (r # rs) s =
     (case key_parse lib (riKey r) of
        Inl e \<Rightarrow> (s, Some (Wrapf (''reference '' @ go_quote (riName r) @ '': '') e []))
      | Inr k \<Rightarrow>
          (case print_line (ref_line lib (riName r) k (riCreatedAt r) (riUser r)) s of
             (s1, Some e) \<Rightarrow> (s1, Some e)
           | (s1, None) \<Rightarrow> refs_loop lib rs s1))"

definition refs_body ::
  "('p, 's, 'z) core_lib_scheme \<Rightarrow> 'w writer \<Rightarrow> server_conn \<Rightarrow> ('w, 's, 'r) client \<Rightarrow>
     server_conn \<times> ('w, 's, 'r) client \<times> goerr option" where
  "refs_body lib wr sc s =
     (case ctrl_write lib wr (zero_msg\<lparr>mType := TRefList\<rparr>) s of
        (s1, Some e) \<Rightarrow> (sc, s1, Some e)
      | (s1, None) \<Rightarrow>
          (case ctrl_read lib s1 of
             (s2, x) \<Rightarrow>
               (case expect_type TRefs ''TRefs'' x of
                  Inl e \<Rightarrow> (sc, s2, Some e)
                | Inr m \<Rightarrow> (sc, refs_loop lib (mRefs m) (close_ctrl s2)))))"

definition run_refs ::
  "('p, 's, 'z) core_lib_scheme \<Rightarrow> 'w writer \<Rightarrow> ('w, 'u) net_env \<Rightarrow> server_flags \<Rightarrow> ('w, 's, 'r) client \<Rightarrow>
     (('w, 's, 'r) client \<times> goerr option) option" where
  "run_refs lib wr env sf s = with_stream lib env sf (\<lambda>sc s1. Some (refs_body lib wr sc s1)) s"

end
