(* ===== verification/Client_Props.thy ===== *)
theory Client_Props
  imports Client_Xfer
begin

text \<open>
  What the network commands of the client do to its store and leave behind on the network:
  pushing, pulling, the fallback for servers without sharding, and the compare-and-swap
  expectation that a pull leaves for the next push.
\<close>

section \<open>Lemmas: what the exchange leaves alone\<close>

definition same_store :: "('w, 's, 'r) client \<Rightarrow> ('w, 's, 'r) client \<Rightarrow> bool" where
  "same_store s s' \<longleftrightarrow> lcObjects s' = lcObjects s \<and> lcRefs s' = lcRefs s \<and> lcOut s' = lcOut s \<and>
     lcOpen s' = lcOpen s \<and> clErr s' = clErr s"

lemma same_store_refl [simp]: "same_store s s"
  by (simp add: same_store_def)

lemma same_store_trans [trans]: "same_store s t \<Longrightarrow> same_store t u \<Longrightarrow> same_store s u"
  by (simp add: same_store_def)

lemma same_store_upd [simp]:
  "same_store s (s'\<lparr>clNet := n\<rparr>) = same_store s s'" "same_store s (s'\<lparr>clCtrl := l\<rparr>) = same_store s s'"
  "same_store s (s'\<lparr>clExtras := x\<rparr>) = same_store s s'" "same_store s (s'\<lparr>clProg := p\<rparr>) = same_store s s'"
  "same_store s (s'\<lparr>clDone := d\<rparr>) = same_store s s'"
  "same_store (s\<lparr>clNet := n\<rparr>) s' = same_store s s'" "same_store (s\<lparr>clProg := p\<rparr>) s' = same_store s s'"
  "same_store (s\<lparr>clDone := d\<rparr>) s' = same_store s s'" "same_store (s\<lparr>clCtrl := l\<rparr>) s' = same_store s s'"
  by (simp_all add: same_store_def)

lemma ctrl_write_eq: "\<exists>w. fst (ctrl_write lib wr m s) = s\<lparr>clCtrl := (clCtrl s)\<lparr>lkOut := w\<rparr>\<rparr>"
  by (auto simp: ctrl_write_def split: prod.split)

lemma ctrl_read_eq: "\<exists>r. fst (ctrl_read lib s) = s\<lparr>clCtrl := (clCtrl s)\<lparr>lkIn := r\<rparr>\<rparr>"
  by (auto simp: ctrl_read_def split: prod.split)

lemma ctrl_write_same: "ctrl_write lib wr m s = (s', x) \<Longrightarrow> same_store s s' \<and> clNet s' = clNet s"
  using ctrl_write_eq [of lib wr m s] by auto

lemma ctrl_read_same: "ctrl_read lib s = (s', x) \<Longrightarrow> same_store s s' \<and> clNet s' = clNet s"
  using ctrl_read_eq [of lib s] by auto

lemma send_ctrl_same: "send_ctrl lib wr s = (s', x) \<Longrightarrow> same_store s s' \<and> clNet s' = clNet s"
  by (auto simp: send_ctrl_def split: prod.splits)

text \<open>The network: what the session holds before, it holds after, extra endpoints included.\<close>

definition holds_session :: "server_conn \<Rightarrow> net \<Rightarrow> bool" where
  "holds_session sc n \<longleftrightarrow> holds_net (scEP sc # scExtraEPs sc) [scConn sc] n"

lemma attach_extras_session:
  assumes "attach_extras lib wr token ports ats k sc n = (sc', n', streams)" and "holds_session sc n"
  shows "holds_net (scEP sc' # scExtraEPs sc') (map fst streams @ [scConn sc']) n'"
  using attach_loop_holds [OF assms(1) [unfolded attach_extras_def] assms(2) [unfolded holds_session_def]] by metis

lemma close_extras_session:
  assumes "holds_net (scEP sc # scExtraEPs sc) (map fst streams @ [scConn sc]) n"
  shows "holds_session sc (close_extras streams n)"
  using holds_close [OF assms] by (simp add: holds_session_def close_extras_def)

lemma sc_close_session:
  assumes "holds_session sc n"
  shows "holds_net [] [] (snd (sc_close sc n))"
proof -
  have "holds_net (scEP sc # scExtraEPs sc) [] (close_conns [scConn sc] n)"
    using holds_close [of "scEP sc # scExtraEPs sc" "[scConn sc]" "[]" n] assms by (simp add: holds_session_def)
  from holds_shutdown [of "scEP sc # scExtraEPs sc" "[]"] this show ?thesis by (simp add: sc_close_def)
qed

text \<open>One step of a session: the store is as before and the network still balanced.\<close>

definition keeps :: "server_conn \<Rightarrow> ('w, 's, 'r) client \<Rightarrow> server_conn \<Rightarrow> ('w, 's, 'r) client \<Rightarrow> bool" where
  "keeps sc s sc' s' \<longleftrightarrow> same_store s s' \<and> (holds_session sc (clNet s) \<longrightarrow> holds_session sc' (clNet s'))"

lemma keepsI: "same_store s s' \<and> clNet s' = clNet s \<Longrightarrow> keeps sc s sc s'"
  by (simp add: keeps_def)

lemma keeps_trans [trans]: "keeps sc s sc1 s1 \<Longrightarrow> keeps sc1 s1 sc2 s2 \<Longrightarrow> keeps sc s sc2 s2"
  by (auto simp: keeps_def intro: same_store_trans)

lemma send_ctrl_replay: "send_ctrl lib wr (replay_in b s) = (s', x) \<Longrightarrow> same_store s s' \<and> clNet s' = clNet s"
  by (auto simp: send_ctrl_def replay_in_def Let_def split: prod.splits)

lemma run_senders_keeps:
  assumes "run_senders lib wr ats conns sc s = (sc', s', e)"
  shows "keeps sc s sc' s'"
proof (cases "conns \<le> 1")
  case True
  with assms show ?thesis by (auto simp: run_senders_def intro!: keepsI dest: send_ctrl_same)
next
  case False
  obtain s1 x where r: "ctrl_read lib s = (s1, x)" by fastforce
  then have k1: "keeps sc s sc s1" by (intro keepsI) (rule ctrl_read_same)
  show ?thesis
  proof (cases "\<exists>m. x = Inr m \<and> mType m = TAccept")
    case False
    with assms r \<open>\<not> conns \<le> 1\<close> have "sc' = sc \<and> (s' = s1 \<or> (\<exists>b y. send_ctrl lib wr (replay_in b s1) = (s', y)))"
      by (cases x) (auto simp: run_senders_def split: if_splits prod.splits option.splits)
    then have "keeps sc s1 sc' s'" by (auto intro!: keepsI dest: send_ctrl_replay)
    with k1 show ?thesis by (rule keeps_trans)
  next
    case True
    then obtain m where x: "x = Inr m" "mType m = TAccept" by blast
    obtain sc2 n2 streams where a:
      "attach_extras lib wr (mToken m) (mDataPorts m) ats (nat (conns - 1)) sc (clNet s1) = (sc2, n2, streams)"
      by (metis prod_cases3)
    obtain ls es p where c: "client_sends lib wr (lcObjects s1) (clCtrl s1 # map snd streams) (clProg s1) = (ls, es, p)"
      by (metis prod_cases3)
    from assms r x a c \<open>\<not> conns \<le> 1\<close> have s': "sc' = sc2" "s' = s1\<lparr>clCtrl := hd ls,
        clExtras := zip (map fst streams) (tl ls), clProg := p, clNet := close_extras streams n2\<rparr>"
      by (simp_all add: run_senders_def TErr_def TWants_def TAccept_def)
    have "keeps sc s1 sc' s'"
      using close_extras_session [OF attach_extras_session [OF a]] by (simp add: keeps_def s')
    with k1 show ?thesis by (rule keeps_trans)
  qed
qed

lemma push_exchange_keeps:
  assumes "push_exchange lib wr ats name conns req sc s = (sc', s', e)"
  shows "keeps sc s sc' s'"
proof -
  obtain s1 x where w: "ctrl_write lib wr req s = (s1, x)" by fastforce
  then have k1: "keeps sc s sc s1" by (intro keepsI) (rule ctrl_write_same)
  obtain sc2 s2 y where r: "run_senders lib wr ats conns sc s1 = (sc2, s2, y)" by (metis prod_cases3)
  note k2 = keeps_trans [OF k1 run_senders_keeps [OF r]]
  obtain s3 z where c: "ctrl_read lib s2 = (s3, z)" by fastforce
  then have k3: "keeps sc2 s2 sc2 s3" by (intro keepsI) (rule ctrl_read_same)
  from assms w r c have "(sc', s') = (sc, s1) \<or> (sc', s') = (sc2, s2) \<or> (sc', s') = (sc2, s3)"
    by (auto simp: push_exchange_def split: option.splits sum.splits)
  with k1 k2 keeps_trans [OF k2 k3] show ?thesis by auto
qed

lemma with_stream_cases:
  assumes "with_stream lib env sf body s = Some (s', e)"
  shows "(same_store s s' \<and> e \<noteq> None \<and> (clNet s = no_net \<longrightarrow> holds_net [] [] (clNet s'))) \<or>
    (\<exists>sc s1 sc2 s2. body sc s1 = Some (sc2, s2, e) \<and> same_store s s1 \<and> neStream env = Inr (clCtrl s1) \<and>
       (clNet s = no_net \<longrightarrow> holds_session sc (clNet s1)) \<and> s' = s2\<lparr>clNet := snd (sc_close sc2 (clNet s2))\<rparr>)"
proof -
  obtain n r where d: "dial_server (key_string lib) (neDial env) (sfServer sf) (sfAddrs sf) (sfRelay sf) (clNet s) = (n, r)"
    by fastforce
  have h: "case r of Inl e \<Rightarrow> holds_net [] [] n | Inr sc \<Rightarrow> holds_session sc n" if "clNet s = no_net"
    using dial_server_holds [OF d [unfolded that]] by (simp add: holds_session_def split: sum.splits)
  show ?thesis
  proof (cases r)
    case (Inl err)
    with assms d h show ?thesis by (auto simp: with_stream_def)
  next
    case (Inr sc)
    show ?thesis
    proof (cases "neStream env")
      case (Inl err)
      with assms d Inr h show ?thesis by (auto simp: with_stream_def intro: sc_close_session)
    next
      case str: (Inr l)
      with assms d Inr obtain sc2 s2 where "body sc (s\<lparr>clNet := n, clCtrl := l, clDone := False\<rparr>) = Some (sc2, s2, e)"
        "s' = s2\<lparr>clNet := snd (sc_close sc2 (clNet s2))\<rparr>"
        by (auto simp: with_stream_def)
      with Inr h str show ?thesis
        by (intro disjI2 exI [of _ sc] exI [of _ "s\<lparr>clNet := n, clCtrl := l, clDone := False\<rparr>"] exI [of _ sc2] exI [of _ s2]) simp
    qed
  qed
qed

lemma store_session_cases:
  assumes "store_session env body s = Some (s', e)"
  shows "(s' = s \<and> e \<noteq> None) \<or>
    (\<exists>s2. body (s\<lparr>lcOpen := Refs # Objects # lcOpen s\<rparr>) = Some (s2, e) \<and> s' = fst (close_store env s2))"
proof -
  obtain s1 x where o: "open_store env s = (s1, x)" by fastforce
  show ?thesis
  proof (cases x)
    case (Some err)
    with o assms show ?thesis by (auto simp: store_session_def dest: open_store_Some)
  next
    case None
    with o have "s1 = s\<lparr>lcOpen := Refs # Objects # lcOpen s\<rparr>" by (simp add: open_store_None)
    with None o assms show ?thesis by (auto simp: store_session_def)
  qed
qed

text \<open>Printing the result lines changes only the two output streams.\<close>

lemma say_eq: "\<exists>w. say t s = s\<lparr>lcOut := w\<rparr> \<and> (\<exists>q. os_sent w = os_sent (lcOut s) @ q \<and> prefix q (bytes_of (t @ [CHR 0x0A])))"
proof -
  obtain w n e where "os_write (lcOut s) (bytes_of (t @ [CHR 0x0A])) = (w, n, e)" by (metis prod_cases3)
  with os.write_prefix [OF this] show ?thesis by (auto simp: say_def print_line_def)
qed

lemma say_summary_eq: "\<exists>w. say_summary env verb n s = s\<lparr>clErr := w\<rparr>"
proof (cases "clProg s")
  case None
  then show ?thesis by (intro exI [of _ "clErr s"]) (simp add: say_summary_def)
qed (auto simp: say_summary_def)

lemma say_fields [simp]:
  "lcObjects (say t s) = lcObjects s" "lcRefs (say t s) = lcRefs s" "lcOpen (say t s) = lcOpen s"
  "clNet (say t s) = clNet s" "clErr (say t s) = clErr s" "clDone (say t s) = clDone s"
  using say_eq [of t s] by auto

lemma say_summary_fields [simp]:
  "lcObjects (say_summary env v n s) = lcObjects s" "lcRefs (say_summary env v n s) = lcRefs s"
  "lcOpen (say_summary env v n s) = lcOpen s" "clNet (say_summary env v n s) = clNet s"
  "lcOut (say_summary env v n s) = lcOut s" "clDone (say_summary env v n s) = clDone s"
  using say_summary_eq [of env v n s] by auto

lemma push_finish_fields:
  assumes "push_finish lib env tname name goal s = (s', e)"
  shows "lcObjects s' = lcObjects s \<and> lcOpen s' = lcOpen s \<and> clNet s' = clNet s \<and>
    (case e of
       Some _ \<Rightarrow> lcRefs s' = lcRefs s \<or> (\<exists>raw err. rf_put lib (lcRefs s) tname raw = (lcRefs s', Some err))
     | None \<Rightarrow> \<exists>raw. ref_encode lib \<lparr>rfName = tname, rfKey = key_bytes goal, rfCreatedAt = neNow env, rfUser = []\<rparr> = Inr raw \<and>
         rf_put lib (lcRefs s) tname raw = (lcRefs s', None))"
  using assms by (auto simp: push_finish_def split: sum.splits prod.splits option.splits)

text \<open>A body that runs in the store session of a command, and what it may do to the store.\<close>

lemma session_body:
  assumes "store_session env body s = Some (s', e)"
    and "\<And>s1 s2. s1 = s\<lparr>lcOpen := Refs # Objects # lcOpen s\<rparr> \<Longrightarrow> body s1 = Some (s2, e) \<Longrightarrow>
      lcOpen s2 = lcOpen s1 \<and> (clNet s = no_net \<longrightarrow> holds_net [] [] (clNet s2)) \<and> Q (lcObjects s2) (lcRefs s2)"
    and "e \<noteq> None \<Longrightarrow> Q (lcObjects s) (lcRefs s)"
  shows "lcOpen s' = lcOpen s \<and> (clNet s = no_net \<longrightarrow> holds_net [] [] (clNet s')) \<and> Q (lcObjects s') (lcRefs s')"
proof -
  have z: "holds_net [] [] no_net" by (simp add: holds_net_def no_net_def)
  from store_session_cases [OF assms(1)] show ?thesis
  proof
    assume "s' = s \<and> e \<noteq> None"
    with assms(3) z show ?thesis by auto
  next
    assume "\<exists>s2. body (s\<lparr>lcOpen := Refs # Objects # lcOpen s\<rparr>) = Some (s2, e) \<and> s' = fst (close_store env s2)"
    then obtain s2 where b: "body (s\<lparr>lcOpen := Refs # Objects # lcOpen s\<rparr>) = Some (s2, e)" "s' = fst (close_store env s2)"
      by blast
    from assms(2) [OF refl b(1)] b(2) show ?thesis by (simp add: close_store_eq)
  qed
qed

lemma stream_body:
  assumes "with_stream lib env sf body s = Some (s', e)"
    and "\<And>sc s1 sc2 s2. same_store s s1 \<Longrightarrow> body sc s1 = Some (sc2, s2, e) \<Longrightarrow> neStream env = Inr (clCtrl s1) \<Longrightarrow>
      lcOpen s2 = lcOpen s1 \<and> (holds_session sc (clNet s1) \<longrightarrow> holds_session sc2 (clNet s2)) \<and> Q (lcObjects s2) (lcRefs s2)"
    and "e \<noteq> None \<Longrightarrow> Q (lcObjects s) (lcRefs s)"
  shows "lcOpen s' = lcOpen s \<and> (clNet s = no_net \<longrightarrow> holds_net [] [] (clNet s')) \<and> Q (lcObjects s') (lcRefs s')"
  using with_stream_cases [OF assms(1)]
proof
  assume "same_store s s' \<and> e \<noteq> None \<and> (clNet s = no_net \<longrightarrow> holds_net [] [] (clNet s'))"
  with assms(3) show ?thesis by (simp add: same_store_def)
next
  assume "\<exists>sc s1 sc2 s2. body sc s1 = Some (sc2, s2, e) \<and> same_store s s1 \<and> neStream env = Inr (clCtrl s1) \<and>
       (clNet s = no_net \<longrightarrow> holds_session sc (clNet s1)) \<and> s' = s2\<lparr>clNet := snd (sc_close sc2 (clNet s2))\<rparr>"
  then obtain sc s1 sc2 s2 where b: "body sc s1 = Some (sc2, s2, e)" "same_store s s1" and l: "neStream env = Inr (clCtrl s1)"
    and n: "clNet s = no_net \<longrightarrow> holds_session sc (clNet s1)" "s' = s2\<lparr>clNet := snd (sc_close sc2 (clNet s2))\<rparr>" by blast
  from assms(2) [OF b(2,1) l] b(2) n show ?thesis by (auto simp: same_store_def intro: sc_close_session)
qed

definition push_result ::
  "('p, 's, 'r, 'z) server_lib_scheme \<Rightarrow> 64 word \<Rightarrow> string \<Rightarrow> string \<Rightarrow> 's \<Rightarrow> 'r \<Rightarrow> goerr option \<Rightarrow> 's \<Rightarrow> 'r \<Rightarrow> bool" where
  "push_result lib now tname name st rf e st' rf' \<longleftrightarrow> st' = st \<and>
     (case e of
        Some _ \<Rightarrow> rf' = rf \<or> (\<exists>raw err. rf_put lib rf tname raw = (rf', Some err))
      | None \<Rightarrow> \<exists>goal path raw. resolve_spec lib rf (''ref:'' @ name) = Inr (goal, path) \<and>
          ref_encode lib \<lparr>rfName = tname, rfKey = key_bytes goal, rfCreatedAt = now, rfUser = []\<rparr> = Inr raw \<and>
          rf_put lib rf tname raw = (rf', None))"

lemma run_push_effects:
  assumes "run_push lib wr env sf force no_prog conns name s = Some (s', e)"
  shows "lcOpen s' = lcOpen s \<and> (clNet s = no_net \<longrightarrow> holds_net [] [] (clNet s')) \<and>
    push_result lib (neNow env) (tracking_ref (sfServer sf) name) name (lcObjects s) (lcRefs s) e (lcObjects s') (lcRefs s')"
proof (cases "prefix trackingPrefix name")
  case True
  with assms show ?thesis by (auto simp: run_push_def push_result_def holds_net_def no_net_def)
next
  case False
  let ?tname = "tracking_ref (sfServer sf) name"
  let ?Q = "push_result lib (neNow env) ?tname name (lcObjects s) (lcRefs s) e"
  have q: "?Q (lcObjects s) (lcRefs s)" if "e \<noteq> None" using that by (auto simp: push_result_def)
  note b = assms [unfolded run_push_def if_not_P [OF False]]
  show ?thesis
  proof (rule session_body [where Q = ?Q, OF b], goal_cases)
    case (1 s1 s2)
    have s1: "lcObjects s1 = lcObjects s" "lcRefs s1 = lcRefs s" "clNet s1 = clNet s" using 1(1) by simp_all
    show ?case
    proof (cases "resolve_spec lib (lcRefs s1) (''ref:'' @ name)")
      case (Inl err)
      with 1(2) q s1 show ?thesis by (auto simp: holds_net_def no_net_def)
    next
      case res: (Inr gp)
      obtain goal path where gp: "gp = (goal, path)" by (cases gp)
      show ?thesis
      proof (cases "tracked_key lib (lcRefs s1) ?tname")
        case (Inl err)
        with 1(2) q s1 res gp show ?thesis by (auto simp: Let_def holds_net_def no_net_def)
      next
        case (Inr expected)
        note st = 1(2) [unfolded res gp Let_def Inr sum.case prod.case]
        have "lcOpen s2 = lcOpen s1 \<and> (clNet s1 = no_net \<longrightarrow> holds_net [] [] (clNet s2)) \<and> ?Q (lcObjects s2) (lcRefs s2)"
        proof (rule stream_body [where Q = ?Q, OF st], goal_cases)
          case (1 sc t1 sc2 t2)
          let ?req = "push_msg name goal force expected conns" and ?t = "t1\<lparr>clProg := (if no_prog then None else Some no_progress)\<rparr>"
          obtain sc3 t3 x where x: "push_exchange lib wr (neAttempts env) name conns ?req sc ?t = (sc3, t3, x)"
            by (metis prod_cases3)
          have k: "keeps sc t1 sc3 t3" using push_exchange_keeps [OF x] by (simp add: keeps_def)
          then have t3: "lcObjects t3 = lcObjects s" "lcRefs t3 = lcRefs s" "lcOpen t3 = lcOpen t1"
            "holds_session sc (clNet t1) \<longrightarrow> holds_session sc3 (clNet t3)"
            using 1(1) s1 by (simp_all add: keeps_def same_store_def)
          show ?case
          proof (cases x)
            case (Some err)
            with 1(2) x have "t2 = t3" "sc2 = sc3" "e = Some err" by simp_all
            with t3 q show ?thesis by simp
          next
            case None
            obtain t4 y where f: "push_finish lib env ?tname name goal (close_ctrl t3) = (t4, y)" by fastforce
            with 1(2) x None have "t2 = t4" "sc2 = sc3" "e = y" by simp_all
            with push_finish_fields [OF f] t3 res gp s1 show ?thesis
              by (auto simp: push_result_def close_ctrl_def split: option.splits)
          qed
        qed (use q s1 in simp)
        with s1 show ?thesis by simp
      qed
    qed
  qed (use q in simp)
qed

section \<open>Lemmas: pulling\<close>

lemma pull_receive_same:
  assumes "pull_receive lib wr env streams goal s = Some (s', e)"
  shows "lcRefs s' = lcRefs s \<and> lcOpen s' = lcOpen s \<and> clNet s' = clNet s \<and> lcOut s' = lcOut s"
  using assms by (auto simp: pull_receive_def Let_def split: option.splits prod.splits)

lemma pull_receive_complete:
  assumes "check_law lib" and "write_law lib" and "pull_receive lib wr env streams goal s = Some (s', None)"
  shows "tree_complete lib (lcObjects s') goal \<and> grows lib (lcObjects s) (lcObjects s')"
proof -
  let ?links = "map (\<lambda>l. (lkIn l, lkOut l)) (clCtrl s # map snd streams)"
  from assms(3) obtain rs where
    r: "receive lib wr (neRounds env) (neFuel env) ?links (lcObjects s) goal 0 (clProg s) = Some (rs, None)"
    and s': "lcObjects s' = rsStore rs"
    by (auto simp: pull_receive_def Let_def split: option.splits prod.splits)
  from loop_complete [OF assms(1,2) r [unfolded receive_def] receive_start_covers] s' show ?thesis
    by (simp add: receive_start_def)
qed

text \<open>The first frame of the server on the control stream; \<open>x\<close> below stands for it.\<close>

definition server_frame :: "'a wire_lib_scheme \<Rightarrow> ('w, 'u) net_env \<Rightarrow> goerr + msg" where
  "server_frame lib env = (case neStream env of Inl e \<Rightarrow> Inl e | Inr l \<Rightarrow> snd (read_msg lib (lkIn l)))"

definition pull_result ::
  "('p, 's, 'r, 'z) server_lib_scheme \<Rightarrow> goerr + msg \<Rightarrow> string \<Rightarrow> string \<Rightarrow> 's \<Rightarrow> 'r \<Rightarrow> goerr option \<Rightarrow> 's \<Rightarrow> 'r \<Rightarrow> bool" where
  "pull_result lib x tname name st rf e st' rf' \<longleftrightarrow>
     (e \<noteq> None \<and> rf' = rf) \<or>
     (\<exists>m rec goal. x = Inr m \<and> mType m = TRef \<and> ref_decode lib (mRecord m) = Inr rec \<and> key_parse lib (rfKey rec) = Inr goal \<and>
        tree_complete lib st' goal \<and> grows lib st st' \<and>
        (\<exists>rf1 y. rf_put lib rf name (mRecord m) = (rf1, y) \<and>
           (case y of
              Some err \<Rightarrow> e = Some err \<and> rf' = rf1
            | None \<Rightarrow> \<exists>z. rf_put lib rf1 tname (mRecord m) = (rf', z) \<and> (e = None \<longleftrightarrow> z = None))))"

lemma pull_finish_fields:
  assumes "pull_finish lib env tname name record goal s = (s', e)"
  shows "lcObjects s' = lcObjects s \<and> lcOpen s' = lcOpen s \<and> clNet s' = clNet s \<and>
    (\<exists>rf1 y. rf_put lib (lcRefs s) name record = (rf1, y) \<and>
       (case y of
          Some err \<Rightarrow> e = Some err \<and> lcRefs s' = rf1
        | None \<Rightarrow> \<exists>z. rf_put lib rf1 tname record = (lcRefs s', z) \<and> (e = None \<longleftrightarrow> z = None)))"
  using assms by (auto simp: pull_finish_def split: sum.splits prod.splits option.splits)

lemma pull_channels_session:
  assumes "pull_channels lib wr ats conns m sc n = (sc', n', streams)" and "holds_session sc n"
  shows "holds_net (scEP sc' # scExtraEPs sc') (map fst streams @ [scConn sc']) n'"
  using assms attach_extras_session [of lib wr "mToken m" "mDataPorts m" ats "nat (conns - 1)" sc n sc' n' streams]
  by (auto simp: pull_channels_def holds_session_def split: if_splits)

lemma pull_transfer_effects:
  assumes "check_law lib" and "write_law lib"
    and "pull_transfer lib wr env tname name conns m goal sc s = Some (sc', s', e)"
    and "ref_decode lib (mRecord m) = Inr rec" and "key_parse lib (rfKey rec) = Inr goal" and "mType m = TRef"
  shows "lcOpen s' = lcOpen s \<and> (holds_session sc (clNet s) \<longrightarrow> holds_session sc' (clNet s')) \<and>
    pull_result lib (Inr m) tname name (lcObjects s) (lcRefs s) e (lcObjects s') (lcRefs s')"
proof -
  obtain sc1 n1 streams where ch: "pull_channels lib wr (neAttempts env) conns m sc (clNet s) = (sc1, n1, streams)"
    by (metis prod_cases3)
  with assms(3) obtain s1 x where r: "pull_receive lib wr env streams goal (s\<lparr>clNet := n1\<rparr>) = Some (s1, x)"
    by (auto simp: pull_transfer_def split: option.splits)
  note same = pull_receive_same [OF r]
  have net: "holds_session sc (clNet s) \<longrightarrow> holds_session sc1 (close_extras streams n1)"
    using close_extras_session [OF pull_channels_session [OF ch]] by simp
  show ?thesis
  proof (cases x)
    case (Some err)
    with assms(3) ch r have "sc' = sc1" "s' = s1\<lparr>clNet := close_extras streams (clNet s1)\<rparr>" "e = Some err"
      by (simp_all add: pull_transfer_def Let_def)
    with same net show ?thesis by (simp add: pull_result_def)
  next
    case None
    obtain s2 y where f: "pull_finish lib env tname name (mRecord m) goal (close_ctrl s1) = (s2, y)" by fastforce
    with assms(3) ch r None have "sc' = sc1" "s' = s2\<lparr>clNet := close_extras streams (clNet s2)\<rparr>" "e = y"
      by (simp_all add: pull_transfer_def Let_def)
    moreover have "tree_complete lib (lcObjects s1) goal \<and> grows lib (lcObjects s) (lcObjects s1)"
      using pull_receive_complete [OF assms(1,2) r [unfolded None]] by simp
    ultimately show ?thesis using same net pull_finish_fields [OF f] assms(4-6)
      by (simp add: pull_result_def close_ctrl_def)
  qed
qed

lemma pulled_ref_Inr:
  "pulled_ref lib x = Inr (m, goal) \<Longrightarrow> x = Inr m \<and> mType m = TRef \<and>
     (\<exists>rec. ref_decode lib (mRecord m) = Inr rec \<and> key_parse lib (rfKey rec) = Inr goal)"
  by (auto simp: pulled_ref_def expect_type_def split: sum.splits if_splits)

lemma pull_body_effects:
  assumes "check_law lib" and "write_law lib"
    and "pull_body lib wr env tname no_prog conns name sc s = Some (sc', s', e)"
  shows "lcOpen s' = lcOpen s \<and> (holds_session sc (clNet s) \<longrightarrow> holds_session sc' (clNet s')) \<and>
    pull_result lib (snd (read_msg lib (lkIn (clCtrl s)))) tname name (lcObjects s) (lcRefs s) e (lcObjects s') (lcRefs s')"
proof -
  obtain s1 x where w: "ctrl_write lib wr (pull_msg name conns) s = (s1, x)" by fastforce
  note k1 = ctrl_write_same [OF w]
  show ?thesis
  proof (cases x)
    case (Some err)
    with assms(3) w have "sc' = sc" "s' = s1" "e = Some err" by (simp_all add: pull_body_def)
    with k1 show ?thesis by (simp add: pull_result_def same_store_def)
  next
    case None
    obtain s2 y where r: "ctrl_read lib s1 = (s2, y)" by fastforce
    note k2 = ctrl_read_same [OF r]
    have y: "y = snd (read_msg lib (lkIn (clCtrl s)))"
      using w r by (auto simp: ctrl_write_def ctrl_read_def split: prod.splits)
    show ?thesis
    proof (cases "pulled_ref lib y")
      case (Inl err)
      with assms(3) w None r have "sc' = sc" "s' = s2" "e = Some err" by (simp_all add: pull_body_def)
      with k1 k2 show ?thesis by (simp add: pull_result_def same_store_def)
    next
      case (Inr mg)
      obtain m goal where mg: "mg = (m, goal)" by (cases mg)
      with Inr pulled_ref_Inr obtain rec where ym: "y = Inr m"
        and rec: "ref_decode lib (mRecord m) = Inr rec" "key_parse lib (rfKey rec) = Inr goal" "mType m = TRef" by metis
      from assms(3) w None r Inr mg have "pull_transfer lib wr env tname name conns m goal sc
          (s2\<lparr>clProg := (if no_prog then None else Some no_progress)\<rparr>) = Some (sc', s', e)"
        by (simp add: pull_body_def)
      from pull_transfer_effects [OF assms(1,2) this rec] k1 k2 show ?thesis
        unfolding y [symmetric] ym by (simp add: same_store_def)
    qed
  qed
qed

lemma run_pull_effects:
  assumes "check_law lib" and "write_law lib"
    and "run_pull lib wr env sf no_prog conns name s = Some (s', e)"
  shows "lcOpen s' = lcOpen s \<and> (clNet s = no_net \<longrightarrow> holds_net [] [] (clNet s')) \<and>
    pull_result lib (server_frame lib env) (tracking_ref (sfServer sf) name) name (lcObjects s) (lcRefs s) e (lcObjects s') (lcRefs s')"
proof (cases "ref_validate lib name \<noteq> None \<or> prefix trackingPrefix name")
  case True
  with assms(3) show ?thesis by (auto simp: run_pull_def pull_result_def holds_net_def no_net_def split: option.splits)
next
  case False
  let ?tname = "tracking_ref (sfServer sf) name"
  let ?Q = "pull_result lib (server_frame lib env) ?tname name (lcObjects s) (lcRefs s) e"
  have q: "?Q (lcObjects s) (lcRefs s)" if "e \<noteq> None" using that by (auto simp: pull_result_def)
  from False assms(3) have b: "store_session (neStore env) (with_stream lib env sf
      (pull_body lib wr env ?tname no_prog conns name)) s = Some (s', e)" by (simp add: run_pull_def)
  show ?thesis
  proof (rule session_body [where Q = ?Q, OF b], goal_cases)
    case (1 s1 s2)
    have s1: "lcObjects s1 = lcObjects s" "lcRefs s1 = lcRefs s" "clNet s1 = clNet s" using 1(1) by simp_all
    have "lcOpen s2 = lcOpen s1 \<and> (clNet s1 = no_net \<longrightarrow> holds_net [] [] (clNet s2)) \<and> ?Q (lcObjects s2) (lcRefs s2)"
    proof (rule stream_body [where Q = ?Q, OF 1(2)], goal_cases)
      case (1 sc t1 sc2 t2)
      from pull_body_effects [OF assms(1,2) 1(2)] 1(1,3) s1 show ?case by (simp add: same_store_def server_frame_def)
    qed (use q s1 in simp)
    with s1 show ?case by simp
  qed (use q in simp)
qed

lemma refs_loop_same:
  "refs_loop lib rs s = (s', x) \<Longrightarrow>
     lcObjects s' = lcObjects s \<and> lcRefs s' = lcRefs s \<and> lcOpen s' = lcOpen s \<and> clNet s' = clNet s"
  by (induction rs arbitrary: s) (auto simp: print_line_def split: sum.splits prod.splits option.splits)

lemma refs_body_same:
  assumes "refs_body lib wr sc s = (sc', s', x)"
  shows "sc' = sc \<and> lcOpen s' = lcOpen s \<and> clNet s' = clNet s \<and> lcObjects s' = lcObjects s \<and> lcRefs s' = lcRefs s"
proof -
  obtain s1 y where w: "ctrl_write lib wr (zero_msg\<lparr>mType := TRefList\<rparr>) s = (s1, y)" by fastforce
  obtain s2 z where r: "ctrl_read lib s1 = (s2, z)" by fastforce
  from assms w r have "sc' = sc \<and> (s' = s1 \<or> s' = s2 \<or> (\<exists>m :: msg. refs_loop lib (mRefs m) (close_ctrl s2) = (s', x)))"
    by (auto simp: refs_body_def split: option.splits sum.splits)
  with ctrl_write_same [OF w] ctrl_read_same [OF r] show ?thesis
    by (auto simp: same_store_def close_ctrl_def dest!: refs_loop_same)
qed

lemma run_refs_effects:
  assumes "run_refs lib wr env sf s = Some (s', e)"
  shows "lcOpen s' = lcOpen s \<and> (clNet s = no_net \<longrightarrow> holds_net [] [] (clNet s')) \<and>
    lcObjects s' = lcObjects s \<and> lcRefs s' = lcRefs s"
proof (rule stream_body [where Q = "\<lambda>st rf. st = lcObjects s \<and> rf = lcRefs s", OF assms [unfolded run_refs_def]], goal_cases)
  case (1 sc s1 sc2 s2)
  then have "refs_body lib wr sc s1 = (sc2, s2, e)" by simp
  from refs_body_same [OF this] 1(1) show ?case by (simp add: same_store_def)
qed simp

section \<open>A sample session\<close>

text \<open>
  The sample libraries with a codec that knows the messages of a pull of \<open>main\<close>, and a server
  that answers it with a record of the tree \<open>9\<close>, which the client already has.
\<close>

definition sample_reply :: msg where
  "sample_reply = zero_msg\<lparr>mType := TRef, mRecord := [9]\<rparr>"

text \<open>The same over several connections, for the transfer token \<open>1\<close>.\<close>

definition sample_accept :: msg where
  "sample_accept = zero_msg\<lparr>mType := TAccept, mToken := [1]\<rparr>"

definition sample_book :: "msg list" where
  "sample_book = [end_msg, sample_err, ok_msg, sample_reply, pull_msg ''main'' 1, push_msg ''main'' (Key [9]) False [] 1,
     sample_accept, attach_msg [1], sample_reply\<lparr>mToken := [1]\<rparr>, pull_msg ''main'' 3, push_msg ''main'' (Key [9]) False [] 3]"

definition sample_net_lib :: "(unit, sample_store, (string \<times> bytes) list) server_lib" where
  "sample_net_lib = sample_server_lib\<lparr>marshal := book_marshal sample_book, unmarshal := book_unmarshal sample_book\<rparr>"

lemma sample_net_fields [simp]:
  "st_get sample_net_lib = sample_get" "child_keys sample_net_lib = sample_children" "st_has sample_net_lib = sample_has"
  "check_complete sample_net_lib = check_complete (sample_lib [])" "st_write sample_net_lib = sample_write"
  "ref_validate sample_net_lib n = ref_validate sample_server_lib n"
  "ref_decode sample_net_lib b = Inr \<lparr>rfName = [], rfKey = b, rfCreatedAt = 0, rfUser = []\<rparr>"
  "rf_put sample_net_lib rf n b = ((n, b) # rf, None)"
  "rf_get sample_net_lib rf n = (case map_of rf n of None \<Rightarrow> Inl RefNotFound | Some raw \<Rightarrow> Inr raw)"
  "ref_encode sample_net_lib rec = Inr (rfKey rec)"
  "key_parse sample_net_lib b = (if length b = 1 then Inr (Key b) else Inl (LibErr ''bad key''))"
  by (simp_all add: sample_net_lib_def sample_server_simps)

lemma sample_net_complete: "tree_complete sample_net_lib st k \<longleftrightarrow> tree_complete (sample_lib ms) st k"
  by (auto elim!: tree_complete_cong simp: sample_lib_def)

lemma sample_net_check_law: "check_law sample_net_lib"
  using sample_check_law [of "[]"] unfolding check_law_def sample_net_complete [of _ _ "[]"]
  by (simp add: sample_lib_def)

lemma sample_net_write_law: "write_law sample_net_lib"
  using sample_write_law [of "[]"] by (simp add: write_law_def sample_lib_def)

lemma sample_net_ref_law: "ref_law sample_net_lib"
  by (auto simp: ref_law_def)

lemma sample_net_codec: "m \<in> set sample_book \<Longrightarrow> codec_ok sample_net_lib m"
  using sample_codec_ok [of sample_book m]
  by (simp add: sample_book_def codec_ok_def sample_net_lib_def sample_server_simps sample_lib_def)

lemma sample_net_frame:
  assumes "m \<in> set sample_book"
  obtains b where "good_frame sample_net_lib m = Some b"
proof -
  from sample_net_codec [OF assms] obtain p where p: "marshal sample_net_lib m = Inr p" by (auto simp: codec_ok_def)
  have "length p \<le> 2 + length (mData m) + length (concat (mKeys m))"
    using p by (auto simp: sample_net_lib_def book_marshal_def sample_server_simps split: if_splits option.splits)
  moreover have "length (mData m) + length (concat (mKeys m)) = 0"
    using assms by (auto simp: sample_book_def end_msg_def sample_err_def ok_msg_def sample_reply_def pull_msg_def push_msg_def
        sample_accept_def attach_msg_def zero_msg_def)
  ultimately have "length p \<le> MaxFrame" by (simp add: MaxFrame_def)
  with p sample_net_codec [OF assms] that show ?thesis by (auto simp: good_frame_def frame_bytes_def)
qed

definition sample_flags :: server_flags where
  "sample_flags = \<lparr>sfServer = ''id'', sfAddrs = [''a'', ''b''], sfRelay = []\<rparr>"

definition sample_net_env :: "bytes \<Rightarrow> (ostream, string) net_env" where
  "sample_net_env b = \<lparr>neStore = sample_store_env, neDial = sample_dial,
     neStream = Inr \<lparr>lkIn = \<lparr>avail = b, fin = IoEOF\<rparr>, lkOut = fresh_out\<rparr>, neAttempts = sample_attempt,
     neRounds = sample_env, neFuel = 1, neNow = 7, neElapsed = 0, neOver = \<lambda>q. 0\<rparr>"

definition sample_client :: "(ostream, sample_store, (string \<times> bytes) list) client" where
  "sample_client = \<lparr>lcObjects = sample_final, lcRefs = [], lcOut = fresh_out, lcOpen = [], clErr = fresh_out,
     clNet = no_net, clCtrl = \<lparr>lkIn = \<lparr>avail = [], fin = IoEOF\<rparr>, lkOut = fresh_out\<rparr>, clDone = False, clExtras = [],
     clProg = None\<rparr>"

lemma sample_dials:
  obtains sc n where "dial_server ks (neDial (sample_net_env b)) (sfServer sample_flags) (sfAddrs sample_flags)
    (sfRelay sample_flags) no_net = (n, Inr sc)"
  by (simp add: sample_net_env_def sample_flags_def dial_server_def sample_dial_def dial_cands_def race_net_def
      race_connect_def parse_direct_addr_def)

lemma sample_session:
  assumes "clNet s = no_net"
    and "\<And>sc n. \<exists>sc' s'. body sc (s\<lparr>lcOpen := [Refs, Objects], clNet := n,
      clCtrl := \<lparr>lkIn = \<lparr>avail = b, fin = IoEOF\<rparr>, lkOut = fresh_out\<rparr>, clDone := False\<rparr>) = Some (sc', s', None) \<and> P (lcRefs s') (lcObjects s')"
    and "lcOpen s = []"
  shows "\<exists>s'. store_session (neStore (sample_net_env b)) (with_stream lib (sample_net_env b) sample_flags body) s = Some (s', None) \<and>
    P (lcRefs s') (lcObjects s')"
proof -
  obtain sc n where d: "dial_server (key_string lib) (neDial (sample_net_env b)) (sfServer sample_flags)
      (sfAddrs sample_flags) (sfRelay sample_flags) no_net = (n, Inr sc)" by (rule sample_dials)
  from assms(2) [of sc n] obtain sc' s' where "body sc (s\<lparr>lcOpen := [Refs, Objects], clNet := n,
      clCtrl := \<lparr>lkIn = \<lparr>avail = b, fin = IoEOF\<rparr>, lkOut = fresh_out\<rparr>, clDone := False\<rparr>) = Some (sc', s', None)"
      "P (lcRefs s') (lcObjects s')" by blast
  with assms(1,3) d show ?thesis
    by (simp add: store_session_def open_store_def sample_net_env_def sample_store_env_def with_stream_def close_store_def)
qed

lemma sample_complete: "tree_complete sample_net_lib sample_final (Key [9])"
proof -
  have "sample_check 257 (sample_get sample_final) (Key [9]) = None"
    by (simp add: sample_check_numeral sample_final_def sample_get_def sample_children_def)
  then have "tree_complete (sample_lib []) sample_final (Key [9])" by (rule sample_check_complete)
  then show ?thesis by (simp add: sample_net_complete [of _ _ "[]"])
qed

lemma sample_pull_run:
  assumes b: "good_frame sample_net_lib sample_reply = Some b"
  shows "\<exists>s'. run_pull sample_net_lib os_write (sample_net_env b) sample_flags True 1 ''main'' sample_client = Some (s', None)"
proof -
  let ?lib = sample_net_lib and ?tname = "tracking_ref (sfServer sample_flags) ''main''"
  have "frame_bytes ?lib (zero_msg\<lparr>mType := TWants\<rparr>) = Some (put_uint32 1 @ [1])"
    by (simp add: frame_bytes_def sample_net_lib_def book_marshal_def TWants_def zero_msg_def MaxFrame_def)
  note short = complete_tree_short [OF sample_net_check_law sample_complete _ this]
  have h: "st_has ?lib sample_final (Key [9]) = Inr True" by (simp add: sample_has_def sample_final_def)
  obtain q where q: "good_frame ?lib (pull_msg ''main'' 1) = Some q"
    by (rule sample_net_frame [of "pull_msg ''main'' 1"]) (simp add: sample_book_def)
  then have fq: "frame_bytes ?lib (pull_msg ''main'' 1) = Some q" by (simp add: good_frame_def split: if_splits)
  have "\<exists>sc' s'. pull_body ?lib os_write (sample_net_env b) ?tname True 1 ''main'' sc
      (sample_client\<lparr>lcOpen := [Refs, Objects], clNet := n, clCtrl := \<lparr>lkIn = \<lparr>avail = b, fin = IoEOF\<rparr>, lkOut = fresh_out\<rparr>,
        clDone := False\<rparr>) = Some (sc', s', None)" for sc n
  proof -
    obtain w where w: "write_msg ?lib os_write fresh_out (pull_msg ''main'' 1) = (w, None)" "os_up w"
      using os.write_msg_healthy [OF fq fresh_up] by blast
    have r: "read_msg ?lib \<lparr>avail = b, fin = IoEOF\<rparr> = (\<lparr>avail = [], fin = IoEOF\<rparr>, Inr sample_reply)"
      using wire.recv_frame [OF b, of "[]" IoEOF] by simp
    have p: "pulled_ref ?lib (Inr sample_reply) = Inr (sample_reply, Key [9])"
      by (simp add: pulled_ref_def expect_type_def sample_reply_def zero_msg_def)
    have t: "mToken sample_reply = []" by (simp add: sample_reply_def zero_msg_def)
    from short [of "[(\<lparr>avail = [], fin = IoEOF\<rparr>, w)]" sample_env 0 0 None] h w(2)
    obtain rs where rs: "receive ?lib os_write sample_env 1 [(\<lparr>avail = [], fin = IoEOF\<rparr>, w)] sample_final (Key [9]) 0 None =
        Some (rs, None)" by auto
    show ?thesis
      using w(1) r p t rs
      by (simp add: pull_body_def ctrl_write_def ctrl_read_def sample_client_def pull_transfer_def pull_channels_def
          pull_receive_def sample_net_env_def Let_def pull_finish_def)
  qed
  then have "\<exists>s'. store_session (neStore (sample_net_env b)) (with_stream ?lib (sample_net_env b) sample_flags
      (pull_body ?lib os_write (sample_net_env b) ?tname True 1 ''main'')) sample_client = Some (s', None) \<and> True"
    by (intro sample_session) (auto simp: sample_client_def)
  then show ?thesis
    by (simp add: run_pull_def trackingPrefix_def) (simp add: sample_server_simps)
qed

definition sample_go_on :: msg where
  "sample_go_on = zero_msg\<lparr>mType := TWants\<rparr>"

lemma sample_go_on_frame: "good_frame sample_net_lib sample_go_on = Some (put_uint32 1 @ [1])"
proof -
  have "marshal sample_net_lib sample_go_on = Inr [1]" "unmarshal sample_net_lib [1] = Inr sample_go_on"
    by (simp_all add: sample_net_lib_def sample_go_on_def book_marshal_def book_unmarshal_def TWants_def zero_msg_def)
  then show ?thesis by (simp add: good_frame_def codec_ok_def frame_bytes_def MaxFrame_def)
qed

lemma send_loop_stops:
  assumes "read_msg lib (ssIn s) = (r, Inr m)" and "mType m = TWants" and "mKeys m = []"
  shows "send_loop lib wr st s = (s\<lparr>ssIn := r\<rparr>, None)"
  using assms by (simp add: send_loop.simps [of lib wr st s] send_round_def Let_def TWants_def TErr_def)

lemma sample_client_push_run:
  assumes b: "good_frame sample_net_lib ok_msg = Some b"
  shows "\<exists>s'. run_push sample_net_lib os_write (sample_net_env (put_uint32 1 @ [1] @ b)) sample_flags False True 1 ''main''
    (sample_client\<lparr>lcRefs := [(''main'', [9])]\<rparr>) = Some (s', None)"
proof -
  let ?lib = sample_net_lib and ?tname = "tracking_ref (sfServer sample_flags) ''main''"
  let ?env = "sample_net_env (put_uint32 1 @ [1] @ b)" and ?req = "push_msg ''main'' (Key [9]) False [] 1"
  let ?body = "\<lambda>sc s1. Some (case push_exchange ?lib os_write (neAttempts ?env) ''main'' 1 ?req sc (s1\<lparr>clProg := None\<rparr>) of
      (sc2, s2, Some e) \<Rightarrow> (sc2, s2, Some e)
    | (sc2, s2, None) \<Rightarrow> (sc2, push_finish ?lib ?env ?tname ''main'' (Key [9]) (close_ctrl s2)))"
  obtain q where "good_frame ?lib ?req = Some q"
    by (rule sample_net_frame [of ?req]) (simp add: sample_book_def)
  then have fq: "frame_bytes ?lib ?req = Some q" by (simp add: good_frame_def split: if_splits)
  have body: "\<exists>sc' s'. ?body sc (sample_client\<lparr>lcRefs := [(''main'', [9])], lcOpen := [Refs, Objects], clNet := n,
      clCtrl := \<lparr>lkIn = \<lparr>avail = put_uint32 1 @ [1] @ b, fin = IoEOF\<rparr>, lkOut = fresh_out\<rparr>, clDone := False\<rparr>) =
      Some (sc', s', None) \<and> True" for sc n
  proof -
    obtain w where w: "write_msg ?lib os_write fresh_out ?req = (w, None)"
      using os.write_msg_healthy [OF fq fresh_up] by blast
    have r1: "read_msg ?lib \<lparr>avail = put_uint32 1 @ [1] @ b, fin = IoEOF\<rparr> = (\<lparr>avail = b, fin = IoEOF\<rparr>, Inr sample_go_on)"
      using wire.recv_frame [OF sample_go_on_frame, of b IoEOF] by simp
    have r2: "read_msg ?lib \<lparr>avail = b, fin = IoEOF\<rparr> = (\<lparr>avail = [], fin = IoEOF\<rparr>, Inr ok_msg)"
      using wire.recv_frame [OF b, of "[]" IoEOF] by simp
    have l: "send_loop ?lib os_write st \<lparr>ssIn = \<lparr>avail = put_uint32 1 @ [1] @ b, fin = IoEOF\<rparr>, ssOut = w, ssProg = None\<rparr> =
        (\<lparr>ssIn = \<lparr>avail = b, fin = IoEOF\<rparr>, ssOut = w, ssProg = None\<rparr>, None)" for st
      using send_loop_stops [of ?lib "\<lparr>ssIn = \<lparr>avail = put_uint32 1 @ [1] @ b, fin = IoEOF\<rparr>, ssOut = w, ssProg = None\<rparr>"] r1
      by (simp add: sample_go_on_def zero_msg_def)
    have e: "expect_type TOK ''TOK'' (Inr ok_msg) = Inr ok_msg" by (simp add: expect_type_def ok_msg_def zero_msg_def)
    show ?thesis
      using w l [unfolded append_Cons append_Nil] r2 e
      by (simp add: push_exchange_def ctrl_write_def ctrl_read_def run_senders_def send_ctrl_def sample_client_def
          push_finish_def sample_net_env_def)
  qed
  have "\<exists>s'. store_session (neStore ?env) (with_stream ?lib ?env sample_flags ?body)
      (sample_client\<lparr>lcRefs := [(''main'', [9])]\<rparr>) = Some (s', None) \<and> True"
    by (rule sample_session [where P = "\<lambda>a b. True" and b = "put_uint32 1 @ [1] @ b"])
      (use body in \<open>simp_all add: sample_client_def\<close>)
  moreover have "resolve_spec ?lib [(''main'', [9])] (''ref:'' @ ''main'') = Inr (Key [9], [])"
    by (simp add: resolve_spec_def cut_prefix_def sample_server_simps)
  moreover have "tracked_key ?lib [(''main'', [9])] ?tname = Inr []"
    by (simp add: tracked_key_def tracking_ref_def trackingPrefix_def)
  ultimately show ?thesis
    by (simp add: run_push_def store_session_def trackingPrefix_def open_store_def sample_net_env_def sample_store_env_def
        sample_client_def Let_def)
qed

section \<open>Properties\<close>

text \<open>
  Fact (network commands clean up).  However a push, a pull or a listing ends, on whatever path:
  the store is closed again, every endpoint that was bound is shut down and every connection that
  was established is closed, each exactly once.
\<close>

theorem network_commands_clean_up:
  assumes "check_law lib" and "write_law lib" and "clNet s = no_net"
    and "run_push lib wr env sf force no_prog conns name s = Some (s', e) \<or>
      run_pull lib wr env sf no_prog conns name s = Some (s', e) \<or> run_refs lib wr env sf s = Some (s', e)"
  shows "lcOpen s' = lcOpen s \<and> mset (ntBound (clNet s')) = mset (ntShut (clNet s')) \<and>
    mset (ntOpened (clNet s')) = mset (ntClosed (clNet s'))"
  using assms(4) run_push_effects run_pull_effects [OF assms(1,2)] run_refs_effects assms(3)
  unfolding holds_net_def by (elim disjE) fastforce+

theorem network_commands_clean_up_witness:
  "\<exists>b s'. run_pull sample_net_lib os_write (sample_net_env b) sample_flags True 1 ''main'' sample_client = Some (s', None) \<and>
     lcOpen s' = [] \<and> mset (ntOpened (clNet s')) = mset (ntClosed (clNet s'))"
proof -
  obtain b where "good_frame sample_net_lib sample_reply = Some b"
    by (rule sample_net_frame [of sample_reply]) (simp add: sample_book_def)
  then obtain s' where r: "run_pull sample_net_lib os_write (sample_net_env b) sample_flags True 1 ''main'' sample_client = Some (s', None)"
    using sample_pull_run by blast
  have "clNet sample_client = no_net" "lcOpen sample_client = []" by (simp_all add: sample_client_def)
  with network_commands_clean_up [OF sample_net_check_law sample_net_write_law, of sample_client os_write "sample_net_env b"
      sample_flags False True 1 "''main''" s' None] r show ?thesis by auto
qed

text \<open>
  Fact (what a push does to the local store).  A push never changes an object.  When it succeeds,
  the remote-tracking reference of the name holds the pushed root and no other reference has
  changed; when it fails, no reference has changed at all, except that the write of the
  tracking reference itself may have been attempted.
\<close>

theorem push_records_tracking:
  assumes "run_push lib wr env sf force no_prog conns name s = Some (s', e)" and "ref_law lib"
  defines "tname \<equiv> tracking_ref (sfServer sf) name"
  shows "lcObjects s' = lcObjects s \<and>
    (case e of
       Some _ \<Rightarrow> lcRefs s' = lcRefs s \<or> (\<exists>raw err. rf_put lib (lcRefs s) tname raw = (lcRefs s', Some err))
     | None \<Rightarrow> (\<forall>n. n \<noteq> tname \<longrightarrow> rf_get lib (lcRefs s') n = rf_get lib (lcRefs s) n) \<and>
         (\<exists>goal path raw. resolve_spec lib (lcRefs s) (''ref:'' @ name) = Inr (goal, path) \<and>
            ref_encode lib \<lparr>rfName = tname, rfKey = key_bytes goal, rfCreatedAt = neNow env, rfUser = []\<rparr> = Inr raw \<and>
            rf_get lib (lcRefs s') tname = Inr raw))"
proof -
  from run_push_effects [OF assms(1)] have r: "push_result lib (neNow env) tname name (lcObjects s) (lcRefs s) e
      (lcObjects s') (lcRefs s')" by (simp add: tname_def)
  show ?thesis
  proof (cases e)
    case (Some err)
    with r show ?thesis by (auto simp: push_result_def)
  next
    case None
    with r obtain goal path raw where g: "lcObjects s' = lcObjects s" "resolve_spec lib (lcRefs s) (''ref:'' @ name) = Inr (goal, path)"
      "ref_encode lib \<lparr>rfName = tname, rfKey = key_bytes goal, rfCreatedAt = neNow env, rfUser = []\<rparr> = Inr raw"
      "rf_put lib (lcRefs s) tname raw = (lcRefs s', None)" by (auto simp: push_result_def)
    with assms(2) None show ?thesis by (auto simp: ref_law_def)
  qed
qed

theorem push_records_tracking_witness:
  "\<exists>b s'. run_push sample_net_lib os_write (sample_net_env b) sample_flags False True 1 ''main''
      (sample_client\<lparr>lcRefs := [(''main'', [9])]\<rparr>) = Some (s', None) \<and>
     rf_get sample_net_lib (lcRefs s') ''remotes/id/main'' = Inr [9]"
proof -
  obtain b where "good_frame sample_net_lib ok_msg = Some b"
    by (rule sample_net_frame [of ok_msg]) (simp add: sample_book_def)
  then obtain s' where r: "run_push sample_net_lib os_write (sample_net_env (put_uint32 1 @ [1] @ b)) sample_flags False True 1
      ''main'' (sample_client\<lparr>lcRefs := [(''main'', [9])]\<rparr>) = Some (s', None)"
    using sample_client_push_run by blast
  from push_records_tracking [OF r sample_net_ref_law] have "rf_get sample_net_lib (lcRefs s') ''remotes/id/main'' = Inr [9]"
    by (auto simp: tracking_ref_def trackingPrefix_def sample_flags_def resolve_spec_def cut_prefix_def
        sample_server_simps split: sum.splits)
  with r show ?thesis by blast
qed

text \<open>
  Claim C10 (a pull installs what the server sent).  When a pull succeeds, the server's first frame
  was a \<open>TRef\<close>, the whole tree its record names is in the store, nothing stored before is lost, the
  local reference and the remote-tracking reference both hold that record verbatim, and every other
  reference is as before.  When it fails, the references have changed only if the whole tree of
  that record had arrived, and then only by putting this very record under those names.
\<close>

theorem pull_installs:
  assumes "check_law lib" and "write_law lib" and "ref_law lib"
    and "run_pull lib wr env sf no_prog conns name s = Some (s', e)"
  defines "tname \<equiv> tracking_ref (sfServer sf) name"
  shows "(e \<noteq> None \<and> lcRefs s' = lcRefs s) \<or>
    (\<exists>m rec goal. server_frame lib env = Inr m \<and> mType m = TRef \<and>
       ref_decode lib (mRecord m) = Inr rec \<and> key_parse lib (rfKey rec) = Inr goal \<and>
       tree_complete lib (lcObjects s') goal \<and>
       (\<forall>k d. st_get lib (lcObjects s) k = Inr d \<longrightarrow> st_get lib (lcObjects s') k = Inr d) \<and>
       (if e = None
        then rf_get lib (lcRefs s') name = Inr (mRecord m) \<and> rf_get lib (lcRefs s') tname = Inr (mRecord m) \<and>
          (\<forall>n. n \<noteq> name \<and> n \<noteq> tname \<longrightarrow> rf_get lib (lcRefs s') n = rf_get lib (lcRefs s) n)
        else (\<exists>err. rf_put lib (lcRefs s) name (mRecord m) = (lcRefs s', Some err)) \<or>
          (\<exists>rf err. rf_put lib (lcRefs s) name (mRecord m) = (rf, None) \<and> rf_put lib rf tname (mRecord m) = (lcRefs s', Some err))))"
proof -
  from run_pull_effects [OF assms(1,2,4)] have r: "pull_result lib (server_frame lib env) tname name (lcObjects s) (lcRefs s) e (lcObjects s') (lcRefs s')"
    by (simp add: tname_def)
  show ?thesis
  proof (cases "e \<noteq> None \<and> lcRefs s' = lcRefs s")
    case False
    with r obtain m rec goal rf1 y where g: "server_frame lib env = Inr m" "mType m = TRef"
      "ref_decode lib (mRecord m) = Inr rec" "key_parse lib (rfKey rec) = Inr goal"
      "tree_complete lib (lcObjects s') goal" "grows lib (lcObjects s) (lcObjects s')"
      and put: "rf_put lib (lcRefs s) name (mRecord m) = (rf1, y)" "case y of Some err \<Rightarrow> e = Some err \<and> lcRefs s' = rf1
            | None \<Rightarrow> \<exists>z. rf_put lib rf1 tname (mRecord m) = (lcRefs s', z) \<and> (e = None \<longleftrightarrow> z = None)"
      unfolding pull_result_def by blast
    have "if e = None
        then rf_get lib (lcRefs s') name = Inr (mRecord m) \<and> rf_get lib (lcRefs s') tname = Inr (mRecord m) \<and>
          (\<forall>n. n \<noteq> name \<and> n \<noteq> tname \<longrightarrow> rf_get lib (lcRefs s') n = rf_get lib (lcRefs s) n)
        else (\<exists>err. rf_put lib (lcRefs s) name (mRecord m) = (lcRefs s', Some err)) \<or>
          (\<exists>rf err. rf_put lib (lcRefs s) name (mRecord m) = (rf, None) \<and> rf_put lib rf tname (mRecord m) = (lcRefs s', Some err))"
    proof (cases e)
      case None
      with put have p: "rf_put lib (lcRefs s) name (mRecord m) = (rf1, None)" "rf_put lib rf1 tname (mRecord m) = (lcRefs s', None)"
        by (auto split: option.splits)
      with assms(3) have "rf_get lib rf1 name = Inr (mRecord m)" "\<forall>n. n \<noteq> name \<longrightarrow> rf_get lib rf1 n = rf_get lib (lcRefs s) n"
        "rf_get lib (lcRefs s') tname = Inr (mRecord m)" "\<forall>n. n \<noteq> tname \<longrightarrow> rf_get lib (lcRefs s') n = rf_get lib rf1 n"
        by (auto simp: ref_law_def)
      with None show ?thesis by (simp only: if_True) metis
    next
      case (Some err)
      with put show ?thesis by (auto split: option.splits)
    qed
    with g show ?thesis
      by (intro disjI2 exI [of _ m] exI [of _ rec] exI [of _ goal] conjI) (simp_all only: grows_def)
  qed simp
qed

theorem pull_installs_witness:
  "\<exists>b s'. good_frame sample_net_lib sample_reply = Some b \<and>
     run_pull sample_net_lib os_write (sample_net_env b) sample_flags True 1 ''main'' sample_client = Some (s', None) \<and>
     rf_get sample_net_lib (lcRefs s') ''main'' = Inr (mRecord sample_reply) \<and>
     tree_complete sample_net_lib (lcObjects s') (Key (mRecord sample_reply))"
proof -
  obtain b where b: "good_frame sample_net_lib sample_reply = Some b"
    by (rule sample_net_frame [of sample_reply]) (simp add: sample_book_def)
  then obtain s' where r: "run_pull sample_net_lib os_write (sample_net_env b) sample_flags True 1 ''main'' sample_client = Some (s', None)"
    using sample_pull_run by blast
  have f: "server_frame sample_net_lib (sample_net_env b) = Inr sample_reply"
    using wire.recv_frame [OF b, of "[]" IoEOF] by (simp add: server_frame_def sample_net_env_def)
  from pull_installs [OF sample_net_check_law sample_net_write_law sample_net_ref_law r] f
  have "rf_get sample_net_lib (lcRefs s') ''main'' = Inr (mRecord sample_reply)"
    "tree_complete sample_net_lib (lcObjects s') (Key (mRecord sample_reply))" by (auto split: if_splits)
  with b r show ?thesis by blast
qed

lemma send_loop_next:
  assumes "read_msg lib (ssIn s) = (r, Inr m)" and "read_msg lib (ssIn s') = (r, Inr m)"
    and "ssOut s' = ssOut s" and "ssProg s' = ssProg s"
  shows "send_loop lib wr st s = send_loop lib wr st s'"
proof -
  have "s\<lparr>ssIn := r\<rparr> = s'\<lparr>ssIn := r\<rparr>" using assms(3,4) by simp
  then have "send_round lib wr st s = send_round lib wr st s'" using assms(1,2) by (simp add: send_round_def)
  then show ?thesis by (simp add: send_loop.simps [of lib wr st s] send_loop.simps [of lib wr st s'])
qed

text \<open>
  Claim C36 (servers without sharding).  When the first frame of the server is a \<open>TWants\<close>, which a
  server that does not know about data connections sends, \<open>runSenders\<close> behaves, for any number
  of connections asked for, exactly as with one: replaying the frame it has consumed loses
  nothing and changes nothing, and no connection is opened.
\<close>

theorem old_server_fallback:
  assumes "read_msg lib (lkIn (clCtrl s)) = (r, Inr m)" and "mType m = TWants" and "good_frame lib m \<noteq> None"
  shows "run_senders lib wr ats conns sc s = run_senders lib wr ats' 1 sc s"
proof (cases "conns \<le> 1")
  case True
  then show ?thesis by (simp add: run_senders_def)
next
  case False
  obtain b where b: "good_frame lib m = Some b" using assms(3) by blast
  then have fb: "frame_bytes lib m = Some b" by (simp add: good_frame_def split: if_splits)
  have "os_up empty_buffer" by (simp add: empty_buffer_def os_up_def)
  from os.write_msg_healthy [OF fb this] obtain buf where buf: "write_msg lib os_write empty_buffer m = (buf, None)"
    "os_sent buf = b" by (auto simp: empty_buffer_def)
  let ?s1 = "s\<lparr>clCtrl := (clCtrl s)\<lparr>lkIn := r\<rparr>\<rparr>"
  have f: "r\<lparr>avail := b @ avail r\<rparr> = \<lparr>avail = b @ avail r, fin = fin r\<rparr>" by simp
  have again: "read_msg lib (r\<lparr>avail := b @ avail r\<rparr>) = (r, Inr m)"
    unfolding f using wire.recv_frame [OF b, of "avail r" "fin r"] by simp
  have "send_ctrl lib wr (replay_in b ?s1) = send_ctrl lib wr s"
    using send_loop_next [of lib "\<lparr>ssIn = r\<lparr>avail := b @ avail r\<rparr>, ssOut = lkOut (clCtrl s), ssProg = clProg s\<rparr>" r m
      "\<lparr>ssIn = lkIn (clCtrl s), ssOut = lkOut (clCtrl s), ssProg = clProg s\<rparr>" wr "lcObjects s"] again assms(1)
    by (simp add: send_ctrl_def replay_in_def Let_def split: prod.split)
  with False assms(1,2) buf show ?thesis
    by (simp add: run_senders_def ctrl_read_def TWants_def TErr_def)
qed

definition sample_conn :: server_conn where
  "sample_conn = \<lparr>scConn = 0, scEP = 0, scID = ''id'', scCands = [], scRemote = None, scExtraEPs = []\<rparr>"

theorem old_server_fallback_witness:
  "run_senders sample_net_lib os_write sample_attempt 4 sample_conn
     (sample_client\<lparr>clCtrl := \<lparr>lkIn = \<lparr>avail = put_uint32 1 @ [1], fin = IoEOF\<rparr>, lkOut = fresh_out\<rparr>\<rparr>) =
   run_senders sample_net_lib os_write sample_attempt 1 sample_conn
     (sample_client\<lparr>clCtrl := \<lparr>lkIn = \<lparr>avail = put_uint32 1 @ [1], fin = IoEOF\<rparr>, lkOut = fresh_out\<rparr>\<rparr>)"
proof -
  have "read_msg sample_net_lib \<lparr>avail = put_uint32 1 @ [1], fin = IoEOF\<rparr> = (\<lparr>avail = [], fin = IoEOF\<rparr>, Inr sample_go_on)"
    using wire.recv_frame [OF sample_go_on_frame, of "[]" IoEOF] by simp
  moreover have "mType sample_go_on = TWants" by (simp add: sample_go_on_def zero_msg_def)
  ultimately show ?thesis
    by (intro old_server_fallback [where m = sample_go_on]) (auto simp: sample_go_on_frame)
qed

text \<open>
  Fact (the expectation of the next push).  After a successful push or pull, the remote-tracking
  reference has the same key as the local reference of that name, and a push of anything from
  there passes the server's compare-and-swap check exactly when that key is still the one the
  server has under the name.
\<close>

theorem next_push_expectation:
  assumes "check_law lib" and "write_law lib" and "ref_law lib" and "record_law lib"
    and "\<forall>b k. key_parse lib b = Inr k \<longrightarrow> key_bytes k = b"
    and "CHR ''@'' \<notin> set name" and "\<not> prefix trackingPrefix name"
    and "run_push lib wr env sf force no_prog conns name s = Some (s', None) \<or>
      run_pull lib wr env sf no_prog conns name s = Some (s', None)"
  defines "tname \<equiv> tracking_ref (sfServer sf) name"
  shows "\<exists>k. ref_current lib (lcRefs s') name = Inr k \<and> tracked_key lib (lcRefs s') tname = Inr k \<and>
    (\<forall>srv. (\<exists>srv'. check_cas lib wr' i (push_msg name goal' False k conns') srv = (srv', None)) \<longleftrightarrow>
       ref_current lib (svRefs srv) name = Inr k)"
proof -
  have ne: "name \<noteq> tname" using assms(7) by (auto simp: tname_def tracking_ref_def)
  have cas: "(\<exists>srv'. check_cas lib wr' i (push_msg name goal' False k conns') srv = (srv', None)) \<longleftrightarrow>
       ref_current lib (svRefs srv) name = Inr k" for srv k
    using check_cas_ok [of lib wr' i "push_msg name goal' False k conns'" srv]
    by (auto simp: push_msg_def zero_msg_def check_cas_def)
  from assms(8) show ?thesis
  proof
    assume p: "run_push lib wr env sf force no_prog conns name s = Some (s', None)"
    obtain goal path raw where g: "resolve_spec lib (lcRefs s) (''ref:'' @ name) = Inr (goal, path)"
      "ref_encode lib \<lparr>rfName = tname, rfKey = key_bytes goal, rfCreatedAt = neNow env, rfUser = []\<rparr> = Inr raw"
      "rf_put lib (lcRefs s) tname raw = (lcRefs s', None)"
      using run_push_effects [OF p] by (auto simp: push_result_def tname_def)
    obtain raw' rec' where local: "rf_get lib (lcRefs s) name = Inr raw'" "ref_decode lib raw' = Inr rec'"
      "key_parse lib (rfKey rec') = Inr goal"
      using g(1) assms(6) by (auto simp: resolve_spec_def cut_prefix_def cut_at_absent split: sum.splits option.splits)
    have put: "rf_get lib (lcRefs s') tname = Inr raw" "rf_get lib (lcRefs s') name = rf_get lib (lcRefs s) name"
      using assms(3) g(3) ne by (auto simp: ref_law_def)
    obtain rec where rec: "ref_decode lib raw = Inr rec" "rfKey rec = key_bytes goal"
      using assms(4) g(2) by (fastforce simp: record_law_def)
    have "key_bytes goal = rfKey rec'" using assms(5) local(3) by blast
    with local put rec cas show ?thesis
      by (intro exI [of _ "rfKey rec'"]) (simp add: ref_current_def tracked_key_def)
  next
    assume p: "run_pull lib wr env sf no_prog conns name s = Some (s', None)"
    obtain data rec goal rf1 where g: "ref_decode lib data = Inr rec" "rf_put lib (lcRefs s) name data = (rf1, None)"
      "rf_put lib rf1 tname data = (lcRefs s', None)"
      using run_pull_effects [OF assms(1,2) p] by (auto simp: pull_result_def tname_def split: option.splits)
    with assms(3) ne have "rf_get lib (lcRefs s') tname = Inr data" "rf_get lib (lcRefs s') name = Inr data"
      by (auto simp: ref_law_def)
    with g(1) cas show ?thesis by (intro exI [of _ "rfKey rec"]) (simp add: ref_current_def tracked_key_def)
  qed
qed

theorem next_push_expectation_witness:
  "\<exists>b s' k. run_pull sample_net_lib os_write (sample_net_env b) sample_flags True 1 ''main'' sample_client = Some (s', None) \<and>
     ref_current sample_net_lib (lcRefs s') ''main'' = Inr k \<and>
     tracked_key sample_net_lib (lcRefs s') (tracking_ref ''id'' ''main'') = Inr k"
proof -
  obtain b where "good_frame sample_net_lib sample_reply = Some b"
    by (rule sample_net_frame [of sample_reply]) (simp add: sample_book_def)
  then obtain s' where r: "run_pull sample_net_lib os_write (sample_net_env b) sample_flags True 1 ''main'' sample_client = Some (s', None)"
    using sample_pull_run by blast
  have "record_law sample_net_lib" by (simp add: record_law_def)
  moreover have "\<forall>b k. key_parse sample_net_lib b = Inr k \<longrightarrow> key_bytes k = b" by simp
  ultimately obtain k where "ref_current sample_net_lib (lcRefs s') ''main'' = Inr k"
    "tracked_key sample_net_lib (lcRefs s') (tracking_ref ''id'' ''main'') = Inr k"
    using next_push_expectation [OF sample_net_check_law sample_net_write_law sample_net_ref_law, of "''main''" os_write
      "sample_net_env b" sample_flags False True 1 sample_client s',
      where wr' = os_write and i = 0 and goal' = "Key [9]" and conns' = 1] r
    by (auto simp: trackingPrefix_def sample_flags_def)
  with r show ?thesis by blast
qed

end
