(* ===== verification/Sync.thy ===== *)
theory Sync
  imports Receive_Props Send_Loop "HOL-Library.Multiset"
begin

text \<open>
  The two halves of the want loop together: a receiver and a sender that has the tree, joined by
  a connection that stays up.  The transcripts of the two directions are constructed round by
  round, and the rounds end because the frontier gets smaller in the multiset order on the
  tree's keys.
\<close>

section \<open>Documented behaviour of the libraries on a tree that is there\<close>

text \<open>Keys are content addresses: two stores have the same data under the same key.\<close>

definition agree :: "('p, 's, 'z) core_lib_scheme \<Rightarrow> 's \<Rightarrow> 's \<Rightarrow> bool" where
  "agree lib st src \<longleftrightarrow> (\<forall>k d d'. st_get lib st k = Inr d \<longrightarrow> st_get lib src k = Inr d' \<longrightarrow> d = d')"

text \<open>
  \<open>Has\<close> tells whether an object can be read, and \<open>CheckComplete\<close> fails on a part of a sound tree
  only because an object is missing.
\<close>

definition walk_law :: "('p, 's, 'z) core_lib_scheme \<Rightarrow> bool" where
  "walk_law lib \<longleftrightarrow> (\<forall>st src jobs k. agree lib st src \<longrightarrow> tree_complete lib src k \<longrightarrow>
     st_has lib st k = Inr (\<not> isl (st_get lib st k)) \<and>
     (\<forall>e. check_complete lib k (st_get lib st) (st_has lib st) jobs = Some e \<longrightarrow> is_missing e))"

text \<open>\<open>WriteParallel\<close> stores sound objects, and nothing else.\<close>

definition accept_law :: "('p, 's, 'z) core_lib_scheme \<Rightarrow> bool" where
  "accept_law lib \<longleftrightarrow> (\<forall>st src objs. agree lib st src \<longrightarrow>
     (\<forall>ob\<in>set objs. tree_complete lib src (oKey ob) \<and> st_get lib src (oKey ob) = Inr (oData ob)) \<longrightarrow>
     (\<exists>st'. st_write lib st objs = (st', length objs, None) \<and> agree lib st' src))"

definition stored :: "('p, 's, 'z) core_lib_scheme \<Rightarrow> 's \<Rightarrow> key \<Rightarrow> object" where
  "stored lib src k = \<lparr>oKey = k, oData = projr (st_get lib src k)\<rparr>"

text \<open>A pack of stored records can be written and reads back as the stored objects.\<close>

definition pack_law :: "('p, 's, 'z) core_lib_scheme \<Rightarrow> 's \<Rightarrow> bool" where
  "pack_law lib src \<longleftrightarrow> (\<forall>ks. distinct ks \<longrightarrow> (\<forall>k\<in>set ks. tree_complete lib src k) \<longrightarrow>
     (let items = record_items lib src ks in
      pack_err (aw_add_record lib) (aw_new lib) items = None \<and>
      snd (aw_close lib (fst (pack_writes (aw_add_record lib) (aw_new lib) items))) = None \<and>
      (\<exists>fl saw. amber_read lib (pack_content (aw_add_record lib) lib items) None = (fl, None, saw) \<and>
         map fst fl = map (stored lib src) ks)))"

text \<open>A request fits into a frame, and its keys parse back.\<close>

definition request_law :: "('p, 's, 'z) core_lib_scheme \<Rightarrow> bool" where
  "request_law lib \<longleftrightarrow> (\<forall>src ks. distinct ks \<longrightarrow> (\<forall>k\<in>set ks. tree_complete lib src k) \<longrightarrow>
     length ks \<le> maxWantsPerRound \<longrightarrow>
     good_frame lib (wants_msg ks) \<noteq> None \<and> decode_keys lib (encode_keys ks) = Inr ks)"

section \<open>Lemmas: one round of the receiver\<close>

lemma wants_loop_total:
  assumes "\<forall>k\<in>set ks. \<not> isl (st_has lib st k) \<and>
    (\<forall>e. check_complete lib k (st_get lib st) (st_has lib st) jobs = Some e \<longrightarrow> is_missing e)"
  shows "\<exists>res. wants_loop lib st jobs seen acc ks = Inr res"
  using assms
proof (induction lib st jobs seen acc ks rule: wants_loop.induct)
  case (2 lib st jobs seen acc k ks)
  then obtain ok where "st_has lib st k = Inr ok" by (cases "st_has lib st k") auto
  with 2 show ?case by (auto split: option.split)
qed simp

lemma honest_wants:
  assumes "walk_law lib" and "agree lib st src" and "\<forall>k\<in>set fr. tree_complete lib src k"
  obtains ks where "wants lib st fr jobs = Inr ks" and "distinct ks" and "set ks \<subseteq> set fr"
proof -
  have "\<forall>k\<in>set fr. \<not> isl (st_has lib st k) \<and>
      (\<forall>e. check_complete lib k (st_get lib st) (st_has lib st) jobs = Some e \<longrightarrow> is_missing e)"
    using assms by (auto simp: walk_law_def)
  from wants_loop_total [OF this] obtain ks where ks: "wants lib st fr jobs = Inr ks" by (auto simp: wants_def)
  from wants_filter [OF this] have "distinct ks" "set ks \<subseteq> set fr"
    by (auto simp: dedup_seen_distinct dedup_seen_set)
  with ks that show ?thesis by blast
qed

lemma decode_items_all:
  "\<forall>ob\<in>fst ` set fl. child_keys lib (oKey ob) (oData ob) = Inr (kids ob) \<Longrightarrow>
     \<exists>saw'. decode_items lib fl None saw None = (map (\<lambda>(ob, f). (ob, kids ob, f)) fl, None, saw, True)"
  by (induction fl) auto

lemma decode_channel_all:
  assumes "pr_read_all lib 4095 (new_pack_reader (chIn c)) = (p, bs, None)"
    and "amber_read lib bs None = (fl, None, saw)"
    and "\<forall>ob\<in>fst ` set fl. child_keys lib (oKey ob) (oData ob) = Inr (kids ob)"
  shows "decode_channel lib [c] 0 = \<lparr>dIdx = 0, dItems = map (\<lambda>(ob, f). (ob, kids ob, f)) fl, dErr = None, dSaw = saw,
    dDrained = True, dTerm = None, dRest = prR p\<rparr>"
  using decode_items_all [OF assms(3), of saw] assms(1,2) by (auto simp: decode_channel_def)

lemma round_err_clean:
  assumes "set ks \<subseteq> received"
  shows "round_err lib [(None, None)] None received ks = None"
proof -
  have "errors_join [None] = None" by simp
  then show ?thesis
    unfolding round_err_def by (simp only: list.map fst_conv snd_conv option.case) (simp add: assms check_delivered_None)
qed

lemma receive_packs_honest:
  assumes "rsChans s = [c]" and "pr_read_all lib 4095 (new_pack_reader (chIn c)) = (p, bs, None)"
    and "amber_read lib bs None = (fl, None, saw)"
    and kids: "\<forall>ob\<in>fst ` set fl. child_keys lib (oKey ob) (oData ob) = Inr (kids ob)"
    and st: "st_write lib (rsStore s) (map fst fl) = (st', length fl, None)" and ask: "set ask \<subseteq> oKey ` fst ` set fl"
  shows "\<exists>s'. receive_packs lib env [0] ask carry s = (s', Again) \<and> rsChans s' = [ch_read_to (prR p) c] \<and>
    rsStore s' = st' \<and> rsFrontier s' = concat (map (kids \<circ> fst) fl) @ carry \<and> rsPrev s' = rsPrev s"
proof -
  let ?its = "map (\<lambda>(ob, f). (ob, kids ob, f)) fl"
  note d = decode_channel_all [OF assms(2-4)]
  have m1: "map (\<lambda>(i, ob, kids, f). ob) (map (Pair (0 :: nat)) ?its) = map fst fl"
    and m2: "concat (map (\<lambda>(i, ob, kids, f). kids) (map (Pair (0 :: nat)) ?its)) = concat (map (kids \<circ> fst) fl)"
    and m3: "set (map (\<lambda>(i, ob, kids, f). oKey ob) (map (Pair (0 :: nat)) ?its)) = oKey ` fst ` set fl"
    and m4: "length (map (Pair (0 :: nat)) ?its) = length fl"
    by (auto simp: comp_def case_prod_unfold image_image)
  have e: "decoder_errs True n (decode_channel lib (rsChans s) 0) = (None, None)" for n
    by (simp add: decoder_errs_def assms(1) d)
  have t: "take (length fl) (map (Pair (0 :: nat)) ?its) = map (Pair 0) ?its" by simp
  show ?thesis
    unfolding receive_packs_def Let_def list.map merge_one
    by (simp only: assms(1) d decoder.simps m1 st prod.case t m4 m2 m3 order_refl)
      (simp add: decoder_errs_def round_err_clean [OF ask] read_decoder_def decoder_read_all_def)
qed

section \<open>Lemmas: one round of the sender\<close>

lemma list_all2_Some_ex: "\<forall>x\<in>set xs. \<exists>y. g x = Some y \<Longrightarrow> \<exists>ys. list_all2 (\<lambda>x y. g x = Some y) xs ys"
  by (induction xs) auto

lemma list_all2_Some_unique:
  "list_all2 (\<lambda>x y. g x = Some y) xs ys \<Longrightarrow> list_all2 (\<lambda>x y. g x = Some y) xs zs \<Longrightarrow> ys = zs"
  by (induction xs arbitrary: ys zs) (auto simp: list_all2_Cons1)

text \<open>The bytes of a pack, whatever writer it goes to.\<close>

lemma pack_frames:
  assumes "data_codec lib"
  obtains b where "\<And>w w' n. send_items add lib (ww_write os_write) w xs = (w', n, None) \<Longrightarrow>
      os_sent (wwW w') = os_sent (wwW w) @ b"
    and "\<And>k r f. \<exists>p. pr_read_all lib k (new_pack_reader \<lparr>avail = b @ r, fin = f\<rparr>) = (p, pack_content add lib xs, None) \<and>
      prR p = \<lparr>avail = r, fin = f\<rparr>"
proof -
  let ?ds = "chunks ChunkSize (pack_content add lib xs)"
  have "\<forall>d\<in>set ?ds. \<exists>b. frame_bytes lib (data_msg d) = Some b"
    using data_codec_frame [OF assms] good_frame_bytes chunks_length by blast
  then obtain bs where bs: "list_all2 (\<lambda>d b. frame_bytes lib (data_msg d) = Some b) ?ds bs"
    using list_all2_Some_ex [of ?ds "\<lambda>d. frame_bytes lib (data_msg d)"] by blast
  obtain e where e: "frame_bytes lib end_msg = Some e" using data_codec_end [OF assms] good_frame_bytes by blast
  show ?thesis
  proof (rule that [of "concat bs @ e"])
    fix w w' n assume "send_items add lib (ww_write os_write) w xs = (w', n, None)"
    from ww.send_items_ok [OF this] obtain bs' where "list_all2 (\<lambda>d b. frame_bytes lib (data_msg d) = Some b) ?ds bs'"
      "os_sent (wwW w') = os_sent (wwW w) @ concat bs' @ e" using e by auto
    with list_all2_Some_unique [OF bs] show "os_sent (wwW w') = os_sent (wwW w) @ concat bs @ e" by blast
  qed (use read_finished [OF assms bs e] in simp)
qed

lemma dedupe_distinct: "distinct ks \<Longrightarrow> dedupe_keys ks = ks"
  by (simp add: dedupe_keys_def dedup_seen_id)

text \<open>\<open>b\<close> is a pack of the objects \<open>sent\<close>, in this order.\<close>

definition answers :: "('p, 's, 'z) core_lib_scheme \<Rightarrow> 's \<Rightarrow> key list \<Rightarrow> bytes \<Rightarrow> bool" where
  "answers lib src sk b \<longleftrightarrow> (\<exists>content fl saw.
     amber_read lib content None = (fl, None, saw) \<and> map fst fl = map (stored lib src) sk \<and>
     (\<forall>k r f. \<exists>p. pr_read_all lib k (new_pack_reader \<lparr>avail = b @ r, fin = f\<rparr>) = (p, content, None) \<and>
        prR p = \<lparr>avail = r, fin = f\<rparr>))"

lemma sender_answers:
  assumes "data_codec lib" and "sort_law lib" and "pack_law lib src" and "request_law lib"
    and ks: "distinct ks" "\<forall>k\<in>set ks. tree_complete lib src k" "length ks \<le> maxWantsPerRound" "ks \<noteq> []"
    and q: "good_frame lib (wants_msg ks) = Some q"
  obtains b sk where "answers lib src sk b" and "mset sk = mset ks"
    and "\<And>(ss :: ostream send_state) t f. ssIn ss = \<lparr>avail = q @ t, fin = f\<rparr> \<Longrightarrow> os_up (ssOut ss) \<Longrightarrow>
      \<exists>ss'. send_round lib os_write src ss = (ss', Again) \<and> ssIn ss' = \<lparr>avail = t, fin = f\<rparr> \<and> os_up (ssOut ss') \<and>
        os_sent (ssOut ss') = os_sent (ssOut ss) @ b"
proof -
  let ?sk = "st_sort lib src ks" and ?items = "record_items lib src (st_sort lib src ks)"
  have srt: "mset ?sk = mset ks" using assms(2) by (simp add: sort_law_def)
  then have "distinct ?sk" "set ?sk = set ks"
    using ks(1) by (metis mset_eq_imp_distinct_iff, metis mset_eq_setD)
  with assms(3) ks(2) obtain fl saw where
    pe: "pack_err (aw_add_record lib) (aw_new lib) ?items = None"
    and cl: "snd (aw_close lib (fst (pack_writes (aw_add_record lib) (aw_new lib) ?items))) = None"
    and rd: "amber_read lib (pack_content (aw_add_record lib) lib ?items) None = (fl, None, saw)"
      "map fst fl = map (stored lib src) ?sk"
    unfolding pack_law_def Let_def by metis
  obtain b where b: "\<And>w w' n. send_items (aw_add_record lib) lib (ww_write os_write) w ?items = (w', n, None) \<Longrightarrow>
      os_sent (wwW w') = os_sent (wwW w) @ b"
    and bp: "\<And>k r f. \<exists>p. pr_read_all lib k (new_pack_reader \<lparr>avail = b @ r, fin = f\<rparr>) =
      (p, pack_content (aw_add_record lib) lib ?items, None) \<and> prR p = \<lparr>avail = r, fin = f\<rparr>"
    using pack_frames [OF assms(1), of "aw_add_record lib" ?items] by metis
  show ?thesis
  proof (rule that [of ?sk b])
    show "answers lib src ?sk b" using rd bp unfolding answers_def by blast
    show "mset ?sk = mset ks" by (rule srt)
  next
    fix ss :: "ostream send_state" and t f assume ss: "ssIn ss = \<lparr>avail = q @ t, fin = f\<rparr>" "os_up (ssOut ss)"
    let ?u = "\<lparr>wwW = ssOut ss, wwProg = prog_requested (int (length ks)) (key_bytes_sum lib 0 ks) (ssProg ss)\<rparr>"
    have "os_up (wwW ?u)" using ss(2) by simp
    from ww.send_items_healthy [OF assms(1) this pe cl] obtain u where
      u: "send_items (aw_add_record lib) lib (ww_write os_write) ?u ?items = (u, length ?items, None)" "os_up (wwW u)" by auto
    have dec: "decode_keys lib (encode_keys ks) = Inr ks" using assms(4) ks unfolding request_law_def by blast
    have "send_round lib os_write src ss = send_answer lib os_write src ks (ss\<lparr>ssIn := \<lparr>avail = t, fin = f\<rparr>\<rparr>)"
      using dec ks(4) wire.recv_frame [OF q, of t f]
      by (simp add: send_round_def ss(1) wants_msg_def zero_msg_def TErr_def TWants_def encode_keys_def)
    with b [OF u(1)] u show "\<exists>ss'. send_round lib os_write src ss = (ss', Again) \<and> ssIn ss' = \<lparr>avail = t, fin = f\<rparr> \<and>
        os_up (ssOut ss') \<and> os_sent (ssOut ss') = os_sent (ssOut ss) @ b"
      by (simp add: send_answer_def send_pack_records_def Let_def dedupe_distinct [OF ks(1)])
  qed
qed

section \<open>Lemmas: the rounds of a synchronisation\<close>

definition kids_of :: "('p, 's, 'z) core_lib_scheme \<Rightarrow> object \<Rightarrow> key list" where
  "kids_of lib ob = projr (child_keys lib (oKey ob) (oData ob))"

lemma complete_stored:
  assumes "tree_complete lib src k"
  shows "st_get lib src k = Inr (oData (stored lib src k)) \<and>
    child_keys lib k (oData (stored lib src k)) = Inr (kids_of lib (stored lib src k)) \<and>
    (\<forall>c\<in>set (kids_of lib (stored lib src k)). tree_complete lib src c)"
proof -
  obtain d ks where d: "st_get lib src k = Inr d" "child_keys lib k d = Inr ks" "\<forall>c\<in>set ks. tree_complete lib src c"
    using assms by (auto elim: tree_complete_cases)
  have "stored lib src k = \<lparr>oKey = k, oData = d\<rparr>" by (simp add: stored_def d(1))
  with d show ?thesis by (simp add: kids_of_def)
qed

lemma stored_key [simp]: "oKey (stored lib src k) = k"
  by (simp add: stored_def)

lemma receive_round_honest:
  assumes "accept_law lib" and "agree lib (rsStore s) src" and w: "wants lib (rsStore s) (rsFrontier s) jobs = Inr ks"
    and sp: "split_wants ks maxWantsPerRound = (ask, carry)" "ask \<noteq> []" and q: "good_frame lib (wants_msg ask) = Some q"
    and b: "answers lib src sk b" "mset sk = mset ask" and ask: "\<forall>k\<in>set ask. tree_complete lib src k"
    and c: "rsChans s = [c]" "chIn c = \<lparr>avail = b @ t, fin = f\<rparr>" "os_up (chOut c)" "length (rsPrev s) = 1"
  shows "\<exists>s' c'. receive_round lib os_write jobs env s = (s', Again) \<and> rsChans s' = [c'] \<and>
    chIn c' = \<lparr>avail = t, fin = f\<rparr> \<and> os_up (chOut c') \<and> os_sent (chOut c') = os_sent (chOut c) @ q \<and>
    length (rsPrev s') = 1 \<and> agree lib (rsStore s') src \<and>
    rsStore s' = fst (st_write lib (rsStore s) (map (stored lib src) sk)) \<and>
    rsFrontier s' = concat (map (kids_of lib \<circ> stored lib src) sk) @ carry"
proof -
  have srt: "set sk = set ask" using b(2) by (metis mset_eq_setD)
  from os.write_msg_healthy [OF good_frame_bytes [OF q] c(3)] obtain out where
    out: "write_msg lib os_write (chOut c) (wants_msg ask) = (out, None)" "os_up out" "os_sent out = os_sent (chOut c) @ q" by blast
  from b(1) obtain content fl saw p where rd: "amber_read lib content None = (fl, None, saw)"
    "map fst fl = map (stored lib src) sk"
    and p: "pr_read_all lib 4095 (new_pack_reader \<lparr>avail = b @ t, fin = f\<rparr>) = (p, content, None)" "prR p = \<lparr>avail = t, fin = f\<rparr>"
    unfolding answers_def by metis
  have objs: "fst ` set fl = stored lib src ` set ask" using arg_cong [OF rd(2), of set] srt by simp
  have kids: "\<forall>ob\<in>fst ` set fl. child_keys lib (oKey ob) (oData ob) = Inr (kids_of lib ob)"
    unfolding objs using ask by (simp add: complete_stored)
  have "\<forall>ob\<in>set (map fst fl). tree_complete lib src (oKey ob) \<and> st_get lib src (oKey ob) = Inr (oData ob)"
    using ask by (simp add: rd(2) srt complete_stored)
  with assms(1,2) obtain st' where st: "st_write lib (rsStore s) (map fst fl) = (st', length (map fst fl), None)" "agree lib st' src"
    unfolding accept_law_def by blast
  have cov: "set ask \<subseteq> oKey ` fst ` set fl" unfolding objs by (auto simp: image_image)
  obtain pv where pv: "rsPrev s = [pv]" using c(4) by (cases "rsPrev s") auto
  obtain s2 where s2: "receive_round lib os_write jobs env s = receive_packs lib env [0] ask carry s2"
    "rsChans s2 = [c\<lparr>chOut := out\<rparr>]" "rsStore s2 = rsStore s" "length (rsPrev s2) = 1"
    using w sp c(1) out(1) pv by (auto simp: receive_round_def Let_def deal_wants_def)
  have "pr_read_all lib 4095 (new_pack_reader (chIn (c\<lparr>chOut := out\<rparr>))) = (p, content, None)" using p(1) c(2) by simp
  from receive_packs_honest [OF s2(2) this rd(1) kids _ cov, of st' env carry] st(1) s2(3)
  obtain s' where s': "receive_packs lib env [0] ask carry s2 = (s', Again)"
    "rsChans s' = [ch_read_to (prR p) (c\<lparr>chOut := out\<rparr>)]" "rsStore s' = st'"
    "rsFrontier s' = concat (map (kids_of lib \<circ> fst) fl) @ carry" "rsPrev s' = rsPrev s2" by auto
  have "map (kids_of lib \<circ> fst) fl = map (kids_of lib \<circ> stored lib src) sk"
    using arg_cong [OF rd(2), of "map (kids_of lib)"] by (simp add: comp_assoc)
  with s' s2(1,4) st out(2,3) p(2) rd(2) show ?thesis by (simp add: ch_read_to_def)
qed

lemma wants_msg_Nil: "wants_msg [] = zero_msg\<lparr>mType := TWants\<rparr>"
  by (simp add: wants_msg_def encode_keys_def zero_msg_def)

lemma receive_round_final:
  assumes "wants lib (rsStore s) (rsFrontier s) jobs = Inr []" and "good_frame lib (wants_msg []) = Some q"
    and "rsChans s = [c]" and "os_up (chOut c)"
  shows "\<exists>s' c'. receive_round lib os_write jobs env s = (s', Finished) \<and> rsChans s' = [c'] \<and> chIn c' = chIn c \<and>
    os_up (chOut c') \<and> os_sent (chOut c') = os_sent (chOut c) @ q \<and> rsStore s' = rsStore s"
proof -
  from os.write_msg_healthy [OF good_frame_bytes [OF assms(2)] assms(4)] obtain out where
    "write_msg lib os_write (chOut c) (wants_msg []) = (out, None)" "os_up out" "os_sent out = os_sent (chOut c) @ q" by blast
  with assms(1,3) show ?thesis by (simp add: receive_round_def split_wants_def wants_msg_Nil)
qed

lemma send_round_final:
  assumes "good_frame lib (wants_msg []) = Some q" and "ssIn ss = \<lparr>avail = q @ t, fin = f\<rparr>"
  shows "send_round lib wr src ss = (ss\<lparr>ssIn := \<lparr>avail = t, fin = f\<rparr>\<rparr>, Finished)"
  using wire.recv_frame [OF assms(1), of t f] assms(2)
  by (simp add: send_round_def wants_msg_Nil zero_msg_def TWants_def TErr_def)

text \<open>A child is below its parent in a tree that is there.\<close>

definition below :: "('p, 's, 'z) core_lib_scheme \<Rightarrow> 's \<Rightarrow> (key \<times> key) set" where
  "below lib src = {(c, k). tree_complete lib src k \<and> c \<in> set (kids_of lib (stored lib src k))}"

lemma wf_below: "wf (below lib src)"
proof -
  have "k \<in> Wellfounded.acc (below lib src)" if "tree_complete lib src k" for k
    using that
  proof induction
    case (completeI k d ks)
    from completeI have "\<forall>c\<in>set ks. tree_complete lib src c" by simp
    from tree_complete.completeI [OF completeI.hyps(1,2) this] have "tree_complete lib src k" .
    from complete_stored [OF this] completeI.hyps(1,2) have "kids_of lib (stored lib src k) = ks" by simp
    with completeI.IH show ?case by - (rule accI, simp add: below_def)
  qed
  then have "k \<in> Wellfounded.acc (below lib src)" for k 
    by (cases "tree_complete lib src k") (auto simp: below_def intro!: accI [of k])
  then show ?thesis by (simp add: wf_iff_acc)
qed

text \<open>One round replaces the keys asked for by their children.\<close>

lemma frontier_smaller:
  assumes "distinct (ask @ carry)" and "set (ask @ carry) \<subseteq> set fr" and "ask \<noteq> []" and "mset sk = mset ask"
    and "\<forall>k\<in>set fr. tree_complete lib src k"
  shows "(mset (concat (map (kids_of lib \<circ> stored lib src) sk) @ carry), mset fr) \<in> mult (below lib src)"
proof -
  let ?kids = "concat (map (kids_of lib \<circ> stored lib src) sk)"
  have "mset (ask @ carry) \<subseteq># mset fr"
    using subset_imp_msubset_mset_set [OF assms(2)] mset_set_set_mset_msubset [of "mset fr"] mset_set_set [OF assms(1)]
    by (simp del: set_append mset_append)
  then obtain rest where fr: "mset fr = mset ask + mset carry + rest" by (auto simp: subset_mset.le_iff_add)
  have "set sk = set ask" using assms(4) by (metis mset_eq_setD)
  then have "\<forall>c\<in>#mset ?kids. \<exists>k\<in>#mset ask + rest. (c, k) \<in> below lib src"
    using assms(2,5) by (fastforce simp: below_def)
  from one_step_implies_mult [OF _ this, of "mset carry"] assms(3) show ?thesis by (simp add: fr ac_simps)
qed

text \<open>
  With \<open>b\<close> in front of what arrives, the receiver at store \<open>st\<close> and frontier \<open>fr\<close> returns nil within
  \<open>n\<close> rounds and has sent \<open>a\<close>; with \<open>a\<close> in front, the sender returns nil and has sent \<open>b\<close>.
\<close>

definition receiver_run ::
  "('p, 's, 'z) core_lib_scheme \<Rightarrow> int \<Rightarrow> 's \<Rightarrow> key list \<Rightarrow> nat \<Rightarrow> bytes \<Rightarrow> bytes \<Rightarrow> bool" where
  "receiver_run lib jobs st fr n a b \<longleftrightarrow> (\<forall>envs s c t f. rsChans s = [c] \<longrightarrow> chIn c = \<lparr>avail = b @ t, fin = f\<rparr> \<longrightarrow>
     os_up (chOut c) \<longrightarrow> rsStore s = st \<longrightarrow> rsFrontier s = fr \<longrightarrow> length (rsPrev s) = 1 \<longrightarrow>
     (\<exists>s' c'. receive_loop lib os_write jobs envs n s = Some (s', None) \<and> rsChans s' = [c'] \<and>
        chIn c' = \<lparr>avail = t, fin = f\<rparr> \<and> os_up (chOut c') \<and> os_sent (chOut c') = os_sent (chOut c) @ a))"

definition sender_run :: "('p, 's, 'z) core_lib_scheme \<Rightarrow> 's \<Rightarrow> bytes \<Rightarrow> bytes \<Rightarrow> bool" where
  "sender_run lib src a b \<longleftrightarrow> (\<forall>ss t f. ssIn ss = \<lparr>avail = a @ t, fin = f\<rparr> \<longrightarrow> os_up (ssOut ss) \<longrightarrow>
     (\<exists>ss'. send_loop lib os_write src ss = (ss', None) \<and> ssIn ss' = \<lparr>avail = t, fin = f\<rparr> \<and> os_up (ssOut ss') \<and>
        os_sent (ssOut ss') = os_sent (ssOut ss) @ b))"

lemma last_round:
  fixes lib :: "('p, 's, 'z) core_lib_scheme"
  assumes "wants lib st fr jobs = Inr []" and "good_frame lib (wants_msg []) = Some q"
  shows "receiver_run lib jobs st fr 1 q [] \<and> sender_run lib src q []"
proof
  show "receiver_run lib jobs st fr 1 q []"
    unfolding receiver_run_def
  proof (intro allI impI)
    fix envs :: "nat \<Rightarrow> round_env" and s :: "(ostream, 's) rstate" and c t f
    assume s: "rsChans s = [c]" "chIn c = \<lparr>avail = [] @ t, fin = f\<rparr>" "os_up (chOut c)" "rsStore s = st" "rsFrontier s = fr"
    have "wants lib (rsStore s) (rsFrontier s) jobs = Inr []" using assms(1) s by simp
    from receive_round_final [OF this assms(2) s(1,3), of "envs 0"] s(2)
    show "\<exists>s' c'. receive_loop lib os_write jobs envs 1 s = Some (s', None) \<and> rsChans s' = [c'] \<and>
        chIn c' = \<lparr>avail = t, fin = f\<rparr> \<and> os_up (chOut c') \<and> os_sent (chOut c') = os_sent (chOut c) @ q" by auto
  qed
  show "sender_run lib src q []"
    unfolding sender_run_def by (intro allI impI) (subst send_loop.simps, simp add: send_round_final [OF assms(2)])
qed

lemma next_round_receiver:
  fixes lib :: "('p, 's, 'z) core_lib_scheme"
  assumes "accept_law lib" and "agree lib st src" and "wants lib st fr jobs = Inr ks"
    and "split_wants ks maxWantsPerRound = (ask, carry)" "ask \<noteq> []" and "good_frame lib (wants_msg ask) = Some q"
    and "answers lib src sk b" "mset sk = mset ask" and "\<forall>k\<in>set ask. tree_complete lib src k"
    and "receiver_run lib jobs (fst (st_write lib st (map (stored lib src) sk)))
      (concat (map (kids_of lib \<circ> stored lib src) sk) @ carry) n a' b'"
  shows "receiver_run lib jobs st fr (Suc n) (q @ a') (b @ b')"
  unfolding receiver_run_def
proof (intro allI impI)
  fix envs :: "nat \<Rightarrow> round_env" and s :: "(ostream, 's) rstate" and c t f
  assume s: "rsChans s = [c]" "chIn c = \<lparr>avail = (b @ b') @ t, fin = f\<rparr>" "os_up (chOut c)"
    "rsStore s = st" "rsFrontier s = fr" "length (rsPrev s) = 1"
  then have i: "chIn c = \<lparr>avail = b @ b' @ t, fin = f\<rparr>" by simp
  obtain s1 c1 where r: "receive_round lib os_write jobs (envs 0) s = (s1, Again)" "rsChans s1 = [c1]"
    "chIn c1 = \<lparr>avail = b' @ t, fin = f\<rparr>" "os_up (chOut c1)" "os_sent (chOut c1) = os_sent (chOut c) @ q"
    "length (rsPrev s1) = 1" "rsStore s1 = fst (st_write lib st (map (stored lib src) sk))"
    "rsFrontier s1 = concat (map (kids_of lib \<circ> stored lib src) sk) @ carry"
    using receive_round_honest [OF assms(1) _ _ assms(4-9) s(1) i s(3,6), of jobs "envs 0"] assms(2,3)
    unfolding s(4,5) by blast
  from assms(10) r(2-8) obtain s' c' where
    "receive_loop lib os_write jobs (\<lambda>n. envs (Suc n)) n s1 = Some (s', None)" "rsChans s' = [c']"
    "chIn c' = \<lparr>avail = t, fin = f\<rparr>" "os_up (chOut c')" "os_sent (chOut c') = os_sent (chOut c1) @ a'"
    unfolding receiver_run_def by blast
  with r(1,5) show "\<exists>s' c'. receive_loop lib os_write jobs envs (Suc n) s = Some (s', None) \<and> rsChans s' = [c'] \<and>
      chIn c' = \<lparr>avail = t, fin = f\<rparr> \<and> os_up (chOut c') \<and> os_sent (chOut c') = os_sent (chOut c) @ q @ a'" by simp
qed

lemma next_round_sender:
  assumes "\<And>(ss :: ostream send_state) t f. ssIn ss = \<lparr>avail = q @ t, fin = f\<rparr> \<Longrightarrow> os_up (ssOut ss) \<Longrightarrow>
      \<exists>ss'. send_round lib os_write src ss = (ss', Again) \<and> ssIn ss' = \<lparr>avail = t, fin = f\<rparr> \<and> os_up (ssOut ss') \<and>
        os_sent (ssOut ss') = os_sent (ssOut ss) @ b"
    and "sender_run lib src a' b'"
  shows "sender_run lib src (q @ a') (b @ b')"
  unfolding sender_run_def
proof (intro allI impI)
  fix ss :: "ostream send_state" and t f
  assume "ssIn ss = \<lparr>avail = (q @ a') @ t, fin = f\<rparr>" "os_up (ssOut ss)"
  with assms(1) [of ss "a' @ t" f] obtain s1 where 1: "send_round lib os_write src ss = (s1, Again)"
    "ssIn s1 = \<lparr>avail = a' @ t, fin = f\<rparr>" "os_up (ssOut s1)" "os_sent (ssOut s1) = os_sent (ssOut ss) @ b" by auto
  with assms(2) obtain ss' where "send_loop lib os_write src s1 = (ss', None)" "ssIn ss' = \<lparr>avail = t, fin = f\<rparr>"
    "os_up (ssOut ss')" "os_sent (ssOut ss') = os_sent (ssOut s1) @ b'" unfolding sender_run_def by blast
  with 1 show "\<exists>ss'. send_loop lib os_write src ss = (ss', None) \<and> ssIn ss' = \<lparr>avail = t, fin = f\<rparr> \<and>
      os_up (ssOut ss') \<and> os_sent (ssOut ss') = os_sent (ssOut ss) @ b @ b'" by (simp add: send_loop.simps [of lib os_write src ss])
qed

lemma sync_rounds:
  fixes lib :: "('p, 's, 'z) core_lib_scheme"
  assumes "data_codec lib" and "sort_law lib" and "walk_law lib" and "accept_law lib" and "pack_law lib src" and "request_law lib"
  shows "agree lib st src \<Longrightarrow> \<forall>k\<in>set fr. tree_complete lib src k \<Longrightarrow>
    \<exists>n a b. receiver_run lib jobs st fr n a b \<and> sender_run lib src a b"
proof (induction "mset fr" arbitrary: fr st rule: wf_induct_rule [OF wf_mult [OF wf_below [of lib src]]])
  case 1
  note fr = 1(3) and st = 1(2)
  obtain ks where ks: "wants lib st fr jobs = Inr ks" "distinct ks" "set ks \<subseteq> set fr"
    by (rule honest_wants [OF assms(3) st fr])
  obtain ask carry where sp: "split_wants ks maxWantsPerRound = (ask, carry)" by fastforce
  have ac: "ks = ask @ carry" "length ask \<le> maxWantsPerRound"
    using split_wants_append [of ks maxWantsPerRound] split_wants_send_le [of ks maxWantsPerRound] sp by simp_all
  have ask: "distinct ask" "\<forall>k\<in>set ask. tree_complete lib src k" and sub: "set (ask @ carry) \<subseteq> set fr"
    using ks ac(1) fr by auto
  obtain q where q: "good_frame lib (wants_msg ask) = Some q"
    using assms(6) ask ac(2) unfolding request_law_def by blast
  show ?case
  proof (cases "ask = []")
    case True
    with sp have "ks = []" by (auto simp: split_wants_def maxWantsPerRound_def split: if_splits)
    with last_round [OF _ q [unfolded True]] ks(1) show ?thesis by blast
  next
    case False
    obtain b sk where b: "answers lib src sk b" "mset sk = mset ask"
      and snd: "\<And>(ss :: ostream send_state) t f. ssIn ss = \<lparr>avail = q @ t, fin = f\<rparr> \<Longrightarrow> os_up (ssOut ss) \<Longrightarrow>
      \<exists>ss'. send_round lib os_write src ss = (ss', Again) \<and> ssIn ss' = \<lparr>avail = t, fin = f\<rparr> \<and> os_up (ssOut ss') \<and>
        os_sent (ssOut ss') = os_sent (ssOut ss) @ b"
      using sender_answers [OF assms(1,2,5,6) ask ac(2) False q] by metis
    have srt: "set sk = set ask" using b(2) by (metis mset_eq_setD)
    let ?fr = "concat (map (kids_of lib \<circ> stored lib src) sk) @ carry"
      and ?st = "fst (st_write lib st (map (stored lib src) sk))"
    have "\<forall>ob\<in>set (map (stored lib src) sk). tree_complete lib src (oKey ob) \<and> st_get lib src (oKey ob) = Inr (oData ob)"
      using ask(2) by (simp add: srt complete_stored)
    with assms(4) st have ag: "agree lib ?st src" unfolding accept_law_def by (metis fst_conv)
    have fr': "\<forall>k\<in>set ?fr. tree_complete lib src k"
      using ask(2) sub fr complete_stored [of lib src] by (auto simp: srt)
    have "(mset ?fr, mset fr) \<in> mult (below lib src)"
      using frontier_smaller [OF _ sub False b(2) fr] ks(2) ac(1) by simp
    from 1(1) [OF this ag fr'] obtain n a' b' where
      "receiver_run lib jobs ?st ?fr n a' b'" "sender_run lib src a' b'" by blast
    with next_round_receiver [OF assms(4) st ks(1) sp False q b ask(2)] next_round_sender [OF snd]
    show ?thesis by blast
  qed
qed

section \<open>The sample libraries\<close>

lemma sample_keys: "tree_complete (sample_lib ms) src k \<Longrightarrow> \<exists>b d. k = Key [b] \<and> sample_get src k = Inr (b # d)"
  by (erule tree_complete_cases) (auto simp: sample_lib_def sample_children_def neq_Nil_conv split: if_splits)

lemma filter_head: "filter P xs = y # ys \<Longrightarrow> y \<in> set xs"
  by (metis filter_is_subset list.set_intros(1) subsetD)

lemma sample_check_missing:
  assumes "agree (sample_lib ms) st src"
  shows "tree_complete (sample_lib ms) src k \<Longrightarrow> unat (hd (key_bytes k)) < f \<Longrightarrow>
    sample_check f (sample_get st) k = Some e \<Longrightarrow> e = StoreNotFound"
proof (induction arbitrary: f e rule: tree_complete.induct)
  case (completeI k d ks)
  then obtain g where f: "f = Suc g" by (cases f) auto
  from completeI.hyps have d: "sample_get src k = Inr d" "sample_children k d = Inr ks"
    by (simp_all add: sample_lib_def)
  then have ks: "ks = map (\<lambda>c. Key [c]) (tl d)" "k = Key [hd d]" "\<forall>c\<in>set (tl d). c < hd d"
    by (auto simp: sample_children_def split: if_splits)
  have sub: "e' = StoreNotFound" if c: "c \<in> set ks" "sample_check g (sample_get st) c = Some e'" for c e'
  proof -
    from c ks obtain x where x: "c = Key [x]" "x < hd d" by auto
    then have "unat x < g" using completeI.prems(1) ks(2) f by (simp add: word_less_nat_alt)
    with completeI.IH c x show ?thesis by auto
  qed
  show ?case
  proof (cases "sample_get st k")
    case (Inl e')
    then show ?thesis using completeI.prems(2) f by (auto simp: sample_get_def split: option.splits)
  next
    case (Inr d')
    with assms d(1) have "d' = d" by (auto simp: agree_def sample_lib_def)
    with Inr d f completeI.prems(2) have "Some e \<in> set (map (sample_check g (sample_get st)) ks)"
      by (auto simp del: set_map split: list.splits dest!: filter_head)
    then obtain c where "c \<in> set ks" "sample_check g (sample_get st) c = Some e" by auto
    then show ?thesis by (rule sub)
  qed
qed

lemma sample_walk_law: "walk_law (sample_lib ms)"
proof -
  have "unat (hd (key_bytes k)) < 257" for k
  proof -
    have "unat (hd (key_bytes k)) < 2 ^ LENGTH(8)" by (rule unsigned_less)
    then show ?thesis by simp
  qed
  with sample_check_missing [of ms] have "is_missing e"
    if "agree (sample_lib ms) st src" "tree_complete (sample_lib ms) src k" "sample_check 257 (sample_get st) k = Some e"
    for st src k e using that by (metis (no_types) is_missing_def errors_is.simps)
  then show ?thesis
    by (auto simp: walk_law_def sample_lib_def sample_has_def sample_get_def split: option.split)
qed

lemma sample_write_accepts:
  "agree (sample_lib ms) st src \<Longrightarrow>
     \<forall>ob\<in>set objs. tree_complete (sample_lib ms) src (oKey ob) \<and> sample_get src (oKey ob) = Inr (oData ob) \<Longrightarrow>
     \<exists>st'. sample_write st objs = (st', length objs, None) \<and> agree (sample_lib ms) st' src"
proof (induction objs arbitrary: st)
  case (Cons ob objs)
  from Cons.prems(2) sample_keys [of ms src "oKey ob"] obtain b d where k: "oKey ob = Key [b]" "oData ob = b # d" by auto
  have src: "sample_get src (oKey ob) = Inr (oData ob)" using Cons.prems(2) by simp
  show ?case
  proof (cases "map_of st (oKey ob)")
    case None
    have "agree (sample_lib ms) ((oKey ob, oData ob) # st) src"
      using Cons.prems(1) src by (auto simp: agree_def sample_lib_def sample_get_def)
    from Cons.IH [OF this] Cons.prems(2) None k show ?thesis by auto
  next
    case (Some d')
    then have "d' = oData ob" using Cons.prems(1) src by (auto simp: agree_def sample_lib_def sample_get_def split: option.splits)
    with Cons.IH [OF Cons.prems(1)] Cons.prems(2) Some k show ?thesis by auto
  qed
qed simp

lemma sample_accept_law: "accept_law (sample_lib ms)"
  using sample_write_accepts [of ms] by (simp add: accept_law_def) (simp add: sample_lib_def)

lemma sample_decode_keys: "\<forall>k\<in>set ks. length (key_bytes k) = 1 \<Longrightarrow> decode_keys (sample_lib ms) (map key_bytes ks) = Inr ks"
  by (induction ks) (auto simp: sample_lib_def)

lemma sample_request_law: "request_law (sample_lib ms)"
  unfolding request_law_def
proof (intro allI impI conjI)
  fix src ks assume "\<forall>k\<in>set ks. tree_complete (sample_lib ms) src k" and n: "length ks \<le> maxWantsPerRound"
  then have k: "\<forall>k\<in>set ks. length (key_bytes k) = 1" by (fastforce dest: sample_keys)
  then have len: "length (concat (map key_bytes ks)) = length ks" by (induction ks) auto
  have w: "wants_msg ks = zero_msg\<lparr>mType := 6, mKeys := map key_bytes ks\<rparr>"
    by (simp add: wants_msg_def encode_keys_def TWants_def)
  have m: "marshal (sample_lib ms) (wants_msg ks) = Inr (1 # concat (map key_bytes ks))"
    using k unfolding w by (simp add: sample_lib_def book_marshal_def zero_msg_def)
  have "codec_ok (sample_lib ms) (wants_msg ks)"
    using k unfolding codec_ok_def m by (simp add: w) (simp add: sample_lib_def book_unmarshal_def concat_singletons)
  with n len show "good_frame (sample_lib ms) (wants_msg ks) \<noteq> None"
    by (simp add: good_frame_def frame_bytes_def m MaxFrame_def maxWantsPerRound_def)
  show "decode_keys (sample_lib ms) (encode_keys ks) = Inr ks"
    using sample_decode_keys [OF k] by (simp add: encode_keys_def)
qed

lemma distinct_of_two: "distinct ks \<Longrightarrow> set ks \<subseteq> {a, b} \<Longrightarrow> ks \<in> {[], [a], [b], [a, b], [b, a]}"
proof (cases ks)
  case (Cons x xs)
  assume "distinct ks" "set ks \<subseteq> {a, b}"
  with Cons show ?thesis by (cases xs; cases "tl xs") auto
qed simp

lemma sample_pack_law: "pack_law (sample_lib ms) sample_source"
  unfolding pack_law_def
proof (intro allI impI)
  fix ks assume ks: "distinct ks" "\<forall>k\<in>set ks. tree_complete (sample_lib ms) sample_source k"
  have "set ks \<subseteq> {Key [4], Key [9]}"
    using ks(2) by (force dest: sample_keys simp: sample_source_def sample_get_def split: if_splits)
  have ex: "Ex Not" by (rule exI [of _ False]) simp
  from distinct_of_two [OF ks(1) \<open>set ks \<subseteq> _\<close>]
  show "let items = record_items (sample_lib ms) sample_source ks in
      pack_err (aw_add_record (sample_lib ms)) (aw_new (sample_lib ms)) items = None \<and>
      snd (aw_close (sample_lib ms) (fst (pack_writes (aw_add_record (sample_lib ms)) (aw_new (sample_lib ms)) items))) = None \<and>
      (\<exists>fl saw. amber_read (sample_lib ms) (pack_content (aw_add_record (sample_lib ms)) (sample_lib ms) items) None = (fl, None, saw) \<and>
         map fst fl = map (stored (sample_lib ms) sample_source) ks)"
    by (elim insertE) (simp_all add: ex pack_content_def sample_lib_def sample_source_def sample_get_def sample_record_def stored_def)
qed

section \<open>Lemmas: a whole transfer\<close>

text \<open>The documented behaviour a transfer out of the store \<open>src\<close> relies on.\<close>

definition transfer_laws :: "('p, 's, 'z) core_lib_scheme \<Rightarrow> 's \<Rightarrow> bool" where
  "transfer_laws lib src \<longleftrightarrow> check_law lib \<and> write_law lib \<and> walk_law lib \<and> accept_law lib \<and> data_codec lib \<and>
     request_law lib \<and> sort_law lib \<and> pack_law lib src"

lemma sample_transfer_laws: "transfer_laws pack_sample sample_source"
  by (simp add: transfer_laws_def sample_check_law sample_write_law sample_walk_law sample_accept_law pack_sample_codec
      sample_request_law sample_sort_law sample_pack_law)

lemma sample_source_complete: "tree_complete pack_sample sample_source (Key [9])"
proof -
  have 4: "tree_complete pack_sample sample_source (Key [4])"
    by (rule completeI [of _ _ _ "[4]" "[]"]) (simp_all add: sample_lib_def sample_source_def sample_get_def sample_children_def)
  show ?thesis
    by (rule completeI [of _ _ _ "[9, 4]" "[Key [4]]"])
      (simp_all add: 4, simp_all add: sample_lib_def sample_source_def sample_get_def sample_children_def)
qed

lemma sample_part_agrees: "agree pack_sample [(Key [4], [4])] sample_source"
  by (simp add: agree_def sample_lib_def sample_source_def sample_get_def)

lemma sync_transcripts:
  assumes "transfer_laws lib src" and "agree lib st src" and "tree_complete lib src goal"
  obtains n a b where "receiver_run lib jobs st [goal] n a b" and "sender_run lib src a b"
  using sync_rounds [of lib src st "[goal]" jobs] assms by (auto simp: transfer_laws_def)

lemma receiver_run_receive:
  fixes lib :: "('p, 's, 'z) core_lib_scheme"
  assumes "receiver_run lib jobs st [goal] n a b" and "check_law lib" and "write_law lib" and "os_up w" and "n \<le> fuel"
  shows "\<exists>rs c. receive lib os_write envs fuel [(\<lparr>avail = b @ t, fin = f\<rparr>, w)] st goal jobs prog = Some (rs, None) \<and>
    rsChans rs = [c] \<and> chIn c = \<lparr>avail = t, fin = f\<rparr> \<and> os_up (chOut c) \<and> os_sent (chOut c) = os_sent w @ a \<and>
    tree_complete lib (rsStore rs) goal"
proof -
  let ?s = "receive_start [\<lparr>chIn = \<lparr>avail = b @ t, fin = f\<rparr>, chOut = w, chRead = 0\<rparr>] st goal prog :: (ostream, 's) rstate"
  from assms(1) [unfolded receiver_run_def, rule_format, of ?s _ t f envs] assms(4) obtain rs c where
    l: "receive_loop lib os_write jobs envs n ?s = Some (rs, None)" "rsChans rs = [c]" "chIn c = \<lparr>avail = t, fin = f\<rparr>"
    "os_up (chOut c)" "os_sent (chOut c) = os_sent w @ a" by (auto simp: receive_start_def)
  from loop_complete [OF assms(2,3) l(1) receive_start_covers] loop_fuel_mono [OF l(1) assms(5)] l(2-5)
  show ?thesis by (simp add: receive_def)
qed

lemma sender_run_send:
  assumes "sender_run lib src a b" and "os_up w"
  shows "\<exists>ss. send_loop lib os_write src \<lparr>ssIn = \<lparr>avail = a @ t, fin = f\<rparr>, ssOut = w, ssProg = prog\<rparr> = (ss, None) \<and>
    ssIn ss = \<lparr>avail = t, fin = f\<rparr> \<and> os_up (ssOut ss) \<and> os_sent (ssOut ss) = os_sent w @ b"
  using assms(1) [unfolded sender_run_def, rule_format, of "\<lparr>ssIn = \<lparr>avail = a @ t, fin = f\<rparr>, ssOut = w, ssProg = prog\<rparr>" t f] assms(2)
  by simp

section \<open>The property\<close>

text \<open>
  Fact (a transfer between the two halves completes).  Let one side hold the whole tree below
  \<open>goal\<close> and the other any store, partly filled or empty, that agrees with it on common keys, joined
  by one connection that stays up.  There are transcripts \<open>a\<close> and \<open>b\<close> of the two directions such
  that \<open>Receive\<close> reading \<open>b\<close> writes exactly \<open>a\<close>, returns nil after finitely many rounds and has the
  whole tree, whatever the scheduling, while \<open>Send\<close> reading \<open>a\<close> writes exactly \<open>b\<close> and returns nil:
  neither side is left waiting for the other, and neither reports an error.
\<close>

theorem sync_completes:
  assumes "transfer_laws lib src" and "agree lib st src" and "tree_complete lib src goal"
  shows "\<exists>n a b.
    (\<forall>envs prog f. \<exists>rs c. receive lib os_write envs n [(\<lparr>avail = b, fin = f\<rparr>, fresh_out)] st goal jobs prog = Some (rs, None) \<and>
       rsChans rs = [c] \<and> chIn c = \<lparr>avail = [], fin = f\<rparr> \<and> os_sent (chOut c) = a \<and> tree_complete lib (rsStore rs) goal) \<and>
    (\<forall>prog f. \<exists>ss. send_loop lib os_write src \<lparr>ssIn = \<lparr>avail = a, fin = f\<rparr>, ssOut = fresh_out, ssProg = prog\<rparr> = (ss, None) \<and>
       ssIn ss = \<lparr>avail = [], fin = f\<rparr> \<and> os_sent (ssOut ss) = b)"
proof -
  obtain n a b where r: "receiver_run lib jobs st [goal] n a b" and s: "sender_run lib src a b"
    using sync_transcripts [OF assms] by blast
  have laws: "check_law lib" "write_law lib" using assms(1) by (simp_all add: transfer_laws_def)
  have e: "os_sent fresh_out = []" by (simp add: fresh_out_def)
  note rc = receiver_run_receive [OF r laws fresh_up le_refl, of _ "[]", unfolded e append_Nil append_Nil2]
    and sd = sender_run_send [OF s fresh_up, of "[]", unfolded e append_Nil append_Nil2]
  show ?thesis
  proof (rule exI [of _ n], rule exI [of _ a], rule exI [of _ b], intro conjI allI, goal_cases)
    case (1 envs prog f) with rc [of envs f prog] show ?case by blast
  next
    case (2 prog f) with sd [of f prog] show ?case by blast
  qed
qed

text \<open>The receiver has the leaf \<open>4\<close> already and lacks the root \<open>9\<close>.\<close>

theorem sync_completes_witness:
  "\<exists>n a b s' ss'. receive pack_sample os_write sample_env n [(\<lparr>avail = b, fin = IoEOF\<rparr>, fresh_out)]
      [(Key [4], [4])] (Key [9]) 0 None = Some (s', None) \<and> tree_complete pack_sample (rsStore s') (Key [9]) \<and>
    send_loop pack_sample os_write sample_source \<lparr>ssIn = \<lparr>avail = a, fin = IoEOF\<rparr>, ssOut = fresh_out, ssProg = None\<rparr> = (ss', None) \<and>
    os_sent (ssOut ss') = b"
  using sync_completes [OF sample_transfer_laws sample_part_agrees sample_source_complete, of 0] by blast

end
