(* ===== verification/End_To_End.thy ===== *)
theory End_To_End
  imports Server_Props Client_Props Sync
begin

text \<open>
  The client's commands against the server's handlers: \<open>amber push\<close> and \<open>amber pull\<close> on one side
  of a stream, \<open>HandleStream\<close> on the other.  A transcript is the bytes one side writes and the
  other reads; the theorems construct the two transcripts of a whole operation.
\<close>

section \<open>What a session needs\<close>

text \<open>The store opens and the server can be dialled.\<close>

definition connects ::
  "('p, 's, 'z) core_lib_scheme \<Rightarrow> ('w, 'u) net_env \<Rightarrow> server_flags \<Rightarrow> ('w, 's, 'r) client \<Rightarrow> bool" where
  "connects lib env sf s \<longleftrightarrow> snd (open_store (neStore env) s) = None \<and>
     (\<exists>n sc. dial_server (key_string lib) (neDial env) (sfServer sf) (sfAddrs sf) (sfRelay sf) (clNet s) = (n, Inr sc))"

text \<open>The stream that is opened delivers \<open>y\<close>, and then ends with \<open>f\<close>.\<close>

definition fresh_link :: "bytes \<Rightarrow> goerr \<Rightarrow> ostream link" where
  "fresh_link y f = \<lparr>lkIn = \<lparr>avail = y, fin = f\<rparr>, lkOut = fresh_out\<rparr>"

definition on_stream :: "bytes \<Rightarrow> goerr \<Rightarrow> (ostream, 'u) net_env \<Rightarrow> (ostream, 'u) net_env" where
  "on_stream y f env = env\<lparr>neStream := Inr (fresh_link y f)\<rparr>"

text \<open>The reference store takes a record for \<open>goal\<close> under a name.\<close>

definition refs_take ::
  "('p, 's, 'r, 'z) server_lib_scheme \<Rightarrow> 'r \<Rightarrow> string \<Rightarrow> key \<Rightarrow> 64 word \<Rightarrow> bool" where
  "refs_take lib rf name goal now \<longleftrightarrow> (\<exists>raw rf'.
     ref_encode lib \<lparr>rfName = name, rfKey = key_bytes goal, rfCreatedAt = now, rfUser = []\<rparr> = Inr raw \<and>
     rf_put lib rf name raw = (rf', None))"

lemma put_is_current:
  assumes "ref_law lib" and "record_law lib" and "ref_encode lib rec = Inr raw" and "rf_put lib rf name raw = (rf', None)"
  shows "ref_current lib rf' name = Inr (rfKey rec) \<and> tracked_key lib rf' name = Inr (rfKey rec)"
proof -
  have "rf_get lib rf' name = Inr raw" using assms(1,4) by (auto simp: ref_law_def)
  moreover obtain rec' where "ref_decode lib raw = Inr rec'" "rfKey rec' = rfKey rec"
    using assms(2,3) unfolding record_law_def by blast
  ultimately show ?thesis by (simp add: ref_current_def tracked_key_def)
qed

section \<open>Push: the client\<close>

lemma ctrl_write_up:
  assumes "good_frame lib m = Some q" and "os_up (lkOut (clCtrl s))"
  shows "\<exists>w. ctrl_write lib os_write m s = (s\<lparr>clCtrl := (clCtrl s)\<lparr>lkOut := w\<rparr>\<rparr>, None) \<and> os_up w \<and>
    os_sent w = os_sent (lkOut (clCtrl s)) @ q"
  using os.write_msg_healthy [OF good_frame_bytes [OF assms(1)] assms(2)] by (auto simp: ctrl_write_def)

lemma ctrl_read_frame:
  assumes "good_frame lib m = Some q" and "lkIn (clCtrl s) = \<lparr>avail = q @ t, fin = f\<rparr>"
  shows "ctrl_read lib s = (s\<lparr>clCtrl := (clCtrl s)\<lparr>lkIn := \<lparr>avail = t, fin = f\<rparr>\<rparr>\<rparr>, Inr m)"
  using wire.recv_frame [OF assms(1), of t f] assms(2) by (simp add: ctrl_read_def)

lemma push_exchange_ok:
  assumes "good_frame lib req = Some p" and "sender_run lib (lcObjects s) a b"
    and "good_frame lib reply = Some k" and "mType reply = TOK"
    and "lkIn (clCtrl s) = \<lparr>avail = a @ k @ t, fin = f\<rparr>" and "os_up (lkOut (clCtrl s))"
  shows "\<exists>s'. push_exchange lib os_write ats name 1 req sc s = (sc, s', None) \<and> lcRefs s' = lcRefs s \<and>
    lcObjects s' = lcObjects s \<and> os_sent (lkOut (clCtrl s')) = os_sent (lkOut (clCtrl s)) @ p @ b"
proof -
  obtain w where w: "ctrl_write lib os_write req s = (s\<lparr>clCtrl := (clCtrl s)\<lparr>lkOut := w\<rparr>\<rparr>, None)" "os_up w"
    "os_sent w = os_sent (lkOut (clCtrl s)) @ p" using ctrl_write_up [OF assms(1,6)] by blast
  from sender_run_send [OF assms(2) w(2), of "k @ t" f "clProg s"] obtain ss where
    l: "send_loop lib os_write (lcObjects s) \<lparr>ssIn = \<lparr>avail = a @ k @ t, fin = f\<rparr>, ssOut = w, ssProg = clProg s\<rparr> = (ss, None)"
    "ssIn ss = \<lparr>avail = k @ t, fin = f\<rparr>" "os_sent (ssOut ss) = os_sent w @ b" by auto
  obtain s2 where 2: "send_ctrl lib os_write (s\<lparr>clCtrl := (clCtrl s)\<lparr>lkOut := w\<rparr>\<rparr>) = (s2, None)"
    "clCtrl s2 = \<lparr>lkIn = ssIn ss, lkOut = ssOut ss\<rparr>" "lcRefs s2 = lcRefs s" "lcObjects s2 = lcObjects s"
    using l(1) assms(5) by (simp add: send_ctrl_def)
  have "lkIn (clCtrl s2) = \<lparr>avail = k @ t, fin = f\<rparr>" by (simp add: 2(2) l(2))
  note 3 = ctrl_read_frame [OF assms(3) this]
  show ?thesis using w l(3) assms(4) 2(2-4)
    by (simp add: push_exchange_def run_senders_def 2(1) 3 expect_type_def)
qed

lemma say_ctrl [simp]: "clCtrl (say t s) = clCtrl s" "clCtrl (say_summary env v n s) = clCtrl s"
  using say_eq [of t s] say_summary_eq [of env v n s] by auto

lemma run_push_ok:
  fixes s :: "(ostream, 's, 'r) client"
  assumes "\<not> prefix trackingPrefix name" and "connects lib env sf s" and "ref_law lib" and "record_law lib"
    and "resolve_spec lib (lcRefs s) (''ref:'' @ name) = Inr (goal, path)"
    and "tracked_key lib (lcRefs s) (tracking_ref (sfServer sf) name) = Inr expected"
    and "refs_take lib (lcRefs s) (tracking_ref (sfServer sf) name) goal (neNow env)"
    and "good_frame lib (push_msg name goal force expected 1) = Some p" and "sender_run lib (lcObjects s) a b"
    and "good_frame lib reply = Some k" and "mType reply = TOK"
  shows "\<exists>s'. run_push lib os_write (on_stream (a @ k) f env) sf force no_prog 1 name s = Some (s', None) \<and>
    os_sent (lkOut (clCtrl s')) = p @ b \<and>
    tracked_key lib (lcRefs s') (tracking_ref (sfServer sf) name) = Inr (key_bytes goal)"
proof -
  let ?tname = "tracking_ref (sfServer sf) name"
  obtain s1 where o: "open_store (neStore env) s = (s1, None)" using assms(2) by (metis connects_def prod.collapse)
  then have s1: "s1 = s\<lparr>lcOpen := Refs # Objects # lcOpen s\<rparr>" by (rule open_store_None)
  obtain n sc where d: "dial_server (key_string lib) (neDial env) (sfServer sf) (sfAddrs sf) (sfRelay sf) (clNet s) = (n, Inr sc)"
    using assms(2) by (auto simp: connects_def)
  let ?s2 = "s1\<lparr>clNet := n, clCtrl := fresh_link (a @ k) f, clDone := False, clProg := (if no_prog then None else Some no_progress)\<rparr>"
  from push_exchange_ok [OF assms(8) _ assms(10,11), of ?s2 a b "[]" f "neAttempts env" name sc] assms(9) fresh_up
  obtain s3 where e: "push_exchange lib os_write (neAttempts env) name 1 (push_msg name goal force expected 1) sc ?s2 = (sc, s3, None)"
    "lcRefs s3 = lcRefs s" "os_sent (lkOut (clCtrl s3)) = p @ b"
    by (auto simp: s1 fresh_link_def) (simp add: fresh_out_def)
  obtain raw rf where r: "ref_encode lib \<lparr>rfName = ?tname, rfKey = key_bytes goal, rfCreatedAt = neNow env, rfUser = []\<rparr> = Inr raw"
    "rf_put lib (lcRefs s) ?tname raw = (rf, None)" using assms(7) by (auto simp: refs_take_def)
  have t: "tracked_key lib rf ?tname = Inr (key_bytes goal)" using put_is_current [OF assms(3,4) r] by simp
  show ?thesis
    using assms(1,5,6) o d e r t
    by (simp add: run_push_def store_session_def on_stream_def with_stream_def s1 push_finish_def close_store_def close_ctrl_def)
qed

section \<open>Push: the server\<close>

definition ok_reply :: "key \<Rightarrow> msg" where
  "ok_reply goal = zero_msg\<lparr>mType := TOK, mKey := key_bytes goal\<rparr>"

text \<open>
  The server takes a push of \<open>goal\<close>: the name is valid, the precondition holds now and at the
  commit, and the guard and the reference store do not refuse.
\<close>

definition takes_push ::
  "('p, 's, 'r, 'z) server_lib_scheme \<Rightarrow> 'r op_env \<Rightarrow> string \<Rightarrow> key \<Rightarrow> bool \<Rightarrow> bytes \<Rightarrow> ('w, 's, 'r) server \<Rightarrow> bool" where
  "takes_push lib op name goal force expected s \<longleftrightarrow>
     ref_validate lib name = None \<and> key_parse lib (key_bytes goal) = Inr goal \<and>
     (force \<or> ref_current lib (svRefs s) name = Inr expected \<and>
        ref_current lib (oeRefs op (svRefs s)) name = Inr expected) \<and>
     (svGuard s \<longrightarrow> gc_prepare lib (svHooks s) goal = None) \<and>
     refs_take lib (oeRefs op (svRefs s)) name goal (oeNow op)"

lemma check_cas_met: "ref_current lib (svRefs s) (mName m) = Inr (mExpectedOld m) \<Longrightarrow> check_cas lib wr i m s = (s, None)"
  by (simp add: check_cas_def)

lemma put_ref_ok:
  assumes "rf_put lib (svRefs s) name raw = (rf, None)" and "svGuard s \<longrightarrow> gc_prepare lib (svHooks s) goal = None"
  shows "\<exists>h. put_ref lib wr i name goal raw s = (s\<lparr>svRefs := rf, svHooks := h\<rparr>, None)"
proof (cases "svGuard s")
  case True
  with assms show ?thesis by (auto simp: put_ref_def)
next
  case False
  with assms(1) show ?thesis by (intro exI [of _ "svHooks s"]) (simp add: put_ref_def)
qed

lemma push_commit_ok:
  assumes "takes_push lib op name goal force expected s" and "m = push_msg name goal force expected conns"
    and "good_frame lib (ok_reply goal) = Some k" and "os_up (lkOut (svStreams s i))" and "ref_law lib" and "record_law lib"
  shows "\<exists>s'. push_commit lib os_write op i m goal s = (s', None) \<and> svObjects s' = svObjects s \<and>
    (\<forall>j. j \<noteq> i \<longrightarrow> svStreams s' j = svStreams s j) \<and>
    os_sent (lkOut (svStreams s' i)) = os_sent (lkOut (svStreams s i)) @ k \<and>
    ref_current lib (svRefs s') name = Inr (key_bytes goal)"
proof -
  let ?s = "s\<lparr>svRefs := oeRefs op (svRefs s), svRefLocks := insert name (svRefLocks s)\<rparr>"
  have m: "mName m = name" "mCAS m = (\<not> force)" "mExpectedOld m = expected"
    by (simp_all add: assms(2) push_msg_def zero_msg_def)
  have cas: "(if mCAS m then check_cas lib os_write i m ?s else (?s, None)) = (?s, None)"
    using assms(1) check_cas_met [of lib ?s m] by (auto simp: takes_push_def m)
  obtain raw rf where r: "ref_encode lib \<lparr>rfName = name, rfKey = key_bytes goal, rfCreatedAt = oeNow op, rfUser = []\<rparr> = Inr raw"
    "rf_put lib (oeRefs op (svRefs s)) name raw = (rf, None)" using assms(1) by (auto simp: takes_push_def refs_take_def)
  have "\<exists>h. put_ref lib os_write i name goal raw ?s = (?s\<lparr>svRefs := rf, svHooks := h\<rparr>, None)"
    by (rule put_ref_ok) (use assms(1) r(2) in \<open>auto simp: takes_push_def\<close>)
  then obtain h where p: "put_ref lib os_write i name goal raw ?s = (?s\<lparr>svRefs := rf, svHooks := h\<rparr>, None)" by blast
  from os.write_msg_healthy [OF good_frame_bytes [OF assms(3)] assms(4)] obtain w where
    w: "write_msg lib os_write (lkOut (svStreams s i)) (ok_reply goal) = (w, None)"
    "os_sent w = os_sent (lkOut (svStreams s i)) @ k" by blast
  have c: "ref_current lib rf name = Inr (key_bytes goal)" using put_is_current [OF assms(5,6) r] by simp
  show ?thesis
    unfolding push_commit_def m(1) Let_def
    by (simp only: cas [unfolded m(1)] prod.case option.case) (simp add: r(1) p srv_write_def w [unfolded ok_reply_def] c)
qed

lemma srv_receive_ok:
  assumes "receiver_run lib (svJobs s) (svObjects s) [goal] n a b" and "check_law lib" and "write_law lib" and "n \<le> oeFuel op"
    and "lkIn (svStreams s i) = \<lparr>avail = b @ t, fin = f\<rparr>" and "os_up (lkOut (svStreams s i))"
  shows "\<exists>st l. srv_receive lib os_write op [i] goal s = Some (s\<lparr>svObjects := st, svStreams := (svStreams s)(i := l)\<rparr>, None) \<and>
    lkIn l = \<lparr>avail = t, fin = f\<rparr> \<and> os_up (lkOut l) \<and> os_sent (lkOut l) = os_sent (lkOut (svStreams s i)) @ a \<and>
    tree_complete lib st goal"
proof -
  from receiver_run_receive [OF assms(1-3) assms(6,4), of "oeRounds op" t f None] obtain rs c where
    "receive lib os_write (oeRounds op) (oeFuel op) [(\<lparr>avail = b @ t, fin = f\<rparr>, lkOut (svStreams s i))] (svObjects s)
       goal (svJobs s) None = Some (rs, None)" "rsChans rs = [c]" "chIn c = \<lparr>avail = t, fin = f\<rparr>" "os_up (chOut c)"
    "os_sent (chOut c) = os_sent (lkOut (svStreams s i)) @ a" "tree_complete lib (rsStore rs) goal" by blast
  with assms(5) show ?thesis
    by (intro exI [of _ "rsStore rs"] exI [of _ "\<lparr>lkIn = chIn c, lkOut = chOut c\<rparr>"]) (simp add: srv_receive_def)
qed

lemma handle_push_ok:
  assumes "takes_push lib op name goal force expected s" and "m = push_msg name goal force expected 1"
    and "receiver_run lib (svJobs s) (svObjects s) [goal] n a b" and "n \<le> oeFuel op"
    and "good_frame lib (ok_reply goal) = Some k" and laws: "check_law lib" "write_law lib" "ref_law lib" "record_law lib"
    and "lkIn (svStreams s i) = \<lparr>avail = b @ t, fin = f\<rparr>" and "os_up (lkOut (svStreams s i))"
  shows "\<exists>s'. handle_push lib os_write op i m s = Some (s', None) \<and>
    os_sent (lkOut (svStreams s' i)) = os_sent (lkOut (svStreams s i)) @ a @ k \<and>
    ref_current lib (svRefs s') name = Inr (key_bytes goal) \<and> tree_complete lib (svObjects s') goal"
proof -
  have m: "mName m = name" "mRoot m = key_bytes goal" "mCAS m = (\<not> force)" "mExpectedOld m = expected" "mDataConns m = 0"
    by (simp_all add: assms(2) push_msg_def zero_msg_def)
  have cas: "(if mCAS m then check_cas lib os_write i m s else (s, None)) = (s, None)"
    using assms(1) check_cas_met [of lib s m] by (auto simp: takes_push_def m)
  obtain st l where r: "srv_receive lib os_write op [i] goal s = Some (s\<lparr>svObjects := st, svStreams := (svStreams s)(i := l)\<rparr>, None)"
    "os_up (lkOut l)" "os_sent (lkOut l) = os_sent (lkOut (svStreams s i)) @ a" "tree_complete lib st goal"
    using srv_receive_ok [OF assms(3) laws(1,2) assms(4,10,11)] by blast
  let ?s3 = "s\<lparr>svObjects := st, svStreams := (svStreams s)(i := l)\<rparr>"
  have "takes_push lib op name goal force expected ?s3" using assms(1) by (simp add: takes_push_def)
  from push_commit_ok [OF this assms(2,5) _ laws(3,4), of i] r(2-4) obtain s' where
    c: "push_commit lib os_write op i m goal ?s3 = (s', None)" "svObjects s' = st"
    "os_sent (lkOut (svStreams s' i)) = os_sent (lkOut (svStreams s i)) @ a @ k"
    "ref_current lib (svRefs s') name = Inr (key_bytes goal)" by auto
  have v: "ref_validate lib name = None" "key_parse lib (key_bytes goal) = Inr goal" using assms(1) by (simp_all add: takes_push_def)
  show ?thesis
    unfolding handle_push_def
    by (simp only: m(1,2,5) v cas option.case sum.case prod.case) (simp add: shard_channels_def r(1) c r(4) srv_release_def)
qed

section \<open>Pull: both sides\<close>

definition ref_reply :: "bytes \<Rightarrow> msg" where
  "ref_reply raw = zero_msg\<lparr>mType := TRef, mRecord := raw\<rparr>"

lemma handle_pull_ok:
  assumes "rf_get lib (svRefs s) name = Inr raw" and "good_frame lib (ref_reply raw) = Some r"
    and "sender_run lib (svObjects s) a b"
    and "lkIn (svStreams s i) = \<lparr>avail = a @ t, fin = f\<rparr>" and "os_up (lkOut (svStreams s i))"
  shows "\<exists>s'. handle_pull lib os_write op i (pull_msg name 1) s = (s', None) \<and>
    os_sent (lkOut (svStreams s' i)) = os_sent (lkOut (svStreams s i)) @ r @ b \<and>
    svObjects s' = svObjects s \<and> svRefs s' = svRefs s"
proof -
  let ?s = "if svOnAccess s then s\<lparr>svHooks := svHooks s @ [Accessed name]\<rparr> else s"
  have m: "mName (pull_msg name 1) = name" "mDataConns (pull_msg name 1) = 0"
    by (simp_all add: pull_msg_def zero_msg_def)
  from os.write_msg_healthy [OF good_frame_bytes [OF assms(2)] assms(5)] obtain w where
    w: "write_msg lib os_write (lkOut (svStreams s i)) (ref_reply raw) = (w, None)" "os_up w"
    "os_sent w = os_sent (lkOut (svStreams s i)) @ r" by blast
  from sender_run_send [OF assms(3) w(2), of t f None] obtain ss where
    l: "send_loop lib os_write (svObjects s) \<lparr>ssIn = \<lparr>avail = a @ t, fin = f\<rparr>, ssOut = w, ssProg = None\<rparr> = (ss, None)"
    "os_sent (ssOut ss) = os_sent w @ b" by blast
  have j: "errors_join [None] = None" by simp
  show ?thesis
    using l w assms(4)
    by (simp add: handle_pull_def m assms(1) srv_write_def ref_msg_def ref_reply_def [symmetric] pull_send_def j del: errors_join_None)
qed

lemma pull_transfer_ok:
  fixes s :: "(ostream, 's, 'r) client"
  assumes put: "rf_put lib (lcRefs s) name (mRecord m) = (rf1, None)" "rf_put lib rf1 tname (mRecord m) = (rf2, None)"
    and run: "receiver_run lib 0 (lcObjects s) [goal] n a b" "check_law lib" "write_law lib" "n \<le> neFuel env"
    and "mToken m = []" and "lkIn (clCtrl s) = \<lparr>avail = b @ t, fin = f\<rparr>" and "os_up (lkOut (clCtrl s))"
  shows "\<exists>s'. pull_transfer lib os_write env tname name 1 m goal sc s = Some (sc, s', None) \<and> lcRefs s' = rf2 \<and>
    tree_complete lib (lcObjects s') goal \<and> os_sent (lkOut (clCtrl s')) = os_sent (lkOut (clCtrl s)) @ a"
proof -
  from receiver_run_receive [OF run(1-3) assms(9) run(4), of "neRounds env" t f "clProg s"]
  obtain rs c where rc: "receive lib os_write (neRounds env) (neFuel env) [(\<lparr>avail = b @ t, fin = f\<rparr>, lkOut (clCtrl s))]
      (lcObjects s) goal 0 (clProg s) = Some (rs, None)" "rsChans rs = [c]"
    "os_sent (chOut c) = os_sent (lkOut (clCtrl s)) @ a" "tree_complete lib (rsStore rs) goal" by blast
  show ?thesis
    using rc put assms(8)
    by (simp add: pull_transfer_def pull_channels_def assms(7) pull_receive_def pull_finish_def close_ctrl_def)
qed

lemma pull_body_ok:
  fixes s :: "(ostream, 's, 'r) client"
  assumes rec: "ref_decode lib raw = Inr rec" "key_parse lib (rfKey rec) = Inr goal"
    and put: "rf_put lib (lcRefs s) name raw = (rf1, None)" "rf_put lib rf1 tname raw = (rf2, None)"
    and "good_frame lib (pull_msg name 1) = Some p" and "good_frame lib (ref_reply raw) = Some r"
    and run: "receiver_run lib 0 (lcObjects s) [goal] n a b" "check_law lib" "write_law lib" "n \<le> neFuel env"
    and "lkIn (clCtrl s) = \<lparr>avail = r @ b @ t, fin = f\<rparr>" and "os_up (lkOut (clCtrl s))"
  shows "\<exists>s'. pull_body lib os_write env tname no_prog 1 name sc s = Some (sc, s', None) \<and> lcRefs s' = rf2 \<and>
    tree_complete lib (lcObjects s') goal \<and> os_sent (lkOut (clCtrl s')) = os_sent (lkOut (clCtrl s)) @ p @ a"
proof -
  let ?m = "ref_reply raw"
  obtain w where w: "ctrl_write lib os_write (pull_msg name 1) s = (s\<lparr>clCtrl := (clCtrl s)\<lparr>lkOut := w\<rparr>\<rparr>, None)"
    "os_up w" "os_sent w = os_sent (lkOut (clCtrl s)) @ p" using ctrl_write_up [OF assms(5,12)] by blast
  let ?s1 = "s\<lparr>clCtrl := (clCtrl s)\<lparr>lkOut := w\<rparr>\<rparr>"
  obtain s2 where 2: "ctrl_read lib ?s1 = (s2, Inr ?m)" "clCtrl s2 = \<lparr>lkIn = \<lparr>avail = b @ t, fin = f\<rparr>, lkOut = w\<rparr>"
    "lcRefs s2 = lcRefs s" "lcObjects s2 = lcObjects s"
    using ctrl_read_frame [OF assms(6), of ?s1 "b @ t" f] assms(11) by simp
  have m: "pulled_ref lib (Inr ?m) = Inr (?m, goal)" "mToken ?m = []" "mRecord ?m = raw"
    using rec by (simp_all add: pulled_ref_def expect_type_def ref_reply_def zero_msg_def)
  let ?s3 = "s2\<lparr>clProg := (if no_prog then None else Some no_progress)\<rparr>"
  have "lcRefs ?s3 = lcRefs s" "lcObjects ?s3 = lcObjects s" "clCtrl ?s3 = \<lparr>lkIn = \<lparr>avail = b @ t, fin = f\<rparr>, lkOut = w\<rparr>"
    by (simp_all add: 2)
  with pull_transfer_ok [of lib ?s3 name ?m rf1 tname rf2 goal n a b env t f sc] put run w(2) m
  obtain s' where "pull_transfer lib os_write env tname name 1 ?m goal sc ?s3 = Some (sc, s', None)" "lcRefs s' = rf2"
    "tree_complete lib (lcObjects s') goal" "os_sent (lkOut (clCtrl s')) = os_sent w @ a" by auto
  then show ?thesis by (simp add: pull_body_def w(1,3) 2(1) m(1))
qed

lemma run_pull_ok:
  fixes s :: "(ostream, 's, 'r) client"
  assumes "ref_validate lib name = None" and "\<not> prefix trackingPrefix name" and "connects lib env sf s"
    and rec: "ref_decode lib raw = Inr rec" "key_parse lib (rfKey rec) = Inr goal"
    and put: "rf_put lib (lcRefs s) name raw = (rf1, None)" "rf_put lib rf1 (tracking_ref (sfServer sf) name) raw = (rf2, None)"
    and fr: "good_frame lib (pull_msg name 1) = Some p" "good_frame lib (ref_reply raw) = Some r"
    and run: "receiver_run lib 0 (lcObjects s) [goal] n a b" "check_law lib" "write_law lib" "n \<le> neFuel env"
  shows "\<exists>s'. run_pull lib os_write (on_stream (r @ b) f env) sf no_prog 1 name s = Some (s', None) \<and>
    os_sent (lkOut (clCtrl s')) = p @ a \<and> lcRefs s' = rf2 \<and> tree_complete lib (lcObjects s') goal"
proof -
  let ?env = "on_stream (r @ b) f env"
  obtain s1 where o: "open_store (neStore env) s = (s1, None)" using assms(3) by (metis connects_def prod.collapse)
  then have s1: "s1 = s\<lparr>lcOpen := Refs # Objects # lcOpen s\<rparr>" by (rule open_store_None)
  obtain n' sc where d: "dial_server (key_string lib) (neDial env) (sfServer sf) (sfAddrs sf) (sfRelay sf) (clNet s) = (n', Inr sc)"
    using assms(3) by (auto simp: connects_def)
  let ?s2 = "s1\<lparr>clNet := n', clCtrl := fresh_link (r @ b) f, clDone := False\<rparr>"
  have "lcRefs ?s2 = lcRefs s" "lcObjects ?s2 = lcObjects s" "neFuel ?env = neFuel env"
    "lkIn (clCtrl ?s2) = \<lparr>avail = r @ b @ [], fin = f\<rparr>" "os_up (lkOut (clCtrl ?s2))" "os_sent (lkOut (clCtrl ?s2)) = []"
    using fresh_up by (simp_all add: s1 on_stream_def fresh_link_def) (simp add: fresh_out_def)
  with pull_body_ok [OF rec, of ?s2 name rf1 "tracking_ref (sfServer sf) name" rf2 p r n a b ?env "[]" f no_prog sc] put fr run
  obtain s' where b: "pull_body lib os_write ?env (tracking_ref (sfServer sf) name) no_prog 1 name sc ?s2 = Some (sc, s', None)"
    "lcRefs s' = rf2" "tree_complete lib (lcObjects s') goal" "os_sent (lkOut (clCtrl s')) = p @ a" by auto
  have e: "neStore ?env = neStore env" "neDial ?env = neDial env" "neStream ?env = Inr (fresh_link (r @ b) f)"
    "clNet s1 = clNet s" by (simp_all add: on_stream_def s1)
  have "with_stream lib ?env sf (pull_body lib os_write ?env (tracking_ref (sfServer sf) name) no_prog 1 name) s1 =
      Some (s'\<lparr>clNet := snd (sc_close sc (clNet s'))\<rparr>, None)"
    by (simp only: with_stream_def e d b(1) prod.case sum.case option.map)
  with assms(1,2) o b(2-4) show ?thesis
    by (simp add: run_pull_def store_session_def e close_store_def)
qed

lemma opens_handler:
  assumes "good_frame lib m = Some p" and "mType m \<noteq> TAttach"
  shows "handle_stream lib os_write op i (s\<lparr>svStreams := (svStreams s)(i := fresh_link (p @ t) f)\<rparr>) =
    map_option (\<lambda>(s', e). (close_stream i s', e))
      (let s1 = s\<lparr>svStreams := (svStreams s)(i := fresh_link t f)\<rparr> in
       if mType m = TRefList then Some (handle_ref_list lib os_write i s1)
       else if mType m = TPush then handle_push lib os_write op i m s1
       else if mType m = TPull then Some (handle_pull lib os_write op i m s1)
       else if mType m = TPin then Some (handle_pin lib os_write i m s1)
       else Some (srv_fail lib os_write i CodeBadRequest (ErrorText (''unknown operation '' @ dec_int (mType m))) s1))"
  using wire.recv_frame [OF assms(1), of t f] assms(2) by (simp add: handle_stream_def fresh_link_def Let_def)

section \<open>The sample libraries\<close>

text \<open>The laws speak of the fields of \<open>core_lib\<close> only.\<close>

lemma record_items_cong:
  "st_get_record lib = st_get_record lib' \<Longrightarrow> amber_ulen lib = amber_ulen lib' \<Longrightarrow> key_string lib = key_string lib' \<Longrightarrow>
     record_items lib st ks = record_items lib' st ks"
  by (induction ks) (auto simp: object_err_def split: sum.split)

lemma decode_keys_cong: "key_parse lib = key_parse lib' \<Longrightarrow> decode_keys lib bs = decode_keys lib' bs"
  by (induction bs) (auto split: sum.split)

lemma good_frame_cong: "marshal lib = marshal lib' \<Longrightarrow> unmarshal lib = unmarshal lib' \<Longrightarrow> good_frame lib m = good_frame lib' m"
  by (auto simp: good_frame_def frame_bytes_def codec_ok_def split: sum.split)

lemma transfer_laws_cong:
  fixes lib :: "('p, 's, 'z) core_lib_scheme" and lib' :: "('p, 's, 'y) core_lib_scheme"
  assumes "core_lib.truncate lib = core_lib.truncate lib'" and "transfer_laws lib src"
  shows "transfer_laws lib' src"
proof -
  have f: "marshal lib = marshal lib'" "unmarshal lib = unmarshal lib'" "aw_new lib = aw_new lib'"
    "aw_add_record lib = aw_add_record lib'" "aw_close lib = aw_close lib'" "amber_read lib = amber_read lib'"
    "amber_ulen lib = amber_ulen lib'" "key_parse lib = key_parse lib'" "key_string lib = key_string lib'"
    "child_keys lib = child_keys lib'" "check_complete lib = check_complete lib'" "st_has lib = st_has lib'"
    "st_get lib = st_get lib'" "st_get_record lib = st_get_record lib'" "st_sort lib = st_sort lib'" "st_write lib = st_write lib'"
    using assms(1) by (simp_all add: core_lib.truncate_def)
  have t: "tree_complete lib st k \<longleftrightarrow> tree_complete lib' st k" for st k
    using f by (auto elim!: tree_complete_cong)
  have g: "good_frame lib m = good_frame lib' m" for m using f by (intro good_frame_cong)
  have i: "record_items lib src ks = record_items lib' src ks" for ks using f by (intro record_items_cong)
  have d: "decode_keys lib ks = decode_keys lib' ks" for ks using f by (intro decode_keys_cong)
  have c: "pack_content add lib xs = pack_content add lib' xs" for add :: "'p \<Rightarrow> bytes \<Rightarrow> 'p \<times> bytes list \<times> goerr option" and xs
    by (simp add: pack_content_def f)
  have o: "stored lib src = stored lib' src" by (rule ext) (simp add: stored_def f)
  have "transfer_laws lib src \<longleftrightarrow> transfer_laws lib' src"
    by (simp only: transfer_laws_def check_law_def write_law_def walk_law_def accept_law_def data_codec_def
      request_law_def sort_law_def pack_law_def agree_def Let_def t g i d c o f)
  with assms(2) show ?thesis by simp
qed

lemma sample_net_transfer_laws: "transfer_laws sample_net_lib sample_final"
proof -
  have "transfer_laws (sample_lib sample_book) sample_source"
  proof -
    have "data_codec (sample_lib sample_book)" by (rule sample_data_codec) (simp_all add: sample_book_def)
    then show ?thesis
      by (simp add: transfer_laws_def sample_check_law sample_write_law sample_walk_law sample_accept_law
          sample_request_law sample_sort_law sample_pack_law)
  qed
  moreover have "core_lib.truncate (sample_lib sample_book) = core_lib.truncate sample_net_lib"
    by (simp add: sample_net_lib_def sample_server_simps core_lib.truncate_def)
  ultimately show ?thesis using transfer_laws_cong by (fastforce simp: sample_final_def sample_source_def)
qed

lemma sample_connects:
  assumes "clNet s = no_net"
  shows "connects lib (sample_net_env b) sample_flags s"
proof -
  obtain sc n where "dial_server (key_string lib) (neDial (sample_net_env b)) (sfServer sample_flags)
      (sfAddrs sample_flags) (sfRelay sample_flags) no_net = (n, Inr sc)" by (rule sample_dials)
  moreover have "snd (open_store (neStore (sample_net_env b)) s) = None"
    by (simp add: open_store_def sample_net_env_def sample_store_env_def)
  ultimately show ?thesis using assms by (auto simp: connects_def)
qed

definition sample_op :: "(string \<times> bytes) list op_env" where
  "sample_op = \<lparr>oeToken = Inl StoreNotFound, oeGather = [], oeRounds = sample_env, oeFuel = 0, oeNow = 7, oeRefs = \<lambda>rf. rf\<rparr>"

definition sample_host :: "sample_store \<Rightarrow> (string \<times> bytes) list \<Rightarrow> (ostream, sample_store, (string \<times> bytes) list) server" where
  "sample_host st rf = new_server st rf (\<lambda>i. fresh_link [] IoEOF)"

lemma sample_host_fields [simp]:
  "svObjects (sample_host st rf) = st" "svRefs (sample_host st rf) = rf" "svGuard (sample_host st rf) = False"
  by (simp_all add: sample_host_def new_server_def)

lemma sample_client_fields [simp]: "lcObjects sample_client = sample_final" "lcRefs sample_client = []" "clNet sample_client = no_net"
  by (simp_all add: sample_client_def)

lemma sample_agrees: "agree sample_net_lib [(Key [4], [4])] sample_final"
  by (simp add: agree_def sample_get_def sample_final_def)

lemma sample_record_ok: "record_law sample_net_lib"
  by (simp add: record_law_def)

section \<open>Properties\<close>

text \<open>
  Claim C3 (a push, end to end).  Let a client whose store holds the whole tree of the local reference
  \<open>name\<close> push it to a server that takes the push, over one connection that stays up, and let the
  server's store, whatever it holds, agree with the client's on common keys.  There are transcripts
  \<open>x\<close> and \<open>y\<close> such that \<open>amber push\<close>, reading \<open>y\<close>, writes exactly \<open>x\<close>, succeeds and records the
  pushed root as what the server has; and \<open>HandleStream\<close>, reading \<open>x\<close>, writes exactly \<open>y\<close>, ends
  without an error, closes the stream, and leaves the reference at that root with the whole tree
  below it in the server's store.
\<close>

theorem push_end_to_end:
  assumes laws: "transfer_laws lib (lcObjects c)" "ref_law lib" "record_law lib"
    and "agree lib (svObjects s) (lcObjects c)" and "tree_complete lib (lcObjects c) goal"
    and cl: "\<not> prefix trackingPrefix name" "connects lib env sf c"
      "resolve_spec lib (lcRefs c) (''ref:'' @ name) = Inr (goal, path)"
      "tracked_key lib (lcRefs c) (tracking_ref (sfServer sf) name) = Inr expected"
      "refs_take lib (lcRefs c) (tracking_ref (sfServer sf) name) goal (neNow env)"
    and sv: "takes_push lib op name goal force expected s"
    and fr: "good_frame lib (push_msg name goal force expected 1) \<noteq> None" "good_frame lib (ok_reply goal) \<noteq> None"
  shows "\<exists>n x y.
    (\<forall>f. \<exists>c'. run_push lib os_write (on_stream y f env) sf force no_prog 1 name c = Some (c', None) \<and>
       os_sent (lkOut (clCtrl c')) = x \<and>
       tracked_key lib (lcRefs c') (tracking_ref (sfServer sf) name) = Inr (key_bytes goal)) \<and>
    (\<forall>f fuel. n \<le> fuel \<longrightarrow> (\<exists>s'. handle_stream lib os_write (op\<lparr>oeFuel := fuel\<rparr>) i
         (s\<lparr>svStreams := (svStreams s)(i := fresh_link x f)\<rparr>) = Some (s', None) \<and>
       os_sent (lkOut (svStreams s' i)) = y \<and> svClosed s' ! (length (svClosed s') - 1) = i \<and>
       ref_current lib (svRefs s') name = Inr (key_bytes goal) \<and> tree_complete lib (svObjects s') goal))"
proof -
  let ?m = "push_msg name goal force expected 1"
  obtain n a b where r: "receiver_run lib (svJobs s) (svObjects s) [goal] n a b" and sd: "sender_run lib (lcObjects c) a b"
    using sync_transcripts [OF laws(1) assms(4,5)] by blast
  have cw: "check_law lib" "write_law lib" using laws(1) by (simp_all add: transfer_laws_def)
  obtain p k where p: "good_frame lib ?m = Some p" and k: "good_frame lib (ok_reply goal) = Some k" using fr by blast
  have "mType (ok_reply goal) = TOK" "mType ?m = TPush" by (simp_all add: ok_reply_def push_msg_def)
  note client = run_push_ok [OF cl(1,2) laws(2,3) cl(3-5) p sd k this(1)]
  show ?thesis
  proof (rule exI [of _ n], rule exI [of _ "p @ b"], rule exI [of _ "a @ k"], intro conjI allI impI, goal_cases)
    case (1 f) show ?case by (rule client)
  next
    case (2 f fuel)
    let ?op = "op\<lparr>oeFuel := fuel\<rparr>" and ?s = "s\<lparr>svStreams := (svStreams s)(i := fresh_link b f)\<rparr>"
    have "takes_push lib ?op name goal force expected ?s" using sv by (simp add: takes_push_def)
    from handle_push_ok [OF this refl _ _ k cw laws(2,3), of n a b i "[]" f] r 2 fresh_up obtain s' where
      "handle_push lib os_write ?op i ?m ?s = Some (s', None)" "os_sent (lkOut (svStreams s' i)) = a @ k"
      "ref_current lib (svRefs s') name = Inr (key_bytes goal)" "tree_complete lib (svObjects s') goal"
      by (auto simp: fresh_link_def) (simp add: fresh_out_def)
    then show ?case
      using opens_handler [OF p, of ?op i s b f] \<open>mType ?m = TPush\<close>
      by (simp add: TPush_def TAttach_def TRefList_def close_stream_def)
  qed
qed

theorem push_end_to_end_witness:
  "\<exists>n x y c' s'. run_push sample_net_lib os_write (on_stream y IoEOF (sample_net_env [])) sample_flags False True 1 ''main''
      (sample_client\<lparr>lcRefs := [(''main'', [9])]\<rparr>) = Some (c', None) \<and>
    handle_stream sample_net_lib os_write (sample_op\<lparr>oeFuel := n\<rparr>) 0
      ((sample_host [(Key [4], [4])] [])\<lparr>svStreams := (svStreams (sample_host [(Key [4], [4])] []))(0 := fresh_link x IoEOF)\<rparr>) =
      Some (s', None) \<and>
    os_sent (lkOut (clCtrl c')) = x \<and> os_sent (lkOut (svStreams s' 0)) = y \<and>
    ref_current sample_net_lib (svRefs s') ''main'' = Inr [9] \<and> tree_complete sample_net_lib (svObjects s') (Key [9])"
proof -
  let ?c = "sample_client\<lparr>lcRefs := [(''main'', [9])]\<rparr>" and ?s = "sample_host [(Key [4], [4])] []"
    and ?t = "tracking_ref (sfServer sample_flags) ''main''"
  have ok: "ok_reply (Key [9]) = ok_msg" by (simp add: ok_reply_def ok_msg_def)
  obtain p k where "good_frame sample_net_lib (push_msg ''main'' (Key [9]) False [] 1) = Some p"
    "good_frame sample_net_lib (ok_reply (Key [9])) = Some k"
    by (metis sample_net_frame [of "push_msg ''main'' (Key [9]) False [] 1"] sample_net_frame [of ok_msg] ok
        list.set_intros sample_book_def)
  then have fr: "good_frame sample_net_lib (push_msg ''main'' (Key [9]) False [] 1) \<noteq> None"
    "good_frame sample_net_lib (ok_reply (Key [9])) \<noteq> None" by simp_all
  have rs: "resolve_spec sample_net_lib (lcRefs ?c) (''ref:'' @ ''main'') = Inr (Key [9], [])"
    by (simp add: resolve_spec_def cut_prefix_def sample_server_simps)
  have tk: "tracked_key sample_net_lib (lcRefs ?c) ?t = Inr []"
    by (simp add: tracked_key_def tracking_ref_def trackingPrefix_def)
  have tp: "takes_push sample_net_lib sample_op ''main'' (Key [9]) False [] ?s"
    by (simp add: takes_push_def ref_current_def refs_take_def sample_op_def) (simp add: sample_server_simps)
  have tc: "tree_complete sample_net_lib (lcObjects ?c) (Key [9])" and ag: "agree sample_net_lib (svObjects ?s) (lcObjects ?c)"
    and tl: "transfer_laws sample_net_lib (lcObjects ?c)" and cn: "connects sample_net_lib (sample_net_env []) sample_flags ?c"
    by (simp_all add: sample_complete sample_agrees sample_net_transfer_laws sample_connects)
  have pt: "refs_take sample_net_lib (lcRefs ?c) ?t (Key [9]) (neNow (sample_net_env []))" by (simp add: refs_take_def)
  have np: "\<not> prefix trackingPrefix ''main''" by (simp add: trackingPrefix_def)
  from push_end_to_end [OF tl sample_net_ref_law sample_record_ok ag tc np cn rs tk pt tp fr, of True 0]
  show ?thesis by (metis le_refl key.sel)
qed

text \<open>
  Claim C4 (a pull, end to end).  Let the server hold the whole tree of its reference \<open>name\<close> and a
  client, whatever its store holds as long as it agrees on common keys, pull it over one connection
  that stays up.  There are transcripts \<open>x\<close> and \<open>y\<close> such that \<open>amber pull\<close>, reading \<open>y\<close>, writes
  exactly \<open>x\<close>, succeeds, has the whole tree and the server's record under both names; and
  \<open>HandleStream\<close>, reading \<open>x\<close>, writes exactly \<open>y\<close>, ends without an error and closes the stream,
  and has changed neither objects nor references.
\<close>

theorem pull_end_to_end:
  assumes laws: "transfer_laws lib (svObjects s)" "ref_law lib"
    and "agree lib (lcObjects c) (svObjects s)" and "tree_complete lib (svObjects s) goal"
    and sv: "rf_get lib (svRefs s) name = Inr raw" "ref_decode lib raw = Inr rec" "key_parse lib (rfKey rec) = Inr goal"
    and cl: "ref_validate lib name = None" "\<not> prefix trackingPrefix name" "connects lib env sf c"
    and put: "rf_put lib (lcRefs c) name raw = (rf1, None)" "rf_put lib rf1 (tracking_ref (sfServer sf) name) raw = (rf2, None)"
    and fr: "good_frame lib (pull_msg name 1) \<noteq> None" "good_frame lib (ref_reply raw) \<noteq> None"
  shows "\<exists>n x y.
    (\<forall>f fuel. n \<le> fuel \<longrightarrow> (\<exists>c'. run_pull lib os_write (on_stream y f (env\<lparr>neFuel := fuel\<rparr>)) sf no_prog 1 name c = Some (c', None) \<and>
       os_sent (lkOut (clCtrl c')) = x \<and> tree_complete lib (lcObjects c') goal \<and>
       rf_get lib (lcRefs c') name = Inr raw \<and> rf_get lib (lcRefs c') (tracking_ref (sfServer sf) name) = Inr raw)) \<and>
    (\<forall>f. \<exists>s'. handle_stream lib os_write op i (s\<lparr>svStreams := (svStreams s)(i := fresh_link x f)\<rparr>) = Some (s', None) \<and>
       os_sent (lkOut (svStreams s' i)) = y \<and> svClosed s' ! (length (svClosed s') - 1) = i \<and>
       svObjects s' = svObjects s \<and> svRefs s' = svRefs s)"
proof -
  let ?m = "pull_msg name 1" and ?tname = "tracking_ref (sfServer sf) name"
  obtain n a b where r: "receiver_run lib 0 (lcObjects c) [goal] n a b" and sd: "sender_run lib (svObjects s) a b"
    using sync_transcripts [OF laws(1) assms(3,4)] by blast
  have cw: "check_law lib" "write_law lib" using laws(1) by (simp_all add: transfer_laws_def)
  obtain p q where p: "good_frame lib ?m = Some p" and q: "good_frame lib (ref_reply raw) = Some q" using fr by blast
  have "name \<noteq> ?tname" using cl(2) by (auto simp: tracking_ref_def)
  with put laws(2) have refs: "rf_get lib rf2 name = Inr raw" "rf_get lib rf2 ?tname = Inr raw" by (metis ref_law_def)+
  show ?thesis
  proof (rule exI [of _ n], rule exI [of _ "p @ a"], rule exI [of _ "q @ b"], intro conjI allI impI, goal_cases)
    case (1 f fuel)
    have "connects lib (env\<lparr>neFuel := fuel\<rparr>) sf c" "n \<le> neFuel (env\<lparr>neFuel := fuel\<rparr>)"
      using cl(3) 1 by (simp_all add: connects_def)
    from run_pull_ok [OF cl(1,2) this(1) sv(2,3) put p q r cw this(2)] refs show ?case by blast
  next
    case (2 f)
    let ?s = "s\<lparr>svStreams := (svStreams s)(i := fresh_link a f)\<rparr>"
    from handle_pull_ok [OF _ q, of ?s name a b i "[]" f op] sv(1) sd fresh_up obtain s' where
      "handle_pull lib os_write op i ?m ?s = (s', None)" "os_sent (lkOut (svStreams s' i)) = q @ b"
      "svObjects s' = svObjects s" "svRefs s' = svRefs s"
      by (auto simp: fresh_link_def) (simp add: fresh_out_def)
    moreover have "mType ?m = TPull" by (simp add: pull_msg_def)
    ultimately show ?case
      using opens_handler [OF p, of op i s a f]
      by (simp add: TPush_def TPull_def TAttach_def TRefList_def close_stream_def)
  qed
qed

theorem pull_end_to_end_witness:
  "\<exists>n x y c' s'. run_pull sample_net_lib os_write (on_stream y IoEOF (sample_net_env []\<lparr>neFuel := n\<rparr>)) sample_flags True 1 ''main''
      (sample_client\<lparr>lcObjects := [(Key [4], [4])]\<rparr>) = Some (c', None) \<and>
    handle_stream sample_net_lib os_write sample_op 0
      ((sample_host sample_final [(''main'', [9])])\<lparr>svStreams :=
         (svStreams (sample_host sample_final [(''main'', [9])]))(0 := fresh_link x IoEOF)\<rparr>) = Some (s', None) \<and>
    os_sent (lkOut (clCtrl c')) = x \<and> os_sent (lkOut (svStreams s' 0)) = y \<and>
    rf_get sample_net_lib (lcRefs c') ''main'' = Inr [9] \<and> tree_complete sample_net_lib (lcObjects c') (Key [9])"
proof -
  let ?c = "sample_client\<lparr>lcObjects := [(Key [4], [4])]\<rparr>" and ?s = "sample_host sample_final [(''main'', [9])]"
  have r: "ref_reply [9] = sample_reply" by (simp add: ref_reply_def sample_reply_def)
  have fr: "good_frame sample_net_lib (pull_msg ''main'' 1) \<noteq> None" "good_frame sample_net_lib (ref_reply [9]) \<noteq> None"
    by (metis sample_net_frame [of "pull_msg ''main'' 1"] sample_net_frame [of sample_reply] r
        list.set_intros sample_book_def option.distinct(1))+
  have tl: "transfer_laws sample_net_lib (svObjects ?s)" and ag: "agree sample_net_lib (lcObjects ?c) (svObjects ?s)"
    and tc: "tree_complete sample_net_lib (svObjects ?s) (Key [9])" and cn: "connects sample_net_lib (sample_net_env []) sample_flags ?c"
    by (simp_all add: sample_complete sample_agrees sample_net_transfer_laws sample_connects)
  have g: "rf_get sample_net_lib (svRefs ?s) ''main'' = Inr [9]" by simp
  have v: "ref_validate sample_net_lib ''main'' = None" by (simp add: sample_server_simps)
  have np: "\<not> prefix trackingPrefix ''main''" by (simp add: trackingPrefix_def)
  let ?rec = "\<lparr>rfName = [], rfKey = [9], rfCreatedAt = 0, rfUser = []\<rparr>"
  have d: "ref_decode sample_net_lib [9] = Inr ?rec" "key_parse sample_net_lib (rfKey ?rec) = Inr (Key [9])" by simp_all
  from pull_end_to_end [OF tl sample_net_ref_law ag tc g d v np cn sample_net_fields(8) sample_net_fields(8) fr,
      of True sample_op 0]
  show ?thesis by (metis le_refl)
qed

end
