(* ===== verification/Server_Types.thy ===== *)
theory Server_Types
  imports Server_Props
begin

text \<open>
  Which frames a peer of server/server.go can meet: the types of the frames each operation writes,
  over \<open>HandleStream\<close> and all it calls.
\<close>

section \<open>What a writer has said\<close>

text \<open>
  Between two states of a stream, whole frames of the given types went out; only when the stream
  has failed may a part of one more follow.
\<close>

definition speaks :: "'a wire_lib_scheme \<Rightarrow> int set \<Rightarrow> ostream \<Rightarrow> ostream \<Rightarrow> bool" where
  "speaks lib T w w' \<longleftrightarrow>
     (\<exists>ms q. os_sent w' = os_sent w @ concat (map (the \<circ> frame_bytes lib) ms) @ q \<and>
        (\<forall>m\<in>set ms. mType m \<in> T \<and> frame_bytes lib m \<noteq> None) \<and>
        (q \<noteq> [] \<longrightarrow> os_room w' = Some 0 \<and> (\<exists>m b. mType m \<in> T \<and> frame_bytes lib m = Some b \<and> strict_prefix q b))) \<and>
     (os_room w = Some 0 \<longrightarrow> os_sent w' = os_sent w \<and> os_room w' = Some 0)"

lemma speaks_refl: "speaks lib T w w"
  unfolding speaks_def by (intro conjI exI [of _ "[]"]) simp_all

lemma speaks_trans:
  assumes "speaks lib T w1 w2" and "speaks lib T w2 w3"
  shows "speaks lib T w1 w3"
proof (cases "os_room w2 = Some 0")
  case True
  with assms(2) have "os_sent w3 = os_sent w2" "os_room w3 = Some 0" by (auto simp: speaks_def)
  with assms(1) True show ?thesis unfolding speaks_def by simp
next
  case False
  from assms(1) obtain ms q where 1: "os_sent w2 = os_sent w1 @ concat (map (the \<circ> frame_bytes lib) ms) @ q"
    "\<forall>m\<in>set ms. mType m \<in> T \<and> frame_bytes lib m \<noteq> None" "q \<noteq> [] \<longrightarrow> os_room w2 = Some 0" by (auto simp: speaks_def)
  from assms(2) obtain ms' q' where 2: "os_sent w3 = os_sent w2 @ concat (map (the \<circ> frame_bytes lib) ms') @ q'"
    "\<forall>m\<in>set ms'. mType m \<in> T \<and> frame_bytes lib m \<noteq> None"
    "q' \<noteq> [] \<longrightarrow> os_room w3 = Some 0 \<and> (\<exists>m b. mType m \<in> T \<and> frame_bytes lib m = Some b \<and> strict_prefix q' b)"
    unfolding speaks_def by blast
  from False assms(1) have "os_room w1 \<noteq> Some 0" by (auto simp: speaks_def)
  moreover have "os_sent w3 = os_sent w1 @ concat (map (the \<circ> frame_bytes lib) (ms @ ms')) @ q'"
    using 1(1,3) 2(1) False by auto
  moreover have "\<forall>m\<in>set (ms @ ms'). mType m \<in> T \<and> frame_bytes lib m \<noteq> None" using 1(2) 2(2) by auto
  ultimately show ?thesis using 2(3) unfolding speaks_def by blast
qed

lemma speaks_mono: "speaks lib T w w' \<Longrightarrow> T \<subseteq> T' \<Longrightarrow> speaks lib T' w w'"
  unfolding speaks_def by (elim conjE exE, intro conjI) (intro exI conjI, assumption, blast+)

lemma os_write_cases:
  assumes "os_write w p = (w', n, e)"
  obtains (all) "e = None" "os_sent w' = os_sent w @ p" "os_room w = Some 0 \<Longrightarrow> p = [] \<and> os_room w' = Some 0"
  | (cut) q x where "e = Some x" "os_sent w' = os_sent w @ q" "strict_prefix q p" "os_room w' = Some 0"
      "os_room w = Some 0 \<Longrightarrow> q = []"
proof (cases "os_room w")
  case None
  with assms show ?thesis by (intro all) (auto simp: os_write_def)
next
  case (Some k)
  show ?thesis
  proof (cases "length p \<le> k")
    case True
    with Some assms show ?thesis by (intro all) (auto simp: os_write_def)
  next
    case False
    then have "strict_prefix (take k p) p"
      by (metis take_is_prefix strict_prefixI take_all_iff)
    with Some assms False show ?thesis by (intro cut [of "os_fail w" "take k p"]) (auto simp: os_write_def)
  qed
qed

lemma speaks_msg:
  assumes "mType m \<in> T" and "write_msg lib os_write w m = (w', e)"
  shows "speaks lib T w w'"
proof (cases "frame_bytes lib m")
  case None
  with os.write_msg_reject [OF None, of w] assms(2) show ?thesis by (simp add: speaks_refl)
next
  case (Some b)
  then obtain p where p: "marshal lib m = Inr p" "length p \<le> MaxFrame" "b = put_uint32 (of_nat (length p)) @ p"
    by (auto simp: frame_bytes_def split: sum.splits if_splits)
  let ?h = "put_uint32 (of_nat (length p))"
  obtain w1 n1 e1 where w1: "os_write w ?h = (w1, n1, e1)" by (metis prod_cases3)
  obtain w2 n2 e2 where w2: "os_write w1 p = (w2, n2, e2)" by (metis prod_cases3)
  have part: "speaks lib T w v" if "os_sent v = os_sent w @ q" "strict_prefix q b" "os_room v = Some 0" "os_room w = Some 0 \<Longrightarrow> q = []" for v q
    unfolding speaks_def using that assms(1) Some by (intro conjI exI [of _ "[]"] exI [of _ q]) auto
  from w1 show ?thesis
  proof (cases rule: os_write_cases)
    case all
    then have room: "os_room w \<noteq> Some 0" using put_uint32_not_Nil by blast
    from all assms(2) p w1 w2 have w': "w' = w2" by (simp add: write_msg_def)
    from w2 show ?thesis
    proof (cases rule: os_write_cases)
      case all: all
      with \<open>os_sent w1 = os_sent w @ ?h\<close> p(3) w' have "os_sent w' = os_sent w @ b" by simp
      with Some assms(1) room show ?thesis
        unfolding speaks_def by (intro conjI exI [of _ "[m]"] exI [of _ "[]"]) auto
    next
      case (cut q x)
      with \<open>os_sent w1 = os_sent w @ ?h\<close> p(3) w' room show ?thesis
        by (intro part [of _ "?h @ q"]) (auto simp: strict_prefix_def)
    qed
  next
    case c: (cut q x)
    with assms(2) p w1 have "w' = w1" by (simp add: write_msg_def)
    with c p(3) show ?thesis by (intro part [of _ q]) (auto simp: strict_prefix_def)
  qed
qed

lemma ww_write_msg: "write_msg lib (ww_write wr) u m = (u', e) \<Longrightarrow> write_msg lib wr (wwW u) m = (wwW u', e)"
  unfolding write_msg_def ww_write_def by (auto split: sum.splits if_splits prod.splits option.splits)

interpretation says: frame_trace lib "ww_write os_write" "\<lambda>u u'. speaks lib {TErr, TRef, TData, TDataEnd} (wwW u) (wwW u')"
  "{TErr, TRef, TData, TDataEnd}" for lib
  by unfold_locales (auto intro: speaks_refl speaks_trans speaks_msg [OF _ ww_write_msg])

section \<open>The want loop\<close>

lemma send_loop_speaks:
  "send_loop lib wr st s = (s', e) \<Longrightarrow> wr = os_write \<Longrightarrow> speaks lib {TErr, TRef, TData, TDataEnd} (ssOut s) (ssOut s')"
proof (induction lib wr st s arbitrary: s' e rule: send_loop.induct)
  case (1 lib wr st s)
  let ?T = "{TErr, TRef, TData, TDataEnd}"
  obtain t x where r: "send_round lib wr st s = (t, x)" by (cases "send_round lib wr st s")
  have "speaks lib ?T (ssOut s) (ssOut t)"
  proof -
    have se: "write_msg lib os_write w (send_err_msg lib f) = (w', y) \<Longrightarrow> speaks lib ?T w w'" for w w' f y
      by (rule speaks_msg [of "send_err_msg lib f"]) (simp_all add: send_err_msg_def)
    have an: "speaks lib ?T (ssOut u) (ssOut v)" if "send_answer lib os_write st ks u = (v, y)" for ks u v y
      using that unfolding send_answer_def send_pack_records_def
      by (auto simp: Let_def split: prod.splits option.splits dest!: says.send_items_R se intro: speaks_trans)
    show ?thesis using r "1.prems"(2) unfolding send_round_def
      by (auto simp: Let_def split: prod.splits sum.splits if_splits intro: speaks_refl dest: an)
  qed
  moreover have "speaks lib ?T (ssOut t) (ssOut s')"
  proof (cases x)
    case Again
    with "1.prems" r have "send_loop lib wr st t = (s', e)" by (subst (asm) send_loop.simps) simp
    from "1.IH" [OF r [symmetric] Again this "1.prems"(2)] show ?thesis .
  qed (use "1.prems" r in \<open>subst (asm) send_loop.simps, auto intro: speaks_refl\<close>)+
  ultimately show ?case by (rule speaks_trans)
qed

definition chans_speak :: "'a wire_lib_scheme \<Rightarrow> int set \<Rightarrow> ostream channel list \<Rightarrow> ostream channel list \<Rightarrow> bool" where
  "chans_speak lib T = list_all2 (\<lambda>c c'. speaks lib T (chOut c) (chOut c'))"

lemma chans_speak_refl: "chans_speak lib T cs cs"
  by (simp add: chans_speak_def list_all2_refl speaks_refl)

lemma chans_speak_trans: "chans_speak lib T a b \<Longrightarrow> chans_speak lib T b c \<Longrightarrow> chans_speak lib T a c"
  unfolding chans_speak_def by (rule list_all2_trans) (auto intro: speaks_trans)

lemma chans_speak_upd:
  assumes "speaks lib T (chOut (cs ! i)) (chOut c)"
  shows "chans_speak lib T cs (cs[i := c])"
proof -
  have "speaks lib T (chOut (cs ! j)) (chOut (cs[i := c] ! j))" if "j < length cs" for j
    using assms that by (cases "j = i") (simp_all add: speaks_refl)
  then show ?thesis by (simp add: chans_speak_def list_all2_conv_all_nth)
qed

lemma send_finals_speaks: "send_finals lib os_write cs = (cs', e) \<Longrightarrow> chans_speak lib {TWants} cs cs'"
proof (induction cs arbitrary: cs' e)
  case (Cons c cs)
  obtain w e1 where w: "write_msg lib os_write (chOut c) (zero_msg\<lparr>mType := TWants\<rparr>) = (w, e1)" by fastforce
  have "speaks lib {TWants} (chOut c) w" using w by (rule speaks_msg [rotated]) simp
  with w Cons show ?case
    by (auto simp: chans_speak_def split: option.splits prod.splits intro: list_all2_refl speaks_refl)
qed (simp add: chans_speak_def)

lemma send_shards_speaks: "send_shards lib os_write i shards cs = (cs', is, e) \<Longrightarrow> chans_speak lib {TWants} cs cs'"
proof (induction shards arbitrary: i cs cs' "is" e)
  case (Cons shard shards)
  obtain w e1 where w: "write_msg lib os_write (chOut (cs ! i)) (wants_msg shard) = (w, e1)" by fastforce
  have "speaks lib {TWants} (chOut (cs ! i)) w" using w by (rule speaks_msg [rotated]) (simp add: wants_msg_def)
  then have "chans_speak lib {TWants} cs (cs[i := (cs ! i)\<lparr>chOut := w\<rparr>])" by (intro chans_speak_upd) simp
  with w Cons show ?case
    by (auto split: if_splits option.splits prod.splits intro: chans_speak_refl chans_speak_trans)
qed (simp add: chans_speak_refl)

lemma read_decoders_speak: "chans_speak lib T cs (fold (\<lambda>d. read_decoder a (stop d) (k d) d) ds cs)"
proof (induction ds arbitrary: cs)
  case (Cons d ds)
  have "chans_speak lib T cs (read_decoder a (stop d) (k d) d cs)"
    unfolding read_decoder_def Let_def by (rule chans_speak_upd) (simp add: ch_read_to_def speaks_refl)
  from chans_speak_trans [OF this Cons.IH] show ?case by simp
qed (simp add: chans_speak_refl)

lemma receive_round_speaks:
  assumes "receive_round lib os_write jobs env s = (s', x)"
  shows "chans_speak lib {TWants} (rsChans s) (rsChans s')"
proof -
  have rp: "chans_speak lib {TWants} (rsChans u) (rsChans v)" if "receive_packs lib env is ks carry u = (v, y)" for "is" ks carry u v y
    using that unfolding receive_packs_def Let_def
    by (auto split: prod.splits option.splits intro: read_decoders_speak)
  show ?thesis using assms unfolding receive_round_def Let_def
    by (auto split: sum.splits prod.splits if_splits option.splits
        intro: chans_speak_refl dest!: send_finals_speaks send_shards_speaks rp intro: chans_speak_trans)
qed

lemma receive_loop_speaks:
  "receive_loop lib os_write jobs envs fuel s = Some (s', e) \<Longrightarrow> chans_speak lib {TWants} (rsChans s) (rsChans s')"
proof (induction fuel arbitrary: envs s)
  case (Suc fuel)
  obtain t x where r: "receive_round lib os_write jobs (envs 0) s = (t, x)" by fastforce
  from Suc receive_round_speaks [OF r] r show ?case by (cases x) (auto intro: chans_speak_trans)
qed simp

section \<open>The operations\<close>

definition talks :: "'a wire_lib_scheme \<Rightarrow> int set \<Rightarrow> (ostream, 's, 'r) server \<Rightarrow> (ostream, 's, 'r) server \<Rightarrow> bool" where
  "talks lib T s s' \<longleftrightarrow> (\<forall>j. speaks lib T (lkOut (svStreams s j)) (lkOut (svStreams s' j)))"

lemma talks_same [intro]: "svStreams s' = svStreams s \<Longrightarrow> talks lib T s s'"
  by (simp add: talks_def speaks_refl)

lemma talks_quiet [simp]:
  "talks lib T (s\<lparr>svHooks := hs\<rparr>) s' = talks lib T s s'" "talks lib T (s\<lparr>svTransfers := t\<rparr>) s' = talks lib T s s'"
  by (simp_all add: talks_def)

lemma talks_trans: "talks lib T a b \<Longrightarrow> talks lib T b c \<Longrightarrow> talks lib T a c"
  unfolding talks_def by (blast intro: speaks_trans)

lemma talks_mono: "talks lib T a b \<Longrightarrow> T \<subseteq> T' \<Longrightarrow> talks lib T' a b"
  unfolding talks_def by (blast intro: speaks_mono)

lemma srv_write_talks: "srv_write lib os_write i m s = (s', e) \<Longrightarrow> mType m \<in> T \<Longrightarrow> talks lib T s s'"
  by (auto simp: srv_write_def talks_def speaks_refl split: prod.splits intro: speaks_msg)

lemma err_msg_type [simp]: "mType (err_msg code txt) = TErr"
  by (simp add: err_msg_def zero_msg_def)

lemma cas_msg_type [simp]: "mType (cas_msg name current) = TErr"
  by (simp add: cas_msg_def zero_msg_def)

lemma srv_fail_talks: "srv_fail lib os_write i code e s = (s', x) \<Longrightarrow> TErr \<in> T \<Longrightarrow> talks lib T s s'"
  unfolding srv_fail_def
  by (metis (no_types, lifting) err_msg_type fst_conv srv_write_talks surj_pair)

lemma fail_local_talks: "fail_local lib os_write i e s = (s', x) \<Longrightarrow> TErr \<in> T \<Longrightarrow> talks lib T s s'"
  by (auto simp: fail_local_def split: if_splits intro: srv_fail_talks)

lemma check_cas_talks: "check_cas lib os_write i m s = (s', x) \<Longrightarrow> TErr \<in> T \<Longrightarrow> talks lib T s s'"
  unfolding check_cas_def
  by (auto split: sum.splits if_splits intro: srv_fail_talks)
    (metis cas_msg_type srv_write_talks surjective_pairing)

text \<open>The frames an operation answers with, by the type of its request.\<close>

definition replies :: "int \<Rightarrow> int set" where
  "replies t = insert TErr
     (if t = TRefList then {TRefs} else if t = TPin then {TOK}
      else if t = TPush then {TAccept, TWants, TOK} else if t = TPull then {TRef, TData, TDataEnd} else {})"

lemma replies_simps [simp]:
  "TErr \<in> replies t" "replies TRefList = {TErr, TRefs}" "replies TPin = {TErr, TOK}"
  "replies TPush = {TErr, TAccept, TWants, TOK}" "replies TPull = {TErr, TRef, TData, TDataEnd}"
  by (auto simp: replies_def frame_types)

lemma close_all_streams [simp]: "svStreams (close_all is s) = svStreams s"
  by (simp add: close_all_closed)

lemma drop_streams [simp]: "svStreams (srv_drop token s) = svStreams s" "svStreams (srv_release h s) = svStreams s"
    "svStreams (close_stream i s) = svStreams s"
  by (auto simp: srv_drop_def srv_release_def close_stream_def split: prod.splits option.splits)

lemma pin_loop_streams: "pin_loop lib names s = (s', e) \<Longrightarrow> svStreams s' = svStreams s"
  by (induction lib names s rule: pin_loop.induct) (auto split: sum.splits if_splits)

lemma handle_ref_list_talks: "handle_ref_list lib os_write i s = (s', e) \<Longrightarrow> talks lib {TErr, TRefs} s s'"
  unfolding handle_ref_list_def by (auto split: sum.splits elim: srv_fail_talks srv_write_talks)

lemma handle_pin_talks:
  assumes "handle_pin lib os_write i m s = (s', e)"
  shows "talks lib {TErr, TOK} s s'"
proof -
  obtain s1 e1 where p: "pin_loop lib (mNames m) s = (s1, e1)" by fastforce
  have "talks lib {TErr, TOK} s s1" using pin_loop_streams [OF p] by blast
  moreover have "talks lib {TErr, TOK} s1 s'"
    using assms p unfolding handle_pin_def by (auto split: option.splits elim: srv_fail_talks srv_write_talks)
  ultimately show ?thesis by (rule talks_trans)
qed

lemma put_links_talks:
  assumes "list_all2 (\<lambda>i c. speaks lib T (lkOut (h0 i)) (chOut c)) is cs"
    and "\<And>j. speaks lib T (lkOut (h0 j)) (lkOut (h j))"
  shows "speaks lib T (lkOut (h0 j)) (lkOut (put_links is cs h j))"
  using assms
proof (induction "is" cs h rule: put_links.induct)
  case (1 i "is" c cs h)
  then have "speaks lib T (lkOut (h0 k)) (lkOut ((h(i := \<lparr>lkIn = chIn c, lkOut = chOut c\<rparr>)) k))" for k by simp
  from "1.IH" [OF _ this] "1.prems"(1) show ?case by (simp only: put_links.simps list_all2_Cons)
qed auto

lemma srv_receive_talks:
  assumes "srv_receive lib os_write env is goal s = Some (s', e)"
  shows "talks lib {TWants} s s'"
proof -
  let ?links = "map (\<lambda>i. (lkIn (svStreams s i), lkOut (svStreams s i))) is"
  from assms obtain rs where r: "receive lib os_write (oeRounds env) (oeFuel env) ?links (svObjects s) goal (svJobs s) None = Some (rs, e)"
    and s': "svStreams s' = put_links is (rsChans rs) (svStreams s)"
    by (auto simp: srv_receive_def split: option.splits)
  from receive_loop_speaks [OF r [unfolded receive_def]]
  have "list_all2 (\<lambda>i c. speaks lib {TWants} (lkOut (svStreams s i)) (chOut c)) is (rsChans rs)"
    by (simp add: chans_speak_def receive_start_def list_all2_map1 o_def)
  from put_links_talks [OF this] show ?thesis by (simp add: talks_def s' speaks_refl)
qed

lemma shard_channels_talks: "shard_channels lib os_write env i n s = (s', x) \<Longrightarrow> talks lib {TAccept} s s'"
  unfolding shard_channels_def Let_def
  by (auto simp: talks_def speaks_refl split: if_splits prod.splits sum.splits option.splits dest!: srv_write_talks [where T = "{TAccept}"])

lemma put_ref_talks: "put_ref lib os_write i name goal raw s = (s', e) \<Longrightarrow> TErr \<in> T \<Longrightarrow> talks lib T s s'"
  unfolding put_ref_def Let_def
  by (auto simp: talks_def speaks_refl split: if_splits prod.splits option.splits dest!: srv_fail_talks [where T = T])

lemma push_commit_talks: "push_commit lib os_write env i m goal s = (s', e) \<Longrightarrow> talks lib {TErr, TOK} s s'"
proof -
  assume a: "push_commit lib os_write env i m goal s = (s', e)"
  let ?s = "s\<lparr>svRefs := oeRefs env (svRefs s), svRefLocks := insert (mName m) (svRefLocks s)\<rparr>"
  obtain s1 e1 where c: "(if mCAS m then check_cas lib os_write i m ?s else (?s, None)) = (s1, e1)" by fastforce
  have "talks lib {TErr, TOK} s ?s" by (rule talks_same) simp
  moreover have "talks lib {TErr, TOK} ?s s1" using c by (auto split: if_splits elim: check_cas_talks)
  moreover have "talks lib {TErr, TOK} s1 s'"
  proof (cases "e1")
    case (Some x)
    with a c show ?thesis by (auto simp: push_commit_def Let_def)
  next
    case None
    have "talks lib {TErr, TOK} t s'"
      if "srv_write lib os_write i (zero_msg\<lparr>mType := TOK, mKey := k\<rparr>) (if b then t\<lparr>svHooks := hs\<rparr> else t) = (s', e)" for t b hs k
      using srv_write_talks [OF that, of "{TErr, TOK}"] by (auto simp: talks_def split: if_splits)
    then show ?thesis using None a c unfolding push_commit_def
      by (auto simp: Let_def split: sum.splits prod.splits option.splits elim: srv_fail_talks
          dest!: put_ref_talks [where T = "{TErr, TOK}"] intro: talks_trans)
  qed
  ultimately show ?thesis by (blast intro: talks_trans)
qed

lemma handle_push_talks:
  assumes "handle_push lib os_write env i m s = Some (s', e)"
  shows "talks lib (replies TPush) s s'"
proof -
  let ?T = "{TErr, TAccept, TWants, TOK}"
  obtain s1 e1 where c: "(if mCAS m then check_cas lib os_write i m s else (s, None)) = (s1, e1)" by fastforce
  then have 1: "talks lib ?T s s1" by (auto split: if_splits elim: check_cas_talks)
  show ?thesis
  proof (cases "ref_validate lib (mName m) = None \<and> \<not> isl (key_parse lib (mRoot m)) \<and> e1 = None")
    case False
    with assms c 1 show ?thesis
      by (auto simp: handle_push_def split: option.splits sum.splits elim: srv_fail_talks)
  next
    case True
    then obtain goal where g: "key_parse lib (mRoot m) = Inr goal" by (cases "key_parse lib (mRoot m)") auto
    obtain s2 x where sh: "shard_channels lib os_write env i (mDataConns m) s1 = (s2, x)" by fastforce
    have 2: "talks lib ?T s s2" using talks_trans [OF 1 talks_mono [OF shard_channels_talks [OF sh]]] by simp
    show ?thesis
    proof (cases x)
      case (Inl y)
      with assms c g sh True have "srv_fail lib os_write i CodeInternal y s2 = (s', e)" by (simp add: handle_push_def)
      with 2 show ?thesis by (auto elim: talks_trans srv_fail_talks)
    next
      case (Inr p)
      then obtain "is" h where p: "x = Inr (is, h)" by (cases p) auto
      with assms c g sh True obtain s3 e3 s4 e4 where r: "srv_receive lib os_write env is goal s2 = Some (s3, e3)"
        "(case e3 of Some err \<Rightarrow> fail_local lib os_write i err s3 | None \<Rightarrow> push_commit lib os_write env i m goal s3) = (s4, e4)"
        "s' = srv_release h s4"
        by (auto simp: handle_push_def split: option.splits prod.splits)
      have "talks lib ?T s2 s3" using talks_mono [OF srv_receive_talks [OF r(1)]] by simp
      moreover have "talks lib ?T s3 s4"
        using r(2) by (auto split: option.splits elim: fail_local_talks intro: talks_mono [OF push_commit_talks])
      moreover have "talks lib ?T s4 s'" using r(3) by (intro talks_same) simp
      ultimately show ?thesis using 2 by (auto intro: talks_trans)
    qed
  qed
qed

lemma srv_sends_talks: "srv_sends lib os_write is s = (s', es) \<Longrightarrow> talks lib {TErr, TRef, TData, TDataEnd} s s'"
proof (induction "is" arbitrary: s s' es)
  case (Cons i "is")
  obtain ss e where l: "send_loop lib os_write (svObjects s) \<lparr>ssIn = lkIn (svStreams s i), ssOut = lkOut (svStreams s i), ssProg = None\<rparr> = (ss, e)"
    by fastforce
  let ?s = "s\<lparr>svStreams := (svStreams s)(i := \<lparr>lkIn = ssIn ss, lkOut = ssOut ss\<rparr>)\<rparr>"
  have "talks lib {TErr, TRef, TData, TDataEnd} s ?s"
    using send_loop_speaks [OF l refl] by (simp add: talks_def speaks_refl)
  moreover from Cons.prems l obtain es' where "srv_sends lib os_write is ?s = (s', es')" by (auto split: prod.splits)
  ultimately show ?case using Cons.IH by (blast intro: talks_trans)
qed (auto simp: talks_def speaks_refl)

lemma pull_send_talks:
  assumes "pull_send lib os_write i is s = (s', e)"
  shows "talks lib (replies TPull) s s'"
proof -
  obtain s1 es where r: "srv_sends lib os_write is s = (s1, es)" by fastforce
  with assms have "talks lib (replies TPull) s1 s'"
    by (auto simp: pull_send_def split: option.splits elim: fail_local_talks intro: talks_same)
  with srv_sends_talks [OF r] show ?thesis by (auto intro: talks_trans)
qed

lemma ref_msg_type [simp]: "mType (ref_msg raw tok s) = TRef"
  by (simp add: ref_msg_def split: option.splits)

lemma handle_pull_talks:
  assumes "handle_pull lib os_write env i m s0 = (s', e)"
  shows "talks lib (replies TPull) s0 s'"
proof -
  have via: "talks lib (replies TPull) s0 t" if "talks lib (replies TPull) s t" "svStreams s = svStreams s0" for s t
    using that by (simp add: talks_def)
  have wr: "talks lib (replies TPull) s t" if "srv_write lib os_write i (ref_msg raw tok u) s = (t, x)" for s t raw tok u x
    using srv_write_talks [OF that] by simp
  have fl: "talks lib (replies TPull) s t" if "srv_fail lib os_write i code y s = (t, x)" for s t code y x
    using srv_fail_talks [OF that] by simp
  show ?thesis
  proof (cases "\<exists>raw. rf_get lib (svRefs s0) (mName m) = Inr raw \<and> 0 < mDataConns m")
    case False
    with assms show ?thesis unfolding handle_pull_def Let_def
      by (auto split: sum.splits if_splits prod.splits option.splits
          dest!: wr fl pull_send_talks intro: talks_trans via [OF talks_trans] via)
  next
    case True
    then obtain raw where raw: "rf_get lib (svRefs s0) (mName m) = Inr raw" "\<not> mDataConns m \<le> 0" by auto
    define s where "s = (if svOnAccess s0 then s0\<lparr>svHooks := svHooks s0 @ [Accessed (mName m)]\<rparr> else s0)"
    have str: "svStreams (s\<lparr>svTransfers := t\<rparr>) = svStreams s0" for t by (simp add: s_def)
    obtain t x where t: "tf_create (oeToken env) (svTransfers s) = (t, x)" by fastforce
    show ?thesis
    proof (cases x)
      case (Inl y)
      with assms raw t have "srv_fail lib os_write i CodeInternal y (s\<lparr>svTransfers := t\<rparr>) = (s', e)"
        by (simp add: handle_pull_def s_def)
      from via [OF fl [OF this] str] show ?thesis .
    next
      case (Inr token)
      obtain s1 e1 where w: "srv_write lib os_write i (ref_msg raw (Some token) s) (s\<lparr>svTransfers := t\<rparr>) = (s1, e1)" by fastforce
      have 1: "talks lib (replies TPull) s0 s1" by (rule via [OF wr [OF w] str])
      have "talks lib (replies TPull) s1 s'"
      proof (cases e1)
        case (Some y)
        with assms raw t Inr w have "s' = srv_drop token s1" by (simp add: handle_pull_def s_def)
        then show ?thesis by (intro talks_same) simp
      next
        case None
        obtain t1 ex where ga: "tf_gather token (nat (min (mDataConns m) (int maxDataConns))) (oeGather env) (svTransfers s1) = (t1, ex)"
          by fastforce
        obtain s2 e2 where ps: "pull_send lib os_write i (i # ex) (s1\<lparr>svTransfers := t1\<rparr>) = (s2, e2)" by fastforce
        from assms raw t Inr w None ga ps have "s' = srv_release (Some (token, ex)) s2" by (simp add: handle_pull_def s_def)
        with pull_send_talks [OF ps] show ?thesis by (simp add: talks_def)
      qed
      with 1 show ?thesis by (rule talks_trans)
    qed
  qed
qed

section \<open>Properties\<close>

text \<open>
  Claim C18 (the server speaks its protocol).  Whatever a peer sends and wherever its streams fail, what
  \<open>HandleStream\<close> writes, on its own stream and on every stream attached to its transfer, is a
  sequence of whole frames of the types its operation answers with: \<open>TErr\<close>, and \<open>TRefs\<close> to a
  listing, \<open>TOK\<close> to a pin, \<open>TAccept\<close>, \<open>TWants\<close> and \<open>TOK\<close> to a push, \<open>TRef\<close>, \<open>TData\<close> and
  \<open>TDataEnd\<close> to a pull.  Only a stream that has failed ends in a part of such a frame, and nothing
  is written when no request could be read.
\<close>

theorem server_speaks:
  assumes "handle_stream lib os_write env i s = Some (s', e)"
  shows "speaks lib (case snd (read_msg lib (lkIn (svStreams s i))) of Inl x \<Rightarrow> {} | Inr m \<Rightarrow> replies (mType m))
    (lkOut (svStreams s j)) (lkOut (svStreams s' j))"
proof -
  obtain r x where rd: "read_msg lib (lkIn (svStreams s i)) = (r, x)" by fastforce
  define s0 where "s0 = s\<lparr>svStreams := (svStreams s)(i := (svStreams s i)\<lparr>lkIn := r\<rparr>)\<rparr>"
  have s0: "lkOut (svStreams s0 k) = lkOut (svStreams s k)" for k by (simp add: s0_def)
  let ?T = "case x of Inl y \<Rightarrow> {} | Inr m \<Rightarrow> replies (mType m)"
  have closes: "talks lib T a (close_stream i b) \<longleftrightarrow> talks lib T a b" for T a b by (simp add: talks_def)
  from assms rd s0_def have "talks lib ?T s0 s'"
  proof (cases rule: handle_stream_E)
    case (attached m t)
    then show ?thesis by (intro talks_same) simp
  next
    case (refused m t s1 e1)
    from srv_write_talks [OF refused(4), of ?T] refused(1,3) show ?thesis by (simp add: closes)
  qed (auto simp: closes intro: talks_same elim: handle_ref_list_talks handle_pin_talks srv_fail_talks
      handle_push_talks [unfolded replies_simps] handle_pull_talks [unfolded replies_simps])
  then show ?thesis using rd by (simp add: talks_def s0)
qed

text \<open>A pin that names nothing, over a codec that encodes only the type.\<close>

definition pin_lib :: "(unit, sample_store, (string \<times> bytes) list) server_lib" where
  "pin_lib = sample_server_lib\<lparr>marshal := \<lambda>m. Inr [of_int (mType m)], unmarshal := \<lambda>b. Inr (zero_msg\<lparr>mType := TPin\<rparr>)\<rparr>"

definition pin_server :: "(ostream, sample_store, (string \<times> bytes) list) server" where
  "pin_server = sample_server\<lparr>svStreams := (\<lambda>i. \<lparr>lkIn = \<lparr>avail = [0, 0, 0, 1, 13], fin = IoEOF\<rparr>, lkOut = fresh_out\<rparr>)\<rparr>"

theorem server_speaks_witness:
  "\<exists>s'. handle_stream pin_lib os_write sample_op 0 pin_server = Some (s', None) \<and>
    os_sent (lkOut (svStreams s' 0)) = [0, 0, 0, 1, 9] \<and> speaks pin_lib {TErr, TOK} fresh_out (lkOut (svStreams s' 0))"
proof -
  have rd: "read_msg pin_lib (lkIn (svStreams pin_server 0)) = (\<lparr>avail = [], fin = IoEOF\<rparr>, Inr (zero_msg\<lparr>mType := TPin\<rparr>))"
    by (simp add: read_msg_def read_full_def pin_server_def pin_lib_def MaxFrame_def be_uint32_def)
  have w: "write_msg pin_lib os_write fresh_out (zero_msg\<lparr>mType := TOK\<rparr>) = (fresh_out\<lparr>os_sent := [0, 0, 0, 1, 9]\<rparr>, None)"
    by (simp add: write_msg_def pin_lib_def MaxFrame_def os_write_def fresh_out_def TOK_def put_uint32_def)
  obtain s' where r: "handle_stream pin_lib os_write sample_op 0 pin_server = Some (s', None)"
    "os_sent (lkOut (svStreams s' 0)) = [0, 0, 0, 1, 9]"
    using rd w unfolding handle_stream_def
    by (simp add: Let_def frame_types handle_pin_def srv_write_def zero_msg_def) (simp add: pin_server_def close_stream_def)
  from server_speaks [OF r(1), of 0] rd r show ?thesis by (simp add: pin_server_def)
qed

end
