(* ===== verification/Serve_Main.thy ===== *)
theory Serve_Main
  imports Dial
begin

text \<open>
  cmd/amber-serve/main.go: the relay mode, the secret key file, and the action of the command,
  which opens the stores and endpoints, publishes the addresses, and serves.  What the libraries
  and the machine give is an environment; what the command does is a trace of events.
\<close>

section \<open>The relay mode\<close>

text \<open>\<open>nearest\<close> is what probing the default relay map gives: its URLs, reordered.\<close>

definition server_relay_mode ::
  "(string \<Rightarrow> goerr + 'u) \<Rightarrow> goerr + 'u list \<Rightarrow> string \<Rightarrow> goerr + 'u relay_mode" where
  "server_relay_mode parse_url nearest flag =
     (if flag \<noteq> [] then from_flag parse_url flag
      else case nearest of
        Inl e \<Rightarrow> Inr ModeDefault
      | Inr urls \<Rightarrow> Inr (ModeCustom urls))"

section \<open>The secret key file\<close>

text \<open>\<open>strings.TrimSpace\<close>: the UTF-8 encodings of the Unicode spaces are cut off at both ends.\<close>

definition utf8_spaces :: "string list" where
  "utf8_spaces =
     [[CHR 0x09], [CHR 0x0A], [CHR 0x0B], [CHR 0x0C], [CHR 0x0D], [CHR 0x20], [CHR 0xC2, CHR 0x85],
      [CHR 0xC2, CHR 0xA0], [CHR 0xE1, CHR 0x9A, CHR 0x80], [CHR 0xE2, CHR 0x80, CHR 0x80],
      [CHR 0xE2, CHR 0x80, CHR 0x81], [CHR 0xE2, CHR 0x80, CHR 0x82],
      [CHR 0xE2, CHR 0x80, CHR 0x83], [CHR 0xE2, CHR 0x80, CHR 0x84],
      [CHR 0xE2, CHR 0x80, CHR 0x85], [CHR 0xE2, CHR 0x80, CHR 0x86],
      [CHR 0xE2, CHR 0x80, CHR 0x87], [CHR 0xE2, CHR 0x80, CHR 0x88],
      [CHR 0xE2, CHR 0x80, CHR 0x89], [CHR 0xE2, CHR 0x80, CHR 0x8A],
      [CHR 0xE2, CHR 0x80, CHR 0xA8], [CHR 0xE2, CHR 0x80, CHR 0xA9],
      [CHR 0xE2, CHR 0x80, CHR 0xAF], [CHR 0xE2, CHR 0x81, CHR 0x9F],
      [CHR 0xE3, CHR 0x80, CHR 0x80]]"

function trim_front :: "string list \<Rightarrow> string \<Rightarrow> string" where
  "trim_front sps s =
     (case find (\<lambda>p. p \<noteq> [] \<and> prefix p s) sps of
        None \<Rightarrow> s
      | Some p \<Rightarrow> trim_front sps (drop (length p) s))"
  by pat_completeness auto
termination
  by (relation "measure (\<lambda>(sps, s). length s)") (auto simp: find_Some_iff prefix_def)

declare trim_front.simps [simp del]

definition trim_space :: "string \<Rightarrow> string" where
  "trim_space s = rev (trim_front (map rev utf8_spaces) (rev (trim_front utf8_spaces s)))"

text \<open>
  \<open>keReadErr\<close> is a failure to read other than a missing file; \<open>keWrite\<close> tells whether the write
  of a text fails, and then what is left of the file.
\<close>

record 'k key_env =
  keReadErr :: "goerr option"
  keParse :: "string \<Rightarrow> goerr + 'k"
  keGenerate :: "goerr + 'k"
  keSeed :: "'k \<Rightarrow> bytes"
  keWrite :: "bytes \<Rightarrow> (goerr \<times> bytes option) option"

type_synonym disk = "string \<Rightarrow> bytes option"

definition load_or_create_secret_key :: "'k key_env \<Rightarrow> string \<Rightarrow> disk \<Rightarrow> disk \<times> (goerr + 'k)" where
  "load_or_create_secret_key env path fs =
     (case keReadErr env of
        Some e \<Rightarrow> (fs, Inl (Wrapf ''read key file: '' e []))
      | None \<Rightarrow>
          (case fs path of
             Some b \<Rightarrow>
               (fs, case keParse env (trim_space (string_of b)) of
                      Inl e \<Rightarrow> Inl (Wrapf (''parse key file '' @ path @ '': '') e [])
                    | Inr sk \<Rightarrow> Inr sk)
           | None \<Rightarrow>
               (case keGenerate env of
                  Inl e \<Rightarrow> (fs, Inl e)
                | Inr sk \<Rightarrow>
                    let text = bytes_of (hex_encode (keSeed env sk) @ [CHR 0x0A]) in
                    (case keWrite env text of
                       Some (e, left) \<Rightarrow> (fs(path := left), Inl (Wrapf ''write key file: '' e []))
                     | None \<Rightarrow> (fs(path := Some text), Inr sk)))))"

section \<open>The action\<close>

datatype resource = ObjectStore | RefStore | Endpoint nat | Publisher

text \<open>
  What the command does, in order: \<open>Serving i\<close> is the start of \<open>Serve\<close> on endpoint \<open>i\<close> (the data
  endpoints count from 1), \<open>Joined\<close> that the \<open>Serve\<close> of every endpoint has returned.
\<close>

datatype host_event =
    Opened resource
  | Closed resource
  | External addr_port
  | MdnsPublish "transport_addr list"
  | PkarrPublish "transport_addr list"
  | DataPorts "16 word list"
  | Serving nat
  | Joined

record host_flags =
  hfStore :: string
  hfKey :: string
  hfRelay :: string
  hfAdvertise :: "string list"
  hfDataEndpoints :: int

text \<open>
  \<open>heBind sk mode i\<close> binds endpoint \<open>i\<close> with a secret key and gives its local port (data endpoints
  have no relay); \<open>heAddr\<close> are the addresses of the bound
  endpoint and \<open>heWithIP\<close> adds one to them.
\<close>

record ('k, 'u) host_env =
  heOpenObjects :: "goerr option"
  heOpenRefs :: "goerr option"
  heKey :: "'k key_env"
  heParseURL :: "string \<Rightarrow> goerr + 'u"
  heNearest :: "goerr + 'u list"
  heBind :: "'k \<Rightarrow> 'u relay_mode option \<Rightarrow> nat \<Rightarrow> goerr + 16 word"
  heOnline :: "goerr option"
  heParser :: addr_parser
  heIfaces :: "goerr + (string \<times> bool \<times> (goerr + net_addr list)) list"
  heAddr :: "transport_addr list"
  heWithIP :: "transport_addr list \<Rightarrow> addr_port \<Rightarrow> transport_addr list"
  hePublisher :: "goerr option"

text \<open>A resource that was opened is closed when the action returns (a \<open>defer\<close>).\<close>

definition deferring :: "resource \<Rightarrow> host_event list \<times> 'x \<Rightarrow> host_event list \<times> 'x" where
  "deferring r b = (Opened r # fst b @ [Closed r], snd b)"

definition after :: "host_event list \<Rightarrow> host_event list \<times> 'x \<Rightarrow> host_event list \<times> 'x" where
  "after ev b = (ev @ fst b, snd b)"

definition direct_addrs :: "('k, 'u) host_env \<Rightarrow> string list \<Rightarrow> 16 word \<Rightarrow> goerr + addr_port list" where
  "direct_addrs env vals port =
     (if vals \<noteq> [] then parse_advertise_addrs (heParser env) vals port
      else case local_iface_addrs (heIfaces env) of
        Inl e \<Rightarrow> Inl (Wrapf ''interface addresses: '' e [])
      | Inr ifaces \<Rightarrow> Inr (advertised_addr_ports ifaces port))"

definition clamp_data_endpoints :: "int \<Rightarrow> nat" where
  "clamp_data_endpoints n = (let n1 = (if n < 0 then 0 else n); n2 = (if 15 < n1 then 15 else n1) in nat n2)"

text \<open>The loop that binds the data endpoints \<open>i + 1\<close> to \<open>i + n\<close>, and what follows it.\<close>

fun data_loop ::
  "(nat \<Rightarrow> goerr + 16 word) \<Rightarrow> nat \<Rightarrow> nat \<Rightarrow> 16 word list \<Rightarrow>
     (16 word list \<Rightarrow> host_event list \<times> goerr option) \<Rightarrow> host_event list \<times> goerr option" where
  "data_loop bind i 0 ports rest = rest ports"
| "data_loop bind i (Suc n) ports rest =
     (case bind (Suc i) of
        Inl e \<Rightarrow> ([], Some (Wrapf ''bind data endpoint: '' e []))
      | Inr port \<Rightarrow>
          deferring (Endpoint (Suc i))
            (after [Serving (Suc i)] (data_loop bind (Suc i) n (ports @ [port]) rest)))"

text \<open>From the open stores on: \<open>Serve\<close> returns nil.\<close>

definition serve_endpoints :: "('k, 'u) host_env \<Rightarrow> 'k \<Rightarrow> int \<Rightarrow> host_event list \<times> goerr option" where
  "serve_endpoints env sk n =
     data_loop (heBind env sk None) 0 (clamp_data_endpoints n) []
       (\<lambda>ports. ([DataPorts ports, Serving 0, Joined], None))"

definition publish_and_serve :: "('k, 'u) host_env \<Rightarrow> 'k \<Rightarrow> host_flags \<Rightarrow> 16 word \<Rightarrow> host_event list \<times> goerr option" where
  "publish_and_serve env sk hf port =
     (case heOnline env of
        Some e \<Rightarrow> ([], Some (Wrapf ''connect to relay: '' e []))
      | None \<Rightarrow>
          (case direct_addrs env (hfAdvertise hf) port of
             Inl e \<Rightarrow> ([], Some e)
           | Inr direct \<Rightarrow>
               let announced = map External direct @ [MdnsPublish (map IPAddr direct)] in
               (case hePublisher env of
                  Some e \<Rightarrow> (announced, Some (Wrapf ''pkarr publisher: '' e []))
                | None \<Rightarrow>
                    after announced (deferring Publisher
                      (after [PkarrPublish (publishable_addrs (foldl (heWithIP env) (heAddr env) direct))]
                        (serve_endpoints env sk (hfDataEndpoints hf)))))))"

definition bind_and_serve ::
  "('k, 'u) host_env \<Rightarrow> host_flags \<Rightarrow> disk \<Rightarrow> disk \<times> host_event list \<times> goerr option" where
  "bind_and_serve env hf fs =
     (case load_or_create_secret_key (heKey env) (hfKey hf) fs of
        (fs', Inl e) \<Rightarrow> (fs', [], Some (Wrapf ''load secret key: '' e []))
      | (fs', Inr sk) \<Rightarrow>
          (fs', case server_relay_mode (heParseURL env) (heNearest env) (hfRelay hf) of
             Inl e \<Rightarrow> ([], Some e)
           | Inr mode \<Rightarrow>
               (case heBind env sk (Some mode) 0 of
                  Inl e \<Rightarrow> ([], Some (Wrapf ''bind: '' e []))
                | Inr port \<Rightarrow> deferring (Endpoint 0) (publish_and_serve env sk hf port))))"

definition run_serve ::
  "('k, 'u) host_env \<Rightarrow> host_flags \<Rightarrow> disk \<Rightarrow> disk \<times> host_event list \<times> goerr option" where
  "run_serve env hf fs =
     (if hfStore hf = [] then (fs, [], Some (ErrorText ''no store directory: set --store or $AMBER_STORE''))
      else case heOpenObjects env of
        Some e \<Rightarrow> (fs, [], Some e)
      | None \<Rightarrow>
          (case heOpenRefs env of
             Some e \<Rightarrow> (fs, deferring ObjectStore ([], Some e))
           | None \<Rightarrow>
               (case bind_and_serve env hf fs of
                  (fs', b) \<Rightarrow> (fs', deferring ObjectStore (deferring RefStore b)))))"

section \<open>Lemmas: the key file\<close>

lemma find_none: "\<forall>x\<in>set xs. \<not> P x \<Longrightarrow> find P xs = None"
  by (simp add: find_None_iff)

lemma trim_front_none:
  assumes "\<forall>p\<in>set sps. p \<noteq> [] \<longrightarrow> \<not> prefix p s"
  shows "trim_front sps s = s"
proof -
  from assms have "find (\<lambda>p. p \<noteq> [] \<and> prefix p s) sps = None" by (intro find_none) blast
  then show ?thesis by (subst trim_front.simps) simp
qed

lemma trim_front_head:
  assumes "\<forall>p\<in>set sps. p \<noteq> [] \<longrightarrow> hex_val (hd p) = None" and "\<forall>c\<in>set s. hex_val c \<noteq> None"
  shows "trim_front sps s = s"
proof (rule trim_front_none, intro ballI impI notI)
  fix p assume p: "p \<in> set sps" "p \<noteq> []" "prefix p s"
  then have "hd p \<in> set s" by (metis hd_in_set set_mono_prefix subsetD)
  with assms p show False by blast
qed

lemma hex_encode_chars: "\<forall>c\<in>set (hex_encode b). hex_val c \<noteq> None"
  by (auto simp: hex_encode_def)

lemma spaces_not_hex: "\<forall>p\<in>set utf8_spaces. hex_val (hd p) = None" "\<forall>p\<in>set (map rev utf8_spaces). hex_val (hd p) = None"
  by (simp_all add: utf8_spaces_def hex_val_def)

lemma trim_newline: "trim_front (map rev utf8_spaces) (CHR 0x0A # s) = trim_front (map rev utf8_spaces) s"
proof -
  have "find (\<lambda>p. p \<noteq> [] \<and> prefix p (CHR 0x0A # s)) (map rev utf8_spaces) = Some [CHR 0x0A]"
    by (simp add: utf8_spaces_def)
  then show ?thesis by (subst trim_front.simps) simp
qed

lemma trim_hex_line: "trim_space (hex_encode b @ [CHR 0x0A]) = hex_encode b"
proof (cases "hex_encode b")
  case Nil
  have "find (\<lambda>p. p \<noteq> [] \<and> prefix p [CHR 0x0A]) utf8_spaces = Some [CHR 0x0A]" by (simp add: utf8_spaces_def)
  then have "trim_front utf8_spaces [CHR 0x0A] = trim_front utf8_spaces []" by (subst trim_front.simps) simp
  moreover have "trim_front sps [] = []" for sps by (rule trim_front_none) auto
  ultimately show ?thesis using Nil by (simp add: trim_space_def)
next
  case (Cons c s)
  have h: "\<forall>x\<in>set (c # s). hex_val x \<noteq> None" using hex_encode_chars [of b] Cons by simp
  have "trim_front utf8_spaces (c # s @ [CHR 0x0A]) = c # s @ [CHR 0x0A]"
    using spaces_not_hex(1) h by (intro trim_front_none) (fastforce simp: prefix_def neq_Nil_conv)
  moreover have "trim_front (map rev utf8_spaces) (rev (c # s)) = rev (c # s)"
    using spaces_not_hex(2) h by (intro trim_front_head) auto
  ultimately show ?thesis using Cons by (simp add: trim_space_def trim_newline)
qed

section \<open>Lemmas: the trace\<close>

definition opened :: "host_event list \<Rightarrow> resource list" where
  "opened ev = List.map_filter (\<lambda>e. case e of Opened r \<Rightarrow> Some r | _ \<Rightarrow> None) ev"

definition closed_res :: "host_event list \<Rightarrow> resource list" where
  "closed_res ev = List.map_filter (\<lambda>e. case e of Closed r \<Rightarrow> Some r | _ \<Rightarrow> None) ev"

text \<open>Every resource opened is closed, in the reverse order, and none is opened twice or in \<open>no\<close>.\<close>

definition nested :: "resource set \<Rightarrow> host_event list \<Rightarrow> bool" where
  "nested no ev \<longleftrightarrow> closed_res ev = rev (opened ev) \<and> distinct (opened ev) \<and> set (opened ev) \<inter> no = {}"

lemma res_simps [simp]:
  "opened [] = []" "closed_res [] = []" "opened (xs @ ys) = opened xs @ opened ys"
  "closed_res (xs @ ys) = closed_res xs @ closed_res ys"
  "opened (map External as) = []" "closed_res (map External as) = []"
  by (simp_all add: opened_def closed_res_def List.map_filter_def comp_def)

lemma res_Cons [simp]:
  "opened (e # ev) = (case e of Opened r \<Rightarrow> r # opened ev | _ \<Rightarrow> opened ev)"
  "closed_res (e # ev) = (case e of Closed r \<Rightarrow> r # closed_res ev | _ \<Rightarrow> closed_res ev)"
  by (simp_all add: opened_def closed_res_def List.map_filter_def split: host_event.split)

lemma fst_simps [simp]: "fst (deferring r b) = Opened r # fst b @ [Closed r]" "fst (after ev b) = ev @ fst b"
  "snd (deferring r b) = snd b" "snd (after ev b) = snd b"
  by (simp_all add: deferring_def after_def)

lemma nested_deferring: "nested (insert r no) (fst b) \<Longrightarrow> r \<notin> no \<Longrightarrow> nested no (fst (deferring r b))"
  by (auto simp: nested_def)

lemma nested_after: "opened ev = [] \<Longrightarrow> closed_res ev = [] \<Longrightarrow> nested no (fst b) \<Longrightarrow> nested no (fst (after ev b))"
  by (simp add: nested_def)

lemma nested_quiet [simp]: "nested no []" "nested no (map External as @ [MdnsPublish ts])"
  by (simp_all add: nested_def)

lemma data_loop_nested:
  assumes "\<And>ps. opened (fst (rest ps)) = [] \<and> closed_res (fst (rest ps)) = []"
  shows "\<forall>j>i. Endpoint j \<notin> no \<Longrightarrow> nested no (fst (data_loop bind i n ports rest))"
proof (induction n arbitrary: i ports no)
  case 0
  then show ?case using assms [of ports] by (simp add: nested_def)
next
  case (Suc n)
  show ?case
  proof (cases "bind (Suc i)")
    case (Inr port)
    have "nested (insert (Endpoint (Suc i)) no) (fst (data_loop bind (Suc i) n (ports @ [port]) rest))"
      by (rule Suc.IH) (use Suc.prems in auto)
    with Inr Suc.prems show ?thesis
      by (simp del: fst_simps) (intro nested_deferring nested_after; simp)
  qed (simp add: nested_def)
qed

lemma serve_endpoints_nested: "\<forall>j>0. Endpoint j \<notin> no \<Longrightarrow> nested no (fst (serve_endpoints env sk n))"
  unfolding serve_endpoints_def by (rule data_loop_nested) simp_all

lemma publish_and_serve_nested:
  assumes "\<forall>j>0. Endpoint j \<notin> no" and "Publisher \<notin> no"
  shows "nested no (fst (publish_and_serve env sk hf port))"
proof -
  have "\<forall>j>0. Endpoint j \<notin> insert Publisher no" using assms(1) by simp
  from serve_endpoints_nested [OF this] assms(2) show ?thesis
    unfolding publish_and_serve_def Let_def
    by (auto simp del: fst_simps split: option.split sum.split
        intro!: nested_deferring nested_after)
qed

lemma run_serve_nested: "nested {} (fst (snd (run_serve env hf fs)))"
proof -
  have p: "nested {Endpoint 0, RefStore, ObjectStore} (fst (publish_and_serve env sk hf port))" for sk port
    by (rule publish_and_serve_nested) simp_all
  have b: "nested {RefStore, ObjectStore} (fst (snd (bind_and_serve env hf fs)))"
    unfolding bind_and_serve_def using p
    by (auto simp del: fst_simps split: sum.split prod.split intro!: nested_deferring)
  then show ?thesis
    unfolding run_serve_def
    by (auto simp del: fst_simps split: option.split prod.split intro!: nested_deferring)
qed

text \<open>The events of serving, in order.\<close>

definition serving :: "host_event list \<Rightarrow> host_event list" where
  "serving ev = filter (\<lambda>e. case e of DataPorts ps \<Rightarrow> True | Serving i \<Rightarrow> True | Joined \<Rightarrow> True | _ \<Rightarrow> False) ev"

lemma serving_simps [simp]:
  "serving [] = []" "serving (e # ev) = (case e of DataPorts ps \<Rightarrow> e # serving ev | Serving i \<Rightarrow> e # serving ev
     | Joined \<Rightarrow> e # serving ev | _ \<Rightarrow> serving ev)" "serving (xs @ ys) = serving xs @ serving ys"
  "serving (map External as) = []"
  by (simp_all add: serving_def comp_def split: host_event.split)

lemma data_loop_ok:
  "data_loop bind i n ports rest = (ev, None) \<Longrightarrow>
     \<exists>ps. length ps = n \<and> (\<forall>j<n. bind (Suc (i + j)) = Inr (ps ! j)) \<and> snd (rest (ports @ ps)) = None \<and>
       serving ev = map (\<lambda>j. Serving (Suc (i + j))) [0..<n] @ serving (fst (rest (ports @ ps)))"
proof (induction n arbitrary: i ports ev)
  case 0
  then show ?case by (intro exI [of _ "[]"]) simp
next
  case (Suc n)
  then obtain port where b: "bind (Suc i) = Inr port" by (cases "bind (Suc i)") auto
  obtain ev1 where r: "data_loop bind (Suc i) n (ports @ [port]) rest = (ev1, None)"
    and ev: "serving ev = Serving (Suc i) # serving ev1"
    using Suc.prems b by (cases "data_loop bind (Suc i) n (ports @ [port]) rest") (auto simp: deferring_def after_def)
  from Suc.IH [OF r] obtain ps where ps: "length ps = n" "\<forall>j<n. bind (Suc (Suc i + j)) = Inr (ps ! j)"
    "snd (rest ((ports @ [port]) @ ps)) = None"
    "serving ev1 = map (\<lambda>j. Serving (Suc (Suc i + j))) [0..<n] @ serving (fst (rest ((ports @ [port]) @ ps)))" by blast
  have "\<forall>j<Suc n. bind (Suc (i + j)) = Inr ((port # ps) ! j)"
    using b ps(2) by (auto simp: less_Suc_eq_0_disj)
  moreover have "map (\<lambda>j. Serving (Suc (i + j))) [0..<Suc n] = Serving (Suc i) # map (\<lambda>j. Serving (Suc (Suc i + j))) [0..<n]"
    by (simp add: upt_conv_Cons map_Suc_upt [symmetric] del: upt_Suc)
  ultimately show ?case using ps ev by (intro exI [of _ "port # ps"]) simp
qed

lemma clamp_eq: "clamp_data_endpoints n = nat (min 15 (max 0 n))"
  by (simp add: clamp_data_endpoints_def Let_def)

section \<open>Properties\<close>

text \<open>
  Claim C38 (the endpoint ID is stable).  Once a start has found or made a secret key, every later start
  with the same key path reads the same key, whatever a new key would be: the file is written once,
  with the line that reads back, and never again; and no other file is touched.
\<close>

theorem secret_key_stable:
  assumes "load_or_create_secret_key env path fs = (fs', Inr sk)"
    and "keParse env (hex_encode (keSeed env sk)) = Inr sk"
    and "keReadErr env' = None" and "keParse env' = keParse env"
  shows "load_or_create_secret_key env' path fs' = (fs', Inr sk) \<and> (fs path \<noteq> None \<longrightarrow> fs' = fs) \<and>
    (\<forall>p. p \<noteq> path \<longrightarrow> fs' p = fs p)"
proof (cases "fs path")
  case (Some b)
  with assms show ?thesis
    by (auto simp: load_or_create_secret_key_def split: option.splits sum.splits)
next
  case None
  let ?text = "bytes_of (hex_encode (keSeed env sk) @ [CHR 0x0A])"
  from assms(1) None have "fs' = fs(path := Some ?text)"
    by (auto simp: load_or_create_secret_key_def Let_def split: option.splits sum.splits)
  with assms(2-4) None show ?thesis
    by (simp add: load_or_create_secret_key_def trim_hex_line)
qed

definition sample_key_env :: "8 word \<Rightarrow> bytes key_env" where
  "sample_key_env b = \<lparr>keReadErr = None, keParse = hex_decode, keGenerate = Inr [b, 0x2A], keSeed = id, keWrite = \<lambda>t. None\<rparr>"

theorem secret_key_stable_witness:
  "\<exists>fs. load_or_create_secret_key (sample_key_env 7) ''server.key'' (\<lambda>p. None) = (fs, Inr [7, 0x2A]) \<and>
    load_or_create_secret_key (sample_key_env 9) ''server.key'' fs = (fs, Inr [7, 0x2A])"
proof -
  obtain fs where "load_or_create_secret_key (sample_key_env 7) ''server.key'' (\<lambda>p. None) = (fs, Inr [7, 0x2A])"
    by (simp add: load_or_create_secret_key_def sample_key_env_def)
  with secret_key_stable [OF this, of "sample_key_env 9"] show ?thesis by (simp add: sample_key_env_def)
qed

text \<open>
  Fact (the server closes what it opened).  However the command ends, every store, endpoint and
  publisher it opened is closed when the action returns, each once and in the reverse order.
\<close>

theorem host_releases:
  "closed_res (fst (snd (run_serve env hf fs))) = rev (opened (fst (snd (run_serve env hf fs)))) \<and>
   distinct (opened (fst (snd (run_serve env hf fs))))"
  using run_serve_nested [of env hf fs] by (simp add: nested_def)

text \<open>
  Claim C40 (what the server serves).  When the command ends without an error, it has bound, with the
  secret key of the key file, one data endpoint for each one asked for, at most fifteen and none
  for a negative number, and advertises exactly their ports.  The data endpoints are served before their ports are recorded, although
  \<open>SetDataPorts\<close> is documented to be called before \<open>Serve\<close>; the main endpoint is served last.
\<close>

theorem host_serves:
  assumes "run_serve env hf fs = (fs', ev, None)"
  shows "\<exists>sk ports. load_or_create_secret_key (heKey env) (hfKey hf) fs = (fs', Inr sk) \<and>
    length ports = nat (min 15 (max 0 (hfDataEndpoints hf))) \<and>
    (\<forall>j<length ports. heBind env sk None (Suc j) = Inr (ports ! j)) \<and>
    serving ev = map (\<lambda>j. Serving (Suc j)) [0..<length ports] @ [DataPorts ports, Serving 0, Joined]"
proof -
  from assms obtain b where b: "bind_and_serve env hf fs = (fs', b)" "snd b = None" "serving ev = serving (fst b)"
    by (auto simp: run_serve_def deferring_def split: if_splits option.splits prod.splits)
  then obtain sk port where p: "load_or_create_secret_key (heKey env) (hfKey hf) fs = (fs', Inr sk)" "snd (publish_and_serve env sk hf port) = None" "serving (fst b) = serving (fst (publish_and_serve env sk hf port))"
    by (auto simp: bind_and_serve_def split: sum.splits prod.splits)
  from p(2,3) have s: "snd (serve_endpoints env sk (hfDataEndpoints hf)) = None"
    "serving (fst b) = serving (fst (serve_endpoints env sk (hfDataEndpoints hf)))"
    by (auto simp: publish_and_serve_def Let_def split: sum.splits option.splits)
  then obtain ev1 where "serve_endpoints env sk (hfDataEndpoints hf) = (ev1, None)" by (metis prod.collapse)
  from data_loop_ok [OF this [unfolded serve_endpoints_def]] s b(3) p(1) this show ?thesis
    by (auto simp: clamp_eq)
qed

definition sample_host_env :: "(bytes, string) host_env" where
  "sample_host_env = \<lparr>heOpenObjects = None, heOpenRefs = None, heKey = sample_key_env 7, heParseURL = Inr, heNearest = Inr [],
     heBind = (\<lambda>sk mode i. Inr (of_nat (4000 + i))), heOnline = None,
     heParser = \<lparr>parse_addr_port = \<lambda>s. Inl IoEOF, parse_addr = \<lambda>s. Inr (IP4 5)\<rparr>, heIfaces = Inr [], heAddr = [],
     heWithIP = (\<lambda>as a. as @ [IPAddr a]), hePublisher = None\<rparr>"

definition sample_host_flags :: host_flags where
  "sample_host_flags = \<lparr>hfStore = ''d'', hfKey = ''k'', hfRelay = [], hfAdvertise = [''a''], hfDataEndpoints = 2\<rparr>"

theorem host_serves_witness:
  "\<exists>fs ev. run_serve sample_host_env sample_host_flags (\<lambda>p. None) = (fs, ev, None) \<and>
    serving ev = [Serving 1, Serving 2, DataPorts [4001, 4002], Serving 0, Joined]"
proof -
  obtain fs ev where r: "run_serve sample_host_env sample_host_flags (\<lambda>p. None) = (fs, ev, None)"
    by (simp add: run_serve_def sample_host_env_def sample_host_flags_def bind_and_serve_def load_or_create_secret_key_def
        sample_key_env_def server_relay_mode_def publish_and_serve_def direct_addrs_def serve_endpoints_def
        clamp_data_endpoints_def numeral_2_eq_2 deferring_def after_def)
  from host_serves [OF r] obtain sk ports where p: "length ports = 2" "\<forall>j<2. heBind sample_host_env sk None (Suc j) = Inr (ports ! j)"
    "serving ev = map (\<lambda>j. Serving (Suc j)) [0..<2] @ [DataPorts ports, Serving 0, Joined]"
    by (auto simp: sample_host_flags_def)
  from p(1) obtain a b where ab: "ports = [a, b]" by (auto simp: numeral_2_eq_2 length_Suc_conv)
  with p(2) have "a = 4001" "b = 4002" by (simp_all add: sample_host_env_def All_less_Suc numeral_2_eq_2)
  with r p(3) ab show ?thesis by (simp add: numeral_2_eq_2 upt_rec)
qed

end
