(* ===== verification/Serve_Loop.thy ===== *)
theory Serve_Loop
  imports Prelude
begin

text \<open>
  server/server.go: \<open>Serve\<close> and \<open>serveConn\<close>, the accept loops, as labelled steps of one \<open>Serve\<close>, the
  goroutines of its connections and the handlers of their streams, which interleave freely with
  the peers and with the cancellation of the context.  What a handler does is \<open>handle_stream\<close>.
\<close>

section \<open>State\<close>

text \<open>
  Where a \<open>serveConn\<close> stands: in its accept loop, in \<open>wg.Wait\<close>, past \<open>stop\<close>, and returned.
  \<open>cnRunning\<close> are the streams whose handlers run, \<open>cnNext\<close> the number of streams accepted so far.
\<close>

datatype conn_phase = CnAccepting | CnDraining | CnStopping | CnReturned

record conn_state =
  cnPhase :: conn_phase
  cnRunning :: "nat set"
  cnNext :: nat
  cnClosed :: bool

definition new_conn :: conn_state where
  "new_conn = \<lparr>cnPhase = CnAccepting, cnRunning = {}, cnNext = 0, cnClosed = False\<rparr>"

text \<open>
  Where \<open>Serve\<close> stands: at the loop condition, in \<open>Accept\<close>, in the final \<open>select\<close>, and returned,
  with whether the grace period had elapsed.
\<close>

datatype serve_phase = SvTop | SvAccept | SvWaiting | SvReturned bool

record serve_sys =
  ssCtx :: bool
  ssPhase :: serve_phase
  ssConns :: "conn_state list"

definition serve_start :: serve_sys where
  "serve_start = \<lparr>ssCtx = False, ssPhase = SvTop, ssConns = []\<rparr>"

definition upd_conn :: "nat \<Rightarrow> (conn_state \<Rightarrow> conn_state) \<Rightarrow> serve_sys \<Rightarrow> serve_sys" where
  "upd_conn i f s = s\<lparr>ssConns := (ssConns s)[i := f (ssConns s ! i)]\<rparr>"

section \<open>Steps\<close>

datatype serve_event =
    Cancel
  | Enter
  | Leave
  | Accepted
  | AcceptFailed
  | AfterCancel nat
  | StreamAccepted nat
  | StreamsEnd nat
  | PeerGone nat
  | Handled nat nat
  | Unblocked nat nat
  | Drained nat
  | ConnClosed nat
  | AllReturned
  | GraceElapsed

text \<open>
  \<open>AfterCancel\<close> is the \<open>context.AfterFunc\<close> of a connection.  \<open>AcceptStreamConn\<close> fails because the context
  is cancelled or the connection closed (\<open>StreamsEnd\<close>), or because the peer closed it (\<open>PeerGone\<close>),
  which may happen at any time or never.  Likewise a handler may end at any time as far as the
  peer lets it (\<open>Handled\<close>), but it may also wait for the peer for ever: the server by itself ends
  it only by closing the connections its streams belong to, as a transfer reads streams that
  attached on other connections too (\<open>Unblocked\<close>).
\<close>

inductive serve_step :: "serve_sys \<Rightarrow> serve_event \<Rightarrow> serve_sys \<Rightarrow> bool" where
  cancel: "serve_step s Cancel (s\<lparr>ssCtx := True\<rparr>)"
| enter: "ssPhase s = SvTop \<Longrightarrow> \<not> ssCtx s \<Longrightarrow> serve_step s Enter (s\<lparr>ssPhase := SvAccept\<rparr>)"
| leave: "ssPhase s = SvTop \<Longrightarrow> ssCtx s \<Longrightarrow> serve_step s Leave (s\<lparr>ssPhase := SvWaiting\<rparr>)"
| accepted: "ssPhase s = SvAccept \<Longrightarrow>
    serve_step s Accepted (s\<lparr>ssPhase := SvTop, ssConns := ssConns s @ [new_conn]\<rparr>)"
| accept_failed: "ssPhase s = SvAccept \<Longrightarrow>
    serve_step s AcceptFailed (s\<lparr>ssPhase := (if ssCtx s then SvWaiting else SvTop)\<rparr>)"
| after_cancel: "ssCtx s \<Longrightarrow> i < length (ssConns s) \<Longrightarrow> cnPhase (ssConns s ! i) \<in> {CnAccepting, CnDraining} \<Longrightarrow>
    \<not> cnClosed (ssConns s ! i) \<Longrightarrow> serve_step s (AfterCancel i) (upd_conn i (\<lambda>c. c\<lparr>cnClosed := True\<rparr>) s)"
| stream_accepted: "i < length (ssConns s) \<Longrightarrow> cnPhase (ssConns s ! i) = CnAccepting \<Longrightarrow> \<not> cnClosed (ssConns s ! i) \<Longrightarrow>
    serve_step s (StreamAccepted i)
      (upd_conn i (\<lambda>c. c\<lparr>cnRunning := insert (cnNext c) (cnRunning c), cnNext := Suc (cnNext c)\<rparr>) s)"
| streams_end: "i < length (ssConns s) \<Longrightarrow> cnPhase (ssConns s ! i) = CnAccepting \<Longrightarrow> ssCtx s \<or> cnClosed (ssConns s ! i) \<Longrightarrow>
    serve_step s (StreamsEnd i) (upd_conn i (\<lambda>c. c\<lparr>cnPhase := CnDraining\<rparr>) s)"
| peer_gone: "i < length (ssConns s) \<Longrightarrow> cnPhase (ssConns s ! i) = CnAccepting \<Longrightarrow>
    serve_step s (PeerGone i) (upd_conn i (\<lambda>c. c\<lparr>cnPhase := CnDraining\<rparr>) s)"
| handled: "i < length (ssConns s) \<Longrightarrow> h \<in> cnRunning (ssConns s ! i) \<Longrightarrow>
    serve_step s (Handled i h) (upd_conn i (\<lambda>c. c\<lparr>cnRunning := cnRunning c - {h}\<rparr>) s)"
| unblocked: "i < length (ssConns s) \<Longrightarrow> h \<in> cnRunning (ssConns s ! i) \<Longrightarrow> list_all cnClosed (ssConns s) \<Longrightarrow>
    serve_step s (Unblocked i h) (upd_conn i (\<lambda>c. c\<lparr>cnRunning := cnRunning c - {h}\<rparr>) s)"
| drained: "i < length (ssConns s) \<Longrightarrow> cnPhase (ssConns s ! i) = CnDraining \<Longrightarrow> cnRunning (ssConns s ! i) = {} \<Longrightarrow>
    serve_step s (Drained i) (upd_conn i (\<lambda>c. c\<lparr>cnPhase := CnStopping\<rparr>) s)"
| conn_closed: "i < length (ssConns s) \<Longrightarrow> cnPhase (ssConns s ! i) = CnStopping \<Longrightarrow>
    serve_step s (ConnClosed i) (upd_conn i (\<lambda>c. c\<lparr>cnPhase := CnReturned, cnClosed := True\<rparr>) s)"
| all_returned: "ssPhase s = SvWaiting \<Longrightarrow> \<forall>c\<in>set (ssConns s). cnPhase c = CnReturned \<Longrightarrow>
    serve_step s AllReturned (s\<lparr>ssPhase := SvReturned False\<rparr>)"
| grace_elapsed: "ssPhase s = SvWaiting \<Longrightarrow> serve_step s GraceElapsed (s\<lparr>ssPhase := SvReturned True\<rparr>)"

inductive_cases serve_step_cases: "serve_step s e s'"

fun serve_run :: "serve_sys \<Rightarrow> serve_event list \<Rightarrow> serve_sys \<Rightarrow> bool" where
  "serve_run s [] s' \<longleftrightarrow> s' = s"
| "serve_run s (e # es) s' \<longleftrightarrow> (\<exists>t. serve_step s e t \<and> serve_run t es s')"

section \<open>Lemmas: the invariant\<close>

text \<open>
  A connection is closed by its own goroutine only when no handler of it runs, and by anybody
  else only after the context is cancelled.
\<close>

definition conn_ok :: "bool \<Rightarrow> conn_state \<Rightarrow> bool" where
  "conn_ok ctx c \<longleftrightarrow> cnRunning c \<subseteq> {..<cnNext c} \<and>
     (cnPhase c \<in> {CnStopping, CnReturned} \<longrightarrow> cnRunning c = {}) \<and>
     (cnPhase c = CnReturned \<longrightarrow> cnClosed c) \<and>
     (cnClosed c \<longrightarrow> cnPhase c = CnReturned \<or> ctx)"

definition serve_inv :: "serve_sys \<Rightarrow> bool" where
  "serve_inv s \<longleftrightarrow> (\<forall>c\<in>set (ssConns s). conn_ok (ssCtx s) c) \<and>
     (ssPhase s = SvWaiting \<or> (\<exists>g. ssPhase s = SvReturned g) \<longrightarrow> ssCtx s) \<and>
     (ssPhase s = SvReturned False \<longrightarrow> (\<forall>c\<in>set (ssConns s). cnPhase c = CnReturned))"

lemma upd_conn_fields [simp]:
  "ssCtx (upd_conn i f s) = ssCtx s" "ssPhase (upd_conn i f s) = ssPhase s"
  "ssConns (upd_conn i f s) = (ssConns s)[i := f (ssConns s ! i)]"
  by (simp_all add: upd_conn_def)

lemma upd_conn_inv:
  assumes "serve_inv s" and "i < length (ssConns s)" and "conn_ok (ssCtx s) (ssConns s ! i) \<Longrightarrow> conn_ok (ssCtx s) (f (ssConns s ! i))"
    and "cnPhase (ssConns s ! i) = CnReturned \<Longrightarrow> cnPhase (f (ssConns s ! i)) = CnReturned"
  shows "serve_inv (upd_conn i f s)"
proof -
  have "set ((ssConns s)[i := f (ssConns s ! i)]) \<subseteq> insert (f (ssConns s ! i)) (set (ssConns s))"
    by (rule set_update_subset_insert)
  moreover have "ssConns s ! i \<in> set (ssConns s)" using assms(2) by simp
  ultimately show ?thesis using assms unfolding serve_inv_def by auto
qed

lemma serve_step_inv: "serve_step s e s' \<Longrightarrow> serve_inv s \<Longrightarrow> serve_inv s'"
proof (induction rule: serve_step.induct)
  case (after_cancel s i)
  then show ?case by (intro upd_conn_inv) (auto simp: conn_ok_def)
next
  case (stream_accepted i s)
  then show ?case by (intro upd_conn_inv) (auto simp: conn_ok_def)
next
  case (streams_end i s)
  then show ?case by (intro upd_conn_inv) (auto simp: conn_ok_def)
next
  case (peer_gone i s)
  then show ?case by (intro upd_conn_inv) (auto simp: conn_ok_def)
next
  case (handled i s h)
  then show ?case by (intro upd_conn_inv) (auto simp: conn_ok_def)
next
  case (unblocked i s h)
  then show ?case by (intro upd_conn_inv) (auto simp: conn_ok_def)
next
  case (drained i s)
  then show ?case by (intro upd_conn_inv) (auto simp: conn_ok_def)
next
  case (conn_closed i s)
  then show ?case by (intro upd_conn_inv) (auto simp: conn_ok_def)
qed (auto simp: serve_inv_def conn_ok_def new_conn_def)

lemma serve_run_inv: "serve_run s es s' \<Longrightarrow> serve_inv s \<Longrightarrow> serve_inv s'"
  by (induction es arbitrary: s) (auto dest: serve_step_inv)

lemma serve_start_inv: "serve_inv serve_start"
  by (simp add: serve_inv_def serve_start_def)

lemma reachable_inv: "serve_run serve_start es s \<Longrightarrow> serve_inv s"
  by (rule serve_run_inv [OF _ serve_start_inv])

section \<open>Lemmas: shutting down\<close>

text \<open>
  The steps the server takes by itself once the context is cancelled: they need neither a peer
  nor the grace period.  The other steps are those of the peers, of the clock and of the caller;
  \<open>arrives\<close> are the connections and streams that still come in.
\<close>

fun winds_down :: "serve_event \<Rightarrow> bool" where
  "winds_down Leave = True"
| "winds_down AcceptFailed = True"
| "winds_down (AfterCancel i) = True"
| "winds_down (StreamsEnd i) = True"
| "winds_down (Unblocked i h) = True"
| "winds_down (Drained i) = True"
| "winds_down (ConnClosed i) = True"
| "winds_down AllReturned = True"
| "winds_down e = False"

fun arrives :: "serve_event \<Rightarrow> bool" where
  "arrives Accepted = True"
| "arrives (StreamAccepted i) = True"
| "arrives e = False"

fun conn_rank :: "conn_phase \<Rightarrow> nat" where
  "conn_rank CnAccepting = 3"
| "conn_rank CnDraining = 2"
| "conn_rank CnStopping = 1"
| "conn_rank CnReturned = 0"

fun serve_rank :: "serve_phase \<Rightarrow> nat" where
  "serve_rank SvWaiting = 1"
| "serve_rank (SvReturned g) = 0"
| "serve_rank p = 2"

definition work_of :: "conn_state \<Rightarrow> nat" where
  "work_of c = conn_rank (cnPhase c) + card (cnRunning c) + (if cnClosed c then 0 else 1)"

definition work_left :: "serve_sys \<Rightarrow> nat" where
  "work_left s = serve_rank (ssPhase s) + (\<Sum>c\<leftarrow>ssConns s. work_of c)"

lemma sum_list_upd: "i < length xs \<Longrightarrow> (\<Sum>x\<leftarrow>xs[i := y]. f x) + (f (xs ! i) :: nat) = (\<Sum>x\<leftarrow>xs. f x) + f y"
proof (induction xs arbitrary: i)
  case (Cons x xs)
  then show ?case by (cases i) auto
qed simp

lemma work_upd:
  "i < length (ssConns s) \<Longrightarrow> work_of (f (ssConns s ! i)) + k \<le> work_of (ssConns s ! i) + m \<Longrightarrow>
     work_left (upd_conn i f s) + k \<le> work_left s + m"
  using sum_list_upd [of i "ssConns s" work_of "f (ssConns s ! i)"] by (simp add: work_left_def)

lemma running_finite: "serve_inv s \<Longrightarrow> i < length (ssConns s) \<Longrightarrow> finite (cnRunning (ssConns s ! i))"
  unfolding serve_inv_def conn_ok_def by (metis finite_lessThan finite_subset nth_mem)

text \<open>Every step by itself does work, and only what arrives adds some.\<close>

lemma step_works:
  "serve_step s e s' \<Longrightarrow> serve_inv s \<Longrightarrow> ssCtx s \<Longrightarrow>
     work_left s' + of_bool (winds_down e) \<le> work_left s + 4 * of_bool (arrives e)"
proof (induction rule: serve_step.induct)
  case (handled i s h)
  then show ?case by (intro work_upd) (simp_all add: work_of_def card_Diff1_le)
next
  case (unblocked i s h)
  then have "card (cnRunning (ssConns s ! i) - {h}) < card (cnRunning (ssConns s ! i))"
    by (intro card_Diff1_less running_finite)
  with unblocked show ?case by (intro work_upd) (simp_all add: work_of_def)
next
  case (stream_accepted i s)
  have "card (insert (cnNext (ssConns s ! i)) (cnRunning (ssConns s ! i))) \<le> Suc (card (cnRunning (ssConns s ! i)))"
    by (rule card_insert_le_m1) simp_all
  with stream_accepted show ?case by (intro work_upd) (simp_all add: work_of_def)
next
  case (after_cancel s i)
  then show ?case by (intro work_upd) (simp_all add: work_of_def)
next
  case (streams_end i s)
  then show ?case by (intro work_upd) (simp_all add: work_of_def)
next
  case (peer_gone i s)
  then show ?case by (intro work_upd) (simp_all add: work_of_def)
next
  case (drained i s)
  then show ?case by (intro work_upd) (simp_all add: work_of_def)
next
  case (conn_closed i s)
  then show ?case by (intro work_upd) (simp_all add: work_of_def)
qed (auto simp: work_left_def work_of_def new_conn_def)

lemma step_cancelled: "serve_step s e s' \<Longrightarrow> ssCtx s \<Longrightarrow> ssCtx s'"
  by (induction rule: serve_step.induct) auto

lemma run_works:
  "serve_run s es s' \<Longrightarrow> serve_inv s \<Longrightarrow> ssCtx s \<Longrightarrow>
     length (filter winds_down es) + work_left s' \<le> work_left s + 4 * length (filter arrives es)"
proof (induction es arbitrary: s)
  case (Cons e es)
  from Cons.prems(1) obtain t where t: "serve_step s e t" "serve_run t es s'" by auto
  from Cons.IH [OF t(2) serve_step_inv [OF t(1) Cons.prems(2)] step_cancelled [OF t(1) Cons.prems(3)]]
    step_works [OF t(1) Cons.prems(2,3)]
  show ?case by (auto simp: of_bool_def split: if_splits)
qed simp

text \<open>What still arrives: at most the connection that was being accepted, and no stream on a closed connection.\<close>

lemma accepts_once:
  "serve_run s es s' \<Longrightarrow> ssCtx s \<Longrightarrow> length (filter ((=) Accepted) es) \<le> of_bool (ssPhase s = SvAccept)"
proof (induction es arbitrary: s)
  case (Cons e es)
  from Cons.prems(1) obtain t where t: "serve_step s e t" "serve_run t es s'" by auto
  from t(1) Cons.IH [OF t(2) step_cancelled [OF t(1) Cons.prems(2)]] Cons.prems(2) show ?case
    by (cases rule: serve_step.cases) (auto simp: of_bool_def split: if_splits)
qed simp

lemma step_keeps_closed:
  "serve_step s e s' \<Longrightarrow> i < length (ssConns s) \<Longrightarrow> cnClosed (ssConns s ! i) \<Longrightarrow>
     i < length (ssConns s') \<and> cnClosed (ssConns s' ! i) \<and> e \<noteq> StreamAccepted i"
  by (induction rule: serve_step.induct) (auto simp: nth_list_update nth_append)

lemma closed_accepts_none:
  "serve_run s es s' \<Longrightarrow> i < length (ssConns s) \<Longrightarrow> cnClosed (ssConns s ! i) \<Longrightarrow> StreamAccepted i \<notin> set es"
proof (induction es arbitrary: s)
  case (Cons e es)
  then show ?case using step_keeps_closed by fastforce
qed simp

text \<open>
  The server can go on by itself until everything has returned: as long as a connection is open its
  \<open>AfterFunc\<close> or its own goroutine can close it, and when all are closed their handlers end.
\<close>

lemma open_conn_closes:
  assumes "ssCtx s" and "serve_inv s" and "i < length (ssConns s)" and "\<not> cnClosed (ssConns s ! i)"
  shows "\<exists>e s'. winds_down e \<and> serve_step s e s'"
proof (cases "cnPhase (ssConns s ! i) = CnStopping")
  case True
  with assms(3) show ?thesis using serve_step.conn_closed winds_down.simps(7) by blast
next
  case False
  from assms(2,3) have "conn_ok (ssCtx s) (ssConns s ! i)" by (simp add: serve_inv_def)
  with assms(4) False have "cnPhase (ssConns s ! i) \<in> {CnAccepting, CnDraining}"
    by (cases "cnPhase (ssConns s ! i)") (auto simp: conn_ok_def)
  with assms(1,3,4) show ?thesis using serve_step.after_cancel winds_down.simps(3) by blast
qed

lemma closed_conn_returns:
  assumes "ssCtx s" and "list_all cnClosed (ssConns s)" and "i < length (ssConns s)" and "cnPhase (ssConns s ! i) \<noteq> CnReturned"
  shows "\<exists>e s'. winds_down e \<and> serve_step s e s'"
proof (cases "cnPhase (ssConns s ! i)")
  case CnAccepting
  with assms(1,3) show ?thesis using serve_step.streams_end winds_down.simps(4) by blast
next
  case CnDraining
  show ?thesis
  proof (cases "cnRunning (ssConns s ! i) = {}")
    case True
    with assms(3) CnDraining show ?thesis using serve_step.drained winds_down.simps(6) by blast
  next
    case False
    with assms(2,3) show ?thesis using serve_step.unblocked winds_down.simps(5) by blast
  qed
next
  case CnStopping
  with assms(3) show ?thesis using serve_step.conn_closed winds_down.simps(7) by blast
qed (use assms(4) in simp)

lemma winding_down_goes_on:
  assumes "ssCtx s" and "serve_inv s" and "\<not> ((\<exists>g. ssPhase s = SvReturned g) \<and> (\<forall>c\<in>set (ssConns s). cnPhase c = CnReturned))"
  shows "\<exists>e s'. winds_down e \<and> serve_step s e s'"
proof (cases "\<forall>c\<in>set (ssConns s). cnPhase c = CnReturned")
  case True
  with assms show ?thesis
    using serve_step.leave serve_step.accept_failed serve_step.all_returned winds_down.simps(1,2,8)
    by (cases "ssPhase s") blast+
next
  case False
  then obtain i where i: "i < length (ssConns s)" "cnPhase (ssConns s ! i) \<noteq> CnReturned" by (auto simp: in_set_conv_nth)
  show ?thesis
  proof (cases "list_all cnClosed (ssConns s)")
    case True
    from closed_conn_returns [OF assms(1) this i] show ?thesis .
  next
    case False
    with open_conn_closes [OF assms(1,2)] show ?thesis by (auto simp: list_all_length)
  qed
qed

text \<open>Only the grace period makes \<open>Serve\<close> return with handlers in flight.\<close>

lemma grace_run:
  "serve_run s es s' \<Longrightarrow> ssPhase s' = SvReturned True \<Longrightarrow> ssPhase s = SvReturned True \<or> GraceElapsed \<in> set es"
proof (induction es arbitrary: s)
  case (Cons e es)
  from Cons.prems(1) obtain t where t: "serve_step s e t" "serve_run t es s'" by auto
  from t(1) have "ssPhase t = SvReturned True \<longrightarrow> ssPhase s = SvReturned True \<or> e = GraceElapsed"
    by (cases rule: serve_step.cases) auto
  with Cons.IH [OF t(2) Cons.prems(2)] show ?case by auto
qed simp

lemma serve_run_append: "serve_run s es t \<Longrightarrow> serve_run t es' s' \<Longrightarrow> serve_run s (es @ es') s'"
  by (induction es arbitrary: s) auto

section \<open>Lemmas: the steps compute\<close>

text \<open>The system after an event, when the event is possible.\<close>

fun serve_next :: "serve_sys \<Rightarrow> serve_event \<Rightarrow> serve_sys option" where
  "serve_next s Cancel = Some (s\<lparr>ssCtx := True\<rparr>)"
| "serve_next s Enter = (if ssPhase s = SvTop \<and> \<not> ssCtx s then Some (s\<lparr>ssPhase := SvAccept\<rparr>) else None)"
| "serve_next s Leave = (if ssPhase s = SvTop \<and> ssCtx s then Some (s\<lparr>ssPhase := SvWaiting\<rparr>) else None)"
| "serve_next s Accepted =
    (if ssPhase s = SvAccept then Some (s\<lparr>ssPhase := SvTop, ssConns := ssConns s @ [new_conn]\<rparr>) else None)"
| "serve_next s AcceptFailed =
    (if ssPhase s = SvAccept then Some (s\<lparr>ssPhase := (if ssCtx s then SvWaiting else SvTop)\<rparr>) else None)"
| "serve_next s (AfterCancel i) =
    (if ssCtx s \<and> i < length (ssConns s) \<and> cnPhase (ssConns s ! i) \<in> {CnAccepting, CnDraining} \<and> \<not> cnClosed (ssConns s ! i)
     then Some (upd_conn i (\<lambda>c. c\<lparr>cnClosed := True\<rparr>) s) else None)"
| "serve_next s (StreamAccepted i) =
    (if i < length (ssConns s) \<and> cnPhase (ssConns s ! i) = CnAccepting \<and> \<not> cnClosed (ssConns s ! i)
     then Some (upd_conn i (\<lambda>c. c\<lparr>cnRunning := insert (cnNext c) (cnRunning c), cnNext := Suc (cnNext c)\<rparr>) s) else None)"
| "serve_next s (StreamsEnd i) =
    (if i < length (ssConns s) \<and> cnPhase (ssConns s ! i) = CnAccepting \<and> (ssCtx s \<or> cnClosed (ssConns s ! i))
     then Some (upd_conn i (\<lambda>c. c\<lparr>cnPhase := CnDraining\<rparr>) s) else None)"
| "serve_next s (PeerGone i) =
    (if i < length (ssConns s) \<and> cnPhase (ssConns s ! i) = CnAccepting
     then Some (upd_conn i (\<lambda>c. c\<lparr>cnPhase := CnDraining\<rparr>) s) else None)"
| "serve_next s (Handled i h) =
    (if i < length (ssConns s) \<and> h \<in> cnRunning (ssConns s ! i)
     then Some (upd_conn i (\<lambda>c. c\<lparr>cnRunning := cnRunning c - {h}\<rparr>) s) else None)"
| "serve_next s (Unblocked i h) =
    (if i < length (ssConns s) \<and> h \<in> cnRunning (ssConns s ! i) \<and> list_all cnClosed (ssConns s)
     then Some (upd_conn i (\<lambda>c. c\<lparr>cnRunning := cnRunning c - {h}\<rparr>) s) else None)"
| "serve_next s (Drained i) =
    (if i < length (ssConns s) \<and> cnPhase (ssConns s ! i) = CnDraining \<and> cnRunning (ssConns s ! i) = {}
     then Some (upd_conn i (\<lambda>c. c\<lparr>cnPhase := CnStopping\<rparr>) s) else None)"
| "serve_next s (ConnClosed i) =
    (if i < length (ssConns s) \<and> cnPhase (ssConns s ! i) = CnStopping
     then Some (upd_conn i (\<lambda>c. c\<lparr>cnPhase := CnReturned, cnClosed := True\<rparr>) s) else None)"
| "serve_next s AllReturned =
    (if ssPhase s = SvWaiting \<and> list_all (\<lambda>c. cnPhase c = CnReturned) (ssConns s)
     then Some (s\<lparr>ssPhase := SvReturned False\<rparr>) else None)"
| "serve_next s GraceElapsed = (if ssPhase s = SvWaiting then Some (s\<lparr>ssPhase := SvReturned True\<rparr>) else None)"

lemma serve_next_step: "serve_next s e = Some s' \<Longrightarrow> serve_step s e s'"
  by (cases e) (auto intro: serve_step.intros simp: serve_step.simps [of _ AcceptFailed] list_all_iff split: if_splits)

fun serve_nexts :: "serve_sys \<Rightarrow> serve_event list \<Rightarrow> serve_sys option" where
  "serve_nexts s [] = Some s"
| "serve_nexts s (e # es) = (case serve_next s e of None \<Rightarrow> None | Some t \<Rightarrow> serve_nexts t es)"

lemma serve_nexts_run: "serve_nexts s es = Some s' \<Longrightarrow> serve_run s es s'"
  by (induction es arbitrary: s) (auto dest: serve_next_step split: option.splits)

section \<open>Properties\<close>

text \<open>
  Claim C23 (a connection is closed last): closing a QUIC connection discards what its streams have not
  delivered, so however the peers, the handlers and the cancellation interleave, a connection that
  is closed while a handler of it runs was closed because the context was cancelled; a \<open>serveConn\<close>
  that has returned has closed its connection and none of its handlers runs; and a \<open>Serve\<close> that has
  returned was cancelled, and unless the grace period elapsed every connection it accepted is closed
  and every handler has returned.
\<close>

theorem serve_closes_last:
  assumes "serve_run serve_start es s"
  shows "(\<forall>c\<in>set (ssConns s). (cnClosed c \<and> cnRunning c \<noteq> {} \<longrightarrow> ssCtx s) \<and>
            (cnPhase c = CnReturned \<longrightarrow> cnClosed c \<and> cnRunning c = {})) \<and>
         (\<forall>g. ssPhase s = SvReturned g \<longrightarrow> ssCtx s \<and>
            (g \<or> (\<forall>c\<in>set (ssConns s). cnClosed c \<and> cnRunning c = {})))"
  using reachable_inv [OF assms] unfolding serve_inv_def conn_ok_def by (simp add: ball_conj_distrib) (metis (full_types))

text \<open>Two streams of one connection, one of them still running when the context is cancelled.\<close>

definition sample_serve :: "serve_event list" where
  "sample_serve = [Enter, Accepted, StreamAccepted 0, StreamAccepted 0, Handled 0 0, Cancel, Leave, AfterCancel 0, StreamsEnd 0]"

definition sample_served :: serve_sys where
  "sample_served = \<lparr>ssCtx = True, ssPhase = SvWaiting,
     ssConns = [\<lparr>cnPhase = CnDraining, cnRunning = {1}, cnNext = 2, cnClosed = True\<rparr>]\<rparr>"

lemma sample_serve_run: "serve_run serve_start sample_serve sample_served"
  by (rule serve_nexts_run) (simp add: sample_serve_def sample_served_def serve_start_def new_conn_def upd_conn_def insert_Diff_if)

theorem serve_closes_last_witness:
  "\<exists>c. c \<in> set (ssConns sample_served) \<and> cnClosed c \<and> cnRunning c \<noteq> {} \<and> ssCtx sample_served"
  using serve_closes_last [OF sample_serve_run] by (simp add: sample_served_def)

text \<open>The rest of that run: the server ends the handler that still waits for its peer.\<close>

definition sample_end :: "serve_event list" where
  "sample_end = [Unblocked 0 1, Drained 0, ConnClosed 0, AllReturned]"

definition sample_ended :: serve_sys where
  "sample_ended = \<lparr>ssCtx = True, ssPhase = SvReturned False,
     ssConns = [\<lparr>cnPhase = CnReturned, cnRunning = {}, cnNext = 2, cnClosed = True\<rparr>]\<rparr>"

lemma sample_end_run: "serve_run sample_served sample_end sample_ended"
  by (rule serve_nexts_run) (simp add: sample_end_def sample_served_def sample_ended_def upd_conn_def)

text \<open>
  Claim C24 (shutting down ends).  Take any run that goes on after the context is cancelled, with
  whatever the peers do or fail to do meanwhile.  The server's own steps in it (an accept call that
  fails, the \<open>AfterFunc\<close> of a connection, a handler whose connections are closed, a \<open>serveConn\<close>
  moving on) number at most the work that was left plus four for each connection or stream that
  still came in; at most one connection does, and no stream on a connection that is closed.  The
  server never gets stuck on a peer: where no step of its own is left, \<open>Serve\<close> has returned, every
  connection is closed and no handler runs, and unless the grace period elapsed it returned only
  then.
\<close>

theorem serve_shuts_down:
  assumes "serve_run serve_start es s" and "ssCtx s" and "serve_run s es' s'"
  shows "length (filter winds_down es') + work_left s' \<le> work_left s + 4 * length (filter arrives es') \<and>
    length (filter ((=) Accepted) es') \<le> 1 \<and>
    (\<forall>i<length (ssConns s). cnClosed (ssConns s ! i) \<longrightarrow> StreamAccepted i \<notin> set es') \<and>
    ((\<nexists>e t. winds_down e \<and> serve_step s' e t) \<longrightarrow>
       (\<exists>g. ssPhase s' = SvReturned g \<and> (g \<longrightarrow> GraceElapsed \<in> set (es @ es'))) \<and>
       (\<forall>c\<in>set (ssConns s'). cnClosed c \<and> cnRunning c = {}))"
proof (intro conjI)
  note inv = reachable_inv [OF assms(1)] and r = serve_run_append [OF assms(1,3)]
  show "length (filter winds_down es') + work_left s' \<le> work_left s + 4 * length (filter arrives es')"
    by (rule run_works [OF assms(3) inv assms(2)])
  show "length (filter ((=) Accepted) es') \<le> 1"
    using accepts_once [OF assms(3,2)] by (simp add: of_bool_def split: if_splits)
  show "\<forall>i<length (ssConns s). cnClosed (ssConns s ! i) \<longrightarrow> StreamAccepted i \<notin> set es'"
    using closed_accepts_none [OF assms(3)] by blast
  have ctx: "ssCtx s'" using assms(2,3) by (induction es' arbitrary: s) (auto dest: step_cancelled)
  show "(\<nexists>e t. winds_down e \<and> serve_step s' e t) \<longrightarrow>
       (\<exists>g. ssPhase s' = SvReturned g \<and> (g \<longrightarrow> GraceElapsed \<in> set (es @ es'))) \<and>
       (\<forall>c\<in>set (ssConns s'). cnClosed c \<and> cnRunning c = {})"
  proof
    assume "\<nexists>e t. winds_down e \<and> serve_step s' e t"
    with winding_down_goes_on [OF ctx reachable_inv [OF r]] obtain g where
      g: "ssPhase s' = SvReturned g" "\<forall>c\<in>set (ssConns s'). cnPhase c = CnReturned" by blast
    with reachable_inv [OF r] have "\<forall>c\<in>set (ssConns s'). cnClosed c \<and> cnRunning c = {}"
      by (auto simp: serve_inv_def conn_ok_def)
    moreover have "g \<longrightarrow> GraceElapsed \<in> set (es @ es')"
      using grace_run [OF r] g(1) by (auto simp: serve_start_def)
    ultimately show "(\<exists>g. ssPhase s' = SvReturned g \<and> (g \<longrightarrow> GraceElapsed \<in> set (es @ es'))) \<and>
       (\<forall>c\<in>set (ssConns s'). cnClosed c \<and> cnRunning c = {})" using g(1) by blast
  qed
qed

theorem serve_shuts_down_witness:
  "serve_run sample_served sample_end sample_ended \<and> length (filter winds_down sample_end) = 4 \<and>
   length (filter winds_down sample_end) + work_left sample_ended \<le> work_left sample_served \<and>
   ssPhase sample_ended = SvReturned False"
  using serve_shuts_down [OF sample_serve_run _ sample_end_run] sample_end_run
  by (simp add: sample_served_def sample_ended_def sample_end_def)

end
