(* ===== verification/Commands.thy ===== *)
theory Commands
  imports Listing Client_Props Serve_Main
begin

text \<open>
  cmd/amber/main.go and the command tables of cmd/amber/*.go and cmd/amber-serve/main.go: the flags
  and commands the programs hand to the command line library, the actions behind them, and the
  exit code.  The library itself is a parameter: given the table and the arguments it ends by
  itself (help, a usage error) or invokes an action with the values of the flags.
\<close>

section \<open>Flags and commands\<close>

datatype flag_val = FBool bool | FInt int | FString string | FStrings "string list"

record cli_flag =
  cfName :: string
  cfAliases :: "string list"
  cfUsage :: string
  cfDefault :: flag_val
  cfRequired :: bool
  cfEnv :: "string list"

definition plain_flag :: "string \<Rightarrow> flag_val \<Rightarrow> string \<Rightarrow> cli_flag" where
  "plain_flag name v usage =
     \<lparr>cfName = name, cfAliases = [], cfUsage = usage, cfDefault = v, cfRequired = False, cfEnv = []\<rparr>"

datatype action =
    ActImport | ActLs | ActExport | ActRestore | ActRefList | ActRefGet | ActRefSet | ActRefRm
  | ActPush | ActPull | ActRefs | ActServe

text \<open>A command: its name, usage, arguments, flags, subcommands and action.\<close>

datatype command = Command string string string "cli_flag list" "command list" "action option"

text \<open>The constants of the libraries and the machine that the tables mention.\<close>

record cli_defaults =
  dfMin :: int
  dfAvg :: int
  dfMax :: int
  dfItemBits :: int
  dfXattrInlineMax :: int
  dfProcs :: int

definition store_flag :: cli_flag where
  "store_flag = (plain_flag ''store'' (FString []) ''store directory (layout: <dir>/packstore, <dir>/refs)'')
     \<lparr>cfEnv := [''AMBER_STORE'']\<rparr>"

definition chunk_flags :: "cli_defaults \<Rightarrow> cli_flag list" where
  "chunk_flags d =
     [plain_flag ''min'' (FInt (dfMin d)) ''ultracdc minimum chunk size in bytes'',
      plain_flag ''avg'' (FInt (dfAvg d)) ''ultracdc average (normal) chunk size in bytes'',
      plain_flag ''max'' (FInt (dfMax d)) ''ultracdc maximum chunk size in bytes'',
      plain_flag ''item-bits'' (FInt (dfItemBits d)) ''item chunker average run = 2^bits'',
      plain_flag ''xattr-inline-max'' (FInt (dfXattrInlineMax d))
        ''xattrs larger than this many bytes spill to an XattrSet'']"

definition no_progress_flag :: cli_flag where
  "no_progress_flag = plain_flag ''no-progress'' (FBool False) ''disable the progress bar''"

definition server_flag_table :: "cli_flag list" where
  "server_flag_table =
     [(plain_flag ''server'' (FString []) ''endpoint ID of the server (printed in its startup log)'')\<lparr>cfRequired := True\<rparr>,
      plain_flag ''addr'' (FStrings [])
        ''direct server address host:port or ip:port (repeatable; skips discovery and relays)'',
      plain_flag ''relay'' (FString [])
        ''relay server URL to use as the fallback path (default: the built-in relay map)'']"

definition conns_flag_entry :: cli_flag where
  "conns_flag_entry = plain_flag ''conns'' (FInt 4)
     ''parallel connections for the transfer (1-16; servers without support fall back to 1)''"

section \<open>The tables\<close>

definition import_command :: "cli_defaults \<Rightarrow> command" where
  "import_command d = Command ''import''
     ''import PATH (a directory or a single file) into the local store and print the root key'' ''PATH''
     (chunk_flags d @
       [plain_flag ''ref'' (FString []) ''record the resolved root under reference NAME'',
        (plain_flag ''jobs'' (FInt (dfProcs d)) ''concurrent workers building the tree (default: number of CPUs)'')
          \<lparr>cfAliases := [''j'']\<rparr>,
        plain_flag ''no-ignore'' (FBool False) ''do not honor .amberignore files'',
        no_progress_flag]) [] (Some ActImport)"

definition ls_command :: command where
  "ls_command = Command ''ls''
     (''list the entries of the directory object KEY, or of the subdirectory PATH within it; '' @
      ''accepts a reference as ref:NAME[@PATH]'') ''KEY[/PATH] | ref:NAME[@PATH]''
     [plain_flag ''keys'' (FBool False)
        ''append each entry's content key (usable as KEY for ls/export/restore)''] [] (Some ActLs)"

definition export_command :: command where
  "export_command = Command ''export''
     (''write the tree rooted at KEY, or at the subdirectory PATH within it, as a PAX tar to stdout; '' @
      ''accepts a reference as ref:NAME[@PATH]'') ''KEY[/PATH] | ref:NAME[@PATH]''
     [(plain_flag ''output'' (FString []) ''write the tar to FILE instead of stdout'')\<lparr>cfAliases := [''o'']\<rparr>]
     [] (Some ActExport)"

definition restore_command :: command where
  "restore_command = Command ''restore''
     (''restore the filesystem tree rooted at KEY, or at the subdirectory PATH within it, into DIR; '' @
      ''accepts a reference as ref:NAME[@PATH]'') ''(KEY[/PATH] | ref:NAME[@PATH]) DIR'' [] [] (Some ActRestore)"

definition ref_command :: command where
  "ref_command = Command ''ref'' ''manage references: named pointers to root keys'' [] []
     [Command ''list'' ''list every reference: name, key, creation time, creator'' [] [] [] (Some ActRefList),
      Command ''get'' ''print the key a reference points at'' ''NAME'' [] [] (Some ActRefGet),
      Command ''set'' ''create or overwrite reference NAME pointing at KEY'' ''NAME KEY'' [] [] (Some ActRefSet),
      Command ''rm'' ''delete reference NAME'' ''NAME'' [] [] (Some ActRefRm)] None"

definition push_command :: command where
  "push_command = Command ''push'' ''push local ref NAME (and every missing object below it) to the server'' ''NAME''
     (server_flag_table @
       [plain_flag ''force'' (FBool False)
          ''overwrite the remote ref even if it changed since the last pull/push'',
        no_progress_flag, conns_flag_entry]) [] (Some ActPush)"

definition pull_command :: command where
  "pull_command = Command ''pull''
     ''fetch ref NAME (and every missing object below it) from the server and set the local ref'' ''NAME''
     (server_flag_table @ [no_progress_flag, conns_flag_entry]) [] (Some ActPull)"

definition refs_command :: command where
  "refs_command = Command ''refs'' ''list the references on the server: name, key, creation time, creator'' []
     server_flag_table [] (Some ActRefs)"

text \<open>The whole program is a command without a name of its own for the library.\<close>

definition amber_app :: "cli_defaults \<Rightarrow> command" where
  "amber_app d = Command ''amber'' ''p2p distributed content-addressed filesystem tree store'' [] [store_flag]
     [import_command d, ls_command, export_command, restore_command, ref_command, push_command, pull_command,
      refs_command] None"

definition serve_app :: command where
  "serve_app = Command ''amber-serve'' ''host an amber store over iroh QUIC'' []
     [store_flag,
      plain_flag ''key'' (FString ''server.key'') ''path to the secret key file (generated on first run)'',
      plain_flag ''relay'' (FString [])
        ''relay server URL to use as the fallback path (default: nearest of the built-in relays)'',
      plain_flag ''advertise-addr'' (FStrings [])
        ''direct address to advertise, ip or ip:port (repeatable; replaces interface auto-detection)'',
      plain_flag ''data-endpoints'' (FInt 3)
        ''extra UDP endpoints for sharded transfers (0 disables; one socket caps well below fast links)'']
     [] (Some ActServe)"

section \<open>What the library gives an action\<close>

text \<open>
  \<open>ivGiven\<close> are the flags set on the command line or by the environment, \<open>ivValues\<close> the value of
  each flag in scope.
\<close>

record invocation =
  ivAction :: action
  ivGiven :: "string \<Rightarrow> flag_val option"
  ivValues :: "string \<Rightarrow> flag_val option"
  ivArgs :: "string list"

datatype cli_outcome = CliEnded string "goerr option" | CliInvoked invocation

text \<open>A variable that no flag fills keeps its zero value, and so does the value of an unknown flag.\<close>

definition bool_at :: "invocation \<Rightarrow> string \<Rightarrow> bool" where
  "bool_at iv n = (case ivValues iv n of Some (FBool b) \<Rightarrow> b | _ \<Rightarrow> False)"

definition int_at :: "invocation \<Rightarrow> string \<Rightarrow> int" where
  "int_at iv n = (case ivValues iv n of Some (FInt i) \<Rightarrow> i | _ \<Rightarrow> 0)"

definition string_at :: "invocation \<Rightarrow> string \<Rightarrow> string" where
  "string_at iv n = (case ivValues iv n of Some (FString s) \<Rightarrow> s | _ \<Rightarrow> [])"

definition strings_at :: "invocation \<Rightarrow> string \<Rightarrow> string list" where
  "strings_at iv n = (case ivValues iv n of Some (FStrings ss) \<Rightarrow> ss | _ \<Rightarrow> [])"

definition chunk_config_of :: "invocation \<Rightarrow> chunk_config" where
  "chunk_config_of iv = \<lparr>ccMin = int_at iv ''min'', ccAvg = int_at iv ''avg'', ccMax = int_at iv ''max'',
     ccItemBits = int_at iv ''item-bits'', ccXattrInlineMax = int_at iv ''xattr-inline-max''\<rparr>"

definition ingest_config_of :: "invocation \<Rightarrow> ingest_config" where
  "ingest_config_of iv = \<lparr>icChunk = chunk_config_of iv, icRef = string_at iv ''ref'', icJobs = int_at iv ''jobs'',
     icNoIgnore = bool_at iv ''no-ignore'', icNoProgress = bool_at iv ''no-progress''\<rparr>"

definition server_flags_of :: "invocation \<Rightarrow> server_flags" where
  "server_flags_of iv = \<lparr>sfServer = string_at iv ''server'', sfAddrs = strings_at iv ''addr'', sfRelay = string_at iv ''relay''\<rparr>"

definition host_flags_of :: "invocation \<Rightarrow> host_flags" where
  "host_flags_of iv = \<lparr>hfStore = string_at iv ''store'', hfKey = string_at iv ''key'', hfRelay = string_at iv ''relay'',
     hfAdvertise = strings_at iv ''advertise-addr'', hfDataEndpoints = int_at iv ''data-endpoints''\<rparr>"

section \<open>The process\<close>

text \<open>The client's state with what export and restore see of the file system.\<close>

record ('s, 'r, 'f) process =
  prClient :: "(ostream, 's, 'r) client"
  prFiles :: "(string \<times> ostream) list"
  prHandles :: "string list"
  prTree :: 'f

text \<open>What the machine, the network and the libraries give a run of the program.\<close>

record ('s, 'u, 'f) app_env =
  aeStore :: store_env
  aeImport :: "'s import_env"
  aeTar :: "'f tar_env"
  aeNet :: "(ostream, 'u) net_env"
  aeCalendar :: calendar
  aeClock :: int
  aeNow :: "64 word"
  aeFuel :: nat

text \<open>\<open>openStore\<close> reads the directory from the global flag.\<close>

definition store_of :: "('s, 'u, 'f) app_env \<Rightarrow> invocation \<Rightarrow> store_env" where
  "store_of env iv = (aeStore env)\<lparr>seDir := string_at iv ''store''\<rparr>"

definition on_client ::
  "((ostream, 's, 'r) client \<Rightarrow> (ostream, 's, 'r) client \<times> goerr option) \<Rightarrow> ('s, 'r, 'f) process \<Rightarrow>
     ('s, 'r, 'f) process \<times> goerr option" where
  "on_client g p = (case g (prClient p) of (c, e) \<Rightarrow> (p\<lparr>prClient := c\<rparr>, e))"

definition on_network ::
  "((ostream, 's, 'r) client \<Rightarrow> ((ostream, 's, 'r) client \<times> goerr option) option) \<Rightarrow> ('s, 'r, 'f) process \<Rightarrow>
     (('s, 'r, 'f) process \<times> goerr option) option" where
  "on_network g p = map_option (\<lambda>(c, e). (p\<lparr>prClient := c\<rparr>, e)) (g (prClient p))"

definition on_files ::
  "(('s, 'r, 'f) files \<Rightarrow> ('s, 'r, 'f) files \<times> goerr option) \<Rightarrow> ('s, 'r, 'f) process \<Rightarrow>
     ('s, 'r, 'f) process \<times> goerr option" where
  "on_files g p =
     (case g (local.extend (local.truncate (prClient p))
         \<lparr>flFiles = prFiles p, flHandles = prHandles p, flTree = prTree p\<rparr>) of
        (f, e) \<Rightarrow>
          (\<lparr>prClient = (prClient p)\<lparr>lcObjects := lcObjects f, lcRefs := lcRefs f, lcOut := lcOut f, lcOpen := lcOpen f\<rparr>,
            prFiles = flFiles f, prHandles = flHandles f, prTree = flTree f\<rparr>, e))"

section \<open>The actions\<close>

definition act_ls ::
  "('p, 's, 'r, 'z) cli_lib_scheme \<Rightarrow> ('s, 'u, 'f) app_env \<Rightarrow> invocation \<Rightarrow> (ostream, 's, 'r) client \<Rightarrow>
     ((ostream, 's, 'r) client \<times> goerr option) option" where
  "act_ls lib env iv s =
     (let ls = (\<lambda>opened. run_ls lib (aeCalendar env) os_write (aeFuel env) opened (ivArgs iv) (aeClock env) (bool_at iv ''keys'')) in
      if length (ivArgs iv) \<noteq> 1
      then map_option (\<lambda>(w, e). (s\<lparr>lcOut := w\<rparr>, e)) (ls (Inr (lcObjects s, lcRefs s)) (lcOut s))
      else case open_store (store_of env iv) s of
        (s1, Some e) \<Rightarrow> map_option (\<lambda>(w, e'). (s1\<lparr>lcOut := w\<rparr>, e')) (ls (Inl e) (lcOut s1))
      | (s1, None) \<Rightarrow>
          map_option (\<lambda>(w, e). (fst (close_store (store_of env iv) (s1\<lparr>lcOut := w\<rparr>)), e))
            (ls (Inr (lcObjects s1, lcRefs s1)) (lcOut s1)))"

text \<open>\<open>pushCommand\<close>, \<open>pullCommand\<close> and \<open>refsCommand\<close> count their arguments before they run.\<close>

definition act_push ::
  "('p, 's, 'r, 'z) cli_lib_scheme \<Rightarrow> ('s, 'u, 'f) app_env \<Rightarrow> invocation \<Rightarrow> (ostream, 's, 'r) client \<Rightarrow>
     ((ostream, 's, 'r) client \<times> goerr option) option" where
  "act_push lib env iv s =
     (if length (ivArgs iv) \<noteq> 1 then Some (s, Some (nargs_err ''push requires exactly one NAME argument'' (ivArgs iv)))
      else run_push lib os_write ((aeNet env)\<lparr>neStore := store_of env iv\<rparr>) (server_flags_of iv) (bool_at iv ''force'')
        (bool_at iv ''no-progress'') (conns_flag (int_at iv ''conns'')) (hd (ivArgs iv)) s)"

definition act_pull ::
  "('p, 's, 'r, 'z) cli_lib_scheme \<Rightarrow> ('s, 'u, 'f) app_env \<Rightarrow> invocation \<Rightarrow> (ostream, 's, 'r) client \<Rightarrow>
     ((ostream, 's, 'r) client \<times> goerr option) option" where
  "act_pull lib env iv s =
     (if length (ivArgs iv) \<noteq> 1 then Some (s, Some (nargs_err ''pull requires exactly one NAME argument'' (ivArgs iv)))
      else run_pull lib os_write ((aeNet env)\<lparr>neStore := store_of env iv\<rparr>) (server_flags_of iv)
        (bool_at iv ''no-progress'') (conns_flag (int_at iv ''conns'')) (hd (ivArgs iv)) s)"

definition act_refs ::
  "('p, 's, 'r, 'z) cli_lib_scheme \<Rightarrow> ('s, 'u, 'f) app_env \<Rightarrow> invocation \<Rightarrow> (ostream, 's, 'r) client \<Rightarrow>
     ((ostream, 's, 'r) client \<times> goerr option) option" where
  "act_refs lib env iv s =
     (if ivArgs iv \<noteq> [] then Some (s, Some (nargs_err ''refs takes no arguments'' (ivArgs iv)))
      else run_refs lib os_write (aeNet env) (server_flags_of iv) s)"

text \<open>The action behind each command of \<open>amber_app\<close>; \<open>ActServe\<close> is none of them.\<close>

fun run_action ::
  "('p, 's, 'r, 'z) cli_lib_scheme \<Rightarrow> ('s, 'u, 'f) app_env \<Rightarrow> invocation \<Rightarrow> action \<Rightarrow> ('s, 'r, 'f) process \<Rightarrow>
     (('s, 'r, 'f) process \<times> goerr option) option" where
  "run_action lib env iv ActImport p = Some (on_client
     (run_import lib (store_env.extend (store_of env iv) (store_env.more (aeImport env))) (ingest_config_of iv) (ivArgs iv)) p)"
| "run_action lib env iv ActLs p = on_network (act_ls lib env iv) p"
| "run_action lib env iv ActExport p = Some (on_files
     (run_export lib (store_env.extend (store_of env iv) (store_env.more (aeTar env))) (string_at iv ''output'') (ivArgs iv)) p)"
| "run_action lib env iv ActRestore p = Some (on_files
     (run_restore lib (store_env.extend (store_of env iv) (store_env.more (aeTar env))) (ivArgs iv)) p)"
| "run_action lib env iv ActRefList p = Some (on_client (run_ref_list lib (store_of env iv) (ivArgs iv)) p)"
| "run_action lib env iv ActRefGet p = Some (on_client (run_ref_get lib (store_of env iv) (ivArgs iv)) p)"
| "run_action lib env iv ActRefSet p = Some (on_client (run_ref_set lib (store_of env iv) (aeNow env) (ivArgs iv)) p)"
| "run_action lib env iv ActRefRm p = Some (on_client (run_ref_rm lib (store_of env iv) (ivArgs iv)) p)"
| "run_action lib env iv ActPush p = on_network (act_push lib env iv) p"
| "run_action lib env iv ActPull p = on_network (act_pull lib env iv) p"
| "run_action lib env iv ActRefs p = on_network (act_refs lib env iv) p"
| "run_action lib env iv ActServe p = Some (p, None)"

text \<open>\<open>main\<close>: the error of the program goes to standard error, and the exit code tells it.\<close>

definition amber_exit ::
  "('p, 's, 'z) core_lib_scheme \<Rightarrow> ('s, 'r, 'f) process \<times> goerr option \<Rightarrow> ('s, 'r, 'f) process \<times> nat" where
  "amber_exit lib r =
     (case r of
        (p, None) \<Rightarrow> (p, 0)
      | (p, Some e) \<Rightarrow>
          (p\<lparr>prClient := (prClient p)\<lparr>clErr := fst (os_write (clErr (prClient p))
             (bytes_of (''amber: '' @ err_text (key_string lib) e @ [CHR 0x0A])))\<rparr>\<rparr>, 1))"

definition amber_main ::
  "('p, 's, 'r, 'z) cli_lib_scheme \<Rightarrow> (command \<Rightarrow> string list \<Rightarrow> cli_outcome) \<Rightarrow> cli_defaults \<Rightarrow> ('s, 'u, 'f) app_env \<Rightarrow>
     string list \<Rightarrow> ('s, 'r, 'f) process \<Rightarrow> (('s, 'r, 'f) process \<times> nat) option" where
  "amber_main lib cli d env argv p =
     map_option (amber_exit lib)
       (case cli (amber_app d) argv of
          CliEnded text e \<Rightarrow>
            Some (p\<lparr>prClient := (prClient p)\<lparr>lcOut := fst (os_write (lcOut (prClient p)) (bytes_of text))\<rparr>\<rparr>, e)
        | CliInvoked iv \<Rightarrow> run_action lib env iv (ivAction iv) p)"

text \<open>\<open>main\<close> of amber-serve: it logs the error to standard output.\<close>

definition serve_main ::
  "(command \<Rightarrow> string list \<Rightarrow> cli_outcome) \<Rightarrow> ('k, 'u) host_env \<Rightarrow> string list \<Rightarrow> disk \<Rightarrow>
     disk \<times> host_event list \<times> goerr option \<times> nat" where
  "serve_main cli env argv fs =
     (let (fs', ev, e) =
        (case cli serve_app argv of
           CliEnded text e \<Rightarrow> (fs, [], e)
         | CliInvoked iv \<Rightarrow> run_serve env (host_flags_of iv) fs) in
      (fs', ev, e, if e = None then 0 else 1))"

section \<open>Well-formed tables\<close>

fun flag_names :: "cli_flag \<Rightarrow> string list" where
  "flag_names f = cfName f # cfAliases f"

fun command_name :: "command \<Rightarrow> string" where
  "command_name (Command n u a fl subs act) = n"

text \<open>
  Names that the library keeps for itself must not be redefined, a name must be unique among the
  flags in scope and among the commands of one level, and a command either acts or groups others.
\<close>

fun well_formed :: "cli_flag list \<Rightarrow> command \<Rightarrow> bool" where
  "well_formed scope (Command n u a fl subs act) \<longleftrightarrow>
     distinct ([''help'', ''h''] @ concat (map flag_names (scope @ fl))) \<and>
     distinct (''help'' # ''h'' # map command_name subs) \<and>
     (act = None \<longleftrightarrow> subs \<noteq> []) \<and>
     list_all (well_formed (scope @ fl)) subs"

text \<open>The actions of a command and its subcommands, each with the flags in scope.\<close>

fun leaves :: "cli_flag list \<Rightarrow> command \<Rightarrow> (action \<times> cli_flag list) list" where
  "leaves scope (Command n u a fl subs act) =
     (case act of None \<Rightarrow> [] | Some x \<Rightarrow> [(x, scope @ fl)]) @ concat (map (leaves (scope @ fl)) subs)"

fun same_kind :: "flag_val \<Rightarrow> flag_val \<Rightarrow> bool" where
  "same_kind (FBool a) (FBool b) = True"
| "same_kind (FInt a) (FInt b) = True"
| "same_kind (FString a) (FString b) = True"
| "same_kind (FStrings a) (FStrings b) = True"
| "same_kind v w = False"

text \<open>
  What the library documents: it invokes an action of the table; a flag has the value it was given
  and otherwise its default, of its kind; and a required flag was given.
\<close>

definition cli_law :: "(command \<Rightarrow> string list \<Rightarrow> cli_outcome) \<Rightarrow> bool" where
  "cli_law cli \<longleftrightarrow> (\<forall>app argv iv. well_formed [] app \<longrightarrow> cli app argv = CliInvoked iv \<longrightarrow>
     (\<exists>fl. (ivAction iv, fl) \<in> set (leaves [] app) \<and>
        (\<forall>f\<in>set fl.
           ivValues iv (cfName f) = Some (case ivGiven iv (cfName f) of Some v \<Rightarrow> v | None \<Rightarrow> cfDefault f) \<and>
           (\<forall>v. ivGiven iv (cfName f) = Some v \<longrightarrow> same_kind v (cfDefault f)) \<and>
           (cfRequired f \<longrightarrow> ivGiven iv (cfName f) \<noteq> None))))"

lemmas flag_defs = plain_flag_def store_flag_def chunk_flags_def no_progress_flag_def server_flag_table_def conns_flag_entry_def

lemmas table_defs = amber_app_def serve_app_def import_command_def ls_command_def export_command_def restore_command_def
  ref_command_def push_command_def pull_command_def refs_command_def

lemma amber_well_formed: "well_formed [] (amber_app d)"
  by (simp add: table_defs flag_defs)

lemma serve_well_formed: "well_formed [] serve_app"
  by (simp add: table_defs flag_defs)

lemma amber_leaves:
  "leaves [] (amber_app d) =
     [(ActImport, store_flag # chunk_flags d @
        [plain_flag ''ref'' (FString []) ''record the resolved root under reference NAME'',
         (plain_flag ''jobs'' (FInt (dfProcs d)) ''concurrent workers building the tree (default: number of CPUs)'')
           \<lparr>cfAliases := [''j'']\<rparr>,
         plain_flag ''no-ignore'' (FBool False) ''do not honor .amberignore files'', no_progress_flag]),
      (ActLs, [store_flag, plain_flag ''keys'' (FBool False)
         ''append each entry's content key (usable as KEY for ls/export/restore)'']),
      (ActExport, [store_flag, (plain_flag ''output'' (FString []) ''write the tar to FILE instead of stdout'')\<lparr>cfAliases := [''o'']\<rparr>]),
      (ActRestore, [store_flag]), (ActRefList, [store_flag]), (ActRefGet, [store_flag]), (ActRefSet, [store_flag]),
      (ActRefRm, [store_flag]),
      (ActPush, store_flag # server_flag_table @
        [plain_flag ''force'' (FBool False) ''overwrite the remote ref even if it changed since the last pull/push'',
         no_progress_flag, conns_flag_entry]),
      (ActPull, store_flag # server_flag_table @ [no_progress_flag, conns_flag_entry]),
      (ActRefs, store_flag # server_flag_table)]"
  by (simp add: table_defs)

text \<open>Reading a flag in scope: what was given, or the default.\<close>

definition given_int :: "invocation \<Rightarrow> string \<Rightarrow> int \<Rightarrow> int" where
  "given_int iv n d = (case ivGiven iv n of Some (FInt i) \<Rightarrow> i | _ \<Rightarrow> d)"

lemma int_at_given:
  assumes "ivValues iv n = Some (case ivGiven iv n of Some v \<Rightarrow> v | None \<Rightarrow> FInt d)"
    and "\<forall>v. ivGiven iv n = Some v \<longrightarrow> same_kind v (FInt d)"
  shows "int_at iv n = given_int iv n d"
  using assms by (auto simp: int_at_def given_int_def split: option.splits flag_val.splits)

lemma int_flag:
  assumes "list_ex (\<lambda>f. cfName f = n \<and> cfDefault f = FInt d) fl"
    and "\<forall>f\<in>set fl. ivValues iv (cfName f) = Some (case ivGiven iv (cfName f) of Some v \<Rightarrow> v | None \<Rightarrow> cfDefault f) \<and>
      (\<forall>v. ivGiven iv (cfName f) = Some v \<longrightarrow> same_kind v (cfDefault f))"
  shows "int_at iv n = given_int iv n d"
proof -
  from assms(1) obtain f where f: "f \<in> set fl" "cfName f = n" "cfDefault f = FInt d" by (auto simp: list_ex_iff)
  with assms(2) have "ivValues iv n = Some (case ivGiven iv n of Some v \<Rightarrow> v | None \<Rightarrow> FInt d)"
    "\<forall>v. ivGiven iv n = Some v \<longrightarrow> same_kind v (FInt d)" by metis+
  then show ?thesis by (rule int_at_given)
qed

section \<open>Lemmas: the state after an action\<close>

lemma on_files_open:
  assumes "\<And>f. lcOpen (fst (g f)) = lcOpen f" and "\<And>f. flHandles (fst (g f)) = flHandles f"
  shows "lcOpen (prClient (fst (on_files g p))) = lcOpen (prClient p) \<and> clNet (prClient (fst (on_files g p))) = clNet (prClient p) \<and>
    prHandles (fst (on_files g p)) = prHandles p"
proof -
  let ?f = "local.extend (local.truncate (prClient p)) \<lparr>flFiles = prFiles p, flHandles = prHandles p, flTree = prTree p\<rparr>"
  obtain f e where g: "g ?f = (f, e)" by fastforce
  with assms [of ?f] have "lcOpen f = lcOpen (prClient p)" "flHandles f = prHandles p"
    by (simp_all add: local.defs)
  with g show ?thesis by (simp add: on_files_def local.defs)
qed

lemma export_dir_handles: "flHandles (fst (export_dir lib env output dir s)) = flHandles s"
  by (simp add: export_dir_def Let_def split: sum.split prod.split)

lemma with_store_handles:
  assumes "\<And>s1. flHandles (fst (body s1)) = flHandles s1"
  shows "flHandles (fst (with_store env body fail s)) = flHandles s"
proof -
  obtain s1 x where o: "open_store env s = (s1, x)" by fastforce
  then have "flHandles s1 = flHandles s"
    by (auto simp: open_store_def Let_def split: if_splits option.splits)
  with o assms [of s1] show ?thesis
    by (cases x; cases "body s1") (simp_all add: with_store_def close_store_def)
qed

lemma run_export_handles: "flHandles (fst (run_export lib env output args s)) = flHandles s"
  by (simp add: run_export_def with_store_handles export_dir_handles split: sum.split)

lemma run_restore_handles: "flHandles (fst (run_restore lib env args s)) = flHandles s"
  by (simp add: run_restore_def with_store_handles split: sum.split prod.split)

text \<open>A command that only knows the local store leaves the rest of the state alone.\<close>

lemma store_more [simp]:
  "local.more (fst (print_line t s)) = local.more s" "local.more (fst (open_store env s)) = local.more s"
  "local.more (fst (close_store env s)) = local.more s"
  by (auto simp: print_line_def open_store_def close_store_def Let_def split: prod.split option.split)

lemma store_moreD:
  "print_line t s = (s', e) \<Longrightarrow> local.more s' = local.more s" "open_store env s = (s', e) \<Longrightarrow> local.more s' = local.more s"
  "close_store env s = (s', e) \<Longrightarrow> local.more s' = local.more s"
  using store_more(1) [of t s] store_more(2,3) [of env s] by simp_all

lemma with_store_more:
  assumes "\<And>s1. local.more (fst (body s1)) = local.more s1"
  shows "local.more (fst (with_store env body fail s)) = local.more s"
proof -
  obtain s1 x where o: "open_store env s = (s1, x)" by fastforce
  with store_moreD(2) [OF o] assms [of s1] show ?thesis
    by (cases x; cases "body s1") (simp_all add: with_store_def)
qed

lemma ref_list_loop_more: "local.more (fst (ref_list_loop lib recs s)) = local.more s"
proof (induction recs arbitrary: s)
  case (Cons r recs)
  then show ?case
    by (cases r) (auto simp: store_moreD split: sum.split prod.split option.split)
qed simp

lemma put_and_close_more: "local.more (fst (put_and_close env put s)) = local.more s"
  by (auto simp: put_and_close_def dest!: store_moreD(2) split: prod.split option.split)

lemma import_ref_more: "import_ref lib now name k s = (s', e) \<Longrightarrow> local.more s' = local.more s"
  by (auto simp: import_ref_def split: if_splits sum.splits prod.splits)

lemma run_import_more: "local.more (fst (run_import lib env cfg args s)) = local.more s"
  unfolding run_import_def
  by (auto split: sum.split prod.split option.split dest!: store_moreD import_ref_more)

lemma local_more:
  "local.more (fst (run_ref_list lib env args s)) = local.more s" "local.more (fst (run_ref_get lib env args s)) = local.more s"
  "local.more (fst (run_ref_set lib env now args s)) = local.more s" "local.more (fst (run_ref_rm clib env args s)) = local.more s"
  by (auto simp: run_ref_list_def run_ref_get_def run_ref_set_def run_ref_rm_def ref_list_loop_more put_and_close_more
      split: sum.split intro!: with_store_more)

lemma client_net: "local.more s' = local.more s \<Longrightarrow> clNet s' = clNet s" for s s' :: "('w, 's, 'r) client"
  by (cases s; cases s') simp

text \<open>What every command leaves behind: the store closed, the network balanced.\<close>

definition tidy :: "(ostream, 's, 'r) client \<Rightarrow> (ostream, 's, 'r) client \<Rightarrow> bool" where
  "tidy s s' \<longleftrightarrow> lcOpen s' = lcOpen s \<and> (clNet s = no_net \<longrightarrow> holds_net [] [] (clNet s'))"

lemma tidy_refl: "tidy s s"
  by (simp add: tidy_def holds_net_def no_net_def)

lemma local_tidy:
  "lcOpen s' = lcOpen s \<Longrightarrow> clNet s' = clNet s \<Longrightarrow> tidy s s'"
  using tidy_refl [of s] by (simp add: tidy_def)

lemma act_ls_tidy: "act_ls lib env iv s = Some (s', e) \<Longrightarrow> tidy s s'"
  unfolding act_ls_def Let_def
  by (auto intro!: local_tidy split: if_splits prod.splits option.splits
      simp: close_store_def dest: open_store_Some open_store_None)

lemma network_tidy:
  assumes "check_law lib" and "write_law lib"
  shows "act_push lib env iv s = Some (s', e) \<Longrightarrow> tidy s s'" "act_pull lib env iv s = Some (s', e) \<Longrightarrow> tidy s s'"
    "act_refs lib env iv s = Some (s', e) \<Longrightarrow> tidy s s'"
  using tidy_refl [of s] run_push_effects run_pull_effects [OF assms] run_refs_effects
  unfolding act_push_def act_pull_def act_refs_def tidy_def
  by (metis option.inject prod.inject)+

lemma run_action_tidy:
  assumes "check_law lib" and "write_law lib" and "run_action lib env iv a p = Some (p', e)"
  shows "tidy (prClient p) (prClient p') \<and> prHandles p' = prHandles p"
proof -
  have loc: ?thesis if "on_client g p = (p', e)" "\<And>s. lcOpen (fst (g s)) = lcOpen s" "\<And>s. local.more (fst (g s)) = local.more s" for g
    using that(1) that(2,3) [of "prClient p"]
    by (cases "g (prClient p)") (auto simp: on_client_def intro!: local_tidy client_net)
  have net: ?thesis if "on_network g p = Some (p', e)" "\<And>s s' e. g s = Some (s', e) \<Longrightarrow> tidy s s'" for g
    using that by (auto simp: on_network_def)
  have fil: ?thesis if "on_files g p = (p', e)" "\<And>f. lcOpen (fst (g f)) = lcOpen f" "\<And>f. flHandles (fst (g f)) = flHandles f" for g
    using that(1) on_files_open [of g p, OF that(2,3)] by (auto intro!: local_tidy)
  show ?thesis
    using assms(3)
    apply (cases a; simp)
    subgoal by (erule loc) (rule local_open, rule run_import_more)
    subgoal by (erule net) (erule act_ls_tidy)
    subgoal by (erule fil) (rule local_open, rule run_export_handles)
    subgoal by (erule fil) (rule local_open, rule run_restore_handles)
    subgoal by (erule loc) (rule local_open, rule local_more)
    subgoal by (erule loc) (rule local_open, rule local_more)
    subgoal by (erule loc) (rule local_open, rule local_more)
    subgoal by (erule loc) (rule local_open, rule local_more)
    subgoal by (erule net) (erule network_tidy [OF assms(1,2)])
    subgoal by (erule net) (erule network_tidy [OF assms(1,2)])
    subgoal by (erule net) (erule network_tidy [OF assms(1,2)])
    by (simp add: tidy_refl)
qed

section \<open>Samples\<close>

definition sample_defaults :: cli_defaults where
  "sample_defaults = \<lparr>dfMin = 2048, dfAvg = 8192, dfMax = 65536, dfItemBits = 4, dfXattrInlineMax = 64, dfProcs = 2\<rparr>"

definition sample_values :: "(string \<Rightarrow> flag_val option) \<Rightarrow> cli_flag list \<Rightarrow> string \<Rightarrow> flag_val option" where
  "sample_values given fl n =
     (case given n of Some v \<Rightarrow> Some v | None \<Rightarrow> map_option cfDefault (find (\<lambda>f. cfName f = n) fl))"

text \<open>A command line whose action, flags and arguments are already known.\<close>

definition sample_cli ::
  "action \<Rightarrow> (string \<Rightarrow> flag_val option) \<Rightarrow> string list \<Rightarrow> command \<Rightarrow> string list \<Rightarrow> cli_outcome" where
  "sample_cli act given args app argv =
     (case find (\<lambda>l. fst l = act) (leaves [] app) of
        Some (a, fl) \<Rightarrow>
          if app \<noteq> amber_app sample_defaults then CliEnded ''usage'' None
          else CliInvoked \<lparr>ivAction = a, ivGiven = given, ivValues = sample_values given fl, ivArgs = args\<rparr>
      | None \<Rightarrow> CliEnded ''usage'' None)"

definition sample_min :: "string \<Rightarrow> flag_val option" where
  "sample_min = [''min'' \<mapsto> FInt 5]"

lemma sample_cli_law: "cli_law (sample_cli ActImport sample_min [''p''])"
proof -
  have "\<exists>fl. (ivAction iv, fl) \<in> set (leaves [] app) \<and> (\<forall>f\<in>set fl.
           ivValues iv (cfName f) = Some (case ivGiven iv (cfName f) of Some v \<Rightarrow> v | None \<Rightarrow> cfDefault f) \<and>
           (\<forall>v. ivGiven iv (cfName f) = Some v \<longrightarrow> same_kind v (cfDefault f)) \<and>
           (cfRequired f \<longrightarrow> ivGiven iv (cfName f) \<noteq> None))"
    if "sample_cli ActImport sample_min [''p''] app argv = CliInvoked iv" for app argv iv
  proof -
    from that have app: "app = amber_app sample_defaults"
      by (auto simp: sample_cli_def split: option.splits if_splits)
    let ?fl = "snd (hd (leaves [] (amber_app sample_defaults)))"
    from that app have iv: "iv = \<lparr>ivAction = ActImport, ivGiven = sample_min, ivValues = sample_values sample_min ?fl,
        ivArgs = [''p'']\<rparr>"
      by (auto simp: sample_cli_def amber_leaves)
    have "(ivAction iv, ?fl) \<in> set (leaves [] app)" by (simp add: iv app amber_leaves)
    moreover have "\<forall>f\<in>set ?fl.
           ivValues iv (cfName f) = Some (case ivGiven iv (cfName f) of Some v \<Rightarrow> v | None \<Rightarrow> cfDefault f) \<and>
           (\<forall>v. ivGiven iv (cfName f) = Some v \<longrightarrow> same_kind v (cfDefault f)) \<and>
           (cfRequired f \<longrightarrow> ivGiven iv (cfName f) \<noteq> None)"
      by (simp add: iv amber_leaves flag_defs sample_min_def sample_values_def)
    ultimately show ?thesis by blast
  qed
  then show ?thesis by (auto simp: cli_law_def)
qed

definition sample_app_env :: "(sample_store, string, unit) app_env" where
  "sample_app_env = \<lparr>aeStore = sample_store_env, aeImport = sample_import_env,
     aeTar = store_env.extend sample_store_env (tar_env.fields (\<lambda>k get. ([], None)) (\<lambda>dir b e fs. (fs, None))
       (\<lambda>path. Inr fresh_out) None),
     aeNet = sample_net_env [], aeCalendar = \<lparr>ckFormat = \<lambda>f t. [], ckSixMonthsBefore = \<lambda>t. 0\<rparr>, aeClock = 0, aeNow = 0,
     aeFuel = 1\<rparr>"

definition sample_process :: "(sample_store, (string \<times> bytes) list, unit) process" where
  "sample_process = \<lparr>prClient = sample_client\<lparr>lcRefs := [(''main'', [9])]\<rparr>, prFiles = [], prHandles = [], prTree = ()\<rparr>"

lemma sample_cli_check_law: "check_law sample_cli_lib"
proof -
  have "check_complete sample_cli_lib k (st_get sample_cli_lib st) (st_has sample_cli_lib st) jobs =
      check_complete sample_server_lib k (st_get sample_server_lib st) (st_has sample_server_lib st) jobs" for st jobs k
    by (simp add: sample_cli_simps)
  moreover have "tree_complete sample_cli_lib st k = tree_complete sample_server_lib st k" for st k
    by (auto elim!: tree_complete_cong simp: sample_cli_simps)
  ultimately show ?thesis using sample_server_check_law unfolding check_law_def by simp
qed

lemma sample_cli_write_law: "write_law sample_cli_lib"
proof -
  have "st_write sample_cli_lib = st_write sample_server_lib" "st_get sample_cli_lib = st_get sample_server_lib"
    by (simp_all add: sample_cli_simps)
  with sample_server_write_law show ?thesis by (simp add: write_law_def)
qed

section \<open>Properties\<close>

text \<open>
  Claim C25 (the whole program cleans up).  Whatever the arguments and whatever fails, a run of \<open>amber\<close>
  that returns leaves neither half of the store nor any output file open, every endpoint it
  bound is shut down and every connection it opened is closed, each as often, and the exit code
  is 0 or 1.
\<close>

theorem amber_cleans_up:
  assumes "check_law lib" and "write_law lib" and "clNet (prClient p) = no_net"
    and "amber_main lib cli d env argv p = Some (p', code)"
  shows "lcOpen (prClient p') = lcOpen (prClient p) \<and> prHandles p' = prHandles p \<and>
    mset (ntBound (clNet (prClient p'))) = mset (ntShut (clNet (prClient p'))) \<and>
    mset (ntOpened (clNet (prClient p'))) = mset (ntClosed (clNet (prClient p'))) \<and> code \<le> 1"
proof -
  from assms(4) obtain q e where x: "amber_exit lib (q, e) = (p', code)"
    and q: "(case cli (amber_app d) argv of
          CliEnded text e \<Rightarrow>
            Some (p\<lparr>prClient := (prClient p)\<lparr>lcOut := fst (os_write (lcOut (prClient p)) (bytes_of text))\<rparr>\<rparr>, e)
        | CliInvoked iv \<Rightarrow> run_action lib env iv (ivAction iv) p) = Some (q, e)"
    by (auto simp: amber_main_def)
  have "tidy (prClient p) (prClient q) \<and> prHandles q = prHandles p"
    using q run_action_tidy [OF assms(1,2), of env _ _ p q e]
    by (cases "cli (amber_app d) argv") (auto intro!: local_tidy)
  with x assms(3) show ?thesis by (auto simp: amber_exit_def tidy_def holds_net_def split: option.splits)
qed

theorem amber_cleans_up_witness:
  "\<exists>p'. amber_main sample_cli_lib (sample_cli ActRefGet [''store'' \<mapsto> FString ''d''] [''nosuch'']) sample_defaults sample_app_env []
     sample_process = Some (p', 1) \<and> lcOpen (prClient p') = [] \<and> prHandles p' = [] \<and>
     mset (ntBound (clNet (prClient p'))) = mset (ntShut (clNet (prClient p')))"
proof -
  let ?cli = "sample_cli ActRefGet [''store'' \<mapsto> FString ''d''] [''nosuch'']"
  have g: "resolve_spec sample_cli_lib [(''main'', [9])] ''ref:nosuch'' = Inl RefNotFound"
    by (simp add: resolve_spec_def cut_prefix_def sample_cli_simps)
  obtain p' where r: "amber_main sample_cli_lib ?cli sample_defaults sample_app_env [] sample_process = Some (p', 1)"
    using g by (simp add: amber_main_def sample_cli_def amber_leaves on_client_def amber_exit_def run_ref_get_def with_store_def
        open_store_def store_of_def sample_app_env_def sample_store_env_def string_at_def sample_values_def sample_process_def sample_client_def
        close_store_def)
  have "clNet (prClient sample_process) = no_net" "lcOpen (prClient sample_process) = []" "prHandles sample_process = []"
    by (simp_all add: sample_process_def sample_client_def)
  with amber_cleans_up [OF sample_cli_check_law sample_cli_write_law _ r] r show ?thesis by auto
qed

text \<open>
  Claim C39 (the sizes that reach the chunker).  An import that the command line invokes passes the
  chunk sizes given by its flags, and for each flag left out its default: with positive sizes the
  options always carry the three sizes, whether all, one or none of the flags were set.
\<close>

theorem import_sizes:
  assumes "cli_law cli" and "cli (amber_app d) argv = CliInvoked iv" and "ivAction iv = ActImport"
    and "0 < given_int iv ''min'' (dfMin d)" and "0 < given_int iv ''avg'' (dfAvg d)" and "0 < given_int iv ''max'' (dfMax d)"
  shows "chunk_opts (icChunk (ingest_config_of iv)) =
      Inr \<lparr>coByte = Some (given_int iv ''min'' (dfMin d), given_int iv ''avg'' (dfAvg d), given_int iv ''max'' (dfMax d)),
        coItemBits = given_int iv ''item-bits'' (dfItemBits d),
        coXattrInlineMax = given_int iv ''xattr-inline-max'' (dfXattrInlineMax d)\<rparr> \<and>
    icJobs (ingest_config_of iv) = given_int iv ''jobs'' (dfProcs d)"
proof -
  from assms(1,2) amber_well_formed [of d] obtain fl where fl: "(ActImport, fl) \<in> set (leaves [] (amber_app d))"
    and v: "\<forall>f\<in>set fl. ivValues iv (cfName f) = Some (case ivGiven iv (cfName f) of Some v \<Rightarrow> v | None \<Rightarrow> cfDefault f) \<and>
           (\<forall>v. ivGiven iv (cfName f) = Some v \<longrightarrow> same_kind v (cfDefault f))"
    unfolding cli_law_def assms(3) [symmetric] by blast
  from fl have fl: "(ActImport, fl) = hd (leaves [] (amber_app d))" by (auto simp: amber_leaves)
  have "int_at iv ''min'' = given_int iv ''min'' (dfMin d)" "int_at iv ''avg'' = given_int iv ''avg'' (dfAvg d)"
    "int_at iv ''max'' = given_int iv ''max'' (dfMax d)" "int_at iv ''item-bits'' = given_int iv ''item-bits'' (dfItemBits d)"
    "int_at iv ''xattr-inline-max'' = given_int iv ''xattr-inline-max'' (dfXattrInlineMax d)"
    "int_at iv ''jobs'' = given_int iv ''jobs'' (dfProcs d)"
    using fl by (intro int_flag [OF _ v]; simp add: amber_leaves flag_defs)+
  with assms(4-6) show ?thesis
    by (simp add: ingest_config_of_def chunk_config_of_def chunk_opts_def)
qed

theorem import_sizes_witness:
  "\<exists>iv. sample_cli ActImport sample_min [''p''] (amber_app sample_defaults) [] = CliInvoked iv \<and>
     chunk_opts (icChunk (ingest_config_of iv)) =
       Inr \<lparr>coByte = Some (5, 8192, 65536), coItemBits = 4, coXattrInlineMax = 64\<rparr>"
proof -
  obtain iv where iv: "sample_cli ActImport sample_min [''p''] (amber_app sample_defaults) [] = CliInvoked iv"
    "ivAction iv = ActImport" "ivGiven iv = sample_min"
    by (auto simp: sample_cli_def amber_leaves)
  with import_sizes [OF sample_cli_law iv(1,2)] show ?thesis
    by (simp add: given_int_def sample_min_def sample_defaults_def)
qed

end
