(* ===== verification/Sharded.thy ===== *)
theory Sharded
  imports Sync
begin

text \<open>
  The two halves of the want loop over any number of channels: one receiver that deals its wants
  over the channels, and one sender at the other end of each.  The transcripts of the channels
  are constructed together, round by round, for every schedule of the decoders.
\<close>

section \<open>Lemmas: requests on all channels\<close>

text \<open>What arrives on channel \<open>i\<close> is \<open>bs i\<close> and then \<open>rest i\<close>, and its sending side takes every write.\<close>

definition feeds :: "(nat \<Rightarrow> bytes) \<Rightarrow> (nat \<Rightarrow> instream) \<Rightarrow> ostream channel list \<Rightarrow> bool" where
  "feeds bs rest chans \<longleftrightarrow> (\<forall>i<length chans.
     chIn (chans ! i) = \<lparr>avail = bs i @ avail (rest i), fin = fin (rest i)\<rparr> \<and> os_up (chOut (chans ! i)))"

lemma deal_wants_total:
  assumes "weights \<noteq> []"
  obtains shards where "deal_wants lib ks weights = Inr shards" and "length shards = length weights"
    and "mset (concat shards) = mset ks"
proof -
  obtain shards where sh: "deal_wants lib ks weights = Inr shards"
    using assms by (cases "length weights = 1") (auto simp: deal_wants_def Let_def)
  moreover have "length shards = length weights"
    using sh deal_loop_mset [OF deal_inv_init [OF assms], of lib ks] by (auto simp: deal_wants_def Let_def split: if_splits)
  ultimately show ?thesis using deal_wants_mset [OF sh] that by blast
qed

lemma shards_sent:
  assumes "\<forall>j<length shards. shards ! j \<noteq> [] \<longrightarrow> frame_bytes lib (wants_msg (shards ! j)) = Some (q (i + j))"
    and "i + length shards \<le> length chans" and "\<forall>c\<in>set chans. os_up (chOut c)"
  shows "\<exists>chans' is. send_shards lib os_write i shards chans = (chans', is, None) \<and>
    set is = {i + j | j. j < length shards \<and> shards ! j \<noteq> []} \<and> length chans' = length chans \<and>
    (\<forall>c\<in>set chans'. os_up (chOut c)) \<and>
    (\<forall>j<length chans. os_sent (chOut (chans' ! j)) = os_sent (chOut (chans ! j)) @ (if j \<in> set is then q j else []))"
  using assms
proof (induction shards arbitrary: i chans)
  case (Cons shard shards)
  have idx: "{i + j | j. j < length (shard # shards) \<and> (shard # shards) ! j \<noteq> []} =
      (if shard = [] then {} else {i}) \<union> {Suc i + j | j. j < length shards \<and> shards ! j \<noteq> []}"
    by (auto simp: less_Suc_eq_0_disj)
  have fr: "\<forall>j<length shards. shards ! j \<noteq> [] \<longrightarrow> frame_bytes lib (wants_msg (shards ! j)) = Some (q (Suc i + j))"
    using Cons.prems(1) by auto
  show ?case
  proof (cases "shard = []")
    case True
    from Cons.IH [OF fr] Cons.prems(2,3) True show ?thesis unfolding idx by simp
  next
    case False
    from Cons.prems(1) [rule_format, of 0] False have f: "frame_bytes lib (wants_msg shard) = Some (q i)" by simp
    have i: "i < length chans" using Cons.prems(2) by simp
    with Cons.prems(3) os.write_msg_healthy [OF f, of "chOut (chans ! i)"] obtain w where
      w: "write_msg lib os_write (chOut (chans ! i)) (wants_msg shard) = (w, None)" "os_up w"
        "os_sent w = os_sent (chOut (chans ! i)) @ q i" by auto
    let ?c = "chans[i := (chans ! i)\<lparr>chOut := w\<rparr>]"
    have "\<forall>c\<in>set ?c. os_up (chOut c)" using Cons.prems(3) w(2) by (auto dest: set_update_subset_insert [THEN subsetD])
    with Cons.IH [OF fr, of ?c] Cons.prems(2) obtain chans' "is" where
      ih: "send_shards lib os_write (Suc i) shards ?c = (chans', is, None)"
        "set is = {Suc i + j | j. j < length shards \<and> shards ! j \<noteq> []}" "length chans' = length chans"
        "\<forall>c\<in>set chans'. os_up (chOut c)"
        "\<forall>j<length chans. os_sent (chOut (chans' ! j)) = os_sent (chOut (?c ! j)) @ (if j \<in> set is then q j else [])"
      by auto
    have "i \<notin> set is" using ih(2) by auto
    then have "\<forall>j<length chans. os_sent (chOut (chans' ! j)) =
        os_sent (chOut (chans ! j)) @ (if j \<in> set (i # is) then q j else [])"
      using ih(5) w(3) i by (auto simp: nth_list_update)
    with ih False w show ?thesis unfolding idx by (intro exI [of _ chans'] exI [of _ "i # is"]) simp
  qed
qed simp

lemma finals_healthy:
  assumes "frame_bytes lib (zero_msg\<lparr>mType := TWants\<rparr>) = Some b"
  shows "\<forall>c\<in>set chans. os_up (chOut c) \<Longrightarrow> \<exists>chans'. send_finals lib os_write chans = (chans', None) \<and>
    length chans' = length chans \<and> (\<forall>c\<in>set chans'. os_up (chOut c)) \<and>
    map (\<lambda>c. os_sent (chOut c)) chans' = map (\<lambda>c. os_sent (chOut c) @ b) chans"
proof (induction chans)
  case (Cons c cs)
  from os.write_msg_healthy [OF assms, of "chOut c"] Cons.prems obtain w where
    "write_msg lib os_write (chOut c) (zero_msg\<lparr>mType := TWants\<rparr>) = (w, None)" "os_up w" "os_sent w = os_sent (chOut c) @ b"
    by auto
  with Cons show ?case by auto
qed simp

section \<open>Lemmas: packs on all channels\<close>

lemma decode_channel_nth:
  assumes "pr_read_all lib 4095 (new_pack_reader (chIn (chans ! i))) = (p, bs, None)"
    and "amber_read lib bs None = (fl, None, saw)"
    and "\<forall>ob\<in>fst ` set fl. child_keys lib (oKey ob) (oData ob) = Inr (kids ob)"
  shows "decode_channel lib chans i = \<lparr>dIdx = i, dItems = map (\<lambda>(ob, f). (ob, kids ob, f)) fl, dErr = None, dSaw = saw,
    dDrained = True, dTerm = None, dRest = prR p\<rparr>"
  using decode_items_all [OF assms(3), of saw] assms(1,2) by (auto simp: decode_channel_def)

lemma round_err_all_clean:
  assumes "set errs \<subseteq> {(None, None)}" and "set ks \<subseteq> received"
  shows "round_err lib errs None received ks = None"
proof -
  have "find (\<lambda>t. case t of None \<Rightarrow> False | Some e \<Rightarrow> as_remote e \<noteq> None) (map fst errs) = None"
    using assms(1) by (auto simp: find_None_iff)
  moreover have "errors_join (map snd errs) = None" using assms(1) by auto
  ultimately show ?thesis
    unfolding round_err_def by (simp only: option.case) (simp add: assms(2) check_delivered_None)
qed

lemma receive_packs_clean:
  assumes "\<forall>i\<in>set is. dErr (decode_channel lib (rsChans s) i) = None \<and> dTerm (decode_channel lib (rsChans s) i) = None"
    and "st_write lib (rsStore s) (map receipt_object (merged_items lib env is (rsChans s))) =
      (st', length (merged_items lib env is (rsChans s)), None)"
    and "set ks \<subseteq> (\<lambda>t. oKey (receipt_object t)) ` set (merged_items lib env is (rsChans s))"
  shows "\<exists>s'. receive_packs lib env is ks carry s = (s', Again) \<and> rsPrev s' = rsPrev s"
proof -
  let ?m = "merged_items lib env is (rsChans s)"
  have e: "set (map (\<lambda>d. decoder_errs True (n d) d) (map (decode_channel lib (rsChans s)) is)) \<subseteq> {(None, None)}" for n
    using assms(1) by (auto simp: decoder_errs_def)
  have k: "set ks \<subseteq> set (map (\<lambda>(i, ob, kids, f). oKey ob) ?m)"
    using assms(3) by (force simp: case_prod_unfold)
  show ?thesis
    unfolding receive_packs_def Let_def merged_items_def [symmetric] assms(2) prod.case
    by (simp only: order_refl take_all round_err_all_clean [OF e k]) simp
qed

section \<open>Lemmas: one round on all channels\<close>

text \<open>
  The round that deals \<open>shards\<close>: the requests \<open>q i\<close> go out, the packs \<open>b i\<close> of the objects \<open>sk i\<close> are
  read, and nothing goes either way on a channel without a shard.
\<close>

definition dealt ::
  "('p, 's, 'z) core_lib_scheme \<Rightarrow> 's \<Rightarrow> key list list \<Rightarrow> (nat \<Rightarrow> bytes) \<Rightarrow> (nat \<Rightarrow> bytes) \<Rightarrow> (nat \<Rightarrow> key list) \<Rightarrow> bool" where
  "dealt lib src shards q b sk \<longleftrightarrow> (\<forall>i<length shards.
     if shards ! i = [] then q i = [] \<and> b i = []
     else good_frame lib (wants_msg (shards ! i)) = Some (q i) \<and> answers lib src (sk i) (b i) \<and>
       mset (sk i) = mset (shards ! i))"

lemma mset_nonempty: "mset (concat (map (\<lambda>i. xs ! i) (filter (\<lambda>i. xs ! i \<noteq> []) [0..<length xs]))) = mset (concat xs)"
proof -
  have "concat (map f (filter (\<lambda>i. f i \<noteq> []) is)) = concat (map f is)" for f :: "nat \<Rightarrow> 'a list" and "is"
    by (induction "is") auto
  then show ?thesis by (simp add: map_nth)
qed

lemma mset_concat_cong: "(\<And>i. i \<in> set is \<Longrightarrow> mset (f i) = mset (g i)) \<Longrightarrow> mset (concat (map f is)) = mset (concat (map g is))"
  by (induction "is") auto

lemma sorted_unique:
  assumes "sorted_wrt (<) is" and "set is = {j. j < length xs \<and> xs ! j \<noteq> []}"
  shows "is = filter (\<lambda>i. xs ! i \<noteq> []) [0..<length xs]"
proof (rule sorted_distinct_set_unique)
  show "sorted is" "distinct is" using assms(1) by (simp_all add: strict_sorted_iff)
  show "set is = set (filter (\<lambda>i. xs ! i \<noteq> []) [0..<length xs])" by (auto simp: assms(2))
qed (simp_all add: sorted_wrt_filter)

definition pack_holds ::
  "('p, 's, 'z) core_lib_scheme \<Rightarrow> 's \<Rightarrow> key list \<Rightarrow> bytes \<Rightarrow> bytes \<times> (object \<times> bool) list \<times> bool \<Rightarrow> bool" where
  "pack_holds lib src sk b = (\<lambda>(content, fl, saw).
     amber_read lib content None = (fl, None, saw) \<and> map fst fl = map (stored lib src) sk \<and>
     (\<forall>k r f. \<exists>p. pr_read_all lib k (new_pack_reader \<lparr>avail = b @ r, fin = f\<rparr>) = (p, content, None) \<and>
        prR p = \<lparr>avail = r, fin = f\<rparr>))"

lemma answers_pack: "answers lib src sk b \<Longrightarrow> \<exists>t. pack_holds lib src sk b t"
  by (auto simp: answers_def pack_holds_def)

text \<open>What the decoders of the round hand on does not depend on what arrives after the packs.\<close>

lemma dealt_merged:
  assumes "dealt lib src shards q b sk" and "mset (concat shards) = mset ask"
    and "\<forall>k\<in>set ask. tree_complete lib src k" and "is = filter (\<lambda>i. shards ! i \<noteq> []) [0..<length shards]"
  obtains sk0 where "mset sk0 = mset ask"
    and "\<And>(chans :: ostream channel list) rest. length chans = length shards \<Longrightarrow> feeds b rest chans \<Longrightarrow>
      map receipt_object (merged_items lib env is chans) = map (stored lib src) sk0 \<and>
      map receipt_kids (merged_items lib env is chans) = map (kids_of lib \<circ> stored lib src) sk0 \<and>
      (\<forall>i\<in>set is. dErr (decode_channel lib chans i) = None \<and> dTerm (decode_channel lib chans i) = None \<and>
         fst (pack_spec lib (chIn (chans ! i))) = rest i)"
proof -
  have "\<exists>t. i \<in> set is \<longrightarrow> pack_holds lib src (sk i) (b i) t" for i
    using assms(1,4) answers_pack [of lib src "sk i" "b i"] by (cases "i \<in> set is") (auto simp: dealt_def)
  then obtain pk where pk: "\<And>i. i \<in> set is \<Longrightarrow> pack_holds lib src (sk i) (b i) (pk i)" by metis
  define content fl saw where "content = (\<lambda>i. fst (pk i))" and "fl = (\<lambda>i. fst (snd (pk i)))" and "saw = (\<lambda>i. snd (snd (pk i)))"
  have an: "amber_read lib (content i) None = (fl i, None, saw i)" "map fst (fl i) = map (stored lib src) (sk i)"
    "\<exists>p. pr_read_all lib k (new_pack_reader \<lparr>avail = b i @ r, fin = f\<rparr>) = (p, content i, None) \<and> prR p = \<lparr>avail = r, fin = f\<rparr>"
    if "i \<in> set is" for i k r f
    using pk [OF that] by (auto simp: pack_holds_def content_def fl_def saw_def case_prod_unfold)
  have sh: "mset (sk i) = mset (shards ! i)" if "i \<in> set is" for i
    using that assms(1,4) by (auto simp: dealt_def)
  define its where "its = (\<lambda>i. map (\<lambda>(ob, f). (ob, kids_of lib ob, f)) (fl i))"
  define m where "m = merge (rePicks env) (map (\<lambda>i. map (Pair i) (its i)) is)"
  let ?sk = "map (\<lambda>t. oKey (receipt_object t)) m"
  have sub: "set (shards ! i) \<subseteq> set ask" if "i \<in> set is" for i
  proof -
    have "set (concat shards) = set ask" using assms(2) by (rule mset_eq_setD)
    moreover have "shards ! i \<in> set shards" using that assms(4) by simp
    ultimately show ?thesis by (metis UN_upper set_concat)
  qed
  have ob: "ob \<in> stored lib src ` set (sk i)" if "i \<in> set is" "(ob, f) \<in> set (fl i)" for i ob f
    using an(2) [OF that(1), THEN arg_cong, of set] that(2) by force
  have m_el: "receipt_object t = stored lib src (oKey (receipt_object t)) \<and>
      receipt_kids t = kids_of lib (stored lib src (oKey (receipt_object t)))" if "t \<in> set m" for t
  proof -
    from that obtain i ob f where i: "i \<in> set is" "(ob, f) \<in> set (fl i)" "t = (i, ob, kids_of lib ob, f)"
      unfolding m_def merge_set its_def by auto
    with ob [OF i(1,2)] show ?thesis by auto
  qed
  have "mset ?sk = mset (map (\<lambda>t. oKey (receipt_object t)) (concat (map (\<lambda>i. map (Pair i) (its i)) is)))"
    unfolding m_def mset_map merge_mset ..
  also have "\<dots> = mset (concat (map sk is))"
  proof -
    have "map (\<lambda>t. oKey (receipt_object t)) (map (Pair i) (its i)) = sk i" if "i \<in> set is" for i
      using an(2) [OF that, THEN arg_cong, of "map oKey"] by (simp add: its_def comp_def case_prod_unfold)
    then show ?thesis by (simp add: map_concat comp_def cong: map_cong)
  qed
  also have "\<dots> = mset (concat (map (\<lambda>i. shards ! i) is))" using sh by (rule mset_concat_cong)
  also have "\<dots> = mset ask" using mset_nonempty [of shards] assms(2,4) by simp
  finally have ms: "mset ?sk = mset ask" .
  show ?thesis
  proof (rule that [OF ms])
    fix chans :: "ostream channel list" and rest
    assume len: "length chans = length shards" and fd: "feeds b rest chans"
    have dc: "decode_channel lib chans i = \<lparr>dIdx = i, dItems = its i, dErr = None, dSaw = saw i, dDrained = True, dTerm = None,
        dRest = rest i\<rparr>" if i: "i \<in> set is" for i
    proof -
      from i fd len assms(4) have "chIn (chans ! i) = \<lparr>avail = b i @ avail (rest i), fin = fin (rest i)\<rparr>"
        by (auto simp: feeds_def)
      with an(3) [OF i, of 4095 "avail (rest i)" "fin (rest i)"] obtain p where
        p: "pr_read_all lib 4095 (new_pack_reader (chIn (chans ! i))) = (p, content i, None)"
          "prR p = rest i" by auto
      have "\<forall>ob\<in>fst ` set (fl i). child_keys lib (oKey ob) (oData ob) = Inr (kids_of lib ob)"
        using ob [OF i] sub [OF i] assms(3) complete_stored [of lib src] sh [OF i, THEN mset_eq_setD] by fastforce
      from decode_channel_nth [OF p(1) an(1) [OF i] this] p(2) show ?thesis by (auto simp: its_def)
    qed
    have "map (\<lambda>d. map (Pair (dIdx d)) (dItems d)) (map (decode_channel lib chans) is) = map (\<lambda>i. map (Pair i) (its i)) is"
      using dc by simp
    then have mi: "merged_items lib env is chans = m" by (simp only: merged_items_def m_def)
    have "dErr (decode_channel lib chans i) = None \<and> dTerm (decode_channel lib chans i) = None \<and>
         fst (pack_spec lib (chIn (chans ! i))) = rest i" if "i \<in> set is" for i
      using dc [OF that] decode_channel_rest [of lib chans i] by auto
    moreover have "map receipt_object m = map (stored lib src) ?sk" using m_el by simp
    moreover have "map receipt_kids m = map (kids_of lib \<circ> stored lib src) ?sk" using m_el by simp
    ultimately show "map receipt_object (merged_items lib env is chans) = map (stored lib src) ?sk \<and>
      map receipt_kids (merged_items lib env is chans) = map (kids_of lib \<circ> stored lib src) ?sk \<and>
      (\<forall>i\<in>set is. dErr (decode_channel lib chans i) = None \<and> dTerm (decode_channel lib chans i) = None \<and>
         fst (pack_spec lib (chIn (chans ! i))) = rest i)"
      unfolding mi by blast
  qed
qed

lemma sharded_round:
  fixes lib :: "('p, 's, 'z) core_lib_scheme"
  assumes "accept_law lib" and "write_law lib" and "agree lib st src" and w: "wants lib st fr jobs = Inr ks"
    and sp: "split_wants ks maxWantsPerRound = (ask, carry)" "ask \<noteq> []" and ask: "\<forall>k\<in>set ask. tree_complete lib src k"
    and dw: "deal_wants lib ask (map2 (\<lambda>c p. c - p) reads prev) = Inr shards" and len: "length shards = length reads"
    and ms: "mset (concat shards) = mset ask" and d: "dealt lib src shards q b sk"
  obtains st' sk0 where "agree lib st' src" and "mset sk0 = mset ask"
    and "\<And>(s :: (ostream, 's) rstate) rest. feeds b rest (rsChans s) \<Longrightarrow> rsStore s = st \<Longrightarrow> rsFrontier s = fr \<Longrightarrow> rsPrev s = prev \<Longrightarrow>
      map chRead (rsChans s) = reads \<Longrightarrow>
      \<exists>s'. receive_round lib os_write jobs env s = (s', Again) \<and> rsStore s' = st' \<and>
        rsFrontier s' = concat (map (kids_of lib \<circ> stored lib src) sk0) @ carry \<and> rsPrev s' = reads \<and>
        map chRead (rsChans s') = map (\<lambda>i. reads ! i + int (length (b i))) [0..<length reads] \<and>
        (\<forall>i<length reads. chIn (rsChans s' ! i) = rest i \<and> os_up (chOut (rsChans s' ! i)) \<and>
           os_sent (chOut (rsChans s' ! i)) = os_sent (chOut (rsChans s ! i)) @ q i)"
proof -
  let ?is = "filter (\<lambda>i. shards ! i \<noteq> []) [0..<length shards]"
  obtain sk0 where sk0: "mset sk0 = mset ask"
    and mg: "\<And>(chans :: ostream channel list) rest. length chans = length shards \<Longrightarrow> feeds b rest chans \<Longrightarrow>
      map receipt_object (merged_items lib env ?is chans) = map (stored lib src) sk0 \<and>
      map receipt_kids (merged_items lib env ?is chans) = map (kids_of lib \<circ> stored lib src) sk0 \<and>
      (\<forall>i\<in>set ?is. dErr (decode_channel lib chans i) = None \<and> dTerm (decode_channel lib chans i) = None \<and>
         fst (pack_spec lib (chIn (chans ! i))) = rest i)"
    using dealt_merged [OF d ms ask refl, of env] by blast
  have ks0: "set sk0 = set ask" using sk0 by (rule mset_eq_setD)
  have "\<forall>ob\<in>set (map (stored lib src) sk0). tree_complete lib src (oKey ob) \<and> st_get lib src (oKey ob) = Inr (oData ob)"
    using ask complete_stored [of lib src] by (simp add: ks0)
  with assms(1,3) obtain st' where st': "st_write lib st (map (stored lib src) sk0) = (st', length sk0, None)" "agree lib st' src"
    unfolding accept_law_def by (metis length_map)
  show ?thesis
  proof (rule that [OF st'(2) sk0])
    fix s :: "(ostream, 's) rstate" and rest
    assume s: "feeds b rest (rsChans s)" "rsStore s = st" "rsFrontier s = fr" "rsPrev s = prev" "map chRead (rsChans s) = reads"
    have k: "length (rsChans s) = length shards" using s(5) len by auto
    have up: "\<forall>c\<in>set (rsChans s). os_up (chOut c)" using s(1) by (auto simp: feeds_def in_set_conv_nth)
    have gf: "\<forall>j<length shards. shards ! j \<noteq> [] \<longrightarrow> frame_bytes lib (wants_msg (shards ! j)) = Some (q (0 + j))"
      using d by (auto simp: dealt_def dest: good_frame_bytes split: if_splits)
    from shards_sent [OF gf _ up] k obtain chans "is" where
      ss: "send_shards lib os_write 0 shards (rsChans s) = (chans, is, None)" "set is = {j. j < length shards \<and> shards ! j \<noteq> []}"
        "length chans = length shards" "\<forall>c\<in>set chans. os_up (chOut c)"
        "\<forall>j<length shards. os_sent (chOut (chans ! j)) = os_sent (chOut (rsChans s ! j)) @ (if j \<in> set is then q j else [])" by auto
    note kp = send_shards_keeps [OF ss(1)]
    then have isf: "is = ?is" using ss(2) by (intro sorted_unique) auto
    have same: "chIn (chans ! i) = chIn (rsChans s ! i)" "chRead (chans ! i) = reads ! i" if "i < length shards" for i
      using kp that k ss(3) s(5) by (metis nth_map)+
    have fd: "feeds b rest chans" using s(1) ss(3,4) same k by (auto simp: feeds_def)
    from mg [OF ss(3) fd] isf have mi: "map receipt_object (merged_items lib env is chans) = map (stored lib src) sk0"
      "map receipt_kids (merged_items lib env is chans) = map (kids_of lib \<circ> stored lib src) sk0"
      "\<forall>i\<in>set is. dErr (decode_channel lib chans i) = None \<and> dTerm (decode_channel lib chans i) = None"
      "\<forall>i\<in>set is. fst (pack_spec lib (chIn (chans ! i))) = rest i" by blast+
    have lm: "length (merged_items lib env is chans) = length sk0" using mi(1) by (metis length_map)
    obtain s2 where r: "receive_round lib os_write jobs env s = receive_packs lib env is ask carry s2"
      "rsChans s2 = chans" "rsStore s2 = st" "rsPrev s2 = reads"
    proof -
      have "map2 (\<lambda>c p. chRead c - p) (rsChans s) (rsPrev s) = map2 (\<lambda>c p. c - p) reads prev"
        unfolding s(4) s(5) [symmetric] by (simp add: zip_map1 comp_def case_prod_unfold)
      with dw have "deal_wants lib ask (map2 (\<lambda>c p. chRead c - p) (rsChans s) (rsPrev s)) = Inr shards" by simp
      with w sp ss(1) s(2,3,5) show ?thesis by (auto simp: receive_round_def Let_def intro: that)
    qed
    show "\<exists>s'. receive_round lib os_write jobs env s = (s', Again) \<and> rsStore s' = st' \<and>
        rsFrontier s' = concat (map (kids_of lib \<circ> stored lib src) sk0) @ carry \<and> rsPrev s' = reads \<and>
        map chRead (rsChans s') = map (\<lambda>i. reads ! i + int (length (b i))) [0..<length reads] \<and>
        (\<forall>i<length reads. chIn (rsChans s' ! i) = rest i \<and> os_up (chOut (rsChans s' ! i)) \<and>
           os_sent (chOut (rsChans s' ! i)) = os_sent (chOut (rsChans s ! i)) @ q i)"
    proof -
      have wr: "st_write lib (rsStore s2) (map receipt_object (merged_items lib env is (rsChans s2))) =
          (st', length (merged_items lib env is (rsChans s2)), None)"
        by (simp only: r(2,3) mi(1) lm st'(1))
      have cov: "set ask \<subseteq> (\<lambda>t. oKey (receipt_object t)) ` set (merged_items lib env is (rsChans s2))"
      proof -
        have "(\<lambda>t. oKey (receipt_object t)) ` set (merged_items lib env is chans) =
            oKey ` set (map receipt_object (merged_items lib env is chans))" by (simp add: image_image)
        also have "\<dots> = set ask" unfolding mi(1) by (simp add: image_image ks0)
        finally show ?thesis using r(2) by simp
      qed
      from receive_packs_clean [OF _ wr cov, of carry] mi(3) r(2) obtain s' where
        s': "receive_packs lib env is ask carry s2 = (s', Again)" "rsPrev s' = reads" using r(4) by auto
      from receive_packs_Again [OF s'(1)] obtain n where
        n: "st_write lib (rsStore s2) (map receipt_object (merged_items lib env is (rsChans s2))) = (rsStore s', n, None)"
          "rsFrontier s' = concat (map receipt_kids (take n (merged_items lib env is (rsChans s2)))) @ carry" by metis
      then have st: "rsStore s' = st'" and fr: "rsFrontier s' = concat (map (kids_of lib \<circ> stored lib src) sk0) @ carry"
        using wr by (simp_all add: r(2) mi(2))
      have "distinct is" "set is \<subseteq> {..<length (rsChans s2)}"
        using kp ss(2,3) r(2) by (auto simp: strict_sorted_iff)
      from packs_Again_channels [OF assms(2) s'(1) this] have ap: "rsChans s' = after_packs lib is chans" by (simp add: r(2))
      have ch: "rsChans s' ! i = (if i \<in> set is then ch_read_to (rest i) (chans ! i) else chans ! i)" if "i < length reads" for i
        using that len ss(3) mi(4) by (simp add: ap after_packs_def)
      have q0: "q i = [] \<and> b i = []" if "i < length reads" "i \<notin> set is" for i
        using that d len ss(2) by (auto simp: dealt_def)
      have lr: "length (rsChans s') = length reads" using ss(3) len by (simp add: ap after_packs_def)
      have "map chRead (rsChans s') = map (\<lambda>i. reads ! i + int (length (b i))) [0..<length reads]"
      proof (rule nth_equalityI)
        fix i assume "i < length (map chRead (rsChans s'))"
        then have i: "i < length reads" by (simp add: lr)
        with fd ss(3) len have "chIn (chans ! i) = \<lparr>avail = b i @ avail (rest i), fin = fin (rest i)\<rparr>" by (simp add: feeds_def)
        with i ch [OF i] q0 [OF i] same(2) [of i] len
        show "map chRead (rsChans s') ! i = map (\<lambda>i. reads ! i + int (length (b i))) [0..<length reads] ! i"
          by (simp add: lr ch_read_to_def)
      qed (simp add: lr)
      moreover have "\<forall>i<length reads. chIn (rsChans s' ! i) = rest i \<and> os_up (chOut (rsChans s' ! i)) \<and>
           os_sent (chOut (rsChans s' ! i)) = os_sent (chOut (rsChans s ! i)) @ q i"
        using ch q0 fd ss(3-5) len by (auto simp: feeds_def ch_read_to_def)
      ultimately show ?thesis using r(1) s' st fr by auto
    qed
  qed
qed

section \<open>Lemmas: all rounds\<close>

text \<open>
  With \<open>bs i\<close> in front of what arrives on channel \<open>i\<close>, a receiver in this state returns nil within \<open>n\<close>
  rounds, has read just that, and has sent \<open>as i\<close> on it.
\<close>

definition sharded_run ::
  "('p, 's, 'z) core_lib_scheme \<Rightarrow> int \<Rightarrow> (nat \<Rightarrow> round_env) \<Rightarrow> 's \<Rightarrow> key list \<Rightarrow> int list \<Rightarrow> int list \<Rightarrow> nat \<Rightarrow>
     (nat \<Rightarrow> bytes) \<Rightarrow> (nat \<Rightarrow> bytes) \<Rightarrow> bool" where
  "sharded_run lib jobs envs st fr prev reads n as bs \<longleftrightarrow> (\<forall>s rest. feeds bs rest (rsChans s) \<longrightarrow>
     rsStore s = st \<longrightarrow> rsFrontier s = fr \<longrightarrow> rsPrev s = prev \<longrightarrow> map chRead (rsChans s) = reads \<longrightarrow>
     (\<exists>s'. receive_loop lib os_write jobs envs n s = Some (s', None) \<and> length (rsChans s') = length reads \<and>
        (\<forall>i<length reads. chIn (rsChans s' ! i) = rest i \<and> os_up (chOut (rsChans s' ! i)) \<and>
           os_sent (chOut (rsChans s' ! i)) = os_sent (chOut (rsChans s ! i)) @ as i)))"

lemma sharded_last:
  fixes lib :: "('p, 's, 'z) core_lib_scheme"
  assumes "wants lib st fr jobs = Inr []" and "good_frame lib (wants_msg []) = Some q"
  shows "sharded_run lib jobs envs st fr prev reads 1 (\<lambda>i. q) (\<lambda>i. [])"
  unfolding sharded_run_def
proof (intro allI impI)
  fix s :: "(ostream, 's) rstate" and rest
  assume s: "feeds (\<lambda>i. []) rest (rsChans s)" "rsStore s = st" "rsFrontier s = fr" "map chRead (rsChans s) = reads"
  have up: "\<forall>c\<in>set (rsChans s). os_up (chOut c)" using s(1) by (auto simp: feeds_def in_set_conv_nth)
  from good_frame_bytes [OF assms(2)] have f: "frame_bytes lib (zero_msg\<lparr>mType := TWants\<rparr>) = Some q" by (simp add: wants_msg_Nil)
  obtain chans where ch: "send_finals lib os_write (rsChans s) = (chans, None)" "length chans = length (rsChans s)"
    "\<forall>c\<in>set chans. os_up (chOut c)" "map (\<lambda>c. os_sent (chOut c)) chans = map (\<lambda>c. os_sent (chOut c) @ q) (rsChans s)"
    using finals_healthy [OF f up] by blast
  obtain s' where s': "receive_round lib os_write jobs (envs 0) s = (s', Finished)" "rsChans s' = chans"
    using assms(1) s(2,3) ch(1) by (simp add: receive_round_def split_wants_def Let_def)
  have k: "length reads = length (rsChans s)" using s(4) by auto
  have "chIn (chans ! i) = rest i \<and> os_up (chOut (chans ! i)) \<and> os_sent (chOut (chans ! i)) = os_sent (chOut (rsChans s ! i)) @ q"
    if "i < length (rsChans s)" for i
  proof -
    have "chIn (chans ! i) = chIn (rsChans s ! i)" using send_finals_keeps [OF ch(1)] that ch(2) by (metis nth_map)
    moreover have "os_sent (chOut (chans ! i)) = os_sent (chOut (rsChans s ! i)) @ q"
      using arg_cong [OF ch(4), of "\<lambda>l. l ! i"] that ch(2) by simp
    ultimately show ?thesis using that s(1) ch(2,3) by (simp add: feeds_def)
  qed
  then show "\<exists>s'. receive_loop lib os_write jobs envs 1 s = Some (s', None) \<and> length (rsChans s') = length reads \<and>
      (\<forall>i<length reads. chIn (rsChans s' ! i) = rest i \<and> os_up (chOut (rsChans s' ! i)) \<and>
        os_sent (chOut (rsChans s' ! i)) = os_sent (chOut (rsChans s ! i)) @ q)"
    using s' ch(2) k by simp
qed

lemma sharded_next:
  fixes lib :: "('p, 's, 'z) core_lib_scheme"
  assumes r: "\<And>(s :: (ostream, 's) rstate) rest. feeds b rest (rsChans s) \<Longrightarrow> rsStore s = st \<Longrightarrow> rsFrontier s = fr \<Longrightarrow> rsPrev s = prev \<Longrightarrow>
      map chRead (rsChans s) = reads \<Longrightarrow>
      \<exists>s'. receive_round lib os_write jobs (envs 0) s = (s', Again) \<and> rsStore s' = st' \<and>
        rsFrontier s' = fr' \<and> rsPrev s' = reads \<and> map chRead (rsChans s') = reads' \<and>
        (\<forall>i<length reads. chIn (rsChans s' ! i) = rest i \<and> os_up (chOut (rsChans s' ! i)) \<and>
           os_sent (chOut (rsChans s' ! i)) = os_sent (chOut (rsChans s ! i)) @ q i)"
    and "sharded_run lib jobs (\<lambda>n. envs (Suc n)) st' fr' reads reads' n as bs" and len: "length reads' = length reads"
  shows "sharded_run lib jobs envs st fr prev reads (Suc n) (\<lambda>i. q i @ as i) (\<lambda>i. b i @ bs i)"
  unfolding sharded_run_def
proof (intro allI impI)
  fix s :: "(ostream, 's) rstate" and rest
  assume s: "feeds (\<lambda>i. b i @ bs i) rest (rsChans s)" "rsStore s = st" "rsFrontier s = fr" "rsPrev s = prev"
    "map chRead (rsChans s) = reads"
  let ?rest = "\<lambda>i. \<lparr>avail = bs i @ avail (rest i), fin = fin (rest i)\<rparr>"
  have "feeds b ?rest (rsChans s)" using s(1) by (simp add: feeds_def)
  from r [OF this s(2-5)] obtain s1 where s1: "receive_round lib os_write jobs (envs 0) s = (s1, Again)" "rsStore s1 = st'"
    "rsFrontier s1 = fr'" "rsPrev s1 = reads" "map chRead (rsChans s1) = reads'"
    "\<forall>i<length reads. chIn (rsChans s1 ! i) = ?rest i \<and> os_up (chOut (rsChans s1 ! i)) \<and>
       os_sent (chOut (rsChans s1 ! i)) = os_sent (chOut (rsChans s ! i)) @ q i" by blast
  have "length (rsChans s1) = length reads" using s1(5) len by auto
  then have "feeds bs rest (rsChans s1)" using s1(6) by (simp add: feeds_def)
  with assms(2) s1(2-5) obtain s' where
    "receive_loop lib os_write jobs (\<lambda>n. envs (Suc n)) n s1 = Some (s', None)" "length (rsChans s') = length reads'"
    "\<forall>i<length reads'. chIn (rsChans s' ! i) = rest i \<and> os_up (chOut (rsChans s' ! i)) \<and>
       os_sent (chOut (rsChans s' ! i)) = os_sent (chOut (rsChans s1 ! i)) @ as i"
    unfolding sharded_run_def by blast
  with s1(1,6) len show "\<exists>s'. receive_loop lib os_write jobs envs (Suc n) s = Some (s', None) \<and> length (rsChans s') = length reads \<and>
      (\<forall>i<length reads. chIn (rsChans s' ! i) = rest i \<and> os_up (chOut (rsChans s' ! i)) \<and>
        os_sent (chOut (rsChans s' ! i)) = os_sent (chOut (rsChans s ! i)) @ q i @ as i)" by simp
qed

text \<open>A shard of a request is a request, and a sender answers it.\<close>

lemma shard_answered:
  assumes "data_codec lib" and "sort_law lib" and "pack_law lib src" and "request_law lib"
    and "distinct ask" "\<forall>k\<in>set ask. tree_complete lib src k" "length ask \<le> maxWantsPerRound"
    and "mset (concat shards) = mset ask" and "i < length shards" and "shards ! i \<noteq> []"
  obtains q b sk where "good_frame lib (wants_msg (shards ! i)) = Some q" and "answers lib src sk b"
    and "mset sk = mset (shards ! i)" and "\<And>a' b'. sender_run lib src a' b' \<Longrightarrow> sender_run lib src (q @ a') (b @ b')"
proof -
  have "distinct (concat shards)" using assms(5,8) by (metis mset_eq_imp_distinct_iff)
  then have d: "distinct (shards ! i)" using assms(9) by (simp add: distinct_concat_iff)
  have "mset (shards ! i) \<subseteq># mset (concat shards)"
    using assms(9) by (metis append_take_drop_id concat_append concat.simps(2) Cons_nth_drop_Suc mset_append mset_subset_eq_add_left
        mset_subset_eq_add_right subset_mset.order_trans)
  then have "length (shards ! i) \<le> length ask" "set (shards ! i) \<subseteq> set ask"
    unfolding assms(8) by (metis size_mset size_mset_mono, metis set_mset_mono set_mset_mset)
  with assms(6,7) have sh: "\<forall>k\<in>set (shards ! i). tree_complete lib src k" "length (shards ! i) \<le> maxWantsPerRound" by auto
  from assms(4) d sh obtain q where q: "good_frame lib (wants_msg (shards ! i)) = Some q" unfolding request_law_def by blast
  obtain b sk where "answers lib src sk b" "mset sk = mset (shards ! i)"
    and snd: "\<And>(ss :: ostream send_state) t f. ssIn ss = \<lparr>avail = q @ t, fin = f\<rparr> \<Longrightarrow> os_up (ssOut ss) \<Longrightarrow>
      \<exists>ss'. send_round lib os_write src ss = (ss', Again) \<and> ssIn ss' = \<lparr>avail = t, fin = f\<rparr> \<and> os_up (ssOut ss') \<and>
        os_sent (ssOut ss') = os_sent (ssOut ss) @ b"
    using sender_answers [OF assms(1-4) d sh assms(10) q] by metis
  with q next_round_sender [OF snd] that show ?thesis by blast
qed

lemma shards_answered:
  assumes "data_codec lib" and "sort_law lib" and "pack_law lib src" and "request_law lib"
    and "distinct ask" "\<forall>k\<in>set ask. tree_complete lib src k" "length ask \<le> maxWantsPerRound"
    and "mset (concat shards) = mset ask"
  obtains q b sk where "dealt lib src shards q b sk"
    and "\<And>i a' b'. i < length shards \<Longrightarrow> sender_run lib src a' b' \<Longrightarrow> sender_run lib src (q i @ a') (b i @ b')"
proof -
  let ?P = "\<lambda>i t. (if shards ! i = [] then fst t = [] \<and> fst (snd t) = []
       else good_frame lib (wants_msg (shards ! i)) = Some (fst t) \<and> answers lib src (snd (snd t)) (fst (snd t)) \<and>
         mset (snd (snd t)) = mset (shards ! i)) \<and>
     (\<forall>a' b'. sender_run lib src a' b' \<longrightarrow> sender_run lib src (fst t @ a') (fst (snd t) @ b'))"
  have "\<exists>t. ?P i t" if i: "i < length shards" for i
  proof (cases "shards ! i = []")
    case True
    then show ?thesis by (intro exI [of _ "([], [], [])"]) simp
  next
    case False
    obtain q b sk where "good_frame lib (wants_msg (shards ! i)) = Some q" "answers lib src sk b"
      "mset sk = mset (shards ! i)" "\<And>a' b'. sender_run lib src a' b' \<Longrightarrow> sender_run lib src (q @ a') (b @ b')"
      using shard_answered [OF assms i False] by metis
    with False show ?thesis by (intro exI [of _ "(q, b, sk)"]) simp
  qed
  then obtain t where t: "\<And>i. i < length shards \<Longrightarrow> ?P i (t i)" by metis
  show ?thesis
  proof (rule that [of "\<lambda>i. fst (t i)" "\<lambda>i. fst (snd (t i))" "\<lambda>i. snd (snd (t i))"])
    show "dealt lib src shards (\<lambda>i. fst (t i)) (\<lambda>i. fst (snd (t i))) (\<lambda>i. snd (snd (t i)))"
      unfolding dealt_def using t by blast
  qed (use t in blast)
qed

lemma sharded_rounds:
  fixes lib :: "('p, 's, 'z) core_lib_scheme"
  assumes "data_codec lib" and "sort_law lib" and "walk_law lib" and "accept_law lib" and "pack_law lib src" and "request_law lib"
    and "write_law lib"
  shows "agree lib st src \<Longrightarrow> \<forall>k\<in>set fr. tree_complete lib src k \<Longrightarrow> length prev = length reads \<Longrightarrow> reads \<noteq> [] \<Longrightarrow>
    \<exists>n as bs. sharded_run lib jobs envs st fr prev reads n as bs \<and> (\<forall>i<length reads. sender_run lib src (as i) (bs i))"
proof (induction "mset fr" arbitrary: fr st envs prev reads rule: wf_induct_rule [OF wf_mult [OF wf_below [of lib src]]])
  case 1
  note fr = 1(3) and st = 1(2)
  obtain ks where ks: "wants lib st fr jobs = Inr ks" "distinct ks" "set ks \<subseteq> set fr"
    by (rule honest_wants [OF assms(3) st fr])
  obtain ask carry where sp: "split_wants ks maxWantsPerRound = (ask, carry)" by fastforce
  have ac: "ks = ask @ carry" "length ask \<le> maxWantsPerRound"
    using split_wants_append [of ks maxWantsPerRound] split_wants_send_le [of ks maxWantsPerRound] sp by simp_all
  have ask: "distinct ask" "\<forall>k\<in>set ask. tree_complete lib src k" and sub: "set (ask @ carry) \<subseteq> set fr"
    using ks ac(1) fr by auto
  show ?case
  proof (cases "ask = []")
    case True
    obtain q where q: "good_frame lib (wants_msg []) = Some q"
      using assms(6) ask ac(2) unfolding request_law_def True by blast
    from True sp have "ks = []" by (auto simp: split_wants_def maxWantsPerRound_def split: if_splits)
    with sharded_last [OF _ q] last_round [OF _ q] ks(1) show ?thesis by blast
  next
    case False
    obtain shards where sh: "deal_wants lib ask (map2 (\<lambda>c p. c - p) reads prev) = Inr shards" "length shards = length reads"
      "mset (concat shards) = mset ask"
      using deal_wants_total [of "map2 (\<lambda>c p. c - p) reads prev" lib ask] 1(4,5)
      by (metis length_map length_zip length_0_conv min.idem)
    obtain q b sk where d: "dealt lib src shards q b sk"
      and snd: "\<And>i a' b'. i < length shards \<Longrightarrow> sender_run lib src a' b' \<Longrightarrow> sender_run lib src (q i @ a') (b i @ b')"
      using shards_answered [OF assms(1,2,5,6) ask ac(2) sh(3)] by metis
    let ?reads = "map (\<lambda>i. reads ! i + int (length (b i))) [0..<length reads]"
    obtain st' sk0 where ag: "agree lib st' src" and sk0: "mset sk0 = mset ask"
      and r: "\<And>(s :: (ostream, 's) rstate) rest. feeds b rest (rsChans s) \<Longrightarrow> rsStore s = st \<Longrightarrow> rsFrontier s = fr \<Longrightarrow> rsPrev s = prev \<Longrightarrow>
      map chRead (rsChans s) = reads \<Longrightarrow>
      \<exists>s'. receive_round lib os_write jobs (envs 0) s = (s', Again) \<and> rsStore s' = st' \<and>
        rsFrontier s' = concat (map (kids_of lib \<circ> stored lib src) sk0) @ carry \<and> rsPrev s' = reads \<and>
        map chRead (rsChans s') = ?reads \<and>
        (\<forall>i<length reads. chIn (rsChans s' ! i) = rest i \<and> os_up (chOut (rsChans s' ! i)) \<and>
           os_sent (chOut (rsChans s' ! i)) = os_sent (chOut (rsChans s ! i)) @ q i)"
      using sharded_round [OF assms(4,7) st ks(1) sp False ask(2) sh d, of "envs 0"] by blast
    let ?fr = "concat (map (kids_of lib \<circ> stored lib src) sk0) @ carry"
    have "set sk0 = set ask" using sk0 by (rule mset_eq_setD)
    then have fr': "\<forall>k\<in>set ?fr. tree_complete lib src k"
      using ask(2) sub fr complete_stored [of lib src] by auto
    have "(mset ?fr, mset fr) \<in> mult (below lib src)"
      using frontier_smaller [OF _ sub False sk0 fr] ks(2) ac(1) by simp
    from 1(1) [OF this ag fr', of reads ?reads "\<lambda>n. envs (Suc n)"] 1(5) obtain n as bs where
      n: "sharded_run lib jobs (\<lambda>n. envs (Suc n)) st' ?fr reads ?reads n as bs" "\<forall>i<length reads. sender_run lib src (as i) (bs i)"
      by auto
    have "sharded_run lib jobs envs st fr prev reads (Suc n) (\<lambda>i. q i @ as i) (\<lambda>i. b i @ bs i)"
    proof (rule sharded_next [OF _ n(1)], goal_cases)
      case (1 s rest)
      then show ?case by (rule r)
    qed simp
    moreover have "\<forall>i<length reads. sender_run lib src (q i @ as i) (b i @ bs i)" using snd n(2) sh(2) by simp
    ultimately show ?thesis by blast
  qed
qed

lemma sharded_run_receive:
  fixes lib :: "('p, 's, 'z) core_lib_scheme"
  assumes r: "sharded_run lib jobs envs st [goal] (replicate k 0) (replicate k 0) n as bs" and laws: "check_law lib" "write_law lib"
    and k: "length links = k" "n \<le> fuel"
    and l: "\<And>i. i < k \<Longrightarrow> fst (links ! i) = \<lparr>avail = bs i @ avail (rest i), fin = fin (rest i)\<rparr> \<and> os_up (snd (links ! i))"
  shows "\<exists>rs. receive lib os_write envs fuel links st goal jobs prog = Some (rs, None) \<and> length (rsChans rs) = k \<and>
    (\<forall>i<k. chIn (rsChans rs ! i) = rest i \<and> os_up (chOut (rsChans rs ! i)) \<and>
       os_sent (chOut (rsChans rs ! i)) = os_sent (snd (links ! i)) @ as i) \<and>
    tree_complete lib (rsStore rs) goal"
proof -
  let ?s = "receive_start (map (\<lambda>(r, w). \<lparr>chIn = r, chOut = w, chRead = 0\<rparr>) links) st goal prog"
  have nth: "rsChans ?s ! i = \<lparr>chIn = fst (links ! i), chOut = snd (links ! i), chRead = 0\<rparr>" if "i < k" for i
    using that k(1) by (simp add: receive_start_def case_prod_unfold)
  have len: "length (rsChans ?s) = k" by (simp add: receive_start_def k(1))
  have "feeds bs rest (rsChans ?s)" using nth l len by (simp add: feeds_def)
  moreover have "rsStore ?s = st" "rsFrontier ?s = [goal]" "rsPrev ?s = replicate k 0" "map chRead (rsChans ?s) = replicate k 0"
    using k(1) by (simp_all add: receive_start_def comp_def case_prod_unfold map_replicate_const)
  ultimately obtain rs where rs: "receive_loop lib os_write jobs envs n ?s = Some (rs, None)" "length (rsChans rs) = k"
      "\<forall>i<k. chIn (rsChans rs ! i) = rest i \<and> os_up (chOut (rsChans rs ! i)) \<and>
        os_sent (chOut (rsChans rs ! i)) = os_sent (chOut (rsChans ?s ! i)) @ as i"
    using r unfolding sharded_run_def length_replicate by blast
  have "receive lib os_write envs fuel links st goal jobs prog = Some (rs, None)"
    unfolding receive_def using loop_fuel_mono [OF rs(1) k(2)] .
  moreover have "tree_complete lib (rsStore rs) goal" using loop_complete [OF laws rs(1) receive_start_covers] by blast
  ultimately show ?thesis using rs(2,3) nth by auto
qed

lemma sharded_transcripts:
  assumes "transfer_laws lib src" and "agree lib st src" and "tree_complete lib src goal" and "0 < k"
  obtains n as bs where "sharded_run lib jobs envs st [goal] (replicate k 0) (replicate k 0) n as bs"
    and "\<And>i. i < k \<Longrightarrow> sender_run lib src (as i) (bs i)"
proof -
  have fr: "\<forall>k\<in>set [goal]. tree_complete lib src k" using assms(3) by simp
  from sharded_rounds [OF _ _ _ _ _ _ _ assms(2) fr, of "replicate k 0" "replicate k 0" jobs envs] assms(1,4) that show ?thesis
    by (auto simp: transfer_laws_def)
qed

section \<open>The property\<close>

text \<open>
  Claim C7 (a transfer over several connections completes).  Let one side hold the whole tree below
  \<open>goal\<close> and the other any store, partly filled or empty, that agrees with it on common keys, joined
  by \<open>k\<close> connections that stay up.  For every schedule of the decoders there are transcripts of the
  connections such that \<open>Receive\<close>, dealing its wants over all of them, reads \<open>bs\<close>, writes exactly
  \<open>as\<close>, returns nil and has the whole tree, while the \<open>Send\<close> at the end of each connection reads its
  part of \<open>as\<close>, writes exactly its part of \<open>bs\<close> and returns nil: no connection is left waiting,
  also one that is never asked for an object.
\<close>

theorem sharded_sync_completes:
  assumes "transfer_laws lib src" and "agree lib st src" and "tree_complete lib src goal" and "0 < k"
  shows "\<exists>n as bs. length as = k \<and> length bs = k \<and>
    (\<forall>prog f. \<exists>rs. receive lib os_write envs n (map (\<lambda>b. (\<lparr>avail = b, fin = f\<rparr>, fresh_out)) bs) st goal jobs prog = Some (rs, None) \<and>
       map chIn (rsChans rs) = replicate k \<lparr>avail = [], fin = f\<rparr> \<and> map (\<lambda>c. os_sent (chOut c)) (rsChans rs) = as \<and>
       tree_complete lib (rsStore rs) goal) \<and>
    (\<forall>i prog f. i < k \<longrightarrow> (\<exists>ss. send_loop lib os_write src \<lparr>ssIn = \<lparr>avail = as ! i, fin = f\<rparr>, ssOut = fresh_out, ssProg = prog\<rparr> = (ss, None) \<and>
       ssIn ss = \<lparr>avail = [], fin = f\<rparr> \<and> os_sent (ssOut ss) = bs ! i))"
proof -
  have laws: "check_law lib" "write_law lib" using assms(1) by (simp_all add: transfer_laws_def)
  obtain n as bs where r: "sharded_run lib jobs envs st [goal] (replicate k 0) (replicate k 0) n as bs"
    and s: "\<And>i. i < k \<Longrightarrow> sender_run lib src (as i) (bs i)" using sharded_transcripts [OF assms] by metis
  have rc: "\<exists>rs. receive lib os_write envs n (map (\<lambda>b. (\<lparr>avail = b, fin = f\<rparr>, fresh_out)) (map bs [0..<k])) st goal jobs prog = Some (rs, None) \<and>
       map chIn (rsChans rs) = replicate k \<lparr>avail = [], fin = f\<rparr> \<and> map (\<lambda>c. os_sent (chOut c)) (rsChans rs) = map as [0..<k] \<and>
       tree_complete lib (rsStore rs) goal" for f prog
  proof -
    let ?links = "map (\<lambda>b. (\<lparr>avail = b, fin = f\<rparr>, fresh_out)) (map bs [0..<k])"
    have "\<exists>rs. receive lib os_write envs n ?links st goal jobs prog = Some (rs, None) \<and> length (rsChans rs) = k \<and>
      (\<forall>i<k. chIn (rsChans rs ! i) = \<lparr>avail = [], fin = f\<rparr> \<and> os_up (chOut (rsChans rs ! i)) \<and>
         os_sent (chOut (rsChans rs ! i)) = os_sent (snd (?links ! i)) @ as i) \<and> tree_complete lib (rsStore rs) goal"
      by (rule sharded_run_receive [OF r laws]) (simp_all add: fresh_up)
    then obtain rs where rs: "receive lib os_write envs n ?links st goal jobs prog = Some (rs, None)" "length (rsChans rs) = k"
      "\<forall>i<k. chIn (rsChans rs ! i) = \<lparr>avail = [], fin = f\<rparr> \<and> os_sent (chOut (rsChans rs ! i)) = as i"
      "tree_complete lib (rsStore rs) goal" by (auto simp: fresh_out_def)
    have "map chIn (rsChans rs) = replicate k \<lparr>avail = [], fin = f\<rparr>" "map (\<lambda>c. os_sent (chOut c)) (rsChans rs) = map as [0..<k]"
      using rs(2,3) by (auto intro!: nth_equalityI)
    with rs(1,4) show ?thesis by blast
  qed
  have sd: "\<exists>ss. send_loop lib os_write src \<lparr>ssIn = \<lparr>avail = map as [0..<k] ! i, fin = f\<rparr>, ssOut = fresh_out, ssProg = prog\<rparr> = (ss, None) \<and>
       ssIn ss = \<lparr>avail = [], fin = f\<rparr> \<and> os_sent (ssOut ss) = map bs [0..<k] ! i" if "i < k" for i f prog
    using sender_run_send [OF s [OF that] fresh_up, of "[]" f prog] that by (auto simp: fresh_out_def)
  show ?thesis
  proof (rule exI [of _ n], rule exI [of _ "map as [0..<k]"], rule exI [of _ "map bs [0..<k]"], intro conjI allI impI, goal_cases)
    case (3 prog f)
    show ?case by (rule rc)
  next
    case (4 i prog f)
    then show ?case by (rule sd)
  qed simp_all
qed

text \<open>Three connections for a tree of two objects, of which the receiver has the leaf already.\<close>

theorem sharded_sync_completes_witness:
  "\<exists>n as bs rs ss. receive pack_sample os_write sample_env n (map (\<lambda>b. (\<lparr>avail = b, fin = IoEOF\<rparr>, fresh_out)) bs)
      [(Key [4], [4])] (Key [9]) 0 None = Some (rs, None) \<and> length bs = 3 \<and>
    map (\<lambda>c. os_sent (chOut c)) (rsChans rs) = as \<and> tree_complete pack_sample (rsStore rs) (Key [9]) \<and>
    send_loop pack_sample os_write sample_source \<lparr>ssIn = \<lparr>avail = as ! 2, fin = IoEOF\<rparr>, ssOut = fresh_out, ssProg = None\<rparr> = (ss, None) \<and>
    os_sent (ssOut ss) = bs ! 2"
proof -
  have k: "(0 :: nat) < 3" "(2 :: nat) < 3" by simp_all
  from sharded_sync_completes [OF sample_transfer_laws sample_part_agrees sample_source_complete k(1)] k(2)
  show ?thesis by blast
qed

end
