(* ===== verification/Sharded_Push.thy ===== *)
theory Sharded_Push
  imports End_To_End Sharded
begin

text \<open>
  \<open>amber push --conns\<close> against \<open>HandleStream\<close>: the accept frame with the transfer token, the extra
  connections that attach with it, the want loop over all of them, and the commit.
\<close>

section \<open>The extra connections\<close>

text \<open>How many of the attempts \<open>i\<close> to \<open>i + k - 1\<close> get a connection and a stream before one fails.\<close>

fun extras_reached ::
  "16 word list \<Rightarrow> (nat \<Rightarrow> 'w attempt) \<Rightarrow> nat \<Rightarrow> nat \<Rightarrow> server_conn \<Rightarrow> net \<Rightarrow> nat" where
  "extras_reached ports ats i 0 sc n = 0"
| "extras_reached ports ats i (Suc k) sc n =
     (case extra_conn i ports (ats i) sc n of
        (sc1, n1, Inl e) \<Rightarrow> 0
      | (sc1, n1, Inr c) \<Rightarrow>
          (case atOpen (ats i) of Inl e \<Rightarrow> 0 | Inr l \<Rightarrow> Suc (extras_reached ports ats (Suc i) k sc1 n1)))"

text \<open>The streams of the attempts deliver \<open>ys\<close>, if they open.\<close>

definition on_streams :: "(nat \<Rightarrow> bytes) \<Rightarrow> goerr \<Rightarrow> (nat \<Rightarrow> ostream attempt) \<Rightarrow> nat \<Rightarrow> ostream attempt" where
  "on_streams ys f ats j = (ats j)\<lparr>atOpen := map_sum id (\<lambda>_. fresh_link (ys j) f) (atOpen (ats j))\<rparr>"

lemma on_streams_fields [simp]:
  "atBind (on_streams ys f ats j) = atBind (ats j)" "atRace (on_streams ys f ats j) = atRace (ats j)"
  "atRetry (on_streams ys f ats j) = atRetry (ats j)"
  by (simp_all add: on_streams_def)

lemma extra_conn_on_streams: "extra_conn i ports (on_streams ys f ats j) sc n = extra_conn i ports (ats j) sc n"
  unfolding extra_conn_def on_streams_fields by (rule refl)

lemma attach_loop_reached:
  assumes q: "good_frame lib (attach_msg token) = Some q"
  shows "attach_loop lib os_write token ports (on_streams ys f ats) i k sc n = (sc', n', streams) \<Longrightarrow>
    length streams = extras_reached ports ats i k sc n \<and>
    (\<forall>j<length streams. \<exists>w. snd (streams ! j) = \<lparr>lkIn = \<lparr>avail = ys (i + j), fin = f\<rparr>, lkOut = w\<rparr> \<and> os_up w \<and> os_sent w = q)"
proof (induction k arbitrary: i sc n sc' n' streams)
  case (Suc k)
  obtain sc1 n1 r where x: "extra_conn i ports (ats i) sc n = (sc1, n1, r)" by (metis prod_cases3)
  show ?case
  proof (cases r)
    case (Inl e)
    with Suc.prems x show ?thesis by (auto simp: extra_conn_on_streams)
  next
    case r: (Inr c)
    show ?thesis
    proof (cases "atOpen (ats i)")
      case (Inl e)
      with Suc.prems x r show ?thesis by (auto simp: extra_conn_on_streams) (auto simp: on_streams_def)
    next
      case (Inr l)
      have op: "atOpen (on_streams ys f ats i) = Inr (fresh_link (ys i) f)" by (simp add: on_streams_def Inr)
      have "os_up fresh_out" "os_sent fresh_out = []" using fresh_up by (simp_all add: fresh_out_def)
      with os.write_msg_healthy [OF good_frame_bytes [OF q], of fresh_out] obtain w where
        w: "write_msg lib os_write fresh_out (attach_msg token) = (w, None)" "os_up w" "os_sent w = q" by auto
      obtain sc2 n2 rest where l: "attach_loop lib os_write token ports (on_streams ys f ats) (Suc i) k sc1 n1 = (sc2, n2, rest)"
        by (metis prod_cases3)
      note ih = Suc.IH [OF l]
      have st: "streams = (c, \<lparr>lkIn = \<lparr>avail = ys i, fin = f\<rparr>, lkOut = w\<rparr>) # rest"
        using Suc.prems x r op w(1) l by (simp add: extra_conn_on_streams fresh_link_def)
      have "\<exists>w. snd (streams ! j) = \<lparr>lkIn = \<lparr>avail = ys (i + j), fin = f\<rparr>, lkOut = w\<rparr> \<and> os_up w \<and> os_sent w = q"
        if "j < length streams" for j
        using that ih w(2,3) by (cases j) (auto simp: st)
      with ih x r Inr st show ?thesis by simp
    qed
  qed
qed simp

section \<open>The client\<close>

lemma client_sends_ok:
  assumes "\<And>j. j < length ls \<Longrightarrow> lkIn (ls ! j) = \<lparr>avail = a j @ avail (rest j), fin = fin (rest j)\<rparr> \<and> os_up (lkOut (ls ! j)) \<and>
      sender_run lib st (a j) (b j)"
  shows "\<exists>ls' p'. client_sends lib os_write st ls p = (ls', replicate (length ls) None, p') \<and> length ls' = length ls \<and>
    (\<forall>j<length ls. lkIn (ls' ! j) = rest j \<and> os_sent (lkOut (ls' ! j)) = os_sent (lkOut (ls ! j)) @ b j)"
  using assms
proof (induction ls arbitrary: a b rest p)
  case (Cons l ls)
  from Cons.prems [of 0] have l: "lkIn l = \<lparr>avail = a 0 @ avail (rest 0), fin = fin (rest 0)\<rparr>" "os_up (lkOut l)"
    "sender_run lib st (a 0) (b 0)" by simp_all
  from sender_run_send [OF l(3,2), of "avail (rest 0)" "fin (rest 0)" p] l(1) obtain ss where
    ss: "send_loop lib os_write st \<lparr>ssIn = lkIn l, ssOut = lkOut l, ssProg = p\<rparr> = (ss, None)" "ssIn ss = rest 0"
      "os_sent (ssOut ss) = os_sent (lkOut l) @ b 0" by auto
  from Cons.IH [of "\<lambda>j. a (Suc j)" "\<lambda>j. rest (Suc j)" "\<lambda>j. b (Suc j)" "ssProg ss"] Cons.prems [of "Suc _"] obtain ls' p' where
    ih: "client_sends lib os_write st ls (ssProg ss) = (ls', replicate (length ls) None, p')" "length ls' = length ls"
      "\<forall>j<length ls. lkIn (ls' ! j) = rest (Suc j) \<and> os_sent (lkOut (ls' ! j)) = os_sent (lkOut (ls ! j)) @ b (Suc j)" by auto
  have "lkIn ((\<lparr>lkIn = ssIn ss, lkOut = ssOut ss\<rparr> # ls') ! j) = rest j \<and>
      os_sent (lkOut ((\<lparr>lkIn = ssIn ss, lkOut = ssOut ss\<rparr> # ls') ! j)) = os_sent (lkOut ((l # ls) ! j)) @ b j"
    if "j < length (l # ls)" for j
    using that ss(2,3) ih(3) by (cases j) auto
  with ss(1) ih(1,2) show ?case by (intro exI [of _ "\<lparr>lkIn = ssIn ss, lkOut = ssOut ss\<rparr> # ls'"] exI [of _ p']) simp
qed simp

lemma run_senders_sharded:
  assumes ac: "good_frame lib ac = Some u" "mType ac = TAccept" and q: "good_frame lib (attach_msg (mToken ac)) = Some q"
    and conns: "1 < conns" and reach: "extras_reached (mDataPorts ac) ats 0 (nat (conns - 1)) sc (clNet s) = m"
    and ctrl: "lkIn (clCtrl s) = \<lparr>avail = u @ a0 @ t, fin = f\<rparr>" "os_up (lkOut (clCtrl s))" "sender_run lib (lcObjects s) a0 b0"
    and extra: "\<forall>j<m. sender_run lib (lcObjects s) (a j) (b j)"
  shows "\<exists>sc' s'. run_senders lib os_write (on_streams a f ats) conns sc s = (sc', s', None) \<and>
    lcObjects s' = lcObjects s \<and> lcRefs s' = lcRefs s \<and> lkIn (clCtrl s') = \<lparr>avail = t, fin = f\<rparr> \<and>
    os_sent (lkOut (clCtrl s')) = os_sent (lkOut (clCtrl s)) @ b0 \<and>
    map (\<lambda>x. os_sent (lkOut (snd x))) (clExtras s') = map (\<lambda>j. q @ b j) [0..<m]"
proof -
  let ?s1 = "s\<lparr>clCtrl := (clCtrl s)\<lparr>lkIn := \<lparr>avail = a0 @ t, fin = f\<rparr>\<rparr>\<rparr>"
  have rd: "ctrl_read lib s = (?s1, Inr ac)" by (rule ctrl_read_frame [OF ac(1) ctrl(1)])
  obtain sc' n' streams where at: "attach_loop lib os_write (mToken ac) (mDataPorts ac) (on_streams a f ats) 0 (nat (conns - 1)) sc
      (clNet s) = (sc', n', streams)" by (metis prod_cases3)
  from attach_loop_reached [OF q at] reach have len: "length streams = m"
    and st: "\<And>j. j < m \<Longrightarrow> \<exists>w. snd (streams ! j) = \<lparr>lkIn = \<lparr>avail = a j, fin = f\<rparr>, lkOut = w\<rparr> \<and> os_up w \<and> os_sent w = q" by auto
  let ?ls = "clCtrl ?s1 # map snd streams"
  let ?a = "\<lambda>j. if j = 0 then a0 else a (j - 1)" and ?b = "\<lambda>j. if j = 0 then b0 else b (j - 1)"
    and ?r = "\<lambda>j. \<lparr>avail = (if j = 0 then t else []), fin = f\<rparr>"
  have "\<exists>ls' p'. client_sends lib os_write (lcObjects s) ?ls (clProg s) = (ls', replicate (length ?ls) None, p') \<and> length ls' = length ?ls \<and>
    (\<forall>j<length ?ls. lkIn (ls' ! j) = ?r j \<and> os_sent (lkOut (ls' ! j)) = os_sent (lkOut (?ls ! j)) @ ?b j)"
  proof (rule client_sends_ok)
    fix j assume "j < length ?ls"
    with st [of "j - 1"] extra ctrl len
    show "lkIn (?ls ! j) = \<lparr>avail = ?a j @ avail (?r j), fin = fin (?r j)\<rparr> \<and> os_up (lkOut (?ls ! j)) \<and>
        sender_run lib (lcObjects s) (?a j) (?b j)" by (cases j) auto
  qed
  then obtain ls' p' where cs: "client_sends lib os_write (lcObjects s) ?ls (clProg s) = (ls', replicate (Suc m) None, p')"
    "length ls' = Suc m"
    "\<And>j. j < Suc m \<Longrightarrow> lkIn (ls' ! j) = ?r j \<and> os_sent (lkOut (ls' ! j)) = os_sent (lkOut (?ls ! j)) @ ?b j"
    using len by auto
  have hd: "hd ls' = ls' ! 0" using cs(2) by (cases ls') auto
  have ex: "map (\<lambda>x. os_sent (lkOut (snd x))) (zip (map fst streams) (tl ls')) = map (\<lambda>j. q @ b j) [0..<m]"
  proof (rule nth_equalityI)
    fix j assume "j < length (map (\<lambda>x. os_sent (lkOut (snd x))) (zip (map fst streams) (tl ls')))"
    then have j: "j < m" using len cs(2) by simp
    with cs(3) [of "Suc j"] st [OF j] len cs(2)
    show "map (\<lambda>x. os_sent (lkOut (snd x))) (zip (map fst streams) (tl ls')) ! j = map (\<lambda>j. q @ b j) [0..<m] ! j"
      by (auto simp: nth_tl)
  qed (simp add: len cs(2))
  have j: "errors_join (replicate (Suc m) None) = None" unfolding errors_join_None by (auto simp: set_replicate_conv_if)
  have ty: "mType ac \<noteq> TErr" "mType ac \<noteq> TWants" using ac(2) by (simp_all add: TErr_def TWants_def TAccept_def)
  have "run_senders lib os_write (on_streams a f ats) conns sc s =
      (sc', ?s1\<lparr>clCtrl := hd ls', clExtras := zip (map fst streams) (tl ls'), clProg := p', clNet := close_extras streams n'\<rparr>, None)"
    using conns rd ac(2) ty at cs(1) j by (simp add: run_senders_def attach_extras_def)
  with cs(3) [of 0] hd ex show ?thesis by simp
qed

lemma push_exchange_sharded:
  assumes "good_frame lib req = Some p" and "os_up (lkOut (clCtrl s))"
    and "good_frame lib ac = Some u" "mType ac = TAccept" and "good_frame lib (attach_msg (mToken ac)) = Some q"
    and "1 < conns" and "extras_reached (mDataPorts ac) ats 0 (nat (conns - 1)) sc (clNet s) = m"
    and "lkIn (clCtrl s) = \<lparr>avail = u @ a0 @ k @ t, fin = f\<rparr>" "sender_run lib (lcObjects s) a0 b0"
    and "\<forall>j<m. sender_run lib (lcObjects s) (a j) (b j)"
    and "good_frame lib reply = Some k" and "mType reply = TOK"
  shows "\<exists>sc' s'. push_exchange lib os_write (on_streams a f ats) name conns req sc s = (sc', s', None) \<and>
    lcRefs s' = lcRefs s \<and> os_sent (lkOut (clCtrl s')) = os_sent (lkOut (clCtrl s)) @ p @ b0 \<and>
    map (\<lambda>x. os_sent (lkOut (snd x))) (clExtras s') = map (\<lambda>j. q @ b j) [0..<m]"
proof -
  obtain w where w: "ctrl_write lib os_write req s = (s\<lparr>clCtrl := (clCtrl s)\<lparr>lkOut := w\<rparr>\<rparr>, None)" "os_up w"
    "os_sent w = os_sent (lkOut (clCtrl s)) @ p" using ctrl_write_up [OF assms(1,2)] by blast
  let ?s1 = "s\<lparr>clCtrl := (clCtrl s)\<lparr>lkOut := w\<rparr>\<rparr>"
  have "extras_reached (mDataPorts ac) ats 0 (nat (conns - 1)) sc (clNet ?s1) = m"
    "lkIn (clCtrl ?s1) = \<lparr>avail = u @ a0 @ (k @ t), fin = f\<rparr>" "os_up (lkOut (clCtrl ?s1))" "sender_run lib (lcObjects ?s1) a0 b0"
    "\<forall>j<m. sender_run lib (lcObjects ?s1) (a j) (b j)" using assms w by simp_all
  from run_senders_sharded [OF assms(3-6) this] obtain sc' s2 where
    2: "run_senders lib os_write (on_streams a f ats) conns sc ?s1 = (sc', s2, None)" "lcRefs s2 = lcRefs s"
      "lkIn (clCtrl s2) = \<lparr>avail = k @ t, fin = f\<rparr>" "os_sent (lkOut (clCtrl s2)) = os_sent w @ b0"
      "map (\<lambda>x. os_sent (lkOut (snd x))) (clExtras s2) = map (\<lambda>j. q @ b j) [0..<m]" by auto
  note 3 = ctrl_read_frame [OF assms(11) 2(3)]
  show ?thesis using w(1,3) 2 assms(12) by (simp add: push_exchange_def 3 expect_type_def)
qed

lemma say_extras [simp]: "clExtras (say t s) = clExtras s" "clExtras (say_summary env v n s) = clExtras s"
  using say_eq [of t s] say_summary_eq [of env v n s] by auto

text \<open>The control stream delivers \<open>y\<close>, the extra ones \<open>ys\<close>.\<close>

definition on_all_streams :: "bytes \<Rightarrow> (nat \<Rightarrow> bytes) \<Rightarrow> goerr \<Rightarrow> (ostream, 'u) net_env \<Rightarrow> (ostream, 'u) net_env" where
  "on_all_streams y ys f env = (on_stream y f env)\<lparr>neAttempts := on_streams ys f (neAttempts env)\<rparr>"

lemma run_push_sharded:
  fixes s :: "(ostream, 's, 'r) client"
  assumes "\<not> prefix trackingPrefix name" and o: "snd (open_store (neStore env) s) = None"
    and d: "dial_server (key_string lib) (neDial env) (sfServer sf) (sfAddrs sf) (sfRelay sf) (clNet s) = (n, Inr sc)"
    and "ref_law lib" and "record_law lib"
    and "resolve_spec lib (lcRefs s) (''ref:'' @ name) = Inr (goal, path)"
    and "tracked_key lib (lcRefs s) (tracking_ref (sfServer sf) name) = Inr expected"
    and "refs_take lib (lcRefs s) (tracking_ref (sfServer sf) name) goal (neNow env)"
    and p: "good_frame lib (push_msg name goal force expected conns) = Some p"
    and ac: "good_frame lib ac = Some u" "mType ac = TAccept" "good_frame lib (attach_msg (mToken ac)) = Some q"
    and conns: "1 < conns" "extras_reached (mDataPorts ac) (neAttempts env) 0 (nat (conns - 1)) sc n = m"
    and sd: "sender_run lib (lcObjects s) a0 b0" "\<forall>j<m. sender_run lib (lcObjects s) (a j) (b j)"
    and k: "good_frame lib reply = Some k" "mType reply = TOK"
  shows "\<exists>s'. run_push lib os_write (on_all_streams (u @ a0 @ k) a f env) sf force no_prog conns name s = Some (s', None) \<and>
    os_sent (lkOut (clCtrl s')) = p @ b0 \<and> map (\<lambda>x. os_sent (lkOut (snd x))) (clExtras s') = map (\<lambda>j. q @ b j) [0..<m] \<and>
    tracked_key lib (lcRefs s') (tracking_ref (sfServer sf) name) = Inr (key_bytes goal)"
proof -
  let ?tname = "tracking_ref (sfServer sf) name"
  obtain s1 where o': "open_store (neStore env) s = (s1, None)" using o by (metis prod.collapse)
  then have s1: "s1 = s\<lparr>lcOpen := Refs # Objects # lcOpen s\<rparr>" by (rule open_store_None)
  let ?s2 = "s1\<lparr>clNet := n, clCtrl := fresh_link (u @ a0 @ k) f, clDone := False, clProg := (if no_prog then None else Some no_progress)\<rparr>"
  have "os_up (lkOut (clCtrl ?s2))" "lkIn (clCtrl ?s2) = \<lparr>avail = u @ a0 @ k @ [], fin = f\<rparr>" "sender_run lib (lcObjects ?s2) a0 b0"
    "extras_reached (mDataPorts ac) (neAttempts env) 0 (nat (conns - 1)) sc (clNet ?s2) = m"
    "\<forall>j<m. sender_run lib (lcObjects ?s2) (a j) (b j)"
    using fresh_up sd conns(2) by (simp_all add: s1 fresh_link_def)
  from push_exchange_sharded [OF p this(1) ac conns(1) this(4,2,3,5) k, where name = name]
  obtain sc' s3 where e: "push_exchange lib os_write (on_streams a f (neAttempts env)) name conns (push_msg name goal force expected conns)
      sc ?s2 = (sc', s3, None)" "lcRefs s3 = lcRefs s" "os_sent (lkOut (clCtrl s3)) = p @ b0"
      "map (\<lambda>x. os_sent (lkOut (snd x))) (clExtras s3) = map (\<lambda>j. q @ b j) [0..<m]"
    by (auto simp: s1 fresh_link_def) (simp add: fresh_out_def)
  obtain raw rf where r: "ref_encode lib \<lparr>rfName = ?tname, rfKey = key_bytes goal, rfCreatedAt = neNow env, rfUser = []\<rparr> = Inr raw"
    "rf_put lib (lcRefs s) ?tname raw = (rf, None)" using assms(8) by (auto simp: refs_take_def)
  have t: "tracked_key lib rf ?tname = Inr (key_bytes goal)" using put_is_current [OF assms(4,5) r] by simp
  show ?thesis
    using assms(1,6,7) o' d e r t
    by (simp add: run_push_def store_session_def on_all_streams_def on_stream_def with_stream_def s1 push_finish_def
        close_store_def close_ctrl_def)
qed

section \<open>The server\<close>

lemma put_links_nth:
  "distinct is \<Longrightarrow> length cs = length is \<Longrightarrow>
     (\<forall>j<length is. put_links is cs h (is ! j) = \<lparr>lkIn = chIn (cs ! j), lkOut = chOut (cs ! j)\<rparr>) \<and>
     (\<forall>e. e \<notin> set is \<longrightarrow> put_links is cs h e = h e)"
proof (induction "is" cs h rule: put_links.induct)
  case (1 i "is" c cs h)
  define h' where "h' = h(i := \<lparr>lkIn = chIn c, lkOut = chOut c\<rparr>)"
  have h': "h' i = \<lparr>lkIn = chIn c, lkOut = chOut c\<rparr>" "\<And>e. e \<noteq> i \<Longrightarrow> h' e = h e" by (simp_all add: h'_def)
  have "distinct is" "length cs = length is" using 1(2,3) by simp_all
  from 1(1) [OF this, folded h'_def] 1(2) h' show ?case
    unfolding put_links.simps h'_def [symmetric] by (auto simp: nth_Cons split: nat.split)
qed auto

lemma srv_receive_sharded:
  fixes rest :: "nat \<Rightarrow> instream"
  assumes r: "sharded_run lib (svJobs s) (oeRounds op) (svObjects s) [goal] (replicate (length is) 0) (replicate (length is) 0) n as bs"
    and laws: "check_law lib" "write_law lib" and "n \<le> oeFuel op" and d: "distinct is"
    and l: "\<And>j. j < length is \<Longrightarrow> lkIn (svStreams s (is ! j)) = \<lparr>avail = bs j @ avail (rest j), fin = fin (rest j)\<rparr> \<and>
      os_up (lkOut (svStreams s (is ! j)))"
  shows "\<exists>st h. srv_receive lib os_write op is goal s = Some (s\<lparr>svObjects := st, svStreams := h\<rparr>, None) \<and>
    (\<forall>j<length is. os_up (lkOut (h (is ! j))) \<and> os_sent (lkOut (h (is ! j))) = os_sent (lkOut (svStreams s (is ! j))) @ as j) \<and>
    tree_complete lib st goal"
proof -
  let ?links = "map (\<lambda>i. (lkIn (svStreams s i), lkOut (svStreams s i))) is"
  have "\<exists>rs. receive lib os_write (oeRounds op) (oeFuel op) ?links (svObjects s) goal (svJobs s) None = Some (rs, None) \<and>
    length (rsChans rs) = length is \<and>
    (\<forall>i<length is. chIn (rsChans rs ! i) = rest i \<and> os_up (chOut (rsChans rs ! i)) \<and>
       os_sent (chOut (rsChans rs ! i)) = os_sent (snd (?links ! i)) @ as i) \<and> tree_complete lib (rsStore rs) goal"
    by (rule sharded_run_receive [OF r laws _ assms(4)]) (use l in simp_all)
  then obtain rs where rs: "receive lib os_write (oeRounds op) (oeFuel op) ?links (svObjects s) goal (svJobs s) None = Some (rs, None)"
    "length (rsChans rs) = length is" "\<And>i. i < length is \<Longrightarrow> os_up (chOut (rsChans rs ! i)) \<and>
       os_sent (chOut (rsChans rs ! i)) = os_sent (lkOut (svStreams s (is ! i))) @ as i" "tree_complete lib (rsStore rs) goal" by auto
  from put_links_nth [OF d rs(2)] rs show ?thesis
    by (intro exI [of _ "rsStore rs"] exI [of _ "put_links is (rsChans rs) (svStreams s)"]) (simp add: srv_receive_def)
qed

definition accept_msg :: "bytes \<Rightarrow> ('w, 's, 'r) server \<Rightarrow> msg" where
  "accept_msg token s = zero_msg\<lparr>mType := TAccept, mToken := token, mDataPorts := svDataPorts s,
     mDataEndpoints := (case svDataEndpoints s of None \<Rightarrow> [] | Some ds \<Rightarrow> ds)\<rparr>"

lemma accept_fields [simp]:
  "mType (accept_msg token s) = TAccept" "mToken (accept_msg token s) = token" "mDataPorts (accept_msg token s) = svDataPorts s"
  by (simp_all add: accept_msg_def)

text \<open>The transfer is registered under \<open>token\<close> and gathers \<open>extras\<close> before it goes on.\<close>

definition gathers ::
  "'r op_env \<Rightarrow> int \<Rightarrow> ('w, 's, 'r) server \<Rightarrow> bytes \<Rightarrow> stream list \<Rightarrow> bool" where
  "gathers op conns s token extras \<longleftrightarrow> (\<exists>t. tf_create (oeToken op) (svTransfers s) = (t, Inr token) \<and>
     snd (tf_gather token (nat (min (conns - 1) (int maxDataConns))) (oeGather op) t) = extras)"

lemma shard_channels_ok:
  assumes "gathers op conns s token extras" and "1 < conns" and u: "good_frame lib (accept_msg token s) = Some u"
    and "os_up (lkOut (svStreams s i))"
  shows "\<exists>t w. shard_channels lib os_write op i (conns - 1) s =
      (s\<lparr>svTransfers := t, svStreams := (svStreams s)(i := (svStreams s i)\<lparr>lkOut := w\<rparr>)\<rparr>, Inr (i # extras, Some (token, extras))) \<and>
    os_up w \<and> os_sent w = os_sent (lkOut (svStreams s i)) @ u"
proof -
  from assms(1) obtain t t1 where t: "tf_create (oeToken op) (svTransfers s) = (t, Inr token)"
    "tf_gather token (nat (min (conns - 1) (int maxDataConns))) (oeGather op) t = (t1, extras)"
    by (auto simp: gathers_def) (metis prod.collapse)
  from os.write_msg_healthy [OF good_frame_bytes [OF u] assms(4)] obtain w where
    w: "write_msg lib os_write (lkOut (svStreams s i)) (accept_msg token s) = (w, None)" "os_up w"
      "os_sent w = os_sent (lkOut (svStreams s i)) @ u" by blast
  show ?thesis
    using assms(2) t w by (intro exI [of _ t1] exI [of _ w]) (simp add: shard_channels_def Let_def accept_msg_def srv_write_def)
qed

lemma handle_push_sharded:
  assumes tp: "takes_push lib op name goal force expected s" and m: "m = push_msg name goal force expected conns"
    and g: "gathers op conns s token extras" "1 < conns" and u: "good_frame lib (accept_msg token s) = Some u"
    and r: "sharded_run lib (svJobs s) (oeRounds op) (svObjects s) [goal] (replicate (Suc (length extras)) 0)
      (replicate (Suc (length extras)) 0) n as bs" and fuel: "n \<le> oeFuel op"
    and k: "good_frame lib (ok_reply goal) = Some k" and laws: "check_law lib" "write_law lib" "ref_law lib" "record_law lib"
    and d: "distinct (i # extras)"
    and l: "\<And>j. j < Suc (length extras) \<Longrightarrow> lkIn (svStreams s ((i # extras) ! j)) = \<lparr>avail = bs j, fin = f\<rparr> \<and>
      os_up (lkOut (svStreams s ((i # extras) ! j)))"
  shows "\<exists>s'. handle_push lib os_write op i m s = Some (s', None) \<and>
    os_sent (lkOut (svStreams s' i)) = os_sent (lkOut (svStreams s i)) @ u @ as 0 @ k \<and>
    (\<forall>j<length extras. os_sent (lkOut (svStreams s' (extras ! j))) = os_sent (lkOut (svStreams s (extras ! j))) @ as (Suc j)) \<and>
    set extras \<subseteq> set (svClosed s') \<and>
    ref_current lib (svRefs s') name = Inr (key_bytes goal) \<and> tree_complete lib (svObjects s') goal"
proof -
  have mf: "mName m = name" "mRoot m = key_bytes goal" "mCAS m = (\<not> force)" "mExpectedOld m = expected" "mDataConns m = conns - 1"
    by (simp_all add: m push_msg_def zero_msg_def)
  have cas: "(if mCAS m then check_cas lib os_write i m s else (s, None)) = (s, None)"
    using tp check_cas_met [of lib s m] by (auto simp: takes_push_def mf)
  have up: "os_up (lkOut (svStreams s i))" using l [of 0] by simp
  obtain t w where sc: "shard_channels lib os_write op i (conns - 1) s =
      (s\<lparr>svTransfers := t, svStreams := (svStreams s)(i := (svStreams s i)\<lparr>lkOut := w\<rparr>)\<rparr>, Inr (i # extras, Some (token, extras)))"
    "os_up w" "os_sent w = os_sent (lkOut (svStreams s i)) @ u" using shard_channels_ok [OF g u up] by blast
  let ?s2 = "s\<lparr>svTransfers := t, svStreams := (svStreams s)(i := (svStreams s i)\<lparr>lkOut := w\<rparr>)\<rparr>" and ?is = "i # extras"
  have "\<exists>st h. srv_receive lib os_write op ?is goal ?s2 = Some (?s2\<lparr>svObjects := st, svStreams := h\<rparr>, None) \<and>
    (\<forall>j<length ?is. os_up (lkOut (h (?is ! j))) \<and> os_sent (lkOut (h (?is ! j))) = os_sent (lkOut (svStreams ?s2 (?is ! j))) @ as j) \<and>
    tree_complete lib st goal"
  proof (rule srv_receive_sharded [OF _ laws(1,2) fuel d])
    show "sharded_run lib (svJobs ?s2) (oeRounds op) (svObjects ?s2) [goal] (replicate (length ?is) 0) (replicate (length ?is) 0) n as bs"
      using r by simp
    fix j assume "j < length ?is"
    then show "lkIn (svStreams ?s2 (?is ! j)) = \<lparr>avail = bs j @ avail \<lparr>avail = [], fin = f\<rparr>, fin = fin \<lparr>avail = [], fin = f\<rparr>\<rparr> \<and>
        os_up (lkOut (svStreams ?s2 (?is ! j)))"
      using l [of j] sc(2) by auto
  qed
  then obtain st h where rc: "srv_receive lib os_write op ?is goal ?s2 = Some (?s2\<lparr>svObjects := st, svStreams := h\<rparr>, None)"
    "\<And>j. j < length ?is \<Longrightarrow> os_up (lkOut (h (?is ! j))) \<and> os_sent (lkOut (h (?is ! j))) = os_sent (lkOut (svStreams ?s2 (?is ! j))) @ as j"
    "tree_complete lib st goal" by blast
  let ?s3 = "?s2\<lparr>svObjects := st, svStreams := h\<rparr>"
  have tp3: "takes_push lib op name goal force expected ?s3" using tp by (simp add: takes_push_def)
  have up3: "os_up (lkOut (svStreams ?s3 i))" and out: "os_sent (lkOut (h i)) = os_sent (lkOut (svStreams s i)) @ u @ as 0"
    using rc(2) [of 0] sc(3) by simp_all
  from push_commit_ok [OF tp3 m k up3 laws(3,4)] obtain s4 where
    c: "push_commit lib os_write op i m goal ?s3 = (s4, None)" "svObjects s4 = st" "\<forall>j. j \<noteq> i \<longrightarrow> svStreams s4 j = h j"
    "os_sent (lkOut (svStreams s4 i)) = os_sent (lkOut (h i)) @ k" "ref_current lib (svRefs s4) name = Inr (key_bytes goal)" by auto
  have ex: "os_sent (lkOut (svStreams s4 (extras ! j))) = os_sent (lkOut (svStreams s (extras ! j))) @ as (Suc j)" if "j < length extras" for j
    using that c(3) rc(2) [of "Suc j"] d by (auto simp: in_set_conv_nth)
  have v: "ref_validate lib name = None" "key_parse lib (key_bytes goal) = Inr goal" using tp by (simp_all add: takes_push_def)
  have "handle_push lib os_write op i m s = Some (srv_release (Some (token, extras)) s4, None)"
    unfolding handle_push_def
    by (simp only: mf(1,2,5) v cas option.case sum.case prod.case) (use c(1) in \<open>simp add: sc(1) rc(1)\<close>)
  then show ?thesis
    using c ex out rc(3) by (auto simp: srv_release_def srv_drop_fields close_all_closed)
qed

section \<open>The property\<close>

text \<open>
  The attached streams as \<open>HandleStream\<close> leaves them when it queues them for the transfer: it has
  read one frame off each.
\<close>

definition queued_links ::
  "('p, 's, 'z) core_lib_scheme \<Rightarrow> stream list \<Rightarrow> bytes list \<Rightarrow> goerr \<Rightarrow> (stream \<Rightarrow> ostream link) \<Rightarrow> stream \<Rightarrow> ostream link" where
  "queued_links lib es xs f h e =
     (case map_of (zip es xs) e of
        None \<Rightarrow> h e
      | Some x \<Rightarrow> \<lparr>lkIn = fst (read_msg lib \<lparr>avail = x, fin = f\<rparr>), lkOut = fresh_out\<rparr>)"

lemma attach_queues:
  assumes "good_frame lib (attach_msg token) = Some q" and "tf_attach token e (svTransfers s) = (t, True)"
    and "svStreams s e = \<lparr>lkIn = \<lparr>avail = q @ b, fin = f\<rparr>, lkOut = fresh_out\<rparr>"
  shows "handle_stream lib os_write op e s =
    Some (s\<lparr>svStreams := queued_links lib [e] [q @ b] f (svStreams s), svTransfers := t\<rparr>, None)"
proof -
  have "(svStreams s)(e := (svStreams s e)\<lparr>lkIn := \<lparr>avail = b, fin = f\<rparr>\<rparr>) = queued_links lib [e] [q @ b] f (svStreams s)"
    using wire.recv_frame [OF assms(1), of b f] assms(3) by (auto simp: queued_links_def)
  with wire.recv_frame [OF assms(1), of b f] assms(2,3) show ?thesis
    by (simp add: handle_stream_def attach_msg_def zero_msg_def)
qed

lemma queued_links_nth:
  assumes "distinct es" and "length xs = length es" and "j < length es" and "xs ! j = q @ b"
    and "good_frame lib (attach_msg token) = Some q"
  shows "queued_links lib es xs f h (es ! j) = \<lparr>lkIn = \<lparr>avail = b, fin = f\<rparr>, lkOut = fresh_out\<rparr>"
proof -
  have "map_of (zip es xs) (es ! j) = Some (q @ b)" using assms map_of_zip_nth [of es xs j] by simp
  then show ?thesis using wire.recv_frame [OF assms(5), of b f] by (simp add: queued_links_def)
qed

text \<open>
  Claim C5 (a sharded push, end to end).  Let a client whose store holds the whole tree of the local
  reference \<open>name\<close> push it with \<open>--conns\<close> above one to a server that takes the push, registers the transfer
  and gathers the streams \<open>es\<close> of the connections that the client reaches, in whatever order
  they attach.  There are transcripts \<open>x\<close>, \<open>y\<close> of the control stream and \<open>xs\<close>, \<open>ys\<close> of the extra ones
  such that \<open>amber push\<close> reads \<open>y\<close> and \<open>ys\<close>, writes exactly \<open>x\<close> and \<open>xs\<close>, succeeds and records the
  pushed root as what the server has; and \<open>HandleStream\<close>, reading \<open>x\<close> and what its handlers of the
  attached streams left of \<open>xs\<close>, writes exactly \<open>y\<close> and \<open>ys\<close>, ends without an error, closes every
  stream, and leaves the reference at that root with the whole tree in the server's store.
\<close>

theorem sharded_push_end_to_end:
  fixes env :: "(ostream, 'u) net_env" and c :: "(ostream, 's, 'r) client"
  assumes laws: "transfer_laws lib (lcObjects c)" "ref_law lib" "record_law lib"
    and "agree lib (svObjects s) (lcObjects c)" and "tree_complete lib (lcObjects c) goal"
    and cl: "\<not> prefix trackingPrefix name" "snd (open_store (neStore env) c) = None"
      "dial_server (key_string lib) (neDial env) (sfServer sf) (sfAddrs sf) (sfRelay sf) (clNet c) = (net, Inr sc)"
      "resolve_spec lib (lcRefs c) (''ref:'' @ name) = Inr (goal, path)"
      "tracked_key lib (lcRefs c) (tracking_ref (sfServer sf) name) = Inr expected"
      "refs_take lib (lcRefs c) (tracking_ref (sfServer sf) name) goal (neNow env)"
    and sv: "takes_push lib op name goal force expected s"
    and conns: "1 < conns" "gathers op conns s token extras" "mset extras = mset es" "distinct (i # es)"
      "extras_reached (svDataPorts s) (neAttempts env) 0 (nat (conns - 1)) sc net = length es"
    and fr: "good_frame lib (push_msg name goal force expected conns) \<noteq> None" "good_frame lib (ok_reply goal) \<noteq> None"
      "good_frame lib (accept_msg token s) \<noteq> None" "good_frame lib (attach_msg token) \<noteq> None"
  shows "\<exists>n x y xs ys. length xs = length es \<and> length ys = length es \<and>
    (\<forall>f. \<exists>c'. run_push lib os_write (on_all_streams y (\<lambda>j. ys ! j) f env) sf force no_prog conns name c = Some (c', None) \<and>
       os_sent (lkOut (clCtrl c')) = x \<and> map (\<lambda>e. os_sent (lkOut (snd e))) (clExtras c') = xs \<and>
       tracked_key lib (lcRefs c') (tracking_ref (sfServer sf) name) = Inr (key_bytes goal)) \<and>
    (\<forall>f fuel. n \<le> fuel \<longrightarrow> (\<exists>s'. handle_stream lib os_write (op\<lparr>oeFuel := fuel\<rparr>) i
         (s\<lparr>svStreams := (queued_links lib es xs f (svStreams s))(i := fresh_link x f)\<rparr>) = Some (s', None) \<and>
       os_sent (lkOut (svStreams s' i)) = y \<and> map (\<lambda>e. os_sent (lkOut (svStreams s' e))) es = ys \<and>
       set (i # es) \<subseteq> set (svClosed s') \<and>
       ref_current lib (svRefs s') name = Inr (key_bytes goal) \<and> tree_complete lib (svObjects s') goal))"
proof -
  let ?m = "push_msg name goal force expected conns" and ?is = "i # extras"
  have se: "set extras = set es" "length extras = length es" using conns(3) by (rule mset_eq_setD, rule mset_eq_length)
  have di: "distinct ?is" using conns(3,4) se by (metis distinct.simps(2) mset_eq_imp_distinct_iff)
  obtain n as bs where r: "sharded_run lib (svJobs s) (oeRounds op) (svObjects s) [goal] (replicate (Suc (length extras)) 0)
      (replicate (Suc (length extras)) 0) n as bs" and sd: "\<And>j. j < Suc (length extras) \<Longrightarrow> sender_run lib (lcObjects c) (as j) (bs j)"
    using sharded_transcripts [OF laws(1) assms(4,5), of "Suc (length extras)" "svJobs s" "oeRounds op"] by auto
  have cw: "check_law lib" "write_law lib" using laws(1) by (simp_all add: transfer_laws_def)
  obtain p k u q where p: "good_frame lib ?m = Some p" and k: "good_frame lib (ok_reply goal) = Some k"
    and u: "good_frame lib (accept_msg token s) = Some u" and q: "good_frame lib (attach_msg token) = Some q" using fr by blast
  have ty: "mType (ok_reply goal) = TOK" "mType ?m = TPush" by (simp_all add: ok_reply_def push_msg_def)
  have "\<exists>l. l < length extras \<and> extras ! l = es ! j" if "j < length es" for j
    using that se by (metis in_set_conv_nth nth_mem)
  then obtain pos where pos: "\<And>j. j < length es \<Longrightarrow> pos j < length extras \<and> extras ! pos j = es ! j" by metis
  let ?a = "\<lambda>j. as (Suc (pos j))" and ?b = "\<lambda>j. bs (Suc (pos j))"
  let ?x = "p @ bs 0" and ?y = "u @ as 0 @ k" and ?xs = "map (\<lambda>j. q @ ?b j) [0..<length es]" and ?ys = "map ?a [0..<length es]"
  show ?thesis
  proof (rule exI [of _ n], rule exI [of _ ?x], rule exI [of _ ?y], rule exI [of _ ?xs], rule exI [of _ ?ys],
      intro conjI allI impI, goal_cases)
    case (3 f)
    have "sender_run lib (lcObjects c) (as 0) (bs 0)" "\<forall>j<length es. sender_run lib (lcObjects c) (?ys ! j) (?b j)"
      using sd pos by auto
    from run_push_sharded [OF cl(1-3) laws(2,3) cl(4-6) p u _ _ conns(1) _ this k ty(1), of q f no_prog] q conns(5)
    show ?case by auto
  next
    case (4 f fuel)
    let ?op = "op\<lparr>oeFuel := fuel\<rparr>" and ?h = "queued_links lib es ?xs f (svStreams s)"
    let ?s = "s\<lparr>svStreams := ?h(i := fresh_link (bs 0) f)\<rparr>"
    have tp: "takes_push lib ?op name goal force expected ?s" using sv by (simp add: takes_push_def)
    have g: "gathers ?op conns ?s token extras" using conns(2) by (simp add: gathers_def)
    have acc: "good_frame lib (accept_msg token ?s) = Some u" using u by (simp add: accept_msg_def)
    have r': "sharded_run lib (svJobs ?s) (oeRounds ?op) (svObjects ?s) [goal] (replicate (Suc (length extras)) 0)
      (replicate (Suc (length extras)) 0) n as bs" and fu: "n \<le> oeFuel ?op" using r 4 by simp_all
    have link: "?h (es ! j) = \<lparr>lkIn = \<lparr>avail = ?b j, fin = f\<rparr>, lkOut = fresh_out\<rparr>" if "j < length es" for j
      using queued_links_nth [OF _ _ that _ q, of ?xs "?b j" f "svStreams s"] conns(4) that by simp
    have e0: "os_up fresh_out" "os_sent fresh_out = []" using fresh_up by (simp_all add: fresh_out_def)
    have ex: "svStreams ?s (extras ! l) = \<lparr>lkIn = \<lparr>avail = bs (Suc l), fin = f\<rparr>, lkOut = fresh_out\<rparr>" if l: "l < length extras" for l
    proof -
      obtain j where j: "j < length es" "es ! j = extras ! l" using l se by (metis in_set_conv_nth nth_mem)
      with pos [OF j(1)] l di have "pos j = l" by (metis distinct.simps(2) nth_eq_iff_index_eq)
      moreover have "extras ! l \<noteq> i" using l di by auto
      ultimately show ?thesis using link [OF j(1)] j(2) by simp
    qed
    have l: "lkIn (svStreams ?s (?is ! j)) = \<lparr>avail = bs j, fin = f\<rparr> \<and> os_up (lkOut (svStreams ?s (?is ! j)))"
      if "j < Suc (length extras)" for j
      using that ex e0 by (cases j) (simp_all add: fresh_link_def)
    from handle_push_sharded [OF tp refl g conns(1) acc r' fu k cw laws(2,3) di l] obtain s' where
      s': "handle_push lib os_write ?op i ?m ?s = Some (s', None)"
      "os_sent (lkOut (svStreams s' i)) = os_sent (lkOut (svStreams ?s i)) @ ?y"
      "\<forall>l<length extras. os_sent (lkOut (svStreams s' (extras ! l))) = os_sent (lkOut (svStreams ?s (extras ! l))) @ as (Suc l)"
      "set extras \<subseteq> set (svClosed s')" "ref_current lib (svRefs s') name = Inr (key_bytes goal)" "tree_complete lib (svObjects s') goal"
      by auto
    have y: "os_sent (lkOut (svStreams s' i)) = ?y" using s'(2) e0 by (simp add: fresh_link_def)
    have ys: "map (\<lambda>e. os_sent (lkOut (svStreams s' e))) es = ?ys"
    proof (rule nth_equalityI)
      fix j assume "j < length (map (\<lambda>e. os_sent (lkOut (svStreams s' e))) es)"
      then have j: "j < length es" by simp
      from pos [OF j] have l: "pos j < length extras" "extras ! pos j = es ! j" by simp_all
      have "os_sent (lkOut (svStreams s' (extras ! pos j))) = as (Suc (pos j))"
        using s'(3) [rule_format, OF l(1)] unfolding ex [OF l(1)] by (simp add: e0(2))
      with j l(2) show "map (\<lambda>e. os_sent (lkOut (svStreams s' e))) es ! j = ?ys ! j" by simp
    qed simp
    show ?case
      using opens_handler [OF p, of ?op i "s\<lparr>svStreams := ?h\<rparr>" "bs 0" f] ty(2) s'(1,4-6) y ys se
      by (simp add: TPush_def TAttach_def TRefList_def close_stream_def) auto
  qed simp_all
qed

text \<open>
  Three connections asked for, of which the client reaches one besides the control connection; the
  server takes it and then its deadline.
\<close>

definition sample_gather :: "(string \<times> bytes) list op_env" where
  "sample_gather = sample_op\<lparr>oeToken := Inr [1], oeGather := [Attached [1] 5, TakeNext, Deadline]\<rparr>"

lemma sample_gathers: "gathers sample_gather 3 (sample_host st rf) [1] [5]"
  by (simp add: gathers_def sample_gather_def tf_create_def tf_gather_def tf_attach_def tf_send_def maxDataConns_def
      sample_host_def new_server_def no_transfers_def)

lemma sample_reached:
  "dial_server ks (neDial (sample_net_env b)) (sfServer sample_flags) (sfAddrs sample_flags) (sfRelay sample_flags) no_net = (n, Inr sc) \<Longrightarrow>
     extras_reached [] sample_attempt 0 2 sc n = 1"
  by (auto simp: dial_server_def sample_net_env_def sample_flags_def sample_dial_def dial_cands_def race_net_def race_connect_def
      parse_direct_addr_def extra_conn_def extra_cands_def sample_attempt_def numeral_2_eq_2)

lemma sample_frames: "\<forall>m\<in>set sample_book. good_frame sample_net_lib m \<noteq> None"
  by (metis option.distinct(1) sample_net_frame)

theorem sharded_push_end_to_end_witness:
  "\<exists>n x y xs ys c' s'. run_push sample_net_lib os_write (on_all_streams y (\<lambda>j. ys ! j) IoEOF (sample_net_env [])) sample_flags False True 3
      ''main'' (sample_client\<lparr>lcRefs := [(''main'', [9])]\<rparr>) = Some (c', None) \<and>
    handle_stream sample_net_lib os_write (sample_gather\<lparr>oeFuel := n\<rparr>) 0
      ((sample_host [(Key [4], [4])] [])\<lparr>svStreams := (queued_links sample_net_lib [5] xs IoEOF
         (svStreams (sample_host [(Key [4], [4])] [])))(0 := fresh_link x IoEOF)\<rparr>) = Some (s', None) \<and>
    os_sent (lkOut (clCtrl c')) = x \<and> map (\<lambda>e. os_sent (lkOut (snd e))) (clExtras c') = xs \<and> length xs = 1 \<and>
    os_sent (lkOut (svStreams s' 0)) = y \<and> [os_sent (lkOut (svStreams s' 5))] = ys \<and> {0, 5} \<subseteq> set (svClosed s') \<and>
    ref_current sample_net_lib (svRefs s') ''main'' = Inr [9] \<and> tree_complete sample_net_lib (svObjects s') (Key [9])"
proof -
  let ?lib = sample_net_lib and ?c = "sample_client\<lparr>lcRefs := [(''main'', [9])]\<rparr>" and ?s = "sample_host [(Key [4], [4])] []"
    and ?t = "tracking_ref (sfServer sample_flags) ''main''"
  have ms: "ok_reply (Key [9]) = ok_msg" "accept_msg [1] ?s = sample_accept"
    by (simp_all add: ok_reply_def ok_msg_def accept_msg_def sample_accept_def sample_host_def new_server_def zero_msg_def)
  have fr: "good_frame ?lib (push_msg ''main'' (Key [9]) False [] 3) \<noteq> None" "good_frame ?lib (ok_reply (Key [9])) \<noteq> None"
    "good_frame ?lib (accept_msg [1] ?s) \<noteq> None" "good_frame ?lib (attach_msg [1]) \<noteq> None"
    using sample_frames by (simp_all add: ms sample_book_def del: not_None_eq)
  have rs: "resolve_spec ?lib (lcRefs ?c) (''ref:'' @ ''main'') = Inr (Key [9], [])"
    by (simp add: resolve_spec_def cut_prefix_def sample_server_simps)
  have tk: "tracked_key ?lib (lcRefs ?c) ?t = Inr []"
    by (simp add: tracked_key_def tracking_ref_def trackingPrefix_def)
  have tp: "takes_push ?lib sample_gather ''main'' (Key [9]) False [] ?s"
    by (simp add: takes_push_def ref_current_def refs_take_def sample_gather_def sample_op_def) (simp add: sample_server_simps)
  have tc: "tree_complete ?lib (lcObjects ?c) (Key [9])" and ag: "agree ?lib (svObjects ?s) (lcObjects ?c)"
    and tl: "transfer_laws ?lib (lcObjects ?c)" by (simp_all add: sample_complete sample_agrees sample_net_transfer_laws)
  obtain sc n where d: "dial_server (key_string ?lib) (neDial (sample_net_env [])) (sfServer sample_flags) (sfAddrs sample_flags)
      (sfRelay sample_flags) no_net = (n, Inr sc)" by (rule sample_dials)
  then have d': "dial_server (key_string ?lib) (neDial (sample_net_env [])) (sfServer sample_flags) (sfAddrs sample_flags)
      (sfRelay sample_flags) (clNet ?c) = (n, Inr sc)" by simp
  have o: "snd (open_store (neStore (sample_net_env [])) ?c) = None"
    by (simp add: open_store_def sample_net_env_def sample_store_env_def)
  have pt: "refs_take ?lib (lcRefs ?c) ?t (Key [9]) (neNow (sample_net_env []))" by (simp add: refs_take_def)
  have np: "\<not> prefix trackingPrefix ''main''" by (simp add: trackingPrefix_def)
  have rc: "extras_reached (svDataPorts ?s) (neAttempts (sample_net_env [])) 0 (nat (3 - 1)) sc n = length [5 :: nat]"
    using sample_reached [OF d] by (simp add: sample_host_def new_server_def sample_net_env_def)
  have gt: "(1 :: int) < 3" "mset [5 :: nat] = mset [5]" "distinct [0, 5 :: nat]" by simp_all
  from sharded_push_end_to_end [OF tl sample_net_ref_law sample_record_ok ag tc np o d' rs tk pt tp gt(1) sample_gathers gt(2,3) rc fr, of True]
  obtain n x y xs ys where t: "length xs = length [5 :: nat]"
    and c: "\<forall>f. \<exists>c'. run_push ?lib os_write (on_all_streams y (\<lambda>j. ys ! j) f (sample_net_env [])) sample_flags False True 3 ''main'' ?c = Some (c', None) \<and>
       os_sent (lkOut (clCtrl c')) = x \<and> map (\<lambda>e. os_sent (lkOut (snd e))) (clExtras c') = xs \<and>
       tracked_key ?lib (lcRefs c') ?t = Inr (key_bytes (Key [9]))"
    and sv: "\<forall>f fuel. n \<le> fuel \<longrightarrow> (\<exists>s'. handle_stream ?lib os_write (sample_gather\<lparr>oeFuel := fuel\<rparr>) 0
         (?s\<lparr>svStreams := (queued_links ?lib [5] xs f (svStreams ?s))(0 := fresh_link x f)\<rparr>) = Some (s', None) \<and>
       os_sent (lkOut (svStreams s' 0)) = y \<and> map (\<lambda>e. os_sent (lkOut (svStreams s' e))) [5] = ys \<and>
       set [0, 5] \<subseteq> set (svClosed s') \<and>
       ref_current ?lib (svRefs s') ''main'' = Inr (key_bytes (Key [9])) \<and> tree_complete ?lib (svObjects s') (Key [9]))"
    by (elim exE conjE) (rule that; assumption)
  from c obtain c' where "run_push ?lib os_write (on_all_streams y (\<lambda>j. ys ! j) IoEOF (sample_net_env [])) sample_flags False True 3 ''main'' ?c = Some (c', None)"
    "os_sent (lkOut (clCtrl c')) = x" "map (\<lambda>e. os_sent (lkOut (snd e))) (clExtras c') = xs" by blast
  moreover from sv [rule_format, OF le_refl, of IoEOF] obtain s' where "handle_stream ?lib os_write (sample_gather\<lparr>oeFuel := n\<rparr>) 0
         (?s\<lparr>svStreams := (queued_links ?lib [5] xs IoEOF (svStreams ?s))(0 := fresh_link x IoEOF)\<rparr>) = Some (s', None)"
       "os_sent (lkOut (svStreams s' 0)) = y" "[os_sent (lkOut (svStreams s' 5))] = ys" "{0, 5} \<subseteq> set (svClosed s')"
       "ref_current ?lib (svRefs s') ''main'' = Inr [9]" "tree_complete ?lib (svObjects s') (Key [9])" by auto
  moreover have "length xs = 1" using t by simp
  ultimately show ?thesis by blast
qed

end
