(* ===== verification/Sharded_Pull.thy ===== *)
theory Sharded_Pull
  imports Sharded_Push
begin

text \<open>
  \<open>amber pull --conns\<close> against \<open>HandleStream\<close>: the reference with a transfer token, the extra
  connections that attach with it, and the want loop over all of them with the client receiving.
\<close>

section \<open>The server\<close>

lemma srv_sends_ok:
  "distinct is \<Longrightarrow> (\<And>e. e \<in> set is \<Longrightarrow> lkIn (svStreams s e) = \<lparr>avail = a e, fin = f\<rparr> \<and> os_up (lkOut (svStreams s e)) \<and>
      sender_run lib (svObjects s) (a e) (b e)) \<Longrightarrow>
    \<exists>h. srv_sends lib os_write is s = (s\<lparr>svStreams := h\<rparr>, replicate (length is) None) \<and>
      (\<forall>e\<in>set is. os_sent (lkOut (h e)) = os_sent (lkOut (svStreams s e)) @ b e) \<and>
      (\<forall>e. e \<notin> set is \<longrightarrow> h e = svStreams s e)"
proof (induction "is" arbitrary: s)
  case (Cons i "is")
  from Cons.prems(2) [of i] have i: "lkIn (svStreams s i) = \<lparr>avail = a i @ [], fin = f\<rparr>" "os_up (lkOut (svStreams s i))"
    "sender_run lib (svObjects s) (a i) (b i)" by simp_all
  from sender_run_send [OF i(3,2), of "[]" f None] i(1) obtain ss where
    ss: "send_loop lib os_write (svObjects s) \<lparr>ssIn = lkIn (svStreams s i), ssOut = lkOut (svStreams s i), ssProg = None\<rparr> = (ss, None)"
      "os_sent (ssOut ss) = os_sent (lkOut (svStreams s i)) @ b i" by auto
  let ?s = "s\<lparr>svStreams := (svStreams s)(i := \<lparr>lkIn = ssIn ss, lkOut = ssOut ss\<rparr>)\<rparr>"
  have p: "lkIn (svStreams ?s e) = \<lparr>avail = a e, fin = f\<rparr> \<and> os_up (lkOut (svStreams ?s e)) \<and>
      sender_run lib (svObjects ?s) (a e) (b e)" if "e \<in> set is" for e
    using that Cons.prems by auto
  have "distinct is" using Cons.prems(1) by simp
  from Cons.IH [OF this p] obtain h where
    h: "srv_sends lib os_write is ?s = (?s\<lparr>svStreams := h\<rparr>, replicate (length is) None)"
      "\<forall>e\<in>set is. os_sent (lkOut (h e)) = os_sent (lkOut (svStreams ?s e)) @ b e" "\<forall>e. e \<notin> set is \<longrightarrow> h e = svStreams ?s e" by auto
  have "os_sent (lkOut (h e)) = os_sent (lkOut (svStreams s e)) @ b e" if "e \<in> set (i # is)" for e
    using that h(2,3) ss(2) Cons.prems(1) by (cases "e = i") auto
  moreover have "h e = svStreams s e" if "e \<notin> set (i # is)" for e using that h(3) by simp
  ultimately show ?case using ss(1) h(1) by (intro exI [of _ h]) simp
qed (intro exI, auto)

text \<open>The reference's record with the token of the transfer.\<close>

definition sharded_reply :: "bytes \<Rightarrow> bytes \<Rightarrow> ('w, 's, 'r) server \<Rightarrow> msg" where
  "sharded_reply raw token s = ref_msg raw (Some token) s"

lemma sharded_reply_fields [simp]:
  "mType (sharded_reply raw token s) = TRef" "mRecord (sharded_reply raw token s) = raw"
  "mToken (sharded_reply raw token s) = token" "mDataPorts (sharded_reply raw token s) = svDataPorts s"
  by (simp_all add: sharded_reply_def ref_msg_def)

lemma handle_pull_sharded:
  assumes raw: "rf_get lib (svRefs s) name = Inr raw"
    and g: "gathers op conns s token extras" "1 < conns" and u: "good_frame lib (sharded_reply raw token s) = Some u"
    and d: "distinct (i # extras)"
    and l: "\<And>e. e \<in> set (i # extras) \<Longrightarrow> lkIn (svStreams s e) = \<lparr>avail = a e, fin = f\<rparr> \<and> os_up (lkOut (svStreams s e)) \<and>
      sender_run lib (svObjects s) (a e) (b e)"
  shows "\<exists>s'. handle_pull lib os_write op i (pull_msg name conns) s = (s', None) \<and>
    os_sent (lkOut (svStreams s' i)) = os_sent (lkOut (svStreams s i)) @ u @ b i \<and>
    (\<forall>e\<in>set extras. os_sent (lkOut (svStreams s' e)) = os_sent (lkOut (svStreams s e)) @ b e) \<and>
    set extras \<subseteq> set (svClosed s') \<and> svObjects s' = svObjects s \<and> svRefs s' = svRefs s"
proof -
  define s0 where "s0 = (if svOnAccess s then s\<lparr>svHooks := svHooks s @ [Accessed name]\<rparr> else s)"
  have m: "mName (pull_msg name conns) = name" "mDataConns (pull_msg name conns) = conns - 1"
    by (simp_all add: pull_msg_def zero_msg_def)
  have fs: "svTransfers s0 = svTransfers s" "svStreams s0 = svStreams s" "svObjects s0 = svObjects s" "svRefs s0 = svRefs s"
    "ref_msg raw (Some token) s0 = sharded_reply raw token s" by (simp_all add: s0_def sharded_reply_def ref_msg_def)
  from g(1) obtain t t1 where t: "tf_create (oeToken op) (svTransfers s) = (t, Inr token)"
    "tf_gather token (nat (min (conns - 1) (int maxDataConns))) (oeGather op) t = (t1, extras)"
    by (auto simp: gathers_def) (metis prod.collapse)
  have up: "os_up (lkOut (svStreams s i))" using l by simp
  from os.write_msg_healthy [OF good_frame_bytes [OF u] up] obtain w where
    w: "write_msg lib os_write (lkOut (svStreams s i)) (sharded_reply raw token s) = (w, None)" "os_up w"
      "os_sent w = os_sent (lkOut (svStreams s i)) @ u" by blast
  let ?h1 = "(svStreams s)(i := (svStreams s i)\<lparr>lkOut := w\<rparr>)"
  let ?s1 = "s0\<lparr>svTransfers := t, svStreams := ?h1\<rparr>"
  have wr: "srv_write lib os_write i (sharded_reply raw token s) (s0\<lparr>svTransfers := t\<rparr>) = (?s1, None)"
    using w(1) fs(2) by (simp add: srv_write_def)
  let ?s2 = "?s1\<lparr>svTransfers := t1\<rparr>"
  have l2: "lkIn (svStreams ?s2 e) = \<lparr>avail = a e, fin = f\<rparr> \<and> os_up (lkOut (svStreams ?s2 e)) \<and>
      sender_run lib (svObjects ?s2) (a e) (b e)" if "e \<in> set (i # extras)" for e
    using l [OF that] w(2) by (auto simp: fs)
  from srv_sends_ok [OF d l2] obtain h where
    h: "srv_sends lib os_write (i # extras) ?s2 = (?s2\<lparr>svStreams := h\<rparr>, replicate (length (i # extras)) None)"
      "\<forall>e\<in>set (i # extras). os_sent (lkOut (h e)) = os_sent (lkOut (?h1 e)) @ b e" by auto
  have "errors_join (replicate (length (i # extras)) None) = None" unfolding errors_join_None by (auto simp: set_replicate_conv_if)
  then have ps: "pull_send lib os_write i (i # extras) ?s2 = (?s2\<lparr>svStreams := h\<rparr>, None)"
    by (simp only: pull_send_def h(1) prod.case option.case)
  have n: "\<not> conns - 1 \<le> 0" using g(2) by simp
  have "handle_pull lib os_write op i (pull_msg name conns) s =
      (srv_release (Some (token, extras)) (?s2\<lparr>svStreams := h\<rparr>), None)"
    unfolding handle_pull_def Let_def m raw sum.case s0_def [symmetric] fs(1,5) t(1) prod.case wr
    using n t(2) ps by simp
  moreover have "os_sent (lkOut (h i)) = os_sent (lkOut (svStreams s i)) @ u @ b i" using h(2) w(3) by simp
  moreover have "\<forall>e\<in>set extras. os_sent (lkOut (h e)) = os_sent (lkOut (svStreams s e)) @ b e" using h(2) d by auto
  ultimately show ?thesis by (auto simp: srv_release_def srv_drop_fields close_all_closed fs)
qed

section \<open>The client\<close>

lemma pull_transfer_sharded:
  fixes s :: "(ostream, 's, 'r) client"
  assumes put: "rf_put lib (lcRefs s) name (mRecord m) = (rf1, None)" "rf_put lib rf1 tname (mRecord m) = (rf2, None)"
    and run: "sharded_run lib 0 (neRounds env) (lcObjects s) [goal] (replicate (Suc k) 0) (replicate (Suc k) 0) n as bs"
      "check_law lib" "write_law lib" "n \<le> neFuel env"
    and tok: "mToken m \<noteq> []" "good_frame lib (attach_msg (mToken m)) = Some q"
    and conns: "1 < conns" "extras_reached (mDataPorts m) ats 0 (nat (conns - 1)) sc (clNet s) = k"
    and ne: "neAttempts env = on_streams ys f ats" "\<forall>j<k. ys j = bs (Suc j)"
    and ctrl: "lkIn (clCtrl s) = \<lparr>avail = bs 0, fin = f\<rparr>" "os_up (lkOut (clCtrl s))"
  shows "\<exists>sc' s'. pull_transfer lib os_write env tname name conns m goal sc s = Some (sc', s', None) \<and> lcRefs s' = rf2 \<and>
    tree_complete lib (lcObjects s') goal \<and> os_sent (lkOut (clCtrl s')) = os_sent (lkOut (clCtrl s)) @ as 0 \<and>
    map (\<lambda>x. os_sent (lkOut (snd x))) (clExtras s') = map (\<lambda>j. q @ as (Suc j)) [0..<k]"
proof -
  obtain sc' n' streams where at: "attach_loop lib os_write (mToken m) (mDataPorts m) (on_streams ys f ats) 0 (nat (conns - 1)) sc
      (clNet s) = (sc', n', streams)" by (metis prod_cases3)
  from attach_loop_reached [OF tok(2) at] conns(2) have len: "length streams = k"
    and st: "\<And>j. j < k \<Longrightarrow> \<exists>w. snd (streams ! j) = \<lparr>lkIn = \<lparr>avail = ys j, fin = f\<rparr>, lkOut = w\<rparr> \<and> os_up w \<and> os_sent w = q" by auto
  have ch: "pull_channels lib os_write (neAttempts env) conns m sc (clNet s) = (sc', n', streams)"
    using tok(1) conns(1) at by (simp add: pull_channels_def attach_extras_def ne(1))
  let ?links = "map (\<lambda>l. (lkIn l, lkOut l)) (clCtrl s # map snd streams)"
  have lk: "fst (?links ! j) = \<lparr>avail = bs j @ avail \<lparr>avail = [], fin = f\<rparr>, fin = fin \<lparr>avail = [], fin = f\<rparr>\<rparr> \<and> os_up (snd (?links ! j))"
    if "j < Suc k" for j
    using that ctrl st [of "j - 1"] len ne(2) by (cases j) auto
  have "\<exists>rs. receive lib os_write (neRounds env) (neFuel env) ?links (lcObjects s) goal 0 (clProg s) = Some (rs, None) \<and>
      length (rsChans rs) = Suc k \<and>
      (\<forall>j<Suc k. chIn (rsChans rs ! j) = \<lparr>avail = [], fin = f\<rparr> \<and> os_up (chOut (rsChans rs ! j)) \<and>
         os_sent (chOut (rsChans rs ! j)) = os_sent (snd (?links ! j)) @ as j) \<and> tree_complete lib (rsStore rs) goal"
    by (rule sharded_run_receive [OF run(1-3) _ run(4) lk]) (simp add: len)
  then obtain rs where rs: "receive lib os_write (neRounds env) (neFuel env) ?links (lcObjects s) goal 0 (clProg s) = Some (rs, None)"
    "length (rsChans rs) = Suc k" "tree_complete lib (rsStore rs) goal"
    "\<And>j. j < Suc k \<Longrightarrow> os_sent (chOut (rsChans rs ! j)) = os_sent (snd (?links ! j)) @ as j" by blast
  let ?ls = "map (\<lambda>c. \<lparr>lkIn = chIn c, lkOut = chOut c\<rparr>) (rsChans rs)"
  let ?s1 = "s\<lparr>clNet := n', lcObjects := rsStore rs, clProg := rsProg rs, clCtrl := hd ?ls, clExtras := zip (map fst streams) (tl ?ls)\<rparr>"
  have pr: "pull_receive lib os_write env streams goal (s\<lparr>clNet := n'\<rparr>) = Some (?s1, None)"
    using rs(1) by (simp add: pull_receive_def Let_def)
  have hd: "hd ?ls = \<lparr>lkIn = chIn (rsChans rs ! 0), lkOut = chOut (rsChans rs ! 0)\<rparr>" using rs(2) by (cases "rsChans rs") auto
  have c0: "os_sent (lkOut (hd ?ls)) = os_sent (lkOut (clCtrl s)) @ as 0" using rs(4) [of 0] by (simp add: hd)
  have ex: "map (\<lambda>x. os_sent (lkOut (snd x))) (zip (map fst streams) (tl ?ls)) = map (\<lambda>j. q @ as (Suc j)) [0..<k]"
  proof (rule nth_equalityI)
    fix j assume "j < length (map (\<lambda>x. os_sent (lkOut (snd x))) (zip (map fst streams) (tl ?ls)))"
    then have j: "j < k" using len rs(2) by simp
    with rs(4) [of "Suc j"] st [OF j] len rs(2)
    show "map (\<lambda>x. os_sent (lkOut (snd x))) (zip (map fst streams) (tl ?ls)) ! j = map (\<lambda>j. q @ as (Suc j)) [0..<k] ! j"
      by (auto simp: nth_tl)
  qed (simp add: len rs(2))
  obtain s2 where fin: "pull_finish lib env tname name (mRecord m) goal (close_ctrl ?s1) = (s2, None)" "lcRefs s2 = rf2"
    "lcObjects s2 = rsStore rs" "clCtrl s2 = hd ?ls" "clExtras s2 = zip (map fst streams) (tl ?ls)"
    using put by (simp add: pull_finish_def close_ctrl_def)
  show ?thesis
    unfolding pull_transfer_def ch prod.case pr option.case fin(1) Let_def using fin(2-5) c0 ex rs(3) by simp
qed

lemma pull_body_sharded:
  fixes s :: "(ostream, 's, 'r) client"
  assumes rec: "mType m = TRef" "ref_decode lib (mRecord m) = Inr rec" "key_parse lib (rfKey rec) = Inr goal"
    and put: "rf_put lib (lcRefs s) name (mRecord m) = (rf1, None)" "rf_put lib rf1 tname (mRecord m) = (rf2, None)"
    and fr: "good_frame lib (pull_msg name conns) = Some p" "good_frame lib m = Some u"
    and run: "sharded_run lib 0 (neRounds env) (lcObjects s) [goal] (replicate (Suc k) 0) (replicate (Suc k) 0) n as bs"
      "check_law lib" "write_law lib" "n \<le> neFuel env"
    and tok: "mToken m \<noteq> []" "good_frame lib (attach_msg (mToken m)) = Some q"
    and conns: "1 < conns" "extras_reached (mDataPorts m) ats 0 (nat (conns - 1)) sc (clNet s) = k"
    and ne: "neAttempts env = on_streams ys f ats" "\<forall>j<k. ys j = bs (Suc j)"
    and ctrl: "lkIn (clCtrl s) = \<lparr>avail = u @ bs 0, fin = f\<rparr>" "os_up (lkOut (clCtrl s))"
  shows "\<exists>sc' s'. pull_body lib os_write env tname no_prog conns name sc s = Some (sc', s', None) \<and> lcRefs s' = rf2 \<and>
    tree_complete lib (lcObjects s') goal \<and> os_sent (lkOut (clCtrl s')) = os_sent (lkOut (clCtrl s)) @ p @ as 0 \<and>
    map (\<lambda>x. os_sent (lkOut (snd x))) (clExtras s') = map (\<lambda>j. q @ as (Suc j)) [0..<k]"
proof -
  obtain w where w: "ctrl_write lib os_write (pull_msg name conns) s = (s\<lparr>clCtrl := (clCtrl s)\<lparr>lkOut := w\<rparr>\<rparr>, None)"
    "os_up w" "os_sent w = os_sent (lkOut (clCtrl s)) @ p" using ctrl_write_up [OF fr(1) ctrl(2)] by blast
  let ?s1 = "s\<lparr>clCtrl := (clCtrl s)\<lparr>lkOut := w\<rparr>\<rparr>"
  let ?s2 = "?s1\<lparr>clCtrl := (clCtrl ?s1)\<lparr>lkIn := \<lparr>avail = bs 0, fin = f\<rparr>\<rparr>\<rparr>"
  let ?s3 = "?s2\<lparr>clProg := (if no_prog then None else Some no_progress)\<rparr>"
  have rd: "ctrl_read lib ?s1 = (?s2, Inr m)" using ctrl(1) by (intro ctrl_read_frame [OF fr(2)]) simp
  have m: "pulled_ref lib (Inr m) = Inr (m, goal)" using rec by (simp add: pulled_ref_def expect_type_def)
  have "rf_put lib (lcRefs ?s3) name (mRecord m) = (rf1, None)"
    "sharded_run lib 0 (neRounds env) (lcObjects ?s3) [goal] (replicate (Suc k) 0) (replicate (Suc k) 0) n as bs"
    "extras_reached (mDataPorts m) ats 0 (nat (conns - 1)) sc (clNet ?s3) = k"
    "lkIn (clCtrl ?s3) = \<lparr>avail = bs 0, fin = f\<rparr>" "os_up (lkOut (clCtrl ?s3))" using put run conns w(2) by simp_all
  from pull_transfer_sharded [OF this(1) put(2) this(2) run(2-4) tok conns(1) this(3) ne this(4,5)] obtain sc' s' where
    "pull_transfer lib os_write env tname name conns m goal sc ?s3 = Some (sc', s', None)" "lcRefs s' = rf2"
    "tree_complete lib (lcObjects s') goal" "os_sent (lkOut (clCtrl s')) = os_sent w @ as 0"
    "map (\<lambda>x. os_sent (lkOut (snd x))) (clExtras s') = map (\<lambda>j. q @ as (Suc j)) [0..<k]" by auto
  then show ?thesis unfolding pull_body_def w(1) prod.case option.case rd m sum.case by (simp add: w(3))
qed

lemma run_pull_sharded:
  fixes s :: "(ostream, 's, 'r) client"
  assumes name: "ref_validate lib name = None" "\<not> prefix trackingPrefix name" and o: "snd (open_store (neStore env) s) = None"
    and d: "dial_server (key_string lib) (neDial env) (sfServer sf) (sfAddrs sf) (sfRelay sf) (clNet s) = (net, Inr sc)"
    and rec: "mType m = TRef" "ref_decode lib (mRecord m) = Inr rec" "key_parse lib (rfKey rec) = Inr goal"
    and put: "rf_put lib (lcRefs s) name (mRecord m) = (rf1, None)"
      "rf_put lib rf1 (tracking_ref (sfServer sf) name) (mRecord m) = (rf2, None)"
    and fr: "good_frame lib (pull_msg name conns) = Some p" "good_frame lib m = Some u"
    and run: "sharded_run lib 0 (neRounds env) (lcObjects s) [goal] (replicate (Suc k) 0) (replicate (Suc k) 0) n as bs"
      "check_law lib" "write_law lib" "n \<le> neFuel env"
    and tok: "mToken m \<noteq> []" "good_frame lib (attach_msg (mToken m)) = Some q"
    and conns: "1 < conns" "extras_reached (mDataPorts m) (neAttempts env) 0 (nat (conns - 1)) sc net = k"
    and ys: "\<forall>j<k. ys j = bs (Suc j)"
  shows "\<exists>s'. run_pull lib os_write (on_all_streams (u @ bs 0) ys f env) sf no_prog conns name s = Some (s', None) \<and>
    os_sent (lkOut (clCtrl s')) = p @ as 0 \<and> map (\<lambda>x. os_sent (lkOut (snd x))) (clExtras s') = map (\<lambda>j. q @ as (Suc j)) [0..<k] \<and>
    lcRefs s' = rf2 \<and> tree_complete lib (lcObjects s') goal"
proof -
  let ?env = "on_all_streams (u @ bs 0) ys f env" and ?tname = "tracking_ref (sfServer sf) name"
  obtain s1 where o': "open_store (neStore env) s = (s1, None)" using o by (metis prod.collapse)
  then have s1: "s1 = s\<lparr>lcOpen := Refs # Objects # lcOpen s\<rparr>" by (rule open_store_None)
  have e: "neStore ?env = neStore env" "neDial ?env = neDial env" "neStream ?env = Inr (fresh_link (u @ bs 0) f)"
    "neRounds ?env = neRounds env" "neFuel ?env = neFuel env" "neAttempts ?env = on_streams ys f (neAttempts env)" "clNet s1 = clNet s"
    by (simp_all add: on_all_streams_def on_stream_def s1)
  let ?s2 = "s1\<lparr>clNet := net, clCtrl := fresh_link (u @ bs 0) f, clDone := False\<rparr>"
  have "rf_put lib (lcRefs ?s2) name (mRecord m) = (rf1, None)"
    "sharded_run lib 0 (neRounds ?env) (lcObjects ?s2) [goal] (replicate (Suc k) 0) (replicate (Suc k) 0) n as bs" "n \<le> neFuel ?env"
    "extras_reached (mDataPorts m) (neAttempts env) 0 (nat (conns - 1)) sc (clNet ?s2) = k"
    "lkIn (clCtrl ?s2) = \<lparr>avail = u @ bs 0, fin = f\<rparr>" "os_up (lkOut (clCtrl ?s2))" "os_sent (lkOut (clCtrl ?s2)) = []"
    using put run conns fresh_up unfolding e(4,5) by (simp_all add: s1 fresh_link_def) (simp add: fresh_out_def)
  note f = this
  from pull_body_sharded [OF rec f(1) put(2) fr f(2) run(2,3) f(3) tok conns(1) f(4) e(6) ys f(5,6), of no_prog] f(7) obtain sc' s' where
    b: "pull_body lib os_write ?env ?tname no_prog conns name sc ?s2 = Some (sc', s', None)" "lcRefs s' = rf2"
      "tree_complete lib (lcObjects s') goal" "os_sent (lkOut (clCtrl s')) = p @ as 0"
      "map (\<lambda>x. os_sent (lkOut (snd x))) (clExtras s') = map (\<lambda>j. q @ as (Suc j)) [0..<k]" by auto
  have "with_stream lib ?env sf (pull_body lib os_write ?env ?tname no_prog conns name) s1 =
      Some (s'\<lparr>clNet := snd (sc_close sc' (clNet s'))\<rparr>, None)"
    by (simp only: with_stream_def e d b(1) prod.case sum.case option.map)
  with name o' b(2-5) show ?thesis
    by (simp add: run_pull_def store_session_def e close_store_def)
qed

section \<open>The property\<close>

text \<open>
  Claim C6 (a sharded pull, end to end).  Let the server hold the whole tree of its reference \<open>name\<close>, and
  let a client, whatever its store holds as long as it agrees on common keys, pull it with \<open>--conns\<close>
  above one; the server registers the transfer and gathers the streams \<open>es\<close> of the connections the
  client reaches, in whatever order they attach.  There are transcripts of the control stream and
  of the extra ones such that \<open>amber pull\<close> reads what the server writes, succeeds with the whole tree
  and the record under both names, and \<open>HandleStream\<close> reads what the client writes, ends without
  an error, closes every stream and changes neither its objects nor its references.
\<close>

theorem sharded_pull_end_to_end:
  fixes env :: "(ostream, 'u) net_env" and c :: "(ostream, 's, 'r) client"
  assumes laws: "transfer_laws lib (svObjects s)" "ref_law lib"
    and "agree lib (lcObjects c) (svObjects s)" and "tree_complete lib (svObjects s) goal"
    and sv: "rf_get lib (svRefs s) name = Inr raw" "ref_decode lib raw = Inr rec" "key_parse lib (rfKey rec) = Inr goal"
    and cl: "ref_validate lib name = None" "\<not> prefix trackingPrefix name" "snd (open_store (neStore env) c) = None"
      "dial_server (key_string lib) (neDial env) (sfServer sf) (sfAddrs sf) (sfRelay sf) (clNet c) = (net, Inr sc)"
    and put: "rf_put lib (lcRefs c) name raw = (rf1, None)" "rf_put lib rf1 (tracking_ref (sfServer sf) name) raw = (rf2, None)"
    and conns: "1 < conns" "token \<noteq> []" "gathers op conns s token extras" "mset extras = mset es" "distinct (i # es)"
      "extras_reached (svDataPorts s) (neAttempts env) 0 (nat (conns - 1)) sc net = length es"
    and fr: "good_frame lib (pull_msg name conns) \<noteq> None" "good_frame lib (sharded_reply raw token s) \<noteq> None"
      "good_frame lib (attach_msg token) \<noteq> None"
  shows "\<exists>n x y xs ys. length xs = length es \<and> length ys = length es \<and>
    (\<forall>f fuel. n \<le> fuel \<longrightarrow> (\<exists>c'. run_pull lib os_write (on_all_streams y (\<lambda>j. ys ! j) f (env\<lparr>neFuel := fuel\<rparr>)) sf no_prog conns name c =
         Some (c', None) \<and>
       os_sent (lkOut (clCtrl c')) = x \<and> map (\<lambda>e. os_sent (lkOut (snd e))) (clExtras c') = xs \<and>
       tree_complete lib (lcObjects c') goal \<and>
       rf_get lib (lcRefs c') name = Inr raw \<and> rf_get lib (lcRefs c') (tracking_ref (sfServer sf) name) = Inr raw)) \<and>
    (\<forall>f. \<exists>s'. handle_stream lib os_write op i
         (s\<lparr>svStreams := (queued_links lib es xs f (svStreams s))(i := fresh_link x f)\<rparr>) = Some (s', None) \<and>
       os_sent (lkOut (svStreams s' i)) = y \<and> map (\<lambda>e. os_sent (lkOut (svStreams s' e))) es = ys \<and>
       set (i # es) \<subseteq> set (svClosed s') \<and> svObjects s' = svObjects s \<and> svRefs s' = svRefs s)"
proof -
  let ?m = "pull_msg name conns" and ?r = "sharded_reply raw token s" and ?tname = "tracking_ref (sfServer sf) name"
  have se: "set extras = set es" using conns(4) by (rule mset_eq_setD)
  have di: "distinct (i # extras)" using conns(4,5) se by (metis distinct.simps(2) mset_eq_imp_distinct_iff)
  obtain n as bs where r: "sharded_run lib 0 (neRounds env) (lcObjects c) [goal] (replicate (Suc (length es)) 0)
      (replicate (Suc (length es)) 0) n as bs" and sd: "\<And>j. j < Suc (length es) \<Longrightarrow> sender_run lib (svObjects s) (as j) (bs j)"
    using sharded_transcripts [OF laws(1) assms(3,4), of "Suc (length es)" 0 "neRounds env"] by auto
  have cw: "check_law lib" "write_law lib" using laws(1) by (simp_all add: transfer_laws_def)
  obtain p u q where p: "good_frame lib ?m = Some p" and u: "good_frame lib ?r = Some u"
    and q: "good_frame lib (attach_msg token) = Some q" using fr by blast
  have "name \<noteq> ?tname" using cl(2) by (auto simp: tracking_ref_def)
  with put laws(2) have refs: "rf_get lib rf2 name = Inr raw" "rf_get lib rf2 ?tname = Inr raw" by (metis ref_law_def)+
  let ?x = "p @ as 0" and ?y = "u @ bs 0" and ?xs = "map (\<lambda>j. q @ as (Suc j)) [0..<length es]"
    and ?ys = "map (\<lambda>j. bs (Suc j)) [0..<length es]"
  show ?thesis
  proof (rule exI [of _ n], rule exI [of _ ?x], rule exI [of _ ?y], rule exI [of _ ?xs], rule exI [of _ ?ys],
      intro conjI allI impI, goal_cases)
    case (3 f fuel)
    let ?env = "env\<lparr>neFuel := fuel\<rparr>"
    have "\<exists>c'. run_pull lib os_write (on_all_streams ?y (\<lambda>j. ?ys ! j) f ?env) sf no_prog conns name c = Some (c', None) \<and>
       os_sent (lkOut (clCtrl c')) = ?x \<and> map (\<lambda>e. os_sent (lkOut (snd e))) (clExtras c') = ?xs \<and>
       lcRefs c' = rf2 \<and> tree_complete lib (lcObjects c') goal"
      by (rule run_pull_sharded [where m = ?r and rec = rec and n = n and net = net and sc = sc and ?rf1.0 = rf1])
        (use cl sv(2,3) put p u q r cw 3 conns(1,2,6) in simp_all)
    with refs show ?case by auto
  next
    case (4 f)
    let ?h = "queued_links lib es ?xs f (svStreams s)"
    let ?s = "s\<lparr>svStreams := ?h(i := fresh_link (as 0) f)\<rparr>"
    let ?at = "\<lambda>e. if e = i then 0 else Suc (the (map_of (zip es [0..<length es]) e))"
    have at: "?at (es ! j) = Suc j" if "j < length es" for j
      using that conns(5) map_of_zip_nth [of es "[0..<length es]" j] by auto
    have link: "?h (es ! j) = \<lparr>lkIn = \<lparr>avail = as (Suc j), fin = f\<rparr>, lkOut = fresh_out\<rparr>" if "j < length es" for j
      using queued_links_nth [OF _ _ that _ q, of ?xs "as (Suc j)" f "svStreams s"] conns(5) that by simp
    have e0: "os_up fresh_out" "os_sent fresh_out = []" using fresh_up by (simp_all add: fresh_out_def)
    have l: "svStreams ?s e = \<lparr>lkIn = \<lparr>avail = as (?at e), fin = f\<rparr>, lkOut = fresh_out\<rparr> \<and> ?at e < Suc (length es)"
      if "e \<in> set (i # extras)" for e
    proof (cases "e = i")
      case False
      with that se obtain j where j: "j < length es" "e = es ! j" by (auto simp: in_set_conv_nth)
      with at [OF j(1)] link [OF j(1)] False show ?thesis by simp
    qed (simp add: fresh_link_def)
    have g: "gathers op conns ?s token extras" using conns(3) by (simp add: gathers_def)
    have u': "good_frame lib (sharded_reply raw token ?s) = Some u" using u by (simp add: sharded_reply_def ref_msg_def)
    have l': "lkIn (svStreams ?s e) = \<lparr>avail = as (?at e), fin = f\<rparr> \<and> os_up (lkOut (svStreams ?s e)) \<and>
        sender_run lib (svObjects ?s) (as (?at e)) (bs (?at e))" if "e \<in> set (i # extras)" for e
      using l [OF that] sd [of "?at e"] e0(1) by (simp del: if_split)
    have g': "rf_get lib (svRefs ?s) name = Inr raw" using sv(1) by simp
    from handle_pull_sharded [OF g' g conns(1) u' di l'] obtain s' where
      s': "handle_pull lib os_write op i ?m ?s = (s', None)" "os_sent (lkOut (svStreams s' i)) = ?y"
      "\<forall>e\<in>set extras. os_sent (lkOut (svStreams s' e)) = os_sent (lkOut (svStreams ?s e)) @ bs (?at e)"
      "set extras \<subseteq> set (svClosed s')" "svObjects s' = svObjects s" "svRefs s' = svRefs s"
      using e0(2) by (auto simp: fresh_link_def)
    have ys: "map (\<lambda>e. os_sent (lkOut (svStreams s' e))) es = ?ys"
    proof (rule nth_equalityI)
      fix j assume "j < length (map (\<lambda>e. os_sent (lkOut (svStreams s' e))) es)"
      then have j: "j < length es" by simp
      then have e: "es ! j \<in> set extras" "es ! j \<in> set (i # extras)" using se by auto
      from s'(3) e(1) have "os_sent (lkOut (svStreams s' (es ! j))) = os_sent (lkOut (svStreams ?s (es ! j))) @ bs (?at (es ! j))" by blast
      also have "\<dots> = bs (Suc j)" unfolding at [OF j] using l [OF e(2)] e0(2) by (simp del: if_split)
      finally show "map (\<lambda>e. os_sent (lkOut (svStreams s' e))) es ! j = ?ys ! j" using j by simp
    qed simp
    have "mType ?m = TPull" by (simp add: pull_msg_def)
    then show ?case
      using opens_handler [OF p, of op i "s\<lparr>svStreams := ?h\<rparr>" "as 0" f] s'(1,2,4-6) ys se
      by (simp add: TPush_def TPull_def TAttach_def TRefList_def close_stream_def) auto
  qed simp_all
qed

theorem sharded_pull_end_to_end_witness:
  "\<exists>n x y xs ys c' s'. run_pull sample_net_lib os_write (on_all_streams y (\<lambda>j. ys ! j) IoEOF (sample_net_env []\<lparr>neFuel := n\<rparr>)) sample_flags True 3
      ''main'' (sample_client\<lparr>lcObjects := [(Key [4], [4])]\<rparr>) = Some (c', None) \<and>
    handle_stream sample_net_lib os_write sample_gather 0
      ((sample_host sample_final [(''main'', [9])])\<lparr>svStreams := (queued_links sample_net_lib [5] xs IoEOF
         (svStreams (sample_host sample_final [(''main'', [9])])))(0 := fresh_link x IoEOF)\<rparr>) = Some (s', None) \<and>
    os_sent (lkOut (clCtrl c')) = x \<and> map (\<lambda>e. os_sent (lkOut (snd e))) (clExtras c') = xs \<and> length xs = 1 \<and>
    os_sent (lkOut (svStreams s' 0)) = y \<and> [os_sent (lkOut (svStreams s' 5))] = ys \<and> {0, 5} \<subseteq> set (svClosed s') \<and>
    rf_get sample_net_lib (lcRefs c') ''main'' = Inr [9] \<and> tree_complete sample_net_lib (lcObjects c') (Key [9])"
proof -
  let ?lib = sample_net_lib and ?c = "sample_client\<lparr>lcObjects := [(Key [4], [4])]\<rparr>"
    and ?s = "sample_host sample_final [(''main'', [9])]" and ?rec = "\<lparr>rfName = [], rfKey = [9], rfCreatedAt = 0, rfUser = []\<rparr>"
  have ms: "sharded_reply [9] [1] ?s = sample_reply\<lparr>mToken := [1]\<rparr>"
    by (simp add: sharded_reply_def ref_msg_def sample_reply_def sample_host_def new_server_def zero_msg_def)
  have fr: "good_frame ?lib (pull_msg ''main'' 3) \<noteq> None" "good_frame ?lib (sharded_reply [9] [1] ?s) \<noteq> None"
    "good_frame ?lib (attach_msg [1]) \<noteq> None"
    using sample_frames by (simp_all add: ms sample_book_def del: not_None_eq)
  have tl: "transfer_laws ?lib (svObjects ?s)" and ag: "agree ?lib (lcObjects ?c) (svObjects ?s)"
    and tc: "tree_complete ?lib (svObjects ?s) (Key [9])" by (simp_all add: sample_complete sample_agrees sample_net_transfer_laws)
  have g: "rf_get ?lib (svRefs ?s) ''main'' = Inr [9]" "ref_decode ?lib [9] = Inr ?rec" "key_parse ?lib (rfKey ?rec) = Inr (Key [9])"
    by simp_all
  have v: "ref_validate ?lib ''main'' = None" "\<not> prefix trackingPrefix ''main''"
    "snd (open_store (neStore (sample_net_env [])) ?c) = None"
    by (simp add: sample_server_simps) (simp_all add: trackingPrefix_def open_store_def sample_net_env_def sample_store_env_def)
  obtain sc n where d: "dial_server (key_string ?lib) (neDial (sample_net_env [])) (sfServer sample_flags) (sfAddrs sample_flags)
      (sfRelay sample_flags) no_net = (n, Inr sc)" by (rule sample_dials)
  then have d': "dial_server (key_string ?lib) (neDial (sample_net_env [])) (sfServer sample_flags) (sfAddrs sample_flags)
      (sfRelay sample_flags) (clNet ?c) = (n, Inr sc)" by simp
  have rc: "extras_reached (svDataPorts ?s) (neAttempts (sample_net_env [])) 0 (nat (3 - 1)) sc n = length [5 :: nat]"
    using sample_reached [OF d] by (simp add: sample_host_def new_server_def sample_net_env_def)
  have gt: "(1 :: int) < 3" "[1 :: 8 word] \<noteq> []" "mset [5 :: nat] = mset [5]" "distinct [0, 5 :: nat]" by simp_all
  from sharded_pull_end_to_end [OF tl sample_net_ref_law ag tc g v d' sample_net_fields(8) sample_net_fields(8) gt(1,2) sample_gathers
      gt(3,4) rc fr, of True]
  obtain n x y xs ys where t: "length xs = length [5 :: nat]"
    and c: "\<forall>f fuel. n \<le> fuel \<longrightarrow> (\<exists>c'. run_pull ?lib os_write (on_all_streams y (\<lambda>j. ys ! j) f (sample_net_env []\<lparr>neFuel := fuel\<rparr>))
         sample_flags True 3 ''main'' ?c = Some (c', None) \<and>
       os_sent (lkOut (clCtrl c')) = x \<and> map (\<lambda>e. os_sent (lkOut (snd e))) (clExtras c') = xs \<and>
       tree_complete ?lib (lcObjects c') (Key [9]) \<and>
       rf_get ?lib (lcRefs c') ''main'' = Inr [9] \<and> rf_get ?lib (lcRefs c') (tracking_ref (sfServer sample_flags) ''main'') = Inr [9])"
    and sv: "\<forall>f. \<exists>s'. handle_stream ?lib os_write sample_gather 0
         (?s\<lparr>svStreams := (queued_links ?lib [5] xs f (svStreams ?s))(0 := fresh_link x f)\<rparr>) = Some (s', None) \<and>
       os_sent (lkOut (svStreams s' 0)) = y \<and> map (\<lambda>e. os_sent (lkOut (svStreams s' e))) [5] = ys \<and>
       set [0, 5] \<subseteq> set (svClosed s') \<and> svObjects s' = svObjects ?s \<and> svRefs s' = svRefs ?s"
    by (elim exE conjE) (rule that; assumption)
  from c [rule_format, OF le_refl, of IoEOF] obtain c' where
    "run_pull ?lib os_write (on_all_streams y (\<lambda>j. ys ! j) IoEOF (sample_net_env []\<lparr>neFuel := n\<rparr>)) sample_flags True 3 ''main'' ?c = Some (c', None)"
    "os_sent (lkOut (clCtrl c')) = x" "map (\<lambda>e. os_sent (lkOut (snd e))) (clExtras c') = xs"
    "rf_get ?lib (lcRefs c') ''main'' = Inr [9]" "tree_complete ?lib (lcObjects c') (Key [9])" by blast
  moreover from sv [rule_format, of IoEOF] obtain s' where "handle_stream ?lib os_write sample_gather 0
         (?s\<lparr>svStreams := (queued_links ?lib [5] xs IoEOF (svStreams ?s))(0 := fresh_link x IoEOF)\<rparr>) = Some (s', None)"
       "os_sent (lkOut (svStreams s' 0)) = y" "[os_sent (lkOut (svStreams s' 5))] = ys" "{0, 5} \<subseteq> set (svClosed s')" by auto
  moreover have "length xs = 1" using t by simp
  ultimately show ?thesis by blast
qed

end
