(* ===== verification/Facade.thy ===== *)
theory Facade
  imports Sharded Server_Ops Dial
begin

text \<open>
  amberiroh/amberiroh.go: the single-import surface of the transport.  Its constants are the
  protocol's, its types are aliases (so they are the records of the other theories), and its
  functions pass their arguments on.
\<close>

section \<open>Constants\<close>

definition ALPN :: string where "ALPN = ''amber-store-iroh/1''"

definition facade_wire :: "string \<times> nat \<times> nat" where
  "facade_wire = (ALPN, MaxFrame, ChunkSize)"

definition facade_frame_types :: "(string \<times> int) list" where
  "facade_frame_types =
     [(''TPush'', TPush), (''TPull'', TPull), (''TRefList'', TRefList), (''TRef'', TRef), (''TRefs'', TRefs),
      (''TWants'', TWants), (''TData'', TData), (''TDataEnd'', TDataEnd), (''TOK'', TOK), (''TErr'', TErr),
      (''TAttach'', TAttach), (''TAccept'', TAccept), (''TPin'', TPin)]"

definition facade_codes :: "(string \<times> string) list" where
  "facade_codes =
     [(''CodeCASMismatch'', CodeCASMismatch), (''CodeUnknownRef'', CodeUnknownRef), (''CodeBadRequest'', CodeBadRequest),
      (''CodeInternal'', CodeInternal)]"

text \<open>\<open>errors.Is\<close> matches the protocol's error under the name of the facade.\<close>

definition facade_ErrProtocol :: goerr where
  "facade_ErrProtocol = ProtocolErr"

section \<open>Functions\<close>

definition facade_WriteMsg :: "'a wire_lib_scheme \<Rightarrow> 'w writer \<Rightarrow> 'w \<Rightarrow> msg \<Rightarrow> 'w \<times> goerr option" where
  "facade_WriteMsg lib wr w m = write_msg lib wr w m"

definition facade_ReadMsg :: "'a wire_lib_scheme \<Rightarrow> instream \<Rightarrow> instream \<times> (goerr + msg)" where
  "facade_ReadMsg lib r = read_msg lib r"

definition facade_RemoteFromMsg :: "msg \<Rightarrow> goerr" where
  "facade_RemoteFromMsg m = remote_from_msg m"

definition facade_NewPackReader :: "instream \<Rightarrow> pack_reader" where
  "facade_NewPackReader r = new_pack_reader r"

definition facade_SendPack ::
  "('p, 'z) pack_lib_scheme \<Rightarrow> 'w writer \<Rightarrow> 'w \<Rightarrow> (goerr + object) list \<Rightarrow> 'w \<times> goerr option" where
  "facade_SendPack lib wr w objs = (case send_pack lib wr w objs of (w', n, e) \<Rightarrow> (w', e))"

definition facade_SendPackRecords ::
  "('p, 'z) pack_lib_scheme \<Rightarrow> 'w writer \<Rightarrow> 'w \<Rightarrow> (goerr + bytes) list \<Rightarrow> 'w \<times> goerr option" where
  "facade_SendPackRecords lib wr w recs = (case send_pack_records lib wr w recs of (w', n, e) \<Rightarrow> (w', e))"

definition facade_Send ::
  "('p, 's, 'z) core_lib_scheme \<Rightarrow> 'w writer \<Rightarrow> instream \<times> 'w \<Rightarrow> 's \<Rightarrow> progress option \<Rightarrow> 'w send_state \<times> goerr option" where
  "facade_Send lib wr rw st prog = send_loop lib wr st \<lparr>ssIn = fst rw, ssOut = snd rw, ssProg = prog\<rparr>"

definition facade_Receive ::
  "('p, 's, 'z) core_lib_scheme \<Rightarrow> 'w writer \<Rightarrow> (nat \<Rightarrow> round_env) \<Rightarrow> nat \<Rightarrow> (instream \<times> 'w) list \<Rightarrow> 's \<Rightarrow> key \<Rightarrow> int \<Rightarrow>
     progress option \<Rightarrow> (('w, 's) rstate \<times> goerr option) option" where
  "facade_Receive lib wr envs fuel channels st rootk jobs prog = receive lib wr envs fuel channels st rootk jobs prog"

definition facade_Wants ::
  "('p, 's, 'z) core_lib_scheme \<Rightarrow> 's \<Rightarrow> key list \<Rightarrow> int \<Rightarrow> goerr + key list" where
  "facade_Wants lib st frontier jobs = wants lib st frontier jobs"

definition facade_New :: "'s \<Rightarrow> 'r \<Rightarrow> (stream \<Rightarrow> 'w link) \<Rightarrow> ('w, 's, 'r) server" where
  "facade_New objects refs streams = new_server objects refs streams"

definition facade_FromFlag :: "(string \<Rightarrow> goerr + 'u) \<Rightarrow> string \<Rightarrow> goerr + 'u relay_mode" where
  "facade_FromFlag parse_url url = from_flag parse_url url"

section \<open>Lemmas\<close>

lemma facade_tables_distinct: "distinct (map snd facade_frame_types) \<and> distinct (map snd facade_codes)"
  by (simp add: facade_frame_types_def facade_codes_def frame_types CodeCASMismatch_def CodeUnknownRef_def
      CodeBadRequest_def CodeInternal_def)

text \<open>A consumer that knows only the facade has the protocol's link.\<close>

interpretation mirror: frame_link "good_frame lib" "facade_ReadMsg lib" for lib
  unfolding facade_ReadMsg_def by (rule wire.frame_link_axioms)

text \<open>Two such consumers, one on each side of a connection that stays up, synchronise a tree.\<close>

lemma facade_sync:
  assumes "transfer_laws lib src" and "agree lib st src" and "tree_complete lib src goal"
  shows "\<exists>n a b rs c ss.
    facade_Receive lib os_write envs n [(\<lparr>avail = b, fin = f\<rparr>, fresh_out)] st goal jobs prog = Some (rs, None) \<and>
    rsChans rs = [c] \<and> os_sent (chOut c) = a \<and> tree_complete lib (rsStore rs) goal \<and>
    facade_Send lib os_write (\<lparr>avail = a, fin = f\<rparr>, fresh_out) src prog' = (ss, None) \<and> os_sent (ssOut ss) = b"
proof -
  obtain n a b where r: "receiver_run lib jobs st [goal] n a b" and s: "sender_run lib src a b"
    using sync_transcripts [OF assms] by blast
  have laws: "check_law lib" "write_law lib" using assms(1) by (simp_all add: transfer_laws_def)
  have e: "os_sent fresh_out = []" by (simp add: fresh_out_def)
  from receiver_run_receive [OF r laws fresh_up le_refl, of envs "[]" f prog] sender_run_send [OF s fresh_up, of "[]" f prog']
  show ?thesis unfolding facade_Receive_def facade_Send_def fst_conv snd_conv e append_Nil append_Nil2 by blast
qed

end
