(* ===== verification/Spec2Isabelle.thy ===== *)
theory Spec2Isabelle
  imports Push_Commits Push_Log Listing End_To_End Server_Types Serve_Main Serve_Loop Commands Sharded_Pull Facade
begin

text \<open>
  \<^bold>\<open>The amber store over iroh QUIC.\<close>

  The repository synchronises content-addressed trees between a client (cmd/amber) and a server
  (cmd/amber-serve).  A tree is a set of objects, each stored under a key that is a hash of its
  content; an object lists the keys of its children, and a named reference points at a root.  A
  push sends the objects the server lacks and then moves a reference on the server under a
  compare-and-swap; a pull fetches the objects the client lacks and then records the reference.
  Both run the same \<^emph>\<open>want loop\<close> (wantsync): the receiving side walks the tree from the root,
  asks in rounds for the keys it lacks, and the sending side answers each request with a pack of
  objects.  The messages are length-prefixed CBOR frames (protocol), a pack is cut into data
  frames, and a transfer may be spread over several connections.

  \<^bold>\<open>Theories and the code they model\<close>, in the order they build on each other:

  \<^item> Prelude, Go_Runtime, Go_Float: lemmas on lists and words; what the code uses of Go's runtime
    and standard library (errors with wrapping, joining and \<open>errors.Is\<close>/\<open>As\<close>, \<open>io.ReadFull\<close> on
    a stream that may be cut, writers that may fail, big-endian integers, decimal, hex and quoted
    strings, exact binary64 arithmetic).
  \<^item> Core_Lib, Sample_Lib: the \<^emph>\<open>parameters\<close>: records of functions for the packages that are not
    in the repository (CBOR codec, object store, pack format, reference store), the laws their
    documentation states, and a concrete instance the witnesses run on.
  \<^item> Protocol: protocol/protocol.go.  Pack: protocol/pack.go.
  \<^item> Want_Lists: the list functions of wantsync/wantsync.go.  Receive_Loop and Receive_Props:
    \<open>Receive\<close>.  Send_Loop: \<open>Send\<close>.
    Sync: a \<open>Receive\<close> and a \<open>Send\<close> against each other, round by round.  Sharded: a \<open>Receive\<close> over
    any number of channels against the \<open>Send\<close> at the end of each.
  \<^item> Transfers: the transfer registry of server/server.go, as functions and as interleaved steps.
    Server_Ops, Server_Props and Server_Types: \<open>HandleStream\<close> and every operation it dispatches to.
    Push_Log: \<open>logPush\<close>.  Push_Commits: any number of concurrent pushes around the per-name locks.
    Serve_Loop: \<open>Serve\<close> and \<open>serveConn\<close>, interleaved with connections, handlers and cancellation.
  \<^item> Text_Format, Time_Format: number and time formatting of the standard library.
    Progress_Bar: cmd/amber/progress.go and xfer.go.  Specs: spec.go.  Listing: ls.go.
    Local_Store: store.go, ref.go, chunk.go, import.go, export.go, restore.go.
  \<^item> Net_Addr: cmd/amber-serve/addrs.go.  Dial: cmd/amber/dial.go and relaymode.  Client_Xfer and
    Client_Props: push.go, pull.go, refs.go.  Serve_Main: cmd/amber-serve/main.go.
  \<^item> Commands: the flag and command tables (cmd/amber/main.go, dial.go \<open>serverFlags\<close>, chunk.go
    \<open>chunkFlags\<close>, the \<open>*Command\<close> functions and those of cmd/amber-serve), the action behind each
    command with the flags it reads, and the two \<open>main\<close>s with their exit codes.
  \<^item> Facade: amberiroh/amberiroh.go, the constants and functions under one import path.
  \<^item> End_To_End: \<open>runPush\<close> and \<open>runPull\<close> against \<open>HandleStream\<close>, joined by their transcripts.
    Sharded_Push and Sharded_Pull: the same over several connections, with the transfer token, the
    extra streams that attach with it and the server's gathering of them.

  \<^bold>\<open>How state and operations correspond.\<close>  A struct is a record with the source's fields, and
  an operation is a function from the state to the new state and its result; a Go error is
  \<open>goerr option\<close> or the left side of a sum.  A stream is a record of the bytes that arrive, the
  condition they end with and the bytes sent so far, so that every error path, including one cut
  in the middle of a frame, is a value.  Sizes and lengths on the wire and in keys keep their width
  as words; the transfer's own counters (\<open>stats\<close>, the bytes read of a channel, the \<open>progress\<close> except
  for the sum of announced lengths) are unbounded where the code has \<open>int\<close> and \<open>int64\<close>.
  Where goroutines share state the model is either a step relation over all interleavings
  (\<open>tstep\<close>, \<open>cstep\<close>, \<open>serve_step\<close>), or a function of a schedule that the theorems quantify over (\<open>round_env\<close>,
  \<open>gather_event\<close>, \<open>loop_event\<close>, the attempts of \<open>race_connect\<close>).

  \<^bold>\<open>Groups of lemmas.\<close>
  \<^item> Frames and packs: both round-trip for every message and every buffer size; oversized and cut
    frames, aborted packs and cut packs end with the error the code documents (or does not: see
    \<open>truncated_frame\<close> and \<open>cut_pack_reads_as_finished\<close>).
  \<^item> Want lists: \<open>Wants\<close> is exactly what lacks, dealing is a partition that starves no channel.
  \<^item> The loops: \<open>Receive\<close> returning nil implies a complete tree whatever the peer sends; it
    terminates on every finite input; each round delivers what it asked for; counters are exact;
    \<open>Send\<close> answers exactly what was asked.
  \<^item> The composition: on a connection that stays up the two halves of the want loop complete each
    other (\<open>sync_completes\<close>, over several connections \<open>sharded_sync_completes\<close>), and so do the
    commands and the server, over one connection (\<open>push_end_to_end\<close>, \<open>pull_end_to_end\<close>) and over
    several (\<open>sharded_push_end_to_end\<close>, \<open>sharded_pull_end_to_end\<close>, for every number of
    connections the client reaches and every order in which they attach): there are transcripts
    that each side produces from the other's, on which both succeed, so the success theorems below
    are not vacuous.
  \<^item> The server: it writes only frames of the types its operations answer with
    (\<open>server_speaks\<close>), closes connections last (\<open>serve_closes_last\<close>), and shuts down by itself whatever
    its peers do, as \<open>AfterFunc\<close> closes their connections (\<open>serve_shuts_down\<close>); it keeps its key; a
    push publishes only complete trees, never overwrites against its precondition (also under
    concurrency: \<open>concurrent_cas_chain\<close>), changes a reference only inside the guard, never deadlocks
    or livelocks (\<open>push_progress\<close>); streams are always closed, after the last byte written to them
    (\<open>stream_closed_last\<close>), or in exactly one place.
  \<^item> The client: a run of the program cleans up whatever the arguments and whatever fails
    (\<open>amber_cleans_up\<close>), a pull installs the server's record and its complete tree, a push records
    what it pushed and the next push expects it, formatting functions are faithful.

  \<^bold>\<open>Bounds and fuel.\<close>  \<open>receive_loop\<close> takes fuel, one unit per round; \<open>receive_terminates\<close> shows
  that one more than the bytes to read is enough on any input.  \<open>send_loop\<close> and the readers recurse
  on the bytes left and are total; so do \<open>ls_loop\<close> (entries left) and \<open>unit_loop\<close>.  \<open>MaxFrame\<close> is
  16 MiB, \<open>ChunkSize\<close> 1 MiB, \<open>maxWantsPerRound\<close> and \<open>maxDataConns\<close> as in the code.

  The rounds of a transfer that succeeds number at most the fuel \<open>n\<close> that \<open>sharded_sync_completes\<close> and the
  end to end theorems give.  \<open>work_left\<close> counts the steps of shutting down.

  \<^bold>\<open>Not modelled.\<close>  When the goroutine of \<open>raceConnect\<close> closes the connections that lost (the model
  closes them at once), and that the export of a failed restore stays blocked in its pipe; log
  lines other than the report of a push; the goroutine that runs the mDNS listener in
  cmd/amber-serve/main.go; the type aliases of package amberiroh, which add no
  behaviour; the CBOR mode set-up of protocol.go, \<open>isTerminal\<close> of progress.go (its answer is an argument
  of the progress loop); how the CLI library parses its arguments; and the bodies of the other external
  packages.  The last two enter as parameters with laws.
\<close>

end
